(* ===== verification/Prelude.thy ===== *)
theory Prelude
  imports Main "HOL-Library.Word"
begin

unbundle bit_operations_syntax

text \<open>
  Shared vocabulary of the development: machine integer types, the framework's
  \<open>ErrorCode\<close> and \<open>Result\<close> types, raw memory (byte lists) with \<open>memcpy\<close>,
  the little-endian representation of an integer in memory, the byte swap behind
  \<open>hton\<close>/\<open>ntoh\<close>, and the generic lemmas on lists and words the components use.
\<close>

section \<open>Machine integers and memory\<close>

type_synonym u8 = "8 word"
type_synonym u16 = "16 word"
type_synonym u32 = "32 word"
type_synonym u64 = "64 word"
type_synonym bytes = "u8 list"

text \<open>Lemma collections: facts on byte encodings, and facts that unfold an invariant.\<close>

named_theorems byte_simps
named_theorems inv_defs

section \<open>Error codes (error\_code.hpp)\<close>

datatype ErrorCode =
    Ok | Unknown | InvalidMessage | HandlerNotFound | SessionClosed | BufferFull | Timeout
  | FlatBuffersVerifyFailed | CrossCoreTimeout | CrossCoreQueueFull | UnsupportedProtocolVersion
  | HandlerException | SendFailed | InsufficientData | AcceptFailed | HandshakeFailed
  | ParseFailed | CrossCoreFuncException | BodyTooLarge | ServiceError | AppError
  | AdapterError | PoolExhausted | CircuitOpen

text \<open>The underlying \<open>uint16_t\<close> value of each enumerator.\<close>

fun error_code_value :: "ErrorCode \<Rightarrow> u16" where
  "error_code_value Ok = 0"
| "error_code_value Unknown = 1"
| "error_code_value InvalidMessage = 2"
| "error_code_value HandlerNotFound = 3"
| "error_code_value SessionClosed = 4"
| "error_code_value BufferFull = 5"
| "error_code_value Timeout = 6"
| "error_code_value FlatBuffersVerifyFailed = 7"
| "error_code_value CrossCoreTimeout = 8"
| "error_code_value CrossCoreQueueFull = 9"
| "error_code_value UnsupportedProtocolVersion = 10"
| "error_code_value HandlerException = 11"
| "error_code_value SendFailed = 12"
| "error_code_value InsufficientData = 13"
| "error_code_value AcceptFailed = 14"
| "error_code_value HandshakeFailed = 15"
| "error_code_value ParseFailed = 16"
| "error_code_value CrossCoreFuncException = 17"
| "error_code_value BodyTooLarge = 18"
| "error_code_value ServiceError = 99"
| "error_code_value AppError = 1000"
| "error_code_value AdapterError = 2000"
| "error_code_value PoolExhausted = 2001"
| "error_code_value CircuitOpen = 2002"

fun error_code_name :: "ErrorCode \<Rightarrow> string" where
  "error_code_name Ok = ''Ok''"
| "error_code_name Unknown = ''Unknown''"
| "error_code_name InvalidMessage = ''InvalidMessage''"
| "error_code_name HandlerNotFound = ''HandlerNotFound''"
| "error_code_name SessionClosed = ''SessionClosed''"
| "error_code_name BufferFull = ''BufferFull''"
| "error_code_name Timeout = ''Timeout''"
| "error_code_name FlatBuffersVerifyFailed = ''FlatBuffersVerifyFailed''"
| "error_code_name CrossCoreTimeout = ''CrossCoreTimeout''"
| "error_code_name CrossCoreQueueFull = ''CrossCoreQueueFull''"
| "error_code_name UnsupportedProtocolVersion = ''UnsupportedProtocolVersion''"
| "error_code_name HandlerException = ''HandlerException''"
| "error_code_name SendFailed = ''SendFailed''"
| "error_code_name InsufficientData = ''InsufficientData''"
| "error_code_name AcceptFailed = ''AcceptFailed''"
| "error_code_name HandshakeFailed = ''HandshakeFailed''"
| "error_code_name ParseFailed = ''ParseFailed''"
| "error_code_name CrossCoreFuncException = ''CrossCoreFuncException''"
| "error_code_name BodyTooLarge = ''BodyTooLarge''"
| "error_code_name ServiceError = ''ServiceError''"
| "error_code_name AppError = ''AppError''"
| "error_code_name AdapterError = ''AdapterError''"
| "error_code_name PoolExhausted = ''PoolExhausted''"
| "error_code_name CircuitOpen = ''CircuitOpen''"

text \<open>\<open>Result<T>\<close> is \<open>std::expected<T, ErrorCode>\<close>: the error on the left.\<close>

type_synonym 'a result = "ErrorCode + 'a"

text \<open>The exceptions of the standard library that constructors and operations throw.\<close>

datatype cpp_exception =
  std_overflow_error | std_bad_alloc | std_invalid_argument | std_out_of_range | std_logic_error

text \<open>
  \<open>std::realloc\<close> on a byte buffer: \<open>None\<close> is the null pointer, before (no buffer yet) and
  after (out of memory, the old block kept). A successful call returns a block of the
  requested size that starts with the old bytes; the rest of the block is unspecified.
\<close>

definition realloc_spec :: "(bytes option \<Rightarrow> u64 \<Rightarrow> bytes option) \<Rightarrow> bool" where
  "realloc_spec realloc \<longleftrightarrow>
     (\<forall>old n new. realloc old n = Some new \<longrightarrow>
        length new = unat n \<and>
        (\<forall>block. old = Some block \<longrightarrow> take (unat n) block = take (length block) new))"

section \<open>Memory\<close>

text \<open>
  \<open>memcpy\<close> at an offset of a destination buffer. Every use in the model writes inside
  the destination, where the result has the destination's length.
\<close>

definition memcpy :: "'a list \<Rightarrow> nat \<Rightarrow> 'a list \<Rightarrow> 'a list" where
  "memcpy dst off src = take off dst @ src @ drop (off + length src) dst"

definition subspan :: "'a list \<Rightarrow> nat \<Rightarrow> nat \<Rightarrow> 'a list" where
  "subspan data off n = take n (drop off data)"

text \<open>An \<open>n\<close>-byte integer in the memory of a little-endian host.\<close>

primrec le_store :: "nat \<Rightarrow> 'a::len word \<Rightarrow> bytes" where
  "le_store 0 v = []"
| "le_store (Suc n) v = ucast v # le_store n (drop_bit 8 v)"

primrec le_load :: "bytes \<Rightarrow> 'a::len word" where
  "le_load [] = 0"
| "le_load (b # bs) = ucast b OR push_bit 8 (le_load bs)"

text \<open>\<open>__builtin_bswapN\<close>: the same bytes in the opposite order.\<close>

definition bswap :: "nat \<Rightarrow> 'a::len word \<Rightarrow> 'a word" where
  "bswap n v = le_load (rev (le_store n v))"

subsection \<open>Lemmas on memcpy\<close>

lemma length_memcpy [simp]:
  "off + length src \<le> length dst \<Longrightarrow> length (memcpy dst off src) = length dst"
  by (simp add: memcpy_def)

lemma nth_memcpy:
  assumes "off + length src \<le> length dst" and "i < length dst"
  shows "memcpy dst off src ! i =
    (if off \<le> i \<and> i < off + length src then src ! (i - off) else dst ! i)"
  using assms by (auto simp: memcpy_def nth_append min_def)

lemma memcpy_Nil [simp]: "memcpy dst off [] = dst"
  by (simp add: memcpy_def)

lemma memcpy_0_full [simp]: "length src = length dst \<Longrightarrow> memcpy dst 0 src = src"
  by (simp add: memcpy_def)

lemma memcpy_append_left:
  "off + length src \<le> length a \<Longrightarrow> memcpy (a @ b) off src = memcpy a off src @ b"
  by (simp add: memcpy_def)

lemma memcpy_append_right:
  "length a \<le> off \<Longrightarrow> memcpy (a @ b) off src = a @ memcpy b (off - length a) src"
  by (simp add: memcpy_def)

subsection \<open>Lemmas on the integer encoding\<close>

lemma length_le_store [simp, byte_simps]: "length (le_store n v) = n"
  by (induction n arbitrary: v) simp_all

lemma bit_le_load:
  "bit (le_load bs :: 'a::len word) k \<longleftrightarrow>
     k < LENGTH('a) \<and> k div 8 < length bs \<and> bit (bs ! (k div 8)) (k mod 8)"
proof (induction bs arbitrary: k)
  case Nil
  then show ?case by simp
next
  case (Cons b bs)
  show ?case
  proof (cases "k < 8")
    case True
    then show ?thesis
      by (auto simp: bit_or_iff bit_push_bit_iff bit_ucast_iff)
  next
    case False
    then have "k div 8 = Suc ((k - 8) div 8)" and "k mod 8 = (k - 8) mod 8"
      by (simp_all add: le_div_geq le_mod_geq)
    with False Cons.IH[of "k - 8"] show ?thesis
      by (auto simp: bit_or_iff bit_push_bit_iff bit_ucast_iff dest: bit_imp_le_length)
  qed
qed

lemma nth_le_store: "i < n \<Longrightarrow> le_store n v ! i = ucast (drop_bit (8 * i) v)"
proof (induction n arbitrary: v i)
  case 0
  then show ?case by simp
next
  case (Suc n)
  then show ?case
    by (cases i) (simp_all add: drop_bit_drop_bit ac_simps)
qed

lemma le_load_store [simp, byte_simps]:
  assumes "LENGTH('a) \<le> 8 * n"
  shows "le_load (le_store n v) = (v :: 'a::len word)"
proof (rule bit_word_eqI)
  fix k assume k: "k < LENGTH('a)"
  with assms have "k div 8 < n" by auto
  with k show "bit (le_load (le_store n v) :: 'a word) k \<longleftrightarrow> bit v k"
    by (simp add: bit_le_load nth_le_store bit_ucast_iff bit_drop_bit_eq)
qed

lemma le_store_load [simp, byte_simps]:
  assumes "8 * length bs \<le> LENGTH('a)"
  shows "le_store (length bs) (le_load bs :: 'a::len word) = bs"
proof (rule nth_equalityI)
  fix i assume "i < length (le_store (length bs) (le_load bs :: 'a word))"
  then have i: "i < length bs" by simp
  show "le_store (length bs) (le_load bs :: 'a word) ! i = bs ! i"
  proof (rule bit_word_eqI)
    fix k assume k: "k < LENGTH(8)"
    then have "8 * i + k < LENGTH('a)" using i assms by simp
    with k i show "bit (le_store (length bs) (le_load bs :: 'a word) ! i) k \<longleftrightarrow> bit (bs ! i) k"
      by (simp add: nth_le_store bit_ucast_iff bit_drop_bit_eq bit_le_load)
  qed
qed simp

lemma le_store_inj:
  "LENGTH('a) \<le> 8 * n \<Longrightarrow> le_store n v = le_store n w \<longleftrightarrow> v = (w :: 'a::len word)"
  by (metis le_load_store)

lemma le_store_bswap [byte_simps]:
  "8 * n = LENGTH('a) \<Longrightarrow> le_store n (bswap n v) = rev (le_store n (v :: 'a::len word))"
  unfolding bswap_def
  by (metis le_store_load length_le_store length_rev order_refl)

lemma bswap_bswap [simp, byte_simps]:
  "8 * n = LENGTH('a) \<Longrightarrow> bswap n (bswap n v) = (v :: 'a::len word)"
  by (simp add: bswap_def[of n "bswap n v"] le_store_bswap)

subsection \<open>Lemmas on words\<close>

lemma unat_and_mask_mod:
  fixes x :: "'a::len word"
  assumes "k < LENGTH('a)"
  shows "unat (x AND (2 ^ k - 1)) = unat x mod 2 ^ k"
proof -
  have "(2 ^ k - 1 :: 'a word) = mask k" by (simp add: mask_eq_decr_exp)
  then have "x AND (2 ^ k - 1) = take_bit k x" by (simp add: take_bit_eq_mask)
  then have "unat (x AND (2 ^ k - 1)) = take_bit k (unat x)"
    using assms by (simp only: unsigned_take_bit_eq)
  then show ?thesis by (simp only: take_bit_eq_mod)
qed

lemma unat_power2 [simp]: "k < LENGTH('a) \<Longrightarrow> unat (2 ^ k :: 'a::len word) = 2 ^ k"
  using unat_of_nat[of "2 ^ k", where 'a = 'a] by simp

lemma unat_lt2p: "unat (x :: 'a::len word) < 2 ^ LENGTH('a)"
  by (rule unsigned_less)

lemma unat_ucast_up:
  fixes x :: "'a::len word"
  assumes "LENGTH('a) \<le> LENGTH('b)"
  shows "unat (ucast x :: 'b::len word) = unat x"
proof -
  have "(2::nat) ^ LENGTH('a) \<le> 2 ^ LENGTH('b)" using assms by (intro power_increasing) simp_all
  then have "unat x < 2 ^ LENGTH('b)" using unat_lt2p[of x] by linarith
  then show ?thesis by (simp add: unsigned_ucast_eq take_bit_nat_eq_self_iff)
qed

lemma unat_u64_less: "unat (x :: u64) < 2 ^ 64"
  using unat_lt2p[of x] by simp

lemma unat_diff_le: "unat y \<le> unat x \<Longrightarrow> unat (x - y) = unat x - unat (y :: 'a::len word)"
  by (simp add: unat_sub word_le_nat_alt)

lemma unat_add_small:
  "unat x + unat y < 2 ^ LENGTH('a) \<Longrightarrow> unat (x + y) = unat x + unat (y :: 'a::len word)"
  by (simp add: unat_word_ariths)

lemma unat_add_mod_power2:
  fixes x y :: "'a::len word"
  assumes "k \<le> LENGTH('a)"
  shows "unat (x + y) mod 2 ^ k = (unat x + unat y) mod 2 ^ k"
  using assms by (simp add: unat_word_ariths mod_mod_cancel le_imp_power_dvd)

lemma unat_of_nat_small: "n < 2 ^ LENGTH('a) \<Longrightarrow> unat (of_nat n :: 'a::len word) = n"
  by (simp add: unat_of_nat)

subsection \<open>Lemmas on ring indices\<close>

lemma ring_index_run:
  fixes a w i K :: nat
  assumes "a mod K = w" and "w + i < K"
  shows "(a + i) mod K = w + i"
  using assms by (metis mod_add_left_eq mod_less)

lemma ring_index_distinct:
  fixes a i j K :: nat
  assumes "i < j" and "j < i + K"
  shows "(a + i) mod K \<noteq> (a + j) mod K"
proof
  assume "(a + i) mod K = (a + j) mod K"
  then have "K dvd (a + j) - (a + i)" by (metis mod_eq_dvd_iff_nat assms(1) less_imp_le nat_add_left_cancel_le)
  then have "K dvd j - i" by simp
  then show False using assms by (auto dest: dvd_imp_le)
qed

lemma ring_index_wrap:
  fixes a w i K :: nat
  assumes "a mod K = w" and "K \<le> w + i" and "i < K"
  shows "(a + i) mod K = w + i - K"
proof -
  have "w < K" using assms by (metis mod_less_divisor gr_zeroI not_less0)
  then have "(w + i) mod K = w + i - K" using assms(2,3) by (simp add: le_mod_geq)
  then show ?thesis using assms(1) by (metis mod_add_left_eq)
qed

text \<open>The \<open>n\<close> elements of a ring from position \<open>r\<close> on.\<close>

definition ring_view :: "'a list \<Rightarrow> nat \<Rightarrow> nat \<Rightarrow> 'a list" where
  "ring_view xs r n = map (\<lambda>i. xs ! ((r + i) mod length xs)) [0..<n]"

lemma length_ring_view [simp]: "length (ring_view xs r n) = n"
  by (simp add: ring_view_def)

lemma ring_view_0 [simp]: "ring_view xs r 0 = []"
  by (simp add: ring_view_def)

lemma ring_view_Suc: "ring_view xs r (Suc n) = xs ! (r mod length xs) # ring_view xs (Suc r) n"
  by (simp add: ring_view_def upt_conv_Cons map_Suc_upt[symmetric] del: upt_Suc)

lemma ring_view_mod: "ring_view xs (r mod length xs) n = ring_view xs r n"
  by (simp add: ring_view_def mod_add_left_eq)

lemma ring_view_snoc:
  assumes "n < length xs"
  shows "ring_view (xs[(r + n) mod length xs := x]) r (Suc n) = ring_view xs r n @ [x]"
proof -
  have "(r + n) mod length xs \<noteq> (r + i) mod length xs" if "i < n" for i
    using ring_index_distinct[of i n "length xs" r] that assms by auto
  moreover have "0 < length xs" using assms by linarith
  then have "(r + n) mod length xs < length xs" by (rule mod_less_divisor)
  ultimately show ?thesis using assms by (simp add: ring_view_def)
qed

lemma ring_view_update:
  assumes "n \<le> m" and "m < length xs"
  shows "ring_view (xs[(r + m) mod length xs := x]) r n = ring_view xs r n"
proof -
  have "(r + m) mod length xs \<noteq> (r + i) mod length xs" if "i < n" for i
    using ring_index_distinct[of i m "length xs" r] that assms by auto
  then show ?thesis by (simp add: ring_view_def)
qed

subsection \<open>Lemmas on lists\<close>

lemma drop_subspan: "drop n xs = subspan xs n m @ drop (n + m) xs"
  by (simp add: subspan_def) (metis append_take_drop_id drop_drop add.commute)

lemma map_nth_upt_self: "map (\<lambda>i. xs ! i) [0..<length xs] = xs"
  by (rule map_nth)

lemma distinct_butlast_last: "xs \<noteq> [] \<Longrightarrow> distinct xs \<Longrightarrow> last xs \<notin> set (butlast xs)"
  by (metis append_butlast_last_id distinct_append disjoint_iff list.set_intros(1))

subsection \<open>Allocators that never fail\<close>

text \<open>Concrete allocators at which the hypotheses on \<open>std::aligned_alloc\<close> and
  \<open>std::realloc\<close> hold.\<close>

definition zero_alloc :: "u64 \<Rightarrow> u64 \<Rightarrow> bytes option" where
  "zero_alloc a n = Some (replicate (unat n) 0)"

definition zero_realloc :: "bytes option \<Rightarrow> u64 \<Rightarrow> bytes option" where
  "zero_realloc old n =
     (let b = (case old of None \<Rightarrow> [] | Some b \<Rightarrow> b)
      in Some (take (unat n) b @ replicate (unat n - length b) 0))"

lemma zero_realloc_spec: "realloc_spec zero_realloc"
  by (auto simp: realloc_spec_def zero_realloc_def Let_def min_def)

lemma zero_realloc_total: "zero_realloc old n \<noteq> None"
  by (simp add: zero_realloc_def Let_def)

section \<open>Refinement of a component by an abstract one\<close>

text \<open>
  A component is driven by a list of operations. \<open>run\<close> threads its state through the list
  and collects what each operation returns.
\<close>

fun run :: "('op \<Rightarrow> 's \<Rightarrow> 'o \<times> 's) \<Rightarrow> 'op list \<Rightarrow> 's \<Rightarrow> 'o list \<times> 's" where
  "run step [] s = ([], s)"
| "run step (op # ops) s =
     (let (out, s') = step op s; (outs, s'') = run step ops s' in (out # outs, s''))"

lemma run_append:
  "run step (xs @ ys) s =
     (let (o1, s1) = run step xs s; (o2, s2) = run step ys s1 in (o1 @ o2, s2))"
  by (induction xs arbitrary: s) (auto simp: Let_def split: prod.splits)

text \<open>
  The interface between a detailed component and its specification: an invariant, an
  abstraction function, and the law every operation satisfies. \<open>inv n s\<close> also says that \<open>n\<close>
  more operations do not exhaust the counters of the component; where nothing can be
  exhausted, it ignores \<open>n\<close>.
\<close>

locale refinement =
  fixes step :: "'op \<Rightarrow> 's \<Rightarrow> 'o \<times> 's"
    and astep :: "'op \<Rightarrow> 'a \<Rightarrow> 'o \<times> 'a"
    and inv :: "nat \<Rightarrow> 's \<Rightarrow> bool"
    and abs :: "'s \<Rightarrow> 'a"
  assumes step_inv: "inv (Suc n) s \<Longrightarrow> inv n (snd (step op s))"
    and step_abs: "inv (Suc n) s \<Longrightarrow> astep op (abs s) = (fst (step op s), abs (snd (step op s)))"
begin

lemma run_inv: "inv (length ops + n) s \<Longrightarrow> inv n (snd (run step ops s))"
proof (induction ops arbitrary: s)
  case (Cons op ops)
  then show ?case using step_inv[of "length ops + n" s op] by (simp add: case_prod_unfold Let_def)
qed simp

lemma run_abs:
  "inv (length ops) s \<Longrightarrow> run astep ops (abs s) = (fst (run step ops s), abs (snd (run step ops s)))"
proof (induction ops arbitrary: s)
  case (Cons op ops)
  then show ?case using step_inv[of "length ops" s op] step_abs[of "length ops" s op]
    by (simp add: case_prod_unfold Let_def)
qed simp

end

end
