(* ===== verification/Math_Utils.thy ===== *)
theory Math_Utils
  imports Prelude
begin

text \<open>
  \<open>apex_core/include/apex/core/detail/math_utils.hpp\<close>: rounding a capacity up to a power
  of two, by smearing the highest set bit. Every ring-indexed component (RingBuffer,
  SpscQueue, MpscQueue, TimingWheel) sizes itself with it and relies on the result being a
  power of two, or 0 on overflow. Also \<open>align_up\<close> of the slab allocator.
\<close>

definition SIZE_MAX :: u64 where
  "SIZE_MAX = 0xFFFFFFFFFFFFFFFF"

definition next_power_of_2 :: "u64 \<Rightarrow> u64" where
  "next_power_of_2 v0 =
     (if v0 = 0 then 1
      else if v0 AND (v0 - 1) = 0 then v0
      else if v0 > drop_bit 1 SIZE_MAX + 1 then 0
      else let v = v0 - 1;
               v = v OR drop_bit 1 v;
               v = v OR drop_bit 2 v;
               v = v OR drop_bit 4 v;
               v = v OR drop_bit 8 v;
               v = v OR drop_bit 16 v;
               v = v OR drop_bit 32 v
           in v + 1)"

definition align_up :: "u64 \<Rightarrow> u64 \<Rightarrow> u64" where
  "align_up sz alignment = (sz + alignment - 1) AND NOT (alignment - 1)"

section \<open>Bits of a word between two powers of two\<close>

lemma bit_top:
  fixes x :: u64
  assumes "2 ^ k \<le> unat x" and "unat x < 2 ^ Suc k"
  shows "bit x k"
proof -
  have "unat x div 2 ^ k = 1"
    using assms by (intro div_nat_eqI) simp_all
  then have "bit (unat x) k" by (simp add: bit_iff_odd)
  then show ?thesis by (simp add: bit_unsigned_iff)
qed

lemma not_bit_above:
  fixes x :: u64
  assumes "unat x < 2 ^ k" and "k \<le> j"
  shows "\<not> bit x j"
proof -
  have "unat x < 2 ^ j" using assms by (meson less_le_trans one_le_numeral power_increasing)
  then have "\<not> bit (unat x) j" by (simp add: bit_iff_odd)
  then show ?thesis by (auto simp: bit_unsigned_iff dest: bit_imp_le_length)
qed

lemma highest_bit:
  fixes x :: u64
  assumes "x \<noteq> 0"
  obtains k where "k < 64" and "2 ^ k \<le> unat x" and "unat x < 2 ^ Suc k"
proof -
  have "0 < unat x" using assms by (simp add: unat_gt_0)
  then obtain k where k: "2 ^ k \<le> unat x" "unat x < 2 ^ (k + 1)"
    using ex_power_ivl1[of 2 "unat x"] by auto
  have "(2::nat) ^ k < 2 ^ 64" using k(1) unat_u64_less[of x] by (rule le_less_trans)
  then have "k < 64" by (simp only: power_strict_increasing_iff)
  with k show thesis by (intro that) simp_all
qed

lemma power2_test:
  fixes v :: u64
  assumes "v \<noteq> 0" and "v AND (v - 1) = 0"
  shows "\<exists>k<64. v = 2 ^ k"
proof -
  from assms(1) obtain k where k: "k < 64" "2 ^ k \<le> unat v" "unat v < 2 ^ Suc k"
    by (rule highest_bit)
  have "unat v = 2 ^ k"
  proof (rule ccontr)
    assume "unat v \<noteq> 2 ^ k"
    then have gt: "2 ^ k < unat v" using k by simp
    have "unat (v - 1) = unat v - 1" using gt by (simp add: unat_diff_le)
    then have "bit (v - 1) k" using gt k by (intro bit_top) simp_all
    moreover have "bit v k" using k by (intro bit_top)
    ultimately have "bit (v AND (v - 1)) k" by (simp add: bit_and_iff)
    with assms(2) show False by simp
  qed
  then have "unat v = unat (2 ^ k :: u64)" using k(1) by simp
  then have "v = 2 ^ k" by (simp only: word_unat_eq_iff)
  with k(1) show ?thesis by blast
qed

lemma power2_and_pred: "k < 64 \<Longrightarrow> (2 ^ k :: u64) AND (2 ^ k - 1) = 0"
  by (rule bit_word_eqI) (auto simp: bit_and_iff bit_exp_iff bit_mask_iff simp flip: mask_eq_decr_exp)

section \<open>Smearing the highest bit\<close>

lemma smear_step:
  assumes "\<And>j. bit (w :: u64) j \<longleftrightarrow> (\<exists>i\<le>m. bit v (j + i))"
  shows "bit (w OR drop_bit (Suc m) w) j \<longleftrightarrow> (\<exists>i\<le>Suc (2 * m). bit v (j + i))"
proof -
  have "bit (w OR drop_bit (Suc m) w) j \<longleftrightarrow>
          (\<exists>i\<le>m. bit v (j + i)) \<or> (\<exists>i\<le>m. bit v (j + (Suc m + i)))"
    by (simp add: bit_or_iff bit_drop_bit_eq assms ac_simps)
  also have "\<dots> \<longleftrightarrow> (\<exists>i\<le>Suc (2 * m). bit v (j + i))"
  proof
    assume "\<exists>i\<le>Suc (2 * m). bit v (j + i)"
    then obtain i where i: "i \<le> Suc (2 * m)" "bit v (j + i)" by blast
    show "(\<exists>i\<le>m. bit v (j + i)) \<or> (\<exists>i\<le>m. bit v (j + (Suc m + i)))"
    proof (cases "i \<le> m")
      case False
      then have "i - Suc m \<le> m" and "Suc m + (i - Suc m) = i" using i(1) by simp_all
      with i(2) show ?thesis by metis
    qed (use i in blast)
  next
    assume "(\<exists>i\<le>m. bit v (j + i)) \<or> (\<exists>i\<le>m. bit v (j + (Suc m + i)))"
    then show "\<exists>i\<le>Suc (2 * m). bit v (j + i)"
    proof
      assume "\<exists>i\<le>m. bit v (j + i)"
      then obtain i where "i \<le> m" "bit v (j + i)" by blast
      then show ?thesis by (intro exI[of _ i]) simp
    next
      assume "\<exists>i\<le>m. bit v (j + (Suc m + i))"
      then obtain i where "i \<le> m" "bit v (j + (Suc m + i))" by blast
      then show ?thesis by (intro exI[of _ "Suc m + i"]) simp
    qed
  qed
  finally show ?thesis .
qed

definition smear :: "u64 \<Rightarrow> u64" where
  "smear v =
     (let v = v OR drop_bit 1 v; v = v OR drop_bit 2 v; v = v OR drop_bit 4 v;
          v = v OR drop_bit 8 v; v = v OR drop_bit 16 v; v = v OR drop_bit 32 v in v)"

lemma bit_smear: "bit (smear v) j \<longleftrightarrow> (\<exists>i\<le>63. bit v (j + i))"
proof -
  let ?v1 = "v OR drop_bit 1 v" let ?v2 = "?v1 OR drop_bit 2 ?v1"
  let ?v3 = "?v2 OR drop_bit 4 ?v2" let ?v4 = "?v3 OR drop_bit 8 ?v3"
  let ?v5 = "?v4 OR drop_bit 16 ?v4"
  have 1: "\<And>j. bit ?v1 j \<longleftrightarrow> (\<exists>i\<le>1. bit v (j + i))"
    using smear_step[of v 0 v] by simp
  have 2: "\<And>j. bit ?v2 j \<longleftrightarrow> (\<exists>i\<le>3. bit v (j + i))"
    using smear_step[of ?v1 1 v, OF 1] by (simp add: numeral_3_eq_3 numeral_2_eq_2)
  have 3: "\<And>j. bit ?v3 j \<longleftrightarrow> (\<exists>i\<le>7. bit v (j + i))"
    using smear_step[of ?v2 3 v, OF 2] by simp
  have 4: "\<And>j. bit ?v4 j \<longleftrightarrow> (\<exists>i\<le>15. bit v (j + i))"
    using smear_step[of ?v3 7 v, OF 3] by simp
  have 5: "\<And>j. bit ?v5 j \<longleftrightarrow> (\<exists>i\<le>31. bit v (j + i))"
    using smear_step[of ?v4 15 v, OF 4] by simp
  have 6: "bit (?v5 OR drop_bit 32 ?v5) j \<longleftrightarrow> (\<exists>i\<le>63. bit v (j + i))"
    using smear_step[of ?v5 31 v, OF 5] by simp
  then show ?thesis by (simp only: smear_def Let_def)
qed

lemma smear_eq_mask:
  assumes "k < 64" and "2 ^ k \<le> unat v" and "unat v < 2 ^ Suc k"
  shows "smear v = mask (Suc k)"
proof (rule bit_word_eqI)
  fix j assume j: "j < LENGTH(64)"
  have "(\<exists>i\<le>63. bit v (j + i)) \<longleftrightarrow> j \<le> k"
  proof
    assume "\<exists>i\<le>63. bit v (j + i)"
    then obtain i where "bit v (j + i)" by blast
    then have "j + i < Suc k" using not_bit_above[OF assms(3), of "j + i"] by force
    then show "j \<le> k" by simp
  next
    assume "j \<le> k"
    then show "\<exists>i\<le>63. bit v (j + i)"
      using assms bit_top[of k v] by (intro exI[of _ "k - j"]) simp
  qed
  with j show "bit (smear v) j \<longleftrightarrow> bit (mask (Suc k) :: u64) j"
    by (auto simp: bit_smear bit_mask_iff)
qed

section \<open>The rounding function\<close>

lemma SIZE_MAX_half: "drop_bit 1 SIZE_MAX + 1 = 2 ^ 63"
  by (simp add: SIZE_MAX_def)

lemma next_power_of_2_smear:
  "next_power_of_2 v =
     (if v = 0 then 1 else if v AND (v - 1) = 0 then v
      else if v > 2 ^ 63 then 0 else smear (v - 1) + 1)"
  unfolding next_power_of_2_def smear_def Let_def SIZE_MAX_half ..

lemma mask_plus_1: "mask k + 1 = (2 ^ k :: u64)"
  by (simp add: mask_eq_decr_exp)

text \<open>The least power of two at or above the argument.\<close>

definition least_pow2 :: "nat \<Rightarrow> nat \<Rightarrow> bool" where
  "least_pow2 p n \<longleftrightarrow> (\<exists>k. p = 2 ^ k \<and> n \<le> p \<and> (\<forall>j. n \<le> 2 ^ j \<longrightarrow> k \<le> j))"

lemma next_power_of_2_small:
  assumes "v \<le> 2 ^ 63"
  obtains k where "k < 64" and "next_power_of_2 v = 2 ^ k"
    and "least_pow2 (2 ^ k) (unat v)"
proof (cases "v = 0 \<or> v AND (v - 1) = 0")
  case True
  show thesis
  proof (cases "v = 0")
    case True
    then show thesis
      by (intro that[of 0]) (auto simp: next_power_of_2_def least_pow2_def intro!: exI[of _ 0])
  next
    case False
    with True obtain k where k: "k < 64" "v = 2 ^ k" using power2_test by blast
    with False True show thesis
      by (intro that[of k]) (auto simp: next_power_of_2_def least_pow2_def intro!: exI[of _ k])
  qed
next
  case False
  have ne1: "v \<noteq> 1" using False by auto
  have ne: "v - 1 \<noteq> 0" using ne1 by simp
  then obtain k where k: "k < 64" "2 ^ k \<le> unat (v - 1)" "unat (v - 1) < 2 ^ Suc k"
    by (rule highest_bit)
  have v1: "unat (v - 1) = unat v - 1" and pos: "0 < unat v"
    using False by (simp_all add: unat_diff_le unat_gt_0 Suc_le_eq)
  have "unat v \<le> 2 ^ 63" using assms by (simp add: word_le_nat_alt)
  then have "(2::nat) ^ k < 2 ^ 63" using k(2) v1 pos by simp
  then have k63: "Suc k < 64" by (simp only: power_strict_increasing_iff)
  have eq: "next_power_of_2 v = 2 ^ Suc k"
    unfolding next_power_of_2_smear smear_eq_mask[OF k] mask_plus_1
    using False assms by (auto dest: leD)
  have "Suc k \<le> j" if "unat v \<le> 2 ^ j" for j
  proof (rule ccontr)
    assume "\<not> Suc k \<le> j"
    then have "(2::nat) ^ j \<le> 2 ^ k" by simp
    with that k(2) show False unfolding v1 using pos by linarith
  qed
  then have "least_pow2 (2 ^ Suc k) (unat v)"
    using k(3) v1 pos by (auto simp: least_pow2_def intro!: exI[of _ "Suc k"])
  with k63 eq show thesis by (intro that)
qed

lemma next_power_of_2_overflow:
  assumes "2 ^ 63 < v"
  shows "next_power_of_2 v = 0"
proof -
  have nz: "v \<noteq> 0" using assms by auto
  have "v AND (v - 1) \<noteq> 0"
  proof
    assume "v AND (v - 1) = 0"
    with nz obtain k where "k < 64" "v = 2 ^ k" using power2_test by blast
    with assms have "(2::nat) ^ 63 < 2 ^ k" by (simp add: word_less_nat_alt)
    then have "63 < k" by (simp only: power_strict_increasing_iff)
    with \<open>k < 64\<close> show False by simp
  qed
  with assms nz show ?thesis by (simp add: next_power_of_2_smear)
qed

text \<open>
  What a ring-indexed component relies on: a non-zero rounded capacity is a power of two
  below \<open>2 ^ 64\<close> and at least the requested one.
\<close>

lemma next_power_of_2_pow2:
  assumes "next_power_of_2 v \<noteq> 0"
  obtains k where "k < 64" and "next_power_of_2 v = 2 ^ k" and "unat v \<le> 2 ^ k"
proof -
  have "v \<le> 2 ^ 63" using assms next_power_of_2_overflow by (meson leI)
  then obtain k where "k < 64" "next_power_of_2 v = 2 ^ k" "least_pow2 (2 ^ k) (unat v)"
    by (rule next_power_of_2_small)
  then show thesis by (intro that) (auto simp: least_pow2_def)
qed

text \<open>
  \<open>next_power_of_2\<close> returns the least power of two at or above its argument when one
  fits in 64 bits, and 0 (the documented overflow signal) exactly otherwise.
\<close>

theorem next_power_of_2_correct:
  "(if v \<le> 2 ^ 63 then least_pow2 (unat (next_power_of_2 v)) (unat v)
    else next_power_of_2 v = 0)"
proof (cases "v \<le> 2 ^ 63")
  case True
  then obtain k where "k < 64" "next_power_of_2 v = 2 ^ k" "least_pow2 (2 ^ k) (unat v)"
    by (rule next_power_of_2_small)
  with True show ?thesis by simp
next
  case False
  then have "2 ^ 63 < v" by (rule not_le_imp_less)
  then have "next_power_of_2 v = 0" by (rule next_power_of_2_overflow)
  with False show ?thesis by (simp only: if_False)
qed

section \<open>Aligning up\<close>

lemma align_up_unat:
  assumes "k < 64" and "unat sz + 2 ^ k \<le> 2 ^ 64"
  shows "unat (align_up sz (2 ^ k)) = (unat sz + 2 ^ k - 1) div 2 ^ k * 2 ^ k"
proof -
  let ?s = "sz + 2 ^ k - 1"
  have s: "unat ?s = unat sz + 2 ^ k - 1"
  proof -
    have "?s = sz + (2 ^ k - 1)" by simp
    moreover have "unat (2 ^ k - 1 :: u64) = 2 ^ k - 1"
      using assms(1) by (subst unat_diff_le) simp_all
    ultimately show ?thesis using assms by (simp only: unat_add_small) (subst unat_add_small; simp)
  qed
  have "(2 ^ k - 1 :: u64) = mask k" by (simp add: mask_eq_decr_exp)
  then have "align_up sz (2 ^ k) = push_bit k (drop_bit k ?s)"
    by (auto intro!: bit_word_eqI
        simp: align_up_def bit_and_iff bit_not_iff bit_mask_iff bit_push_bit_iff bit_drop_bit_eq)
  then have "unat (align_up sz (2 ^ k)) = take_bit 64 (push_bit k (drop_bit k (take_bit 64 (unat ?s))))"
    by (simp only: unsigned_push_bit_eq unsigned_drop_bit_eq) simp
  then have "unat (align_up sz (2 ^ k)) = (unat ?s div 2 ^ k * 2 ^ k) mod 2 ^ 64"
    using unat_u64_less[of ?s] by (simp only: take_bit_eq_mod push_bit_eq_mult drop_bit_eq_div mod_less)
  moreover have "unat ?s div 2 ^ k * 2 ^ k \<le> unat ?s" by (rule div_times_less_eq_dividend)
  then have "unat ?s div 2 ^ k * 2 ^ k < 2 ^ 64" using unat_u64_less[of ?s] by (rule le_less_trans)
  ultimately show ?thesis using s by simp
qed

lemma align_up_bounds:
  assumes "k < 64" and "unat sz + 2 ^ k \<le> 2 ^ 64"
  shows "unat sz \<le> unat (align_up sz (2 ^ k))"
    and "unat (align_up sz (2 ^ k)) < unat sz + 2 ^ k"
    and "2 ^ k dvd unat (align_up sz (2 ^ k))"
proof -
  let ?n = "unat sz + 2 ^ k - 1"
  have eq: "unat (align_up sz (2 ^ k)) = ?n div 2 ^ k * 2 ^ k" by (rule align_up_unat) fact+
  have "?n div 2 ^ k * 2 ^ k + ?n mod 2 ^ k = ?n" by (rule div_mult_mod_eq)
  moreover have "?n mod 2 ^ k < 2 ^ k" by simp
  moreover have "(0::nat) < 2 ^ k" by simp
  ultimately show "unat sz \<le> unat (align_up sz (2 ^ k))"
    and "unat (align_up sz (2 ^ k)) < unat sz + 2 ^ k"
    unfolding eq by linarith+
  show "2 ^ k dvd unat (align_up sz (2 ^ k))" unfolding eq by simp
qed

end
