(* ===== verification/Ring_Buffer.thy ===== *)
theory Ring_Buffer
  imports Math_Utils
begin

text \<open>
  \<open>apex_core/src/ring_buffer.cpp\<close>: the per-session receive buffer. Positions are 64-bit
  counters that only ever grow (and wrap at \<open>2 ^ 64\<close>); a position is turned into an index
  by masking with \<open>capacity - 1\<close>. The abstract state is the byte list \<open>rb_contents\<close>; every
  operation is shown to be the corresponding list operation on it.

  A span into the buffer is an offset and a length. \<open>std::aligned_alloc\<close> and
  \<open>std::realloc\<close> are parameters: \<open>None\<close> is the null pointer they return when out of memory.
\<close>

record RingBuffer =
  rb_buffer :: bytes
  rb_linear_buf :: "bytes option"
  rb_capacity :: u64
  rb_mask :: u64
  rb_read_pos :: u64
  rb_write_pos :: u64
  rb_linear_buf_size :: u64

text \<open>A span handed out by the buffer: into \<open>buffer_\<close>, into \<open>linear_buf_\<close>, or empty.\<close>

datatype rb_span = Span_empty | Span_buffer u64 u64 | Span_linear u64

definition span_bytes :: "RingBuffer \<Rightarrow> rb_span \<Rightarrow> bytes" where
  "span_bytes rb sp =
     (case sp of Span_empty \<Rightarrow> []
      | Span_buffer off n \<Rightarrow> subspan (rb_buffer rb) (unat off) (unat n)
      | Span_linear n \<Rightarrow>
          (case rb_linear_buf rb of None \<Rightarrow> [] | Some l \<Rightarrow> subspan l 0 (unat n)))"

definition RingBuffer_new ::
  "(u64 \<Rightarrow> u64 \<Rightarrow> bytes option) \<Rightarrow> u64 \<Rightarrow> cpp_exception + RingBuffer" where
  "RingBuffer_new aligned_alloc capacity =
     (let cap = next_power_of_2 (if capacity < 1 then 1 else capacity) in
      if cap = 0 then Inl std_overflow_error
      else case aligned_alloc 64 (max cap 64) of
             None \<Rightarrow> Inl std_bad_alloc
           | Some mem \<Rightarrow>
               Inr \<lparr>rb_buffer = mem, rb_linear_buf = None, rb_capacity = cap, rb_mask = cap - 1,
                    rb_read_pos = 0, rb_write_pos = 0, rb_linear_buf_size = 0\<rparr>)"

definition readable_size :: "RingBuffer \<Rightarrow> u64" where
  "readable_size rb = rb_write_pos rb - rb_read_pos rb"

definition writable_size :: "RingBuffer \<Rightarrow> u64" where
  "writable_size rb = rb_capacity rb - readable_size rb"

text \<open>\<open>writable()\<close>: offset and length of the contiguous free span (length 0: empty span).\<close>

definition writable :: "RingBuffer \<Rightarrow> u64 \<times> u64" where
  "writable rb =
     (let avail = writable_size rb in
      if avail = 0 then (0, 0)
      else let w = rb_write_pos rb AND rb_mask rb;
               to_end = rb_capacity rb - w
           in (w, min to_end avail))"

definition commit_write :: "RingBuffer \<Rightarrow> u64 \<Rightarrow> RingBuffer" where
  "commit_write rb n =
     (let n = min n (writable_size rb) in rb\<lparr>rb_write_pos := rb_write_pos rb + n\<rparr>)"

definition contiguous_read :: "RingBuffer \<Rightarrow> rb_span" where
  "contiguous_read rb =
     (let avail = readable_size rb in
      if avail = 0 then Span_empty
      else let r = rb_read_pos rb AND rb_mask rb;
               to_end = rb_capacity rb - r
           in Span_buffer r (min to_end avail))"

definition consume :: "RingBuffer \<Rightarrow> u64 \<Rightarrow> RingBuffer" where
  "consume rb n =
     (let n = min n (readable_size rb) in rb\<lparr>rb_read_pos := rb_read_pos rb + n\<rparr>)"

definition linearize ::
  "(bytes option \<Rightarrow> u64 \<Rightarrow> bytes option) \<Rightarrow> RingBuffer \<Rightarrow> u64 \<Rightarrow> rb_span \<times> RingBuffer" where
  "linearize realloc rb n =
     (if readable_size rb < n then (Span_empty, rb)
      else let r = rb_read_pos rb AND rb_mask rb;
               to_end = rb_capacity rb - r
           in if n \<le> to_end then (Span_buffer r n, rb)
              else case (if rb_linear_buf_size rb < n
                         then map_option (\<lambda>new_buf. rb\<lparr>rb_linear_buf := Some new_buf,
                                                     rb_linear_buf_size := n\<rparr>)
                                (realloc (rb_linear_buf rb) n)
                         else Some rb) of
                     None \<Rightarrow> (Span_empty, rb)
                   | Some rb' \<Rightarrow>
                       let l = the (rb_linear_buf rb');
                           l = memcpy l 0 (subspan (rb_buffer rb') (unat r) (unat to_end));
                           l = memcpy l (unat to_end)
                                 (subspan (rb_buffer rb') 0 (unat (n - to_end)))
                       in (Span_linear n, rb'\<lparr>rb_linear_buf := Some l\<rparr>))"

text \<open>\<open>memcpy\<close> into the writable span, then \<open>commit_write\<close>: the pair every writer uses.\<close>

definition put :: "RingBuffer \<Rightarrow> bytes \<Rightarrow> RingBuffer" where
  "put rb d =
     commit_write (rb\<lparr>rb_buffer := memcpy (rb_buffer rb) (unat (fst (writable rb))) d\<rparr>)
       (of_nat (length d))"

definition rb_write :: "RingBuffer \<Rightarrow> bytes \<Rightarrow> bool \<times> RingBuffer" where
  "rb_write rb data =
     (if data = [] then (True, rb)
      else if unat (writable_size rb) < length data then (False, rb)
      else let first = unat (snd (writable rb)) in
           if length data \<le> first then (True, put rb data)
           else (True, put (put rb (take first data)) (drop first data)))"

definition reset :: "RingBuffer \<Rightarrow> RingBuffer" where
  "reset rb =
     rb\<lparr>rb_read_pos := 0, rb_write_pos := 0, rb_linear_buf := None, rb_linear_buf_size := 0\<rparr>"

definition shrink_to_fit ::
  "(bytes option \<Rightarrow> u64 \<Rightarrow> bytes option) \<Rightarrow> RingBuffer \<Rightarrow> RingBuffer" where
  "shrink_to_fit realloc rb =
     (if rb_linear_buf rb = None then rb
      else let usage = readable_size rb in
           if usage = 0 then rb\<lparr>rb_linear_buf := None, rb_linear_buf_size := 0\<rparr>
           else if usage * 4 \<le> rb_linear_buf_size rb
           then let new_size = usage * 2 in
                case realloc (rb_linear_buf rb) new_size of
                  None \<Rightarrow> rb
                | Some new_buf \<Rightarrow>
                    rb\<lparr>rb_linear_buf := Some new_buf, rb_linear_buf_size := new_size\<rparr>
           else rb)"

section \<open>Abstraction and invariant\<close>

definition rb_contents :: "RingBuffer \<Rightarrow> bytes" where
  "rb_contents rb =
     map (\<lambda>i. rb_buffer rb ! ((unat (rb_read_pos rb) + i) mod unat (rb_capacity rb)))
       [0..<unat (readable_size rb)]"

definition rb_inv :: "RingBuffer \<Rightarrow> bool" where
  "rb_inv rb \<longleftrightarrow>
     (\<exists>k<64. rb_capacity rb = 2 ^ k) \<and> rb_mask rb = rb_capacity rb - 1 \<and>
     unat (rb_capacity rb) \<le> length (rb_buffer rb) \<and>
     readable_size rb \<le> rb_capacity rb \<and>
     (case rb_linear_buf rb of None \<Rightarrow> rb_linear_buf_size rb = 0
      | Some l \<Rightarrow> length l = unat (rb_linear_buf_size rb))"

lemma rb_invE:
  assumes "rb_inv rb"
  obtains k where "k < 64" and "rb_capacity rb = 2 ^ k" and "unat (rb_capacity rb) = 2 ^ k"
    and "\<And>x. unat (x AND rb_mask rb) = unat x mod unat (rb_capacity rb)"
    and "unat (rb_capacity rb) \<le> length (rb_buffer rb)"
    and "unat (readable_size rb) \<le> unat (rb_capacity rb)"
proof -
  from assms obtain k where k: "k < 64" "rb_capacity rb = 2 ^ k"
    by (auto simp: rb_inv_def)
  from assms have "rb_mask rb = 2 ^ k - 1" by (simp add: rb_inv_def k(2))
  then have "\<And>x. unat (x AND rb_mask rb) = unat x mod unat (rb_capacity rb)"
    using k unat_and_mask_mod[where 'a = 64, of k] by simp
  moreover have "unat (rb_capacity rb) = 2 ^ k" using k by simp
  ultimately show thesis
    using assms k by (intro that) (simp_all add: rb_inv_def word_le_nat_alt)
qed

lemma length_rb_contents [simp]: "length (rb_contents rb) = unat (readable_size rb)"
  by (simp add: rb_contents_def)

lemma nth_rb_contents:
  "i < unat (readable_size rb) \<Longrightarrow>
   rb_contents rb ! i = rb_buffer rb ! ((unat (rb_read_pos rb) + i) mod unat (rb_capacity rb))"
  by (simp add: rb_contents_def)

lemma unat_writable_size:
  "rb_inv rb \<Longrightarrow> unat (writable_size rb) = unat (rb_capacity rb) - unat (readable_size rb)"
  by (simp add: writable_size_def rb_inv_def unat_sub)

text \<open>The write index is where the ring continues after the readable bytes, even when the
  64-bit positions have wrapped.\<close>

lemma write_index:
  assumes "rb_inv rb"
  shows "unat (rb_write_pos rb AND rb_mask rb) =
    (unat (rb_read_pos rb) + unat (readable_size rb)) mod unat (rb_capacity rb)"
proof -
  from assms obtain k where k: "k < 64" "unat (rb_capacity rb) = 2 ^ k"
    "\<And>x. unat (x AND rb_mask rb) = unat x mod unat (rb_capacity rb)" by (rule rb_invE) blast
  have "rb_write_pos rb = rb_read_pos rb + readable_size rb" by (simp add: readable_size_def)
  then have "unat (rb_write_pos rb) mod 2 ^ k =
      (unat (rb_read_pos rb) + unat (readable_size rb)) mod 2 ^ k"
    using unat_add_mod_power2[of k "rb_read_pos rb" "readable_size rb"] k(1) by simp
  then show ?thesis by (simp add: k(2,3))
qed

lemma writable_span:
  assumes "rb_inv rb" and "writable_size rb \<noteq> 0"
  shows "unat (fst (writable rb)) =
      (unat (rb_read_pos rb) + unat (readable_size rb)) mod unat (rb_capacity rb)"
    and "unat (snd (writable rb)) =
      min (unat (rb_capacity rb) - unat (fst (writable rb))) (unat (writable_size rb))"
    and "0 < unat (snd (writable rb))"
proof -
  from assms(1) obtain k where k: "k < 64" "unat (rb_capacity rb) = 2 ^ k"
    "\<And>x. unat (x AND rb_mask rb) = unat x mod unat (rb_capacity rb)" by (rule rb_invE) blast
  let ?w = "rb_write_pos rb AND rb_mask rb"
  have lt: "unat ?w < unat (rb_capacity rb)" using k by simp
  show 1: "unat (fst (writable rb)) =
      (unat (rb_read_pos rb) + unat (readable_size rb)) mod unat (rb_capacity rb)"
    using assms by (simp add: writable_def Let_def write_index)
  have rest: "unat (rb_capacity rb - ?w) = unat (rb_capacity rb) - unat ?w"
    using lt by (simp add: unat_diff_le)
  show 2: "unat (snd (writable rb)) =
      min (unat (rb_capacity rb) - unat (fst (writable rb))) (unat (writable_size rb))"
    using assms(2) rest by (simp add: writable_def Let_def min_def word_le_nat_alt)
  show "0 < unat (snd (writable rb))"
    using 2 lt assms(2) by (simp add: writable_def Let_def unat_gt_0)
qed

lemma writable_span_0: "writable_size rb = 0 \<Longrightarrow> writable rb = (0, 0)"
  by (simp add: writable_def)

section \<open>Writing\<close>

lemma put_correct:
  assumes inv: "rb_inv rb" and len: "length d \<le> unat (snd (writable rb))"
  shows "rb_inv (put rb d)" and "rb_contents (put rb d) = rb_contents rb @ d"
    and "unat (readable_size (put rb d)) = unat (readable_size rb) + length d"
    and "rb_capacity (put rb d) = rb_capacity rb"
proof -
  have "rb_inv (put rb d) \<and> rb_contents (put rb d) = rb_contents rb @ d \<and>
    unat (readable_size (put rb d)) = unat (readable_size rb) + length d"
  proof (cases "writable_size rb = 0")
    case True
    with len have "d = []" by (simp add: writable_span_0)
    then have "put rb d = rb" by (simp add: put_def commit_write_def)
    with \<open>d = []\<close> inv show ?thesis by simp
  next
    case False
    from inv obtain k where k: "k < 64" "unat (rb_capacity rb) = 2 ^ k"
      "unat (rb_capacity rb) \<le> length (rb_buffer rb)"
      "unat (readable_size rb) \<le> unat (rb_capacity rb)" by (rule rb_invE) blast
    let ?r = "unat (rb_read_pos rb)" and ?n = "unat (readable_size rb)"
    let ?K = "unat (rb_capacity rb)" and ?w = "unat (fst (writable rb))"
    note span = writable_span[OF inv False]
    have le: "length d \<le> unat (writable_size rb)" using len span(2) by linarith
    have fit: "?n + length d \<le> ?K" and run: "?w + length d \<le> ?K"
      using len span(2) unat_writable_size[OF inv] k(4) unat_gt_0[of "snd (writable rb)"] span(3)
      by linarith+
    have lend: "unat (of_nat (length d) :: u64) = length d"
      using fit unat_u64_less[of "rb_capacity rb"] by (intro unat_of_nat_small) simp
    let ?rb' = "put rb d"
    have cap: "rb_capacity ?rb' = rb_capacity rb" and mask: "rb_mask ?rb' = rb_mask rb"
      and rd: "rb_read_pos ?rb' = rb_read_pos rb"
      and lin: "rb_linear_buf ?rb' = rb_linear_buf rb"
      "rb_linear_buf_size ?rb' = rb_linear_buf_size rb"
      and buf: "rb_buffer ?rb' = memcpy (rb_buffer rb) ?w d"
      by (simp_all add: put_def commit_write_def Let_def)
    have "min (of_nat (length d)) (writable_size rb) = of_nat (length d)"
      using lend le by (simp add: min_def word_le_nat_alt)
    then have wr: "rb_write_pos ?rb' = rb_write_pos rb + of_nat (length d)"
      by (simp add: put_def commit_write_def Let_def writable_size_def readable_size_def)
    have size_eq: "readable_size ?rb' = readable_size rb + of_nat (length d)"
      by (simp add: readable_size_def wr rd)
    have size: "unat (readable_size ?rb') = ?n + length d"
      using fit lend unat_u64_less[of "rb_capacity rb"] by (simp add: size_eq unat_add_small)
    have inv': "rb_inv ?rb'"
      using inv size fit run k(3)
      by (simp add: rb_inv_def cap mask lin buf word_le_nat_alt split: option.splits)
    have "rb_contents ?rb' = rb_contents rb @ d"
    proof (rule nth_equalityI)
      show "length (rb_contents ?rb') = length (rb_contents rb @ d)" by (simp add: size)
      fix i assume "i < length (rb_contents ?rb')"
      then have i: "i < ?n + length d" by (simp add: size)
      let ?j = "(?r + i) mod ?K"
      have j: "?j < length (rb_buffer rb)" using k(3) k(2)
        by (metis less_le_trans mod_less_divisor zero_less_numeral zero_less_power)
      have nth: "rb_contents ?rb' ! i = memcpy (rb_buffer rb) ?w d ! ?j"
        using i by (simp add: nth_rb_contents size rd cap buf)
      show "rb_contents ?rb' ! i = (rb_contents rb @ d) ! i"
      proof (cases "i < ?n")
        case True
        have "?j \<noteq> ?w + m" if "m < length d" for m
        proof -
          have "(?r + (?n + m)) mod ?K = ?w + m"
            using ring_index_run[of "?r + ?n" ?K ?w m] span(1) run that by (simp add: add.assoc)
          moreover have "(?r + i) mod ?K \<noteq> (?r + (?n + m)) mod ?K"
            using True fit that by (intro ring_index_distinct) simp_all
          ultimately show ?thesis by simp
        qed
        then have "\<not> (?w \<le> ?j \<and> ?j < ?w + length d)"
          by (metis add_diff_inverse_nat add_less_cancel_left not_less)
        then have "memcpy (rb_buffer rb) ?w d ! ?j = rb_buffer rb ! ?j"
          using nth_memcpy[OF _ j, of ?w d] run k(3) by auto
        then show ?thesis using True nth by (simp add: nth_append nth_rb_contents)
      next
        case False
        then obtain m where m: "i = ?n + m" by (metis le_Suc_ex not_less)
        with i have m': "m < length d" by simp
        with run have "?w + m < ?K" by simp
        then have "?j = ?w + m"
          using ring_index_run[OF span(1)[symmetric], of m] by (simp add: m add.assoc)
        then have "memcpy (rb_buffer rb) ?w d ! ?j = d ! (i - ?n)"
          using nth_memcpy[OF _ j, of ?w d] run k(3) m' by (simp add: m)
        then show ?thesis using False nth by (simp add: nth_append)
      qed
    qed
    with inv' size show ?thesis by blast
  qed
  then show "rb_inv (put rb d)" and "rb_contents (put rb d) = rb_contents rb @ d"
    and "unat (readable_size (put rb d)) = unat (readable_size rb) + length d" by blast+
  show "rb_capacity (put rb d) = rb_capacity rb"
    by (simp add: put_def commit_write_def Let_def)
qed


lemma rb_write_correct:
  assumes inv: "rb_inv rb" and fit: "length data \<le> unat (writable_size rb)"
  shows "fst (rb_write rb data)" and "rb_inv (snd (rb_write rb data))"
    and "rb_contents (snd (rb_write rb data)) = rb_contents rb @ data"
    and "rb_capacity (snd (rb_write rb data)) = rb_capacity rb"
proof -
  let ?first = "unat (snd (writable rb))"
  have "fst (rb_write rb data) \<and> rb_inv (snd (rb_write rb data)) \<and>
    rb_contents (snd (rb_write rb data)) = rb_contents rb @ data \<and>
    rb_capacity (snd (rb_write rb data)) = rb_capacity rb"
  proof (cases "data = [] \<or> length data \<le> ?first")
    case True
    with fit inv put_correct[OF inv, of data] show ?thesis by (auto simp: rb_write_def Let_def)
  next
    case False
    then have avail: "writable_size rb \<noteq> 0" using fit by auto
    let ?rb1 = "put rb (take ?first data)"
    note one = put_correct[OF inv, of "take ?first data", simplified]
    note span = writable_span[OF inv avail]
    have len: "length (take ?first data) = ?first" using False by simp
    have at_end: "unat (fst (writable rb)) + ?first = unat (rb_capacity rb)"
      using span(2,3) fit False by linarith
    have size1: "unat (readable_size ?rb1) = unat (readable_size rb) + ?first"
      using one(3) False by simp
    from inv obtain k where k: "unat (rb_capacity rb) = 2 ^ k" by (rule rb_invE) blast
    have avail1: "unat (writable_size ?rb1) = unat (writable_size rb) - ?first"
      using unat_writable_size[OF one(1)] unat_writable_size[OF inv] size1 one(4) by simp
    then have avail1': "writable_size ?rb1 \<noteq> 0"
      using False fit by auto
    have "rb_read_pos ?rb1 = rb_read_pos rb" by (simp add: put_def commit_write_def Let_def)
    then have "unat (fst (writable ?rb1)) = (unat (fst (writable rb)) + ?first) mod unat (rb_capacity rb)"
      using writable_span(1)[OF one(1) avail1'] span(1) size1 one(4)
      by (simp add: mod_add_left_eq add.assoc)
    then have "unat (fst (writable ?rb1)) = 0" using at_end by simp
    then have "unat (snd (writable ?rb1)) = unat (writable_size rb) - ?first"
      using writable_span(2)[OF one(1) avail1'] avail1 one(4)
        unat_writable_size[OF inv] by simp
    then have "length (drop ?first data) \<le> unat (snd (writable ?rb1))" using fit by simp
    note two = put_correct[OF one(1) this]
    from False fit have "rb_write rb data = (True, put ?rb1 (drop ?first data))"
      by (simp add: rb_write_def Let_def)
    with one two show ?thesis by simp
  qed
  then show "fst (rb_write rb data)" and "rb_inv (snd (rb_write rb data))"
    and "rb_contents (snd (rb_write rb data)) = rb_contents rb @ data"
    and "rb_capacity (snd (rb_write rb data)) = rb_capacity rb" by blast+
qed

lemma rb_write_full:
  "unat (writable_size rb) < length data \<Longrightarrow> rb_write rb data = (False, rb)"
  by (auto simp: rb_write_def)

section \<open>Reading\<close>

lemma consume_correct:
  assumes inv: "rb_inv rb"
  shows "rb_inv (consume rb n)" and "rb_contents (consume rb n) = drop (unat n) (rb_contents rb)"
    and "rb_capacity (consume rb n) = rb_capacity rb"
proof -
  let ?m = "min n (readable_size rb)"
  have rd: "rb_read_pos (consume rb n) = rb_read_pos rb + ?m"
    and same: "rb_capacity (consume rb n) = rb_capacity rb" "rb_buffer (consume rb n) = rb_buffer rb"
    and sz: "readable_size (consume rb n) = readable_size rb - ?m"
    by (simp_all add: consume_def Let_def readable_size_def)
  have m: "unat ?m = min (unat n) (unat (readable_size rb))"
    by (simp add: min_def word_le_nat_alt)
  have size: "unat (readable_size (consume rb n)) = unat (readable_size rb) - unat ?m"
    by (simp add: sz unat_diff_le m)
  show "rb_capacity (consume rb n) = rb_capacity rb" by (fact same(1))
  have "unat (readable_size (consume rb n)) \<le> unat (readable_size rb)" by (simp add: size)
  then show "rb_inv (consume rb n)"
    using inv by (auto simp: rb_inv_def consume_def Let_def readable_size_def word_le_nat_alt
        split: option.splits)
  from inv obtain k where k: "k < 64" "unat (rb_capacity rb) = 2 ^ k" by (rule rb_invE) blast
  have idx: "(unat (rb_read_pos rb + ?m) + i) mod unat (rb_capacity rb) =
      (unat (rb_read_pos rb) + (unat ?m + i)) mod unat (rb_capacity rb)" for i
  proof -
    have "(unat (rb_read_pos rb + ?m) mod 2 ^ k + i) mod 2 ^ k =
        ((unat (rb_read_pos rb) + unat ?m) mod 2 ^ k + i) mod 2 ^ k"
      using unat_add_mod_power2[of k "rb_read_pos rb" ?m] k(1) by simp
    then show ?thesis by (simp only: k(2) mod_add_left_eq add.assoc)
  qed
  show "rb_contents (consume rb n) = drop (unat n) (rb_contents rb)"
  proof (rule nth_equalityI)
    show "length (rb_contents (consume rb n)) = length (drop (unat n) (rb_contents rb))"
      by (simp add: size m)
    fix i assume "i < length (rb_contents (consume rb n))"
    then have i: "i < unat (readable_size rb) - unat ?m" by (simp add: size)
    then have "unat ?m = unat n" using m by linarith
    with i show "rb_contents (consume rb n) ! i = drop (unat n) (rb_contents rb) ! i"
      by (simp add: nth_rb_contents size rd same idx)
  qed
qed


lemma ring_slice:
  assumes inv: "rb_inv rb" and m: "m \<le> unat (readable_size rb)"
    and fit: "unat (rb_read_pos rb AND rb_mask rb) + m \<le> unat (rb_capacity rb)"
  shows "subspan (rb_buffer rb) (unat (rb_read_pos rb AND rb_mask rb)) m = take m (rb_contents rb)"
proof (rule nth_equalityI)
  from inv obtain k where k: "\<And>x. unat (x AND rb_mask rb) = unat x mod unat (rb_capacity rb)"
    "unat (rb_capacity rb) \<le> length (rb_buffer rb)" by (rule rb_invE) blast
  let ?r = "unat (rb_read_pos rb AND rb_mask rb)"
  have len: "length (subspan (rb_buffer rb) ?r m) = m"
    using fit k(2) by (simp add: subspan_def)
  then show "length (subspan (rb_buffer rb) ?r m) = length (take m (rb_contents rb))"
    using m by simp
  fix i assume "i < length (subspan (rb_buffer rb) ?r m)"
  then have i: "i < m" by (simp add: len)
  then have "(unat (rb_read_pos rb) + i) mod unat (rb_capacity rb) = ?r + i"
    using fit by (intro ring_index_run) (simp_all add: k)
  then show "subspan (rb_buffer rb) ?r m ! i = take m (rb_contents rb) ! i"
    using i m fit k(2) by (simp add: subspan_def nth_rb_contents)
qed

text \<open>The second part of a wrapped read starts at index 0.\<close>

lemma ring_slice_wrapped:
  assumes inv: "rb_inv rb" and to_end: "e = unat (rb_capacity rb) - unat (rb_read_pos rb AND rb_mask rb)"
    and n: "e \<le> n" "n \<le> unat (readable_size rb)"
  shows "subspan (rb_buffer rb) 0 (n - e) = drop e (take n (rb_contents rb))"
proof (rule nth_equalityI)
  from inv obtain k where k: "\<And>x. unat (x AND rb_mask rb) = unat x mod unat (rb_capacity rb)"
    "unat (rb_capacity rb) \<le> length (rb_buffer rb)"
    "unat (readable_size rb) \<le> unat (rb_capacity rb)" "unat (rb_capacity rb) = 2 ^ k"
    by (rule rb_invE) blast
  let ?r = "unat (rb_read_pos rb AND rb_mask rb)"
  have r: "?r < unat (rb_capacity rb)" by (simp add: k)
  have len: "length (subspan (rb_buffer rb) 0 (n - e)) = n - e"
    using n k(2,3) by (simp add: subspan_def)
  then show "length (subspan (rb_buffer rb) 0 (n - e)) = length (drop e (take n (rb_contents rb)))"
    using n by simp
  fix i assume "i < length (subspan (rb_buffer rb) 0 (n - e))"
  then have i: "i < n - e" by (simp add: len)
  have "(unat (rb_read_pos rb) + (e + i)) mod unat (rb_capacity rb) = ?r + (e + i) - unat (rb_capacity rb)"
    using i n r k(3) to_end by (intro ring_index_wrap) (simp_all add: k(1) del: k(4))
  also have "\<dots> = i" using to_end r by simp
  finally show "subspan (rb_buffer rb) 0 (n - e) ! i = drop e (take n (rb_contents rb)) ! i"
    using i n by (simp add: subspan_def nth_rb_contents)
qed

lemma contiguous_read_correct:
  assumes inv: "rb_inv rb"
  shows "span_bytes rb (contiguous_read rb) =
    take (unat (rb_capacity rb) - unat (rb_read_pos rb AND rb_mask rb)) (rb_contents rb)"
proof (cases "readable_size rb = 0")
  case True
  then show ?thesis by (simp add: contiguous_read_def span_bytes_def rb_contents_def)
next
  case False
  from inv obtain k where k: "\<And>x. unat (x AND rb_mask rb) = unat x mod unat (rb_capacity rb)"
    "unat (rb_capacity rb) = 2 ^ k" by (rule rb_invE) blast
  let ?r = "rb_read_pos rb AND rb_mask rb"
  have r: "unat ?r < unat (rb_capacity rb)" by (simp add: k)
  let ?e = "rb_capacity rb - ?r"
  have e: "unat ?e = unat (rb_capacity rb) - unat ?r" using r by (simp add: unat_diff_le)
  have m: "unat (min ?e (readable_size rb)) = min (unat ?e) (unat (readable_size rb))"
    by (simp add: min_def word_le_nat_alt)
  have "span_bytes rb (contiguous_read rb) = take (unat (min ?e (readable_size rb))) (rb_contents rb)"
    using False r e m ring_slice[OF inv, of "unat (min ?e (readable_size rb))"]
    by (simp add: contiguous_read_def span_bytes_def Let_def)
  then show ?thesis by (simp only: m e take_take[symmetric]) simp
qed

lemma linearize_short: "readable_size rb < n \<Longrightarrow> linearize realloc rb n = (Span_empty, rb)"
  by (simp add: linearize_def)

lemma rb_contents_cong:
  "rb_buffer rb' = rb_buffer rb \<Longrightarrow> rb_read_pos rb' = rb_read_pos rb \<Longrightarrow>
   rb_write_pos rb' = rb_write_pos rb \<Longrightarrow> rb_capacity rb' = rb_capacity rb \<Longrightarrow>
   rb_contents rb' = rb_contents rb"
  by (simp add: rb_contents_def readable_size_def)

text \<open>\<open>linearize\<close> either fails leaving the buffer as it was, or returns the first \<open>n\<close> bytes
  and changes nothing but the scratch buffer.\<close>

lemma linearize_correct:
  assumes inv: "rb_inv rb" and spec: "realloc_spec realloc" and lin: "linearize realloc rb n = (sp, rb')"
  shows "(sp = Span_empty \<and> rb' = rb \<and>
          (readable_size rb < n \<or> (\<exists>old m. realloc old m = None))) \<or>
     (n \<le> readable_size rb \<and> span_bytes rb' sp = take (unat n) (rb_contents rb) \<and>
      sp \<noteq> Span_empty \<and> rb_inv rb' \<and> rb_contents rb' = rb_contents rb \<and>
      rb_capacity rb' = rb_capacity rb \<and> readable_size rb' = readable_size rb \<and>
      writable_size rb' = writable_size rb)"
proof (cases "readable_size rb < n")
  case True
  with lin show ?thesis by (simp add: linearize_def)
next
  case False
  then have le: "n \<le> readable_size rb" by simp
  then have len: "unat n \<le> unat (readable_size rb)" by (simp add: word_le_nat_alt)
  from inv obtain k where k: "\<And>x. unat (x AND rb_mask rb) = unat x mod unat (rb_capacity rb)"
    "unat (rb_capacity rb) = 2 ^ k" by (rule rb_invE) blast
  let ?r = "rb_read_pos rb AND rb_mask rb"
  let ?e = "rb_capacity rb - ?r"
  have r: "unat ?r < unat (rb_capacity rb)" by (simp add: k)
  have e: "unat ?e = unat (rb_capacity rb) - unat ?r" using r by (simp add: unat_diff_le)
  show ?thesis
  proof (cases "n \<le> ?e")
    case True
    then have "unat ?r + unat n \<le> unat (rb_capacity rb)"
      using e r by (simp add: word_le_nat_alt)
    with ring_slice[OF inv len this] lin False True inv le show ?thesis
      by (auto simp: linearize_def Let_def span_bytes_def)
  next
    case wrapped: False
    let ?rb1 = "if rb_linear_buf_size rb < n
       then map_option (\<lambda>new_buf. rb\<lparr>rb_linear_buf := Some new_buf, rb_linear_buf_size := n\<rparr>)
              (realloc (rb_linear_buf rb) n)
       else Some rb"
    show ?thesis
    proof (cases ?rb1)
      case None
      with lin False wrapped show ?thesis
        by (auto simp: linearize_def Let_def split: if_splits)
    next
      case (Some rb1)
      have "unat ?e < unat n" using wrapped by (simp add: word_le_nat_alt not_le)
      then have n0: "0 < unat n" by linarith
      obtain l where l: "rb_linear_buf rb1 = Some l" "unat n \<le> length l"
        "length l = unat (rb_linear_buf_size rb1)"
      proof (cases "rb_linear_buf_size rb < n")
        case True
        with Some spec that show thesis by (auto simp: realloc_spec_def)
      next
        case False
        with Some have rb1: "rb1 = rb" by simp
        from False have ge: "unat n \<le> unat (rb_linear_buf_size rb)"
          by (simp add: word_le_nat_alt not_less)
        then show thesis using that inv n0 unfolding rb1
          by (cases "rb_linear_buf rb") (auto simp: rb_inv_def)
      qed
      have same: "rb_buffer rb1 = rb_buffer rb" "rb_capacity rb1 = rb_capacity rb"
        "rb_mask rb1 = rb_mask rb" "rb_read_pos rb1 = rb_read_pos rb"
        "rb_write_pos rb1 = rb_write_pos rb"
        using Some by (auto split: if_splits)
      let ?a = "subspan (rb_buffer rb) (unat ?r) (unat ?e)"
      let ?b = "subspan (rb_buffer rb) 0 (unat (n - ?e))"
      let ?l = "memcpy (memcpy l 0 ?a) (unat ?e) ?b"
      have en: "unat ?e \<le> unat n" using wrapped by (simp add: word_le_nat_alt not_le)
      have ne: "unat (n - ?e) = unat n - unat ?e" using en by (simp add: unat_diff_le)
      have a: "?a = take (unat ?e) (rb_contents rb)"
        using ring_slice[OF inv, of "unat ?e"] e r en len by simp
      have b: "?b = drop (unat ?e) (take (unat n) (rb_contents rb))"
        using ring_slice_wrapped[OF inv e en len] ne by simp
      have lena: "length ?a = unat ?e" and lenb: "length ?b = unat n - unat ?e"
        using a b en len by simp_all
      have "take (unat n) ?l = ?a @ ?b"
      proof (rule nth_equalityI)
        show "length (take (unat n) ?l) = length (?a @ ?b)" using lena lenb en l(2) by simp
        fix i assume "i < length (take (unat n) ?l)"
        then have "i < unat n" by simp
        then show "take (unat n) ?l ! i = (?a @ ?b) ! i"
          using lena lenb en l(2) by (auto simp: nth_memcpy nth_append)
      qed
      also have "\<dots> = take (unat n) (rb_contents rb)"
        by (metis a b append_take_drop_id en take_take min.absorb1)
      finally have bytes: "take (unat n) ?l = take (unat n) (rb_contents rb)" .
      have res: "sp = Span_linear n" "rb' = rb1\<lparr>rb_linear_buf := Some ?l\<rparr>"
        using lin False wrapped Some by (auto simp: linearize_def Let_def same l)
      have "rb_inv rb'"
        using inv l lena lenb en same unfolding res
        by (simp add: rb_inv_def readable_size_def)
      moreover have "rb_contents rb' = rb_contents rb"
        unfolding res by (rule rb_contents_cong) (simp_all add: same)
      ultimately show ?thesis
        using le bytes
        by (simp add: res span_bytes_def subspan_def same readable_size_def writable_size_def)
    qed
  qed
qed


section \<open>Construction and housekeeping\<close>

lemma RingBuffer_new_correct:
  assumes "RingBuffer_new aligned_alloc capacity = Inr rb"
    and "\<And>a n mem. aligned_alloc a n = Some mem \<Longrightarrow> length mem = unat n"
  shows "rb_inv rb" and "rb_contents rb = []" and "capacity \<le> rb_capacity rb"
proof -
  let ?v = "if capacity < 1 then 1 else capacity :: u64"
  from assms(1) obtain mem where nz: "next_power_of_2 ?v \<noteq> 0"
    and alloc: "aligned_alloc 64 (max (next_power_of_2 ?v) 64) = Some mem"
    and rb: "rb = \<lparr>rb_buffer = mem, rb_linear_buf = None, rb_capacity = next_power_of_2 ?v,
       rb_mask = next_power_of_2 ?v - 1, rb_read_pos = 0, rb_write_pos = 0, rb_linear_buf_size = 0\<rparr>"
    by (auto simp: RingBuffer_new_def Let_def split: if_splits option.splits)
  obtain k where k: "k < 64" "next_power_of_2 ?v = 2 ^ k" "unat ?v \<le> 2 ^ k"
    using next_power_of_2_pow2[OF nz] by blast
  have "unat (next_power_of_2 ?v) \<le> length mem"
    using assms(2)[OF alloc] by (simp add: max_def word_le_nat_alt)
  with k show "rb_inv rb" by (auto simp: rb rb_inv_def readable_size_def)
  show "rb_contents rb = []" by (simp add: rb rb_contents_def readable_size_def)
  have "unat capacity \<le> unat ?v" by (simp add: word_less_nat_alt)
  with k show "capacity \<le> rb_capacity rb" by (simp add: rb word_le_nat_alt)
qed

lemma reset_correct:
  "rb_inv rb \<Longrightarrow> rb_inv (reset rb)" "rb_contents (reset rb) = []"
  "rb_capacity (reset rb) = rb_capacity rb"
  by (auto simp: reset_def rb_inv_def rb_contents_def readable_size_def)

lemma shrink_to_fit_correct:
  assumes "rb_inv rb" and "realloc_spec realloc"
  shows "rb_inv (shrink_to_fit realloc rb)"
    and "rb_contents (shrink_to_fit realloc rb) = rb_contents rb"
    and "rb_capacity (shrink_to_fit realloc rb) = rb_capacity rb"
proof -
  have same: "rb_buffer (shrink_to_fit realloc rb) = rb_buffer rb"
    "rb_capacity (shrink_to_fit realloc rb) = rb_capacity rb"
    "rb_mask (shrink_to_fit realloc rb) = rb_mask rb"
    "rb_read_pos (shrink_to_fit realloc rb) = rb_read_pos rb"
    "rb_write_pos (shrink_to_fit realloc rb) = rb_write_pos rb"
    by (auto simp: shrink_to_fit_def Let_def split: option.splits)
  show "rb_contents (shrink_to_fit realloc rb) = rb_contents rb"
    by (rule rb_contents_cong) (simp_all add: same)
  show "rb_capacity (shrink_to_fit realloc rb) = rb_capacity rb" by (fact same(2))
  have "case rb_linear_buf (shrink_to_fit realloc rb) of
      None \<Rightarrow> rb_linear_buf_size (shrink_to_fit realloc rb) = 0
    | Some l \<Rightarrow> length l = unat (rb_linear_buf_size (shrink_to_fit realloc rb))"
    using assms by (auto simp: shrink_to_fit_def rb_inv_def realloc_spec_def Let_def
        split: option.splits)
  then show "rb_inv (shrink_to_fit realloc rb)"
    using assms(1) by (simp add: rb_inv_def same readable_size_def split: option.splits)
qed

section \<open>Refinement: the ring is a bounded byte list\<close>

text \<open>The operations a session performs on its buffer, what they return, and the
  specification on a capacity and a list. The concrete state carries the allocator.\<close>

datatype rb_op = Op_write bytes | Op_consume u64 | Op_linearize u64 | Op_shrink | Op_reset | Op_size

datatype rb_out = Out_unit | Out_bool bool | Out_bytes bytes | Out_size nat

type_synonym rb_state = "(bytes option \<Rightarrow> u64 \<Rightarrow> bytes option) \<times> RingBuffer"

fun rb_step :: "rb_op \<Rightarrow> rb_state \<Rightarrow> rb_out \<times> rb_state" where
  "rb_step (Op_write d) (rl, rb) =
     (let (ok, rb') = rb_write rb d in (Out_bool ok, (rl, rb')))"
| "rb_step (Op_consume n) (rl, rb) = (Out_unit, (rl, consume rb n))"
| "rb_step (Op_linearize n) (rl, rb) =
     (let (sp, rb') = linearize rl rb n in (Out_bytes (span_bytes rb' sp), (rl, rb')))"
| "rb_step Op_shrink (rl, rb) = (Out_unit, (rl, shrink_to_fit rl rb))"
| "rb_step Op_reset (rl, rb) = (Out_unit, (rl, reset rb))"
| "rb_step Op_size (rl, rb) = (Out_size (unat (readable_size rb)), (rl, rb))"

fun list_step :: "rb_op \<Rightarrow> nat \<times> bytes \<Rightarrow> rb_out \<times> (nat \<times> bytes)" where
  "list_step (Op_write d) (cap, xs) =
     (if length xs + length d \<le> cap then (Out_bool True, (cap, xs @ d))
      else (Out_bool False, (cap, xs)))"
| "list_step (Op_consume n) (cap, xs) = (Out_unit, (cap, drop (unat n) xs))"
| "list_step (Op_linearize n) (cap, xs) =
     (Out_bytes (if unat n \<le> length xs then take (unat n) xs else []), (cap, xs))"
| "list_step Op_shrink (cap, xs) = (Out_unit, (cap, xs))"
| "list_step Op_reset (cap, xs) = (Out_unit, (cap, []))"
| "list_step Op_size (cap, xs) = (Out_size (length xs), (cap, xs))"

definition rb_state_inv :: "rb_state \<Rightarrow> bool" where
  "rb_state_inv s \<longleftrightarrow>
     realloc_spec (fst s) \<and> (\<forall>old n. fst s old n \<noteq> None) \<and> rb_inv (snd s)"

definition rb_state_abs :: "rb_state \<Rightarrow> nat \<times> bytes" where
  "rb_state_abs s = (unat (rb_capacity (snd s)), rb_contents (snd s))"

lemma rb_write_fits:
  "rb_inv rb \<Longrightarrow>
   length d \<le> unat (writable_size rb) \<longleftrightarrow>
   length (rb_contents rb) + length d \<le> unat (rb_capacity rb)"
  using unat_writable_size[of rb] by (auto simp: rb_inv_def word_le_nat_alt)

lemma rb_step_refines:
  assumes "rb_state_inv s"
  shows "rb_state_inv (snd (rb_step op s)) \<and>
    list_step op (rb_state_abs s) = (fst (rb_step op s), rb_state_abs (snd (rb_step op s)))"
proof -
  obtain rl rb where s: "s = (rl, rb)" by (cases s)
  from assms have inv: "rb_inv rb" and rl: "realloc_spec rl" "\<And>old n. rl old n \<noteq> None"
    by (auto simp: rb_state_inv_def s)
  show ?thesis
  proof (cases op)
    case (Op_write d)
    show ?thesis
    proof (cases "length d \<le> unat (writable_size rb)")
      case True
      with rb_write_correct[OF inv True] rb_write_fits[OF inv, of d] rl show ?thesis
        by (cases "rb_write rb d") (simp add: Op_write s rb_state_inv_def rb_state_abs_def)
    next
      case False
      with rb_write_full[of rb d] rb_write_fits[OF inv, of d] rl inv show ?thesis
        by (simp add: Op_write s rb_state_inv_def rb_state_abs_def not_le)
    qed
  next
    case (Op_linearize n)
    obtain sp rb' where lin: "linearize rl rb n = (sp, rb')" by (cases "linearize rl rb n")
    show ?thesis
      using linearize_correct[OF inv rl(1) lin] rl inv
      by (auto simp: Op_linearize s lin rb_state_inv_def rb_state_abs_def span_bytes_def
          word_le_nat_alt word_less_nat_alt)
  next
    case (Op_consume n)
    with consume_correct[OF inv, of n] rl show ?thesis
      by (simp add: s rb_state_inv_def rb_state_abs_def)
  next
    case Op_shrink
    with shrink_to_fit_correct[OF inv rl(1)] rl show ?thesis
      by (simp add: s rb_state_inv_def rb_state_abs_def)
  next
    case Op_reset
    with reset_correct[of rb] inv rl show ?thesis
      by (simp add: s rb_state_inv_def rb_state_abs_def)
  next
    case Op_size
    with inv rl show ?thesis by (simp add: s rb_state_inv_def rb_state_abs_def)
  qed
qed

interpretation rb: refinement rb_step list_step "\<lambda>n. rb_state_inv" rb_state_abs
  by unfold_locales (simp_all add: rb_step_refines)


text \<open>
  C16: A buffer that \<open>RingBuffer(capacity)\<close> constructs behaves, for every sequence of writes,
  consumes, linearizations, shrinks and resets, as a bounded list of bytes: each call returns
  what the list specification returns, whatever wrap-arounds of the index and of the 64-bit
  positions happen on the way, and the capacity is at least the requested one. The allocators
  return blocks of the requested size and \<open>realloc\<close> does not fail.
\<close>

theorem ring_buffer_refines_list:
  assumes "RingBuffer_new aligned_alloc capacity = Inr rb"
    and "\<And>a n mem. aligned_alloc a n = Some mem \<Longrightarrow> length mem = unat n"
    and "realloc_spec realloc" and "\<And>old n. realloc old n \<noteq> None"
  shows "fst (run rb_step ops (realloc, rb)) = fst (run list_step ops (unat (rb_capacity rb), []))
    \<and> capacity \<le> rb_capacity rb"
proof -
  note new = RingBuffer_new_correct[OF assms(1,2)]
  have "rb_state_inv (realloc, rb)" using assms(3,4) new(1) by (simp add: rb_state_inv_def)
  then have "run list_step ops (rb_state_abs (realloc, rb)) =
      (fst (run rb_step ops (realloc, rb)), rb_state_abs (snd (run rb_step ops (realloc, rb))))"
    by (rule rb.run_abs)
  then show ?thesis using new by (simp add: rb_state_abs_def)
qed

theorem ring_buffer_refines_list_witness:
  "\<exists>rb. RingBuffer_new zero_alloc 5 = Inr rb \<and>
     fst (run rb_step [Op_write [1,2,3,4,5,6], Op_consume 5, Op_write [7,8,9,10,11],
                       Op_linearize 5, Op_size] (zero_realloc, rb)) =
     [Out_bool True, Out_unit, Out_bool True, Out_bytes [6,7,8,9,10], Out_size 6]"
proof -
  let ?rb = "\<lparr>rb_buffer = replicate 64 0, rb_linear_buf = None, rb_capacity = 8, rb_mask = 7,
    rb_read_pos = 0, rb_write_pos = 0, rb_linear_buf_size = 0\<rparr>"
  have "next_power_of_2 5 = 8" by code_simp
  then have new: "RingBuffer_new zero_alloc 5 = Inr ?rb"
    by (simp add: RingBuffer_new_def zero_alloc_def)
  have "length mem = unat n" if "zero_alloc a n = Some mem" for a n mem
    using that by (auto simp: zero_alloc_def)
  from ring_buffer_refines_list[OF new this zero_realloc_spec zero_realloc_total,
      where ops = "[Op_write [1,2,3,4,5,6], Op_consume 5, Op_write [7,8,9,10,11], Op_linearize 5, Op_size]"]
  show ?thesis using new by simp
qed

text \<open>
  Construction fails with \<open>std::overflow_error\<close> exactly for a capacity above \<open>2 ^ 63\<close>.
  Otherwise it asks the allocator, 64-byte aligned, for the least power of two that is at
  least the capacity (and never for fewer than 64 bytes), and is an empty buffer of that
  capacity, or \<open>std::bad_alloc\<close> when the allocator has no memory.
\<close>

theorem RingBuffer_new_outcome:
  "if 2 ^ 63 < capacity then RingBuffer_new aligned_alloc capacity = Inl std_overflow_error
   else \<exists>c. least_pow2 (unat c) (max 1 (unat capacity)) \<and>
     (case aligned_alloc 64 (max c 64) of
        None \<Rightarrow> RingBuffer_new aligned_alloc capacity = Inl std_bad_alloc
      | Some mem \<Rightarrow>
          RingBuffer_new aligned_alloc capacity =
          Inr \<lparr>rb_buffer = mem, rb_linear_buf = None, rb_capacity = c, rb_mask = c - 1,
               rb_read_pos = 0, rb_write_pos = 0, rb_linear_buf_size = 0\<rparr>)"
proof (cases "2 ^ 63 < capacity")
  case True
  then have "\<not> capacity < 1" by auto
  then show ?thesis
    using True next_power_of_2_overflow[OF True] by (simp only: RingBuffer_new_def Let_def) simp
next
  case False
  let ?v = "if capacity < 1 then 1 else capacity :: u64"
  have "unat ?v = max 1 (unat capacity)"
    by (auto simp: word_less_nat_alt max_def)
  moreover have "?v \<le> 2 ^ 63" using False by (simp add: not_less)
  ultimately obtain k where k: "k < 64" "next_power_of_2 ?v = 2 ^ k"
    "least_pow2 (2 ^ k) (max 1 (unat capacity))"
    by (metis next_power_of_2_small)
  have nz: "next_power_of_2 ?v \<noteq> 0" unfolding k(2) using k(1) by (simp add: word_unat_eq_iff)
  have "least_pow2 (unat (next_power_of_2 ?v)) (max 1 (unat capacity))"
    unfolding k(2) using k(1,3) by simp
  moreover have "case aligned_alloc 64 (max (next_power_of_2 ?v) 64) of
        None \<Rightarrow> RingBuffer_new aligned_alloc capacity = Inl std_bad_alloc
      | Some mem \<Rightarrow>
          RingBuffer_new aligned_alloc capacity =
          Inr \<lparr>rb_buffer = mem, rb_linear_buf = None, rb_capacity = next_power_of_2 ?v,
               rb_mask = next_power_of_2 ?v - 1, rb_read_pos = 0, rb_write_pos = 0,
               rb_linear_buf_size = 0\<rparr>"
    unfolding RingBuffer_new_def Let_def using nz by (simp only: if_False split: option.split) simp
  ultimately show ?thesis by (simp only: False if_False) blast
qed

end
