(* ===== verification/Wire_Header.thy ===== *)
theory Wire_Header
  imports Prelude
begin

text \<open>
  \<open>apex_core/src/wire_header.cpp\<close>: the fixed 12-byte header of every client frame. The
  host is little-endian (the source has a \<open>static_assert\<close>), so a field is a little-endian
  load or store composed with a byte swap. The theory also holds the interface every
  fixed-size header codec of the program satisfies, \<open>header_codec\<close>.
\<close>

record WireHeader =
  wh_version :: u8
  wh_flags :: u8
  wh_msg_id :: u32
  wh_body_size :: u32
  wh_reserved :: u16

definition WireHeader_SIZE :: nat where
  "WireHeader_SIZE = 12"

definition CURRENT_VERSION :: u8 where
  "CURRENT_VERSION = 2"

definition MAX_BODY_SIZE :: u32 where
  "MAX_BODY_SIZE = 16 * 1024 * 1024"

definition flag_COMPRESSED :: u8 where "flag_COMPRESSED = 0x01"
definition flag_HEARTBEAT :: u8 where "flag_HEARTBEAT = 0x02"
definition flag_ERROR_RESPONSE :: u8 where "flag_ERROR_RESPONSE = 0x04"
definition flag_REQUIRE_AUTH_CHECK :: u8 where "flag_REQUIRE_AUTH_CHECK = 0x08"

definition hton16 :: "u16 \<Rightarrow> u16" where "hton16 v = bswap 2 v"
definition hton32 :: "u32 \<Rightarrow> u32" where "hton32 v = bswap 4 v"
definition ntoh16 :: "u16 \<Rightarrow> u16" where "ntoh16 v = hton16 v"
definition ntoh32 :: "u32 \<Rightarrow> u32" where "ntoh32 v = hton32 v"

definition WireHeader_parse :: "bytes \<Rightarrow> WireHeader result" where
  "WireHeader_parse data =
     (if length data < WireHeader_SIZE then Inl InsufficientData
      else let version = data ! 0 in
      if version \<noteq> CURRENT_VERSION then Inl UnsupportedProtocolVersion
      else let flags = data ! 1;
               msg_id = ntoh32 (le_load (subspan data 2 4));
               body_size = ntoh32 (le_load (subspan data 6 4));
               reserved = ntoh16 (le_load (subspan data 10 2))
      in if MAX_BODY_SIZE < body_size then Inl BodyTooLarge
         else Inr \<lparr>wh_version = version, wh_flags = flags, wh_msg_id = msg_id,
                   wh_body_size = body_size, wh_reserved = reserved\<rparr>)"

text \<open>\<open>serialize(span)\<close>, into a span of exactly 12 bytes, and \<open>serialize()\<close>.\<close>

definition WireHeader_serialize_to :: "bytes \<Rightarrow> WireHeader \<Rightarrow> bytes" where
  "WireHeader_serialize_to out h =
     (let out = out[0 := wh_version h];
          out = out[1 := wh_flags h];
          out = memcpy out 2 (le_store 4 (hton32 (wh_msg_id h)));
          out = memcpy out 6 (le_store 4 (hton32 (wh_body_size h)));
          out = memcpy out 10 (le_store 2 (hton16 (wh_reserved h)))
      in out)"

definition WireHeader_serialize :: "WireHeader \<Rightarrow> bytes" where
  "WireHeader_serialize h = WireHeader_serialize_to (replicate WireHeader_SIZE 0) h"

definition frame_size :: "WireHeader \<Rightarrow> u64" where
  "frame_size h = of_nat WireHeader_SIZE + ucast (wh_body_size h)"

section \<open>Fixed-size header codecs\<close>

text \<open>
  What the program relies on for each of its fixed-size headers: the encoding has the
  header's size, decoding reads only that prefix and inverts encoding on valid headers,
  and only encodings of valid headers decode.
\<close>

locale header_codec =
  fixes hsize :: nat
    and valid :: "'h \<Rightarrow> bool"
    and ser :: "'h \<Rightarrow> bytes"
    and par :: "bytes \<Rightarrow> 'err + 'h"
  assumes length_ser: "length (ser h) = hsize"
    and par_ser: "valid h \<Longrightarrow> par (ser h @ rest) = Inr h"
    and ser_par: "par bs = Inr h \<Longrightarrow> valid h \<and> hsize \<le> length bs \<and> ser h = take hsize bs"
begin

lemma par_split: "par bs = Inr h \<Longrightarrow> bs = ser h @ drop hsize bs"
  using ser_par[of bs h] by (metis append_take_drop_id)

lemma par_iff: "par bs = Inr h \<longleftrightarrow> valid h \<and> (\<exists>rest. bs = ser h @ rest)"
  using par_split ser_par par_ser by blast

lemma ser_inj: "valid h \<Longrightarrow> valid h' \<Longrightarrow> ser h @ r = ser h' @ r' \<Longrightarrow> h = h' \<and> r = r'"
  using par_ser[of h r] par_ser[of h' r'] by (metis length_ser append_eq_append_conv sum.inject(2))

lemma par_prefix: "par bs = Inr h \<Longrightarrow> par (bs @ extra) = Inr h"
  by (auto simp: par_iff)

lemma par_take: "hsize \<le> n \<Longrightarrow> par bs = Inr h \<Longrightarrow> par (take n bs) = Inr h"
  by (auto simp: par_iff length_ser)

end

section \<open>The wire header\<close>

definition wire_header_valid :: "WireHeader \<Rightarrow> bool" where
  "wire_header_valid h \<longleftrightarrow> wh_version h = CURRENT_VERSION \<and> wh_body_size h \<le> MAX_BODY_SIZE"

text \<open>The layout as the header file documents it: big-endian fields one after the other.\<close>

lemma WireHeader_serialize_layout:
  "WireHeader_serialize h =
     [wh_version h, wh_flags h] @ rev (le_store 4 (wh_msg_id h)) @
     rev (le_store 4 (wh_body_size h)) @ rev (le_store 2 (wh_reserved h))"
proof -
  have len: "length (rev (le_store 4 (wh_msg_id h))) = 4"
    "length (rev (le_store 4 (wh_body_size h))) = 4"
    "length (rev (le_store 2 (wh_reserved h))) = 2" by simp_all
  have z: "replicate WireHeader_SIZE (0 :: u8) = [0,0] @ replicate 4 0 @ replicate 4 0 @ replicate 2 0"
    by (simp add: WireHeader_SIZE_def numeral_eq_Suc)
  show ?thesis
    using len
    by (simp add: WireHeader_serialize_def WireHeader_serialize_to_def z hton32_def hton16_def
        le_store_bswap memcpy_def Let_def)
qed

lemma length_WireHeader_serialize [simp]: "length (WireHeader_serialize h) = 12"
  by (simp add: WireHeader_serialize_layout)

lemma WireHeader_parse_fields:
  "WireHeader_parse ([v, f] @ rev (le_store 4 (m :: u32)) @ rev (le_store 4 (b :: u32)) @
     rev (le_store 2 (r :: u16)) @ rest) =
   (if v \<noteq> CURRENT_VERSION then Inl UnsupportedProtocolVersion
    else if MAX_BODY_SIZE < b then Inl BodyTooLarge
    else Inr \<lparr>wh_version = v, wh_flags = f, wh_msg_id = m, wh_body_size = b, wh_reserved = r\<rparr>)"
proof -
  define bs where "bs = [v, f] @ rev (le_store 4 m) @ rev (le_store 4 b) @ rev (le_store 2 r) @ rest"
  have spans: "subspan bs 2 4 = rev (le_store 4 m)" "subspan bs 6 4 = rev (le_store 4 b)"
    "subspan bs 10 2 = rev (le_store 2 r)" by (simp_all add: bs_def subspan_def)
  have "ntoh32 (le_load (subspan bs 2 4)) = m" "ntoh32 (le_load (subspan bs 6 4)) = b"
    "ntoh16 (le_load (subspan bs 10 2)) = r"
    unfolding spans by (simp_all add: ntoh32_def ntoh16_def hton32_def hton16_def bswap_def[symmetric])
  moreover have "bs ! 0 = v" "bs ! 1 = f" "12 \<le> length bs" by (simp_all add: bs_def)
  ultimately have "WireHeader_parse bs =
     (if v \<noteq> CURRENT_VERSION then Inl UnsupportedProtocolVersion
      else if MAX_BODY_SIZE < b then Inl BodyTooLarge
      else Inr \<lparr>wh_version = v, wh_flags = f, wh_msg_id = m, wh_body_size = b, wh_reserved = r\<rparr>)"
    by (simp add: WireHeader_parse_def Let_def WireHeader_SIZE_def)
  then show ?thesis by (simp only: bs_def)
qed

lemma be_field:
  assumes "length s = n" and "8 * n = LENGTH('a::len)"
  shows "\<exists>x :: 'a word. s = rev (le_store n x)"
proof
  show "s = rev (le_store n (le_load (rev s) :: 'a word))"
    using le_store_load[where 'a = 'a, of "rev s"] assms by simp
qed

text \<open>Every string of at least 12 bytes is two bytes and three big-endian fields.\<close>

lemma be_fields:
  assumes "12 \<le> length bs"
  obtains v f and m b :: u32 and r :: u16 and rest where
    "bs = [v, f] @ rev (le_store 4 m) @ rev (le_store 4 b) @ rev (le_store 2 r) @ rest"
proof -
  have "bs = take 2 bs @ subspan bs 2 4 @ subspan bs 6 4 @ subspan bs 10 2 @ drop 12 bs"
    using drop_subspan[of 2 bs 4] drop_subspan[of 6 bs 4] drop_subspan[of 10 bs 2]
      append_take_drop_id[of 2 bs] by simp
  moreover have "take 2 bs = [bs ! 0, bs ! 1]"
    using assms by (intro nth_equalityI) (auto simp: less_2_cases_iff)
  moreover obtain m :: u32 where "subspan bs 2 4 = rev (le_store 4 m)"
    using be_field[where 'a = 32, of "subspan bs 2 4" 4] assms by (auto simp: subspan_def)
  moreover obtain b :: u32 where "subspan bs 6 4 = rev (le_store 4 b)"
    using be_field[where 'a = 32, of "subspan bs 6 4" 4] assms by (auto simp: subspan_def)
  moreover obtain r :: u16 where "subspan bs 10 2 = rev (le_store 2 r)"
    using be_field[where 'a = 16, of "subspan bs 10 2" 2] assms by (auto simp: subspan_def)
  ultimately show thesis using that by metis
qed

interpretation wire: header_codec 12 wire_header_valid WireHeader_serialize WireHeader_parse
proof
  fix h rest show "length (WireHeader_serialize h) = 12" by simp
  show "wire_header_valid h \<Longrightarrow> WireHeader_parse (WireHeader_serialize h @ rest) = Inr h"
    using WireHeader_parse_fields[of "wh_version h" "wh_flags h" "wh_msg_id h" "wh_body_size h"
        "wh_reserved h" rest]
    by (simp add: WireHeader_serialize_layout wire_header_valid_def not_less)
next
  fix bs h assume p: "WireHeader_parse bs = Inr h"
  then have len: "12 \<le> length bs"
    by (auto simp: WireHeader_parse_def WireHeader_SIZE_def Let_def split: if_splits)
  then obtain v f and m b :: u32 and r :: u16 and rest where
    bs: "bs = [v, f] @ rev (le_store 4 m) @ rev (le_store 4 b) @ rev (le_store 2 r) @ rest"
    by (rule be_fields)
  from p have "wire_header_valid h"
    and "h = \<lparr>wh_version = v, wh_flags = f, wh_msg_id = m, wh_body_size = b, wh_reserved = r\<rparr>"
    unfolding bs WireHeader_parse_fields by (auto simp: wire_header_valid_def split: if_splits)
  then show "wire_header_valid h \<and> 12 \<le> length bs \<and> WireHeader_serialize h = take 12 bs"
    using len by (simp add: WireHeader_serialize_layout bs)
qed

lemma WireHeader_parse_short: "length data < 12 \<Longrightarrow> WireHeader_parse data = Inl InsufficientData"
  by (simp add: WireHeader_parse_def WireHeader_SIZE_def)

lemma WireHeader_parse_append:
  "12 \<le> length bs \<Longrightarrow> WireHeader_parse (bs @ rest) = WireHeader_parse bs"
  by (erule be_fields) (simp add: WireHeader_parse_fields del: append_Cons)

lemma WireHeader_parse_take: "12 \<le> length bs \<Longrightarrow> WireHeader_parse (take 12 bs) = WireHeader_parse bs"
  using WireHeader_parse_append[of "take 12 bs" "drop 12 bs"] by simp

lemma WireHeader_parse_not_short:
  "12 \<le> length bs \<Longrightarrow> WireHeader_parse bs \<noteq> Inl InsufficientData"
  by (simp add: WireHeader_parse_def WireHeader_SIZE_def Let_def)

lemma unat_frame_size: "unat (frame_size h) = 12 + unat (wh_body_size h)"
proof -
  have "unat (wh_body_size h) < 2 ^ 32" using unat_lt2p[of "wh_body_size h"] by simp
  then show ?thesis
    by (simp add: frame_size_def WireHeader_SIZE_def unat_add_small unat_ucast_up)
qed

text \<open>
  \<open>WireHeader::parse\<close> accepts exactly the strings that start with the serialization of
  a header of the current version whose body size is at most 16 MB, and returns that header.
\<close>

theorem wire_header_parse_serialize:
  "WireHeader_parse bs = Inr h \<longleftrightarrow>
     wh_version h = CURRENT_VERSION \<and> wh_body_size h \<le> MAX_BODY_SIZE \<and>
     (\<exists>rest. bs = WireHeader_serialize h @ rest)"
  using wire.par_iff[of bs h] by (simp add: wire_header_valid_def)

end
