(* ===== verification/Frame_Codec.thy ===== *)
theory Frame_Codec
  imports Ring_Buffer Wire_Header
begin

text \<open>
  \<open>apex_core/src/frame_codec.cpp\<close>: frames (a wire header and its body) in a ring buffer.
  The payload of a decoded \<open>Frame\<close> is a span that is valid until the buffer changes; the
  model takes the bytes it denotes when it is returned.

  \<open>try_decode\<close> copies the header out of \<open>linearize(12)\<close> without looking whether the span
  is empty. When \<open>realloc\<close> fails there, the code copies from a null pointer: the outcome
  \<open>None\<close>. Every other outcome is \<open>Some\<close> of a \<open>Result\<close>.
\<close>

record Frame =
  frame_header :: WireHeader
  frame_payload :: bytes

definition span_is_empty :: "rb_span \<Rightarrow> bool" where
  "span_is_empty sp \<longleftrightarrow>
     (case sp of Span_empty \<Rightarrow> True | Span_buffer off n \<Rightarrow> n = 0 | Span_linear n \<Rightarrow> n = 0)"

definition FrameCodec_try_decode ::
  "(bytes option \<Rightarrow> u64 \<Rightarrow> bytes option) \<Rightarrow> RingBuffer \<Rightarrow> Frame result option \<times> RingBuffer" where
  "FrameCodec_try_decode realloc buf =
     (if readable_size buf < of_nat WireHeader_SIZE then (Some (Inl InsufficientData), buf)
      else let (hdr_span, buf) = linearize realloc buf (of_nat WireHeader_SIZE) in
      if hdr_span = Span_empty then (None, buf)
      else let hdr_buf = span_bytes buf hdr_span in
      case WireHeader_parse hdr_buf of
        Inl err \<Rightarrow> (Some (Inl err), buf)
      | Inr header \<Rightarrow>
          let total = frame_size header in
          if readable_size buf < total then (Some (Inl InsufficientData), buf)
          else let (frame_span, buf) = linearize realloc buf total in
          if span_is_empty frame_span then (Some (Inl InsufficientData), buf)
          else let payload = subspan (span_bytes buf frame_span) WireHeader_SIZE
                               (unat (wh_body_size header))
               in (Some (Inr \<lparr>frame_header = header, frame_payload = payload\<rparr>), buf))"

definition FrameCodec_consume_frame :: "RingBuffer \<Rightarrow> Frame \<Rightarrow> RingBuffer" where
  "FrameCodec_consume_frame buf frame = consume buf (frame_size (frame_header frame))"

text \<open>The two loops of \<open>encode\<close>: fill the writable span, commit, until all is written.\<close>

function write_loop :: "RingBuffer \<Rightarrow> bytes \<Rightarrow> bool \<times> RingBuffer" where
  "write_loop buf src =
     (if src = [] then (True, buf)
      else let n = unat (snd (writable buf)) in
      if n = 0 then (False, buf)
      else let to_write = min n (length src)
           in write_loop (put buf (take to_write src)) (drop to_write src))"
  by pat_completeness auto
termination
  by (relation "measure (\<lambda>(buf, src). length src)") auto

declare write_loop.simps [simp del]

definition FrameCodec_encode :: "RingBuffer \<Rightarrow> WireHeader \<Rightarrow> bytes \<Rightarrow> bool \<times> RingBuffer" where
  "FrameCodec_encode buf header payload =
     (if wh_body_size header \<noteq> of_nat (length payload) then (False, buf)
      else let total = WireHeader_SIZE + length payload in
      if unat (writable_size buf) < total then (False, buf)
      else let (ok, buf) = write_loop buf (WireHeader_serialize header) in
      if \<not> ok then (False, buf) else write_loop buf payload)"

text \<open>\<open>encode_to\<close>: the number of bytes written and the output span after the call.\<close>

definition FrameCodec_encode_to :: "bytes \<Rightarrow> WireHeader \<Rightarrow> bytes \<Rightarrow> nat \<times> bytes" where
  "FrameCodec_encode_to out header payload =
     (if wh_body_size header \<noteq> of_nat (length payload) then (0, out)
      else let total = WireHeader_SIZE + length payload in
      if length out < total then (0, out)
      else let out = memcpy out 0 (WireHeader_serialize header);
               out = (if payload \<noteq> [] then memcpy out WireHeader_SIZE payload else out)
           in (total, out))"

text \<open>What decoding means on the bytes a buffer holds, and what a frame is on the wire.\<close>

definition frame_decode :: "bytes \<Rightarrow> Frame result" where
  "frame_decode bs =
     (case WireHeader_parse bs of
        Inl err \<Rightarrow> Inl err
      | Inr h \<Rightarrow> if length bs < 12 + unat (wh_body_size h) then Inl InsufficientData
               else Inr \<lparr>frame_header = h, frame_payload = subspan bs 12 (unat (wh_body_size h))\<rparr>)"

definition frame_valid :: "Frame \<Rightarrow> bool" where
  "frame_valid f \<longleftrightarrow> wire_header_valid (frame_header f) \<and>
     length (frame_payload f) = unat (wh_body_size (frame_header f))"

definition frame_bytes :: "Frame \<Rightarrow> bytes" where
  "frame_bytes f = WireHeader_serialize (frame_header f) @ frame_payload f"

section \<open>Decoding\<close>

lemma frame_decode_iff:
  "frame_decode bs = Inr f \<longleftrightarrow> frame_valid f \<and> (\<exists>rest. bs = frame_bytes f @ rest)"
proof
  assume d: "frame_decode bs = Inr f"
  then obtain h where p: "WireHeader_parse bs = Inr h"
    and len: "12 + unat (wh_body_size h) \<le> length bs"
    and f: "f = \<lparr>frame_header = h, frame_payload = subspan bs 12 (unat (wh_body_size h))\<rparr>"
    by (auto simp: frame_decode_def split: sum.splits if_splits)
  from wire.par_split[OF p] have "bs = WireHeader_serialize h @ drop 12 bs" .
  also have "drop 12 bs = frame_payload f @ drop (12 + unat (wh_body_size h)) bs"
    using drop_subspan[of 12 bs "unat (wh_body_size h)"] by (simp add: f)
  finally have "bs = frame_bytes f @ drop (12 + unat (wh_body_size h)) bs"
    by (simp add: frame_bytes_def f)
  moreover have "frame_valid f"
    using wire.ser_par[OF p] len by (simp add: frame_valid_def f subspan_def)
  ultimately show "frame_valid f \<and> (\<exists>rest. bs = frame_bytes f @ rest)" by blast
next
  assume "frame_valid f \<and> (\<exists>rest. bs = frame_bytes f @ rest)"
  then obtain rest where v: "frame_valid f" and bs: "bs = frame_bytes f @ rest" by blast
  then have "WireHeader_parse bs = Inr (frame_header f)"
    by (simp add: frame_bytes_def frame_valid_def wire.par_ser)
  then show "frame_decode bs = Inr f"
    using v by (simp add: frame_decode_def bs frame_bytes_def frame_valid_def subspan_def)
qed

lemma length_frame_bytes:
  "frame_valid f \<Longrightarrow> length (frame_bytes f) = unat (frame_size (frame_header f))"
  by (simp add: frame_bytes_def frame_valid_def unat_frame_size)

text \<open>Neither a decoded frame nor an error other than missing data is changed by more input.\<close>

lemma frame_decode_append:
  assumes "frame_decode bs \<noteq> Inl InsufficientData"
  shows "frame_decode (bs @ extra) = frame_decode bs"
proof -
  have "12 \<le> length bs"
    using assms by (cases "length bs < 12") (simp_all add: frame_decode_def WireHeader_parse_short)
  then have "WireHeader_parse (bs @ extra) = WireHeader_parse bs" by (rule WireHeader_parse_append)
  then show ?thesis
    using assms by (auto simp: frame_decode_def subspan_def split: sum.splits if_splits)
qed

lemma FrameCodec_try_decode_correct:
  assumes inv: "rb_inv buf" and spec: "realloc_spec realloc" and mem: "\<And>old n. realloc old n \<noteq> None"
    and dec: "FrameCodec_try_decode realloc buf = (res, buf')"
  shows "res = Some (frame_decode (rb_contents buf))" and "rb_inv buf'"
    and "rb_contents buf' = rb_contents buf" and "rb_capacity buf' = rb_capacity buf"
proof -
  have 12: "unat (of_nat WireHeader_SIZE :: u64) = 12" by (simp add: WireHeader_SIZE_def)
  have "res = Some (frame_decode (rb_contents buf)) \<and> rb_inv buf' \<and>
    rb_contents buf' = rb_contents buf \<and> rb_capacity buf' = rb_capacity buf"
  proof (cases "readable_size buf < of_nat WireHeader_SIZE")
    case True
    then have "length (rb_contents buf) < 12" by (simp add: word_less_nat_alt 12)
    with True dec inv show ?thesis
      by (simp add: FrameCodec_try_decode_def frame_decode_def WireHeader_parse_short)
  next
    case False
    then have len: "12 \<le> length (rb_contents buf)" by (simp add: word_less_nat_alt 12 not_less)
    obtain sp1 buf1 where lin1: "linearize realloc buf (of_nat WireHeader_SIZE) = (sp1, buf1)"
      by (cases "linearize realloc buf (of_nat WireHeader_SIZE)")
    with linearize_correct[OF inv spec lin1] False mem
    have one: "span_bytes buf1 sp1 = take 12 (rb_contents buf)" "sp1 \<noteq> Span_empty" "rb_inv buf1"
      "rb_contents buf1 = rb_contents buf" "rb_capacity buf1 = rb_capacity buf"
      "readable_size buf1 = readable_size buf" by (auto simp: 12)
    show ?thesis
    proof (cases "WireHeader_parse (rb_contents buf)")
      case (Inl err)
      with False dec one len show ?thesis
        by (simp add: FrameCodec_try_decode_def lin1 WireHeader_parse_take frame_decode_def Let_def)
    next
      case (Inr h)
      show ?thesis
      proof (cases "readable_size buf1 < frame_size h")
        case True
        then have "length (rb_contents buf) < 12 + unat (wh_body_size h)"
          using one(6) by (simp add: word_less_nat_alt unat_frame_size)
        with Inr True False dec one len show ?thesis
          by (simp add: FrameCodec_try_decode_def lin1 WireHeader_parse_take frame_decode_def Let_def)
      next
        case total: False
        then have len2: "12 + unat (wh_body_size h) \<le> length (rb_contents buf)"
          using one(6) by (simp add: word_less_nat_alt unat_frame_size not_less)
        obtain sp2 buf2 where lin2: "linearize realloc buf1 (frame_size h) = (sp2, buf2)"
          by (cases "linearize realloc buf1 (frame_size h)")
        from linearize_correct[OF one(3) spec lin2] total mem one(4,5)
        have two: "span_bytes buf2 sp2 = take (12 + unat (wh_body_size h)) (rb_contents buf)"
          "sp2 \<noteq> Span_empty" "rb_inv buf2" "rb_contents buf2 = rb_contents buf"
          "rb_capacity buf2 = rb_capacity buf" by (auto simp: unat_frame_size)
        have "length (span_bytes buf2 sp2) = 12 + unat (wh_body_size h)"
          using len2 by (simp add: two(1))
        then have "span_bytes buf2 sp2 \<noteq> []" by auto
        then have "\<not> span_is_empty sp2"
          by (auto simp: span_is_empty_def span_bytes_def subspan_def split: rb_span.splits option.splits)
        with Inr total False one two len
        have "FrameCodec_try_decode realloc buf =
          (Some (Inr \<lparr>frame_header = h, frame_payload =
             subspan (span_bytes buf2 sp2) WireHeader_SIZE (unat (wh_body_size h))\<rparr>), buf2)"
          by (simp add: FrameCodec_try_decode_def lin1 lin2 WireHeader_parse_take Let_def)
        with dec Inr two len2 show ?thesis
          by (auto simp: frame_decode_def WireHeader_SIZE_def subspan_def drop_take)
      qed
    qed
  qed
  then show "res = Some (frame_decode (rb_contents buf))" and "rb_inv buf'"
    and "rb_contents buf' = rb_contents buf" and "rb_capacity buf' = rb_capacity buf" by blast+
qed

section \<open>Encoding\<close>

lemma write_loop_correct:
  "rb_inv buf \<Longrightarrow> length src \<le> unat (writable_size buf) \<Longrightarrow>
   fst (write_loop buf src) \<and> rb_inv (snd (write_loop buf src)) \<and>
   rb_contents (snd (write_loop buf src)) = rb_contents buf @ src \<and>
   rb_capacity (snd (write_loop buf src)) = rb_capacity buf"
proof (induction buf src rule: write_loop.induct)
  case (1 buf src)
  show ?case
  proof (cases "src = []")
    case True
    then have "write_loop buf src = (True, buf)" by (subst write_loop.simps) simp
    with True "1.prems" show ?thesis by simp
  next
    case False
    let ?n = "unat (snd (writable buf))" and ?m = "min (unat (snd (writable buf))) (length src)"
    from False "1.prems"(2) have "writable_size buf \<noteq> 0" by auto
    with "1.prems"(1) have n: "?n \<noteq> 0" using writable_span(3) by blast
    have m: "length (take ?m src) = ?m" by simp
    then have "length (take ?m src) \<le> ?n" by linarith
    note p = put_correct[OF "1.prems"(1) this]
    have "unat (writable_size (put buf (take ?m src))) = unat (writable_size buf) - ?m"
      using unat_writable_size[OF p(1)] unat_writable_size[OF "1.prems"(1)] p(3,4) m by simp
    then have "length (drop ?m src) \<le> unat (writable_size (put buf (take ?m src)))"
      using "1.prems"(2) by simp
    note ih = "1.IH"[OF False refl n refl p(1) this]
    have "write_loop buf src = write_loop (put buf (take ?m src)) (drop ?m src)"
      by (subst write_loop.simps) (simp add: False n Let_def)
    with ih p(2,4) show ?thesis by (simp only: append.assoc append_take_drop_id)
  qed
qed

lemma FrameCodec_encode_correct:
  assumes inv: "rb_inv buf" and size: "wh_body_size h = of_nat (length payload)"
    and fit: "12 + length payload \<le> unat (writable_size buf)"
    and enc: "FrameCodec_encode buf h payload = (ok, buf')"
  shows "ok" and "rb_inv buf'"
    and "rb_contents buf' = rb_contents buf @ WireHeader_serialize h @ payload"
proof -
  obtain ok1 b1 where w1: "write_loop buf (WireHeader_serialize h) = (ok1, b1)"
    by (cases "write_loop buf (WireHeader_serialize h)")
  have one: "ok1" "rb_inv b1" "rb_contents b1 = rb_contents buf @ WireHeader_serialize h"
    "rb_capacity b1 = rb_capacity buf"
    using write_loop_correct[OF inv, of "WireHeader_serialize h"] fit by (simp_all add: w1)
  have "unat (readable_size b1) = unat (readable_size buf) + 12"
    using arg_cong[OF one(3), of length] by simp
  then have fit2: "length payload \<le> unat (writable_size b1)"
    using unat_writable_size[OF one(2)] unat_writable_size[OF inv] one(4) fit by simp
  have "FrameCodec_encode buf h payload = write_loop b1 payload"
    using size fit one(1) by (simp add: FrameCodec_encode_def WireHeader_SIZE_def w1)
  with write_loop_correct[OF one(2) fit2] one(3) enc show "ok" and "rb_inv buf'"
    and "rb_contents buf' = rb_contents buf @ WireHeader_serialize h @ payload" by simp_all
qed


lemma FrameCodec_encode_to_correct:
  assumes "wh_body_size h = of_nat (length payload)" and "12 + length payload \<le> length out"
  shows "FrameCodec_encode_to out h payload =
    (12 + length payload,
     WireHeader_serialize h @ payload @ drop (12 + length payload) out)"
proof -
  have "take 12 (WireHeader_serialize h @ drop 12 out) = WireHeader_serialize h" by simp
  with assms show ?thesis
    by (simp add: FrameCodec_encode_to_def memcpy_def WireHeader_SIZE_def Let_def add.commute)
qed

text \<open>
  C17: Encoding a frame into an empty ring buffer with room for it and decoding it back gives
  the same header and payload, and consuming the decoded frame leaves the buffer empty. The
  room may wrap around the end of the ring at any byte of the header or the body.
\<close>

theorem frame_codec_roundtrip:
  assumes "rb_inv buf" and "rb_contents buf = []" and "frame_valid f"
    and "unat (frame_size (frame_header f)) \<le> unat (rb_capacity buf)"
    and "realloc_spec realloc" and "\<And>old n. realloc old n \<noteq> None"
    and "FrameCodec_encode buf (frame_header f) (frame_payload f) = (ok, buf1)"
    and "FrameCodec_try_decode realloc buf1 = (res, buf2)"
  shows "ok \<and> res = Some (Inr f) \<and> rb_contents (FrameCodec_consume_frame buf2 f) = []"
proof -
  have len: "length (frame_payload f) = unat (wh_body_size (frame_header f))"
    using assms(3) by (simp add: frame_valid_def)
  have fit: "12 + length (frame_payload f) \<le> unat (writable_size buf)"
    using assms(2,4) unat_writable_size[OF assms(1)] length_rb_contents[of buf] len
    by (simp add: unat_frame_size)
  have "wh_body_size (frame_header f) = of_nat (length (frame_payload f))" by (simp add: len)
  note enc = FrameCodec_encode_correct[OF assms(1) this fit assms(7)]
  then have cont: "rb_contents buf1 = frame_bytes f @ []"
    using assms(2) by (simp add: frame_bytes_def)
  then have "frame_decode (rb_contents buf1) = Inr f" using assms(3) frame_decode_iff by blast
  with FrameCodec_try_decode_correct[OF enc(2) assms(5,6,8)]
  have "res = Some (Inr f)" and inv2: "rb_inv buf2" and "rb_contents buf2 = frame_bytes f"
    using cont by simp_all
  moreover have "rb_contents (FrameCodec_consume_frame buf2 f) =
      drop (unat (frame_size (frame_header f))) (frame_bytes f)"
    using consume_correct(2)[OF inv2] \<open>rb_contents buf2 = frame_bytes f\<close>
    by (simp add: FrameCodec_consume_frame_def)
  ultimately show ?thesis using enc(1) length_frame_bytes[OF assms(3)] by simp
qed

theorem frame_codec_roundtrip_witness:
  "\<exists>ok buf1 res buf2.
     (let f = \<lparr>frame_header = \<lparr>wh_version = 2, wh_flags = 0, wh_msg_id = 7, wh_body_size = 2,
                              wh_reserved = 0\<rparr>, frame_payload = [65, 66]\<rparr>;
          buf = \<lparr>rb_buffer = replicate 64 0, rb_linear_buf = None, rb_capacity = 16, rb_mask = 15,
                 rb_read_pos = 9, rb_write_pos = 9, rb_linear_buf_size = 0\<rparr>
      in FrameCodec_encode buf (frame_header f) (frame_payload f) = (ok, buf1) \<and>
         FrameCodec_try_decode zero_realloc buf1 = (res, buf2) \<and>
         ok \<and> res = Some (Inr f) \<and> rb_contents (FrameCodec_consume_frame buf2 f) = [])"
proof -
  let ?f = "\<lparr>frame_header = \<lparr>wh_version = 2, wh_flags = 0, wh_msg_id = 7, wh_body_size = 2,
    wh_reserved = 0\<rparr>, frame_payload = [65, 66]\<rparr>"
  let ?buf = "\<lparr>rb_buffer = replicate 64 0, rb_linear_buf = None, rb_capacity = 16, rb_mask = 15,
    rb_read_pos = 9, rb_write_pos = 9, rb_linear_buf_size = 0\<rparr>"
  have inv: "rb_inv ?buf" by (auto simp: rb_inv_def readable_size_def intro: exI[of _ 4])
  have cont: "rb_contents ?buf = []" by (simp add: rb_contents_def readable_size_def)
  have valid: "frame_valid ?f"
    by (simp add: frame_valid_def wire_header_valid_def CURRENT_VERSION_def MAX_BODY_SIZE_def)
  have size: "unat (frame_size (frame_header ?f)) \<le> unat (rb_capacity ?buf)"
    by (simp add: unat_frame_size)
  obtain ok buf1 where enc: "FrameCodec_encode ?buf (frame_header ?f) (frame_payload ?f) = (ok, buf1)"
    by (cases "FrameCodec_encode ?buf (frame_header ?f) (frame_payload ?f)")
  obtain res buf2 where dec: "FrameCodec_try_decode zero_realloc buf1 = (res, buf2)"
    by (cases "FrameCodec_try_decode zero_realloc buf1")
  show ?thesis
    using frame_codec_roundtrip[OF inv cont valid size zero_realloc_spec zero_realloc_total enc dec]
      enc dec unfolding Let_def by blast
qed

text \<open>
  \<open>encode_to\<close> writes header and payload at the front of the span and nothing after them,
  returning the number of bytes; it refuses, returning 0 and writing nothing, exactly when the
  header's body size is not the payload size or the span is too short.
\<close>

theorem encode_to_outcome:
  "FrameCodec_encode_to out h payload =
     (if wh_body_size h = of_nat (length payload) \<and> 12 + length payload \<le> length out
      then (12 + length payload, WireHeader_serialize h @ payload @ drop (12 + length payload) out)
      else (0, out))"
  using FrameCodec_encode_to_correct[of h payload out]
  by (cases "wh_body_size h = of_nat (length payload) \<and> 12 + length payload \<le> length out")
    (auto simp: FrameCodec_encode_to_def WireHeader_SIZE_def Let_def)

end
