(* ===== verification/Protocol.thy ===== *)
theory Protocol
  imports Frame_Codec
begin

text \<open>
  \<open>apex_core/include/apex/core/protocol.hpp\<close>: the \<open>Protocol\<close> concept, that is the interface
  between the connection handler and a wire protocol, as a locale; and its two
  implementations, \<open>TcpBinaryProtocol\<close> and \<open>WebSocketProtocol\<close>, as interpretations.

  A protocol works on a buffer together with the allocator \<open>linearize\<close> calls
  (\<open>rb_state\<close>). Its specification is a function on the received bytes.
\<close>

section \<open>TCP binary protocol\<close>

definition tcp_try_decode :: "rb_state \<Rightarrow> Frame result option \<times> rb_state" where
  "tcp_try_decode s = (let (r, buf) = FrameCodec_try_decode (fst s) (snd s) in (r, (fst s, buf)))"

definition tcp_consume_frame :: "rb_state \<Rightarrow> Frame \<Rightarrow> rb_state" where
  "tcp_consume_frame s frame = (fst s, FrameCodec_consume_frame (snd s) frame)"

section \<open>WebSocket protocol\<close>

text \<open>
  \<open>apex_shared/lib/protocols/websocket/src/websocket_protocol.cpp\<close>: a 4-byte little-endian
  length and the payload. Neither call of \<open>linearize\<close> is checked, so running out of memory in
  either copies from a null pointer (\<open>None\<close>).
\<close>

record WsFrame =
  ws_payload_data :: bytes
  ws_is_text :: bool
  ws_is_binary :: bool

definition ws_max_message_size :: nat where
  "ws_max_message_size = 1 * 1024 * 1024"

definition LENGTH_PREFIX_SIZE :: u64 where
  "LENGTH_PREFIX_SIZE = 4"

definition ws_try_decode :: "rb_state \<Rightarrow> WsFrame result option \<times> rb_state" where
  "ws_try_decode s =
     (let (realloc, buf) = s in
      if readable_size buf < LENGTH_PREFIX_SIZE then (Some (Inl InsufficientData), s)
      else let (header_span, buf) = linearize realloc buf LENGTH_PREFIX_SIZE in
      if header_span = Span_empty then (None, (realloc, buf))
      else let payload_size = le_load (span_bytes buf header_span) :: u32 in
      if ws_max_message_size < unat payload_size then (Some (Inl InvalidMessage), (realloc, buf))
      else let total_size = LENGTH_PREFIX_SIZE + ucast payload_size in
      if readable_size buf < total_size then (Some (Inl InsufficientData), (realloc, buf))
      else let (frame_span, buf) = linearize realloc buf total_size in
      if frame_span = Span_empty then (None, (realloc, buf))
      else (Some (Inr \<lparr>ws_payload_data = drop 4 (span_bytes buf frame_span),
                       ws_is_text = False, ws_is_binary = True\<rparr>), (realloc, buf)))"

definition ws_consume_frame :: "rb_state \<Rightarrow> WsFrame \<Rightarrow> rb_state" where
  "ws_consume_frame s frame =
     (fst s, consume (snd s) (LENGTH_PREFIX_SIZE + of_nat (length (ws_payload_data frame))))"

definition ws_decode :: "bytes \<Rightarrow> WsFrame result" where
  "ws_decode bs =
     (if length bs < 4 then Inl InsufficientData
      else let n = unat (le_load (take 4 bs) :: u32) in
      if ws_max_message_size < n then Inl InvalidMessage
      else if length bs < 4 + n then Inl InsufficientData
      else Inr \<lparr>ws_payload_data = subspan bs 4 n, ws_is_text = False, ws_is_binary = True\<rparr>)"

section \<open>The Protocol interface\<close>

text \<open>
  Decoding the bytes received so far, frame after frame, until the decoder reports an error
  (\<open>InsufficientData\<close> when it wants more): the frames, the error, and the bytes left.
\<close>

function decode_stream ::
  "(bytes \<Rightarrow> 'f result) \<Rightarrow> ('f \<Rightarrow> nat) \<Rightarrow> bytes \<Rightarrow> 'f list \<times> ErrorCode \<times> bytes" where
  "decode_stream dec fsize bs =
     (case dec bs of
        Inl err \<Rightarrow> ([], err, bs)
      | Inr f \<Rightarrow>
          if fsize f = 0 \<or> bs = [] then ([f], InvalidMessage, bs)
          else let (fs, err, rest) = decode_stream dec fsize (drop (fsize f) bs) in (f # fs, err, rest))"
  by pat_completeness auto
termination
  by (relation "measure (\<lambda>(dec, fsize, bs). length bs)") auto

declare decode_stream.simps [simp del]

locale protocol =
  fixes try_decode :: "rb_state \<Rightarrow> 'f result option \<times> rb_state"
    and consume_frame :: "rb_state \<Rightarrow> 'f \<Rightarrow> rb_state"
    and dec :: "bytes \<Rightarrow> 'f result"
    and fsize :: "'f \<Rightarrow> nat"
  assumes try_decode_spec: "rb_state_inv s \<Longrightarrow> try_decode s = (res, s') \<Longrightarrow>
      res = Some (dec (rb_contents (snd s))) \<and> rb_state_inv s' \<and>
      rb_state_abs s' = rb_state_abs s"
    and consume_spec: "rb_state_inv s \<Longrightarrow> dec (rb_contents (snd s)) = Inr f \<Longrightarrow>
      rb_state_inv (consume_frame s f) \<and>
      rb_contents (snd (consume_frame s f)) = drop (fsize f) (rb_contents (snd s))"
    and dec_size: "dec bs = Inr f \<Longrightarrow> 0 < fsize f \<and> fsize f \<le> length bs"
    and dec_append: "dec bs \<noteq> Inl InsufficientData \<Longrightarrow> dec (bs @ extra) = dec bs"
begin

lemma decode_stream_error: "dec bs = Inl err \<Longrightarrow> decode_stream dec fsize bs = ([], err, bs)"
  by (subst decode_stream.simps) simp

lemma decode_stream_frame:
  assumes "dec bs = Inr f"
  shows "decode_stream dec fsize bs =
    (let (fs, err, rest) = decode_stream dec fsize (drop (fsize f) bs) in (f # fs, err, rest))"
proof -
  have "0 < fsize f" "bs \<noteq> []" using dec_size[OF assms] by auto
  then show ?thesis by (subst decode_stream.simps) (simp add: assms)
qed

lemma decode_stream_induct [case_names error frame]:
  assumes "\<And>bs err. dec bs = Inl err \<Longrightarrow> P bs"
    and "\<And>bs f. dec bs = Inr f \<Longrightarrow> P (drop (fsize f) bs) \<Longrightarrow> P bs"
  shows "P bs"
proof (induction bs rule: length_induct)
  case (1 bs)
  show ?case
  proof (cases "dec bs")
    case (Inl err)
    then show ?thesis by (rule assms(1))
  next
    case (Inr f)
    then have "length (drop (fsize f) bs) < length bs" using dec_size by fastforce
    with 1 Inr show ?thesis by (blast intro: assms(2))
  qed
qed

lemma decode_stream_rest:
  "decode_stream dec fsize bs = (fs, err, rest) \<Longrightarrow> dec rest = Inl err"
proof (induction bs arbitrary: fs rule: decode_stream_induct)
  case (error bs e)
  then show ?case by (simp add: decode_stream_error)
next
  case (frame bs f)
  then show ?case by (auto simp: decode_stream_frame split: prod.splits)
qed

text \<open>The frames do not depend on how the stream was cut into reads: decoding one part, then
  the bytes left followed by the next part, gives the frames of the whole.\<close>

lemma decode_stream_append:
  assumes "decode_stream dec fsize xs = (fs, InsufficientData, rest)"
    and "decode_stream dec fsize (rest @ ys) = (gs, err, rest')"
  shows "decode_stream dec fsize (xs @ ys) = (fs @ gs, err, rest')"
  using assms
proof (induction xs arbitrary: fs rule: decode_stream_induct)
  case (error bs e)
  then show ?case by (simp add: decode_stream_error)
next
  case (frame bs f)
  obtain fs' where fs: "fs = f # fs'"
    and rec: "decode_stream dec fsize (drop (fsize f) bs) = (fs', InsufficientData, rest)"
    using frame.prems(1) by (auto simp: decode_stream_frame[OF frame.hyps] split: prod.splits)
  have dec: "dec (bs @ ys) = Inr f" using frame.hyps by (simp add: dec_append)
  have "drop (fsize f) (bs @ ys) = drop (fsize f) bs @ ys" using dec_size[OF frame.hyps] by simp
  with frame.IH[OF rec frame.prems(2)] show ?case by (simp add: decode_stream_frame[OF dec] fs)
qed

text \<open>A protocol error other than missing data is final.\<close>

lemma decode_stream_fatal:
  assumes "decode_stream dec fsize xs = (fs, err, rest)" and "err \<noteq> InsufficientData"
  shows "decode_stream dec fsize (xs @ ys) = (fs, err, rest @ ys)"
  using assms
proof (induction xs arbitrary: fs rule: decode_stream_induct)
  case (error bs e)
  then show ?case using dec_append[of bs ys] by (simp add: decode_stream_error)
next
  case (frame bs f)
  obtain fs' where fs: "fs = f # fs'"
    and rec: "decode_stream dec fsize (drop (fsize f) bs) = (fs', err, rest)"
    using frame.prems(1) by (auto simp: decode_stream_frame[OF frame.hyps] split: prod.splits)
  have dec: "dec (bs @ ys) = Inr f" using frame.hyps by (simp add: dec_append)
  have "drop (fsize f) (bs @ ys) = drop (fsize f) bs @ ys" using dec_size[OF frame.hyps] by simp
  with frame.IH[OF rec frame.prems(2)] show ?case by (simp add: decode_stream_frame[OF dec] fs)
qed

end


section \<open>The two protocols implement the interface\<close>

interpretation tcp: protocol tcp_try_decode tcp_consume_frame frame_decode
  "\<lambda>f. unat (frame_size (frame_header f))"
proof
  fix s res s' assume inv: "rb_state_inv s" and dec: "tcp_try_decode s = (res, s')"
  obtain r buf' where fc: "FrameCodec_try_decode (fst s) (snd s) = (r, buf')"
    by (cases "FrameCodec_try_decode (fst s) (snd s)")
  from inv have "rb_inv (snd s)" "realloc_spec (fst s)" "\<And>old n. fst s old n \<noteq> None"
    by (simp_all add: rb_state_inv_def)
  note c = FrameCodec_try_decode_correct[OF this fc]
  from dec fc have "res = r" "s' = (fst s, buf')" by (simp_all add: tcp_try_decode_def)
  with c inv show "res = Some (frame_decode (rb_contents (snd s))) \<and> rb_state_inv s' \<and>
      rb_state_abs s' = rb_state_abs s"
    by (simp add: rb_state_inv_def rb_state_abs_def)
next
  fix s f assume inv: "rb_state_inv s"
  then have "rb_inv (snd s)" by (simp add: rb_state_inv_def)
  from consume_correct[OF this, of "frame_size (frame_header f)"] inv
  show "rb_state_inv (tcp_consume_frame s f) \<and>
      rb_contents (snd (tcp_consume_frame s f)) =
        drop (unat (frame_size (frame_header f))) (rb_contents (snd s))"
    by (simp add: tcp_consume_frame_def FrameCodec_consume_frame_def rb_state_inv_def)
next
  fix bs f assume "frame_decode bs = Inr f"
  then show "0 < unat (frame_size (frame_header f)) \<and> unat (frame_size (frame_header f)) \<le> length bs"
    by (auto simp: frame_decode_iff length_frame_bytes unat_frame_size)
next
  fix bs extra assume "frame_decode bs \<noteq> Inl InsufficientData"
  then show "frame_decode (bs @ extra) = frame_decode bs" by (rule frame_decode_append)
qed

lemma ws_try_decode_correct:
  assumes inv: "rb_state_inv s" and dec: "ws_try_decode s = (res, s')"
  shows "res = Some (ws_decode (rb_contents (snd s))) \<and> rb_state_inv s' \<and>
    rb_state_abs s' = rb_state_abs s"
proof -
  obtain rl buf where s: "s = (rl, buf)" by (cases s)
  from inv have rb: "rb_inv buf" and rl: "realloc_spec rl" "\<And>old n. rl old n \<noteq> None"
    by (simp_all add: rb_state_inv_def s)
  have 4: "unat LENGTH_PREFIX_SIZE = 4" by (simp add: LENGTH_PREFIX_SIZE_def)
  show ?thesis
  proof (cases "readable_size buf < LENGTH_PREFIX_SIZE")
    case True
    then have "length (rb_contents buf) < 4" by (simp add: word_less_nat_alt 4)
    with True dec inv show ?thesis by (auto simp: ws_try_decode_def ws_decode_def s)
  next
    case False
    then have len: "\<not> length (rb_contents buf) < 4" by (simp add: word_less_nat_alt 4)
    obtain sp1 b1 where l1: "linearize rl buf LENGTH_PREFIX_SIZE = (sp1, b1)"
      by (cases "linearize rl buf LENGTH_PREFIX_SIZE")
    from linearize_correct[OF rb rl(1) l1] False rl(2)
    have one: "span_bytes b1 sp1 = take 4 (rb_contents buf)" "sp1 \<noteq> Span_empty" "rb_inv b1"
      "rb_contents b1 = rb_contents buf" "rb_capacity b1 = rb_capacity buf"
      "readable_size b1 = readable_size buf" by (auto simp: 4)
    define n where "n = (le_load (take 4 (rb_contents buf)) :: u32)"
    have total: "unat (LENGTH_PREFIX_SIZE + ucast n) = 4 + unat n"
      using unat_lt2p[of n] by (simp add: unat_add_small unat_ucast_up 4)
    consider (big) "ws_max_message_size < unat n"
      | (short) "\<not> ws_max_message_size < unat n" "readable_size b1 < LENGTH_PREFIX_SIZE + ucast n"
      | (full) "\<not> ws_max_message_size < unat n" "\<not> readable_size b1 < LENGTH_PREFIX_SIZE + ucast n"
      by blast
    then show ?thesis
    proof cases
      case big
      with False dec one len rl show ?thesis
        by (auto simp: ws_try_decode_def ws_decode_def s l1 Let_def n_def rb_state_inv_def rb_state_abs_def)
    next
      case short
      then have "length (rb_contents buf) < 4 + unat n"
        using one(6) total by (simp add: word_less_nat_alt)
      with short False dec one len rl show ?thesis
        by (auto simp: ws_try_decode_def ws_decode_def s l1 Let_def n_def rb_state_inv_def rb_state_abs_def)
    next
      case full
      then have len2: "\<not> length (rb_contents buf) < 4 + unat n"
        using one(6) total by (simp add: word_less_nat_alt)
      obtain sp2 b2 where l2: "linearize rl b1 (LENGTH_PREFIX_SIZE + ucast n) = (sp2, b2)"
        by (cases "linearize rl b1 (LENGTH_PREFIX_SIZE + ucast n)")
      from linearize_correct[OF one(3) rl(1) l2] full rl(2) one(4,5)
      have two: "span_bytes b2 sp2 = take (4 + unat n) (rb_contents buf)" "sp2 \<noteq> Span_empty"
        "rb_inv b2" "rb_contents b2 = rb_contents buf" "rb_capacity b2 = rb_capacity buf"
        by (auto simp: total)
      from full False one(1,2) two(2)
      have "ws_try_decode s = (Some (Inr \<lparr>ws_payload_data = drop 4 (span_bytes b2 sp2),
          ws_is_text = False, ws_is_binary = True\<rparr>), (rl, b2))"
        by (simp add: ws_try_decode_def s l1 l2 Let_def n_def[symmetric])
      moreover have "ws_decode (rb_contents buf) = Inr \<lparr>ws_payload_data = drop 4 (span_bytes b2 sp2),
          ws_is_text = False, ws_is_binary = True\<rparr>"
        using full(1) len len2 by (simp add: ws_decode_def n_def[symmetric] Let_def two(1) subspan_def drop_take)
      ultimately show ?thesis
        using dec two rl by (auto simp: s rb_state_inv_def rb_state_abs_def)
    qed
  qed
qed

lemma ws_decode_size:
  assumes "ws_decode bs = Inr f"
  shows "4 + length (ws_payload_data f) \<le> length bs" and "length (ws_payload_data f) < 2 ^ 32"
  using assms unat_lt2p[of "le_load (take 4 bs) :: u32"]
  by (auto simp: ws_decode_def subspan_def Let_def min_def split: if_splits)

lemma ws_decode_append:
  assumes "ws_decode bs \<noteq> Inl InsufficientData"
  shows "ws_decode (bs @ extra) = ws_decode bs"
proof -
  have "\<not> length bs < 4" using assms by (auto simp: ws_decode_def)
  then have "take 4 (bs @ extra) = take 4 bs" by simp
  with assms show ?thesis by (auto simp: ws_decode_def subspan_def Let_def split: if_splits)
qed

interpretation ws: protocol ws_try_decode ws_consume_frame ws_decode
  "\<lambda>f. 4 + length (ws_payload_data f)"
proof
  fix s f assume inv: "rb_state_inv s" and dec: "ws_decode (rb_contents (snd s)) = Inr f"
  then have rb: "rb_inv (snd s)" by (simp add: rb_state_inv_def)
  have "unat (LENGTH_PREFIX_SIZE + of_nat (length (ws_payload_data f))) = 4 + length (ws_payload_data f)"
    using ws_decode_size(2)[OF dec] by (simp add: LENGTH_PREFIX_SIZE_def unat_add_small unat_of_nat_small)
  with consume_correct[OF rb, of "LENGTH_PREFIX_SIZE + of_nat (length (ws_payload_data f))"] inv
  show "rb_state_inv (ws_consume_frame s f) \<and>
      rb_contents (snd (ws_consume_frame s f)) =
        drop (4 + length (ws_payload_data f)) (rb_contents (snd s))"
    by (simp add: ws_consume_frame_def rb_state_inv_def)
qed (use ws_try_decode_correct ws_decode_size ws_decode_append in auto)


text \<open>
  On a well-formed buffer with memory available, \<open>WebSocketProtocol::try_decode\<close> asks for
  more data until the 4-byte length and that many bytes are there, rejects a length above 1 MB
  with \<open>InvalidMessage\<close>, returns exactly the payload otherwise, and leaves the bytes in the
  buffer for \<open>consume_frame\<close>, which removes exactly the prefix and the payload.
\<close>

theorem ws_try_decode_outcome:
  assumes "rb_state_inv s" and "ws_try_decode s = (res, s')"
  shows "res = Some (ws_decode (rb_contents (snd s))) \<and>
    rb_contents (snd s') = rb_contents (snd s) \<and>
    (case ws_decode (rb_contents (snd s)) of Inl err \<Rightarrow> True
     | Inr f \<Rightarrow> rb_contents (snd (ws_consume_frame s' f)) =
                drop (4 + length (ws_payload_data f)) (rb_contents (snd s)))"
proof -
  note d = ws.try_decode_spec[OF assms]
  then have c: "rb_contents (snd s') = rb_contents (snd s)" by (simp add: rb_state_abs_def)
  with d ws.consume_spec[of s'] show ?thesis by (auto split: sum.splits)
qed

theorem ws_try_decode_outcome_witness:
  "let buf = \<lparr>rb_buffer = [2, 0, 0, 0, 72, 105, 9, 9], rb_linear_buf = None, rb_capacity = 8,
              rb_mask = 7, rb_read_pos = 0, rb_write_pos = 7, rb_linear_buf_size = 0\<rparr>
   in fst (ws_try_decode (zero_realloc, buf)) =
        Some (Inr \<lparr>ws_payload_data = [72, 105], ws_is_text = False, ws_is_binary = True\<rparr>)"
proof -
  let ?buf = "\<lparr>rb_buffer = [2, 0, 0, 0, 72, 105, 9, 9 :: u8], rb_linear_buf = None, rb_capacity = 8,
              rb_mask = 7, rb_read_pos = 0, rb_write_pos = 7, rb_linear_buf_size = 0\<rparr>"
  have inv: "rb_state_inv (zero_realloc, ?buf)"
    using zero_realloc_spec zero_realloc_total
    by (auto simp: rb_state_inv_def rb_inv_def readable_size_def intro: exI[of _ 3])
  have "rb_contents ?buf = [2, 0, 0, 0, 72, 105, 9]"
    by (simp add: rb_contents_def readable_size_def upt_rec)
  then have "ws_decode (rb_contents ?buf) =
      Inr \<lparr>ws_payload_data = [72, 105], ws_is_text = False, ws_is_binary = True\<rparr>"
    by (simp add: ws_decode_def ws_max_message_size_def subspan_def)
  with ws_try_decode_outcome[OF inv, of "fst (ws_try_decode (zero_realloc, ?buf))"
      "snd (ws_try_decode (zero_realloc, ?buf))"]
  show ?thesis by simp
qed

end
