(* ===== verification/Allocators.thy ===== *)
theory Allocators
  imports Math_Utils
begin

text \<open>
  The bump and arena allocators (\<open>apex_core/src/bump_allocator.cpp\<close>,
  \<open>arena_allocator.cpp\<close>) and the contract of \<open>core_allocator.hpp\<close> as a locale. Addresses
  are 64-bit words, 0 is the null pointer, pointer arithmetic wraps. \<open>std::malloc\<close> is a
  parameter: the address of a new block, or \<open>None\<close> when there is no memory.
\<close>

section \<open>Bump allocator\<close>

record BumpAllocator =
  bump_base :: u64
  bump_cursor :: u64
  bump_end :: u64

definition BumpAllocator_new ::
  "(u64 \<Rightarrow> u64 option) \<Rightarrow> u64 \<Rightarrow> cpp_exception + BumpAllocator" where
  "BumpAllocator_new malloc capacity =
     (if capacity = 0 then Inr \<lparr>bump_base = 0, bump_cursor = 0, bump_end = 0\<rparr>
      else case malloc capacity of
             None \<Rightarrow> Inl std_bad_alloc
           | Some base \<Rightarrow>
               Inr \<lparr>bump_base = base, bump_cursor = base, bump_end = base + capacity\<rparr>)"

definition bump_allocate :: "u64 \<Rightarrow> u64 \<Rightarrow> BumpAllocator \<Rightarrow> u64 option \<times> BumpAllocator" where
  "bump_allocate sz align a =
     (if sz = 0 then (None, a)
      else if align = 0 \<or> align AND (align - 1) \<noteq> 0 then (None, a)
      else if bump_base a = 0 then (None, a)
      else let addr = bump_cursor a;
               result = (addr + align - 1) AND NOT (align - 1)
           in if bump_end a < result + sz then (None, a)
              else (Some result, a\<lparr>bump_cursor := result + sz\<rparr>))"

definition bump_reset :: "BumpAllocator \<Rightarrow> BumpAllocator" where
  "bump_reset a = a\<lparr>bump_cursor := bump_base a\<rparr>"

definition bump_owns :: "BumpAllocator \<Rightarrow> u64 \<Rightarrow> bool" where
  "bump_owns a p \<longleftrightarrow> bump_base a \<le> p \<and> p < bump_end a"

definition bump_used_bytes :: "BumpAllocator \<Rightarrow> u64" where
  "bump_used_bytes a = bump_cursor a - bump_base a"

definition bump_capacity :: "BumpAllocator \<Rightarrow> u64" where
  "bump_capacity a = bump_end a - bump_base a"

text \<open>\<open>rebind_memory\<close> frees first: when \<open>malloc\<close> then fails, the allocator is left empty.\<close>

definition bump_rebind_memory ::
  "(u64 \<Rightarrow> u64 option) \<Rightarrow> BumpAllocator \<Rightarrow> (cpp_exception + unit) \<times> BumpAllocator" where
  "bump_rebind_memory malloc a =
     (if bump_base a = 0 then (Inr (), a)
      else let cap = bump_capacity a in
      case malloc cap of
        None \<Rightarrow> (Inl std_bad_alloc, \<lparr>bump_base = 0, bump_cursor = 0, bump_end = 0\<rparr>)
      | Some base \<Rightarrow>
          (Inr (), \<lparr>bump_base = base, bump_cursor = base, bump_end = base + cap\<rparr>))"

section \<open>Arena allocator\<close>

record Block =
  blk_base :: u64
  blk_cursor :: u64
  blk_end :: u64
  blk_size :: u64

record ArenaAllocator =
  arena_blocks :: "Block list"
  arena_block_size :: u64
  arena_max_bytes :: u64
  arena_total_allocated :: u64

definition make_block :: "(u64 \<Rightarrow> u64 option) \<Rightarrow> u64 \<Rightarrow> cpp_exception + Block" where
  "make_block malloc sz =
     (case malloc sz of
        None \<Rightarrow> Inl std_bad_alloc
      | Some base \<Rightarrow>
          Inr \<lparr>blk_base = base, blk_cursor = base, blk_end = base + sz, blk_size = sz\<rparr>)"

definition ArenaAllocator_new ::
  "(u64 \<Rightarrow> u64 option) \<Rightarrow> u64 \<Rightarrow> u64 \<Rightarrow> cpp_exception + ArenaAllocator" where
  "ArenaAllocator_new malloc block_size max_bytes =
     (case make_block malloc block_size of
        Inl e \<Rightarrow> Inl e
      | Inr b \<Rightarrow> Inr \<lparr>arena_blocks = [b], arena_block_size = block_size,
                     arena_max_bytes = max_bytes, arena_total_allocated = block_size\<rparr>)"

definition arena_allocate ::
  "(u64 \<Rightarrow> u64 option) \<Rightarrow> u64 \<Rightarrow> u64 \<Rightarrow> ArenaAllocator \<Rightarrow>
   (cpp_exception + u64 option) \<times> ArenaAllocator" where
  "arena_allocate malloc sz align a =
     (if sz = 0 then (Inr None, a)
      else if align = 0 \<or> align AND (align - 1) \<noteq> 0 then (Inr None, a)
      else let current = last (arena_blocks a);
               addr = blk_cursor current;
               result = (addr + align - 1) AND NOT (align - 1);
               new_cursor = result + sz
      in if new_cursor \<le> blk_end current
         then (Inr (Some result),
               a\<lparr>arena_blocks := butlast (arena_blocks a) @ [current\<lparr>blk_cursor := new_cursor\<rparr>]\<rparr>)
         else let needed = sz + (if align > 1 then align - 1 else 0);
                  new_block_size = max (arena_block_size a) needed
         in if arena_max_bytes a < arena_total_allocated a + new_block_size then (Inr None, a)
            else case make_block malloc new_block_size of
                   Inl e \<Rightarrow> (Inl e, a)
                 | Inr fresh \<Rightarrow>
                     let addr = blk_cursor fresh;
                         result = (addr + align - 1) AND NOT (align - 1)
                     in (Inr (Some result),
                         a\<lparr>arena_blocks := arena_blocks a @ [fresh\<lparr>blk_cursor := result + sz\<rparr>],
                           arena_total_allocated := arena_total_allocated a + new_block_size\<rparr>))"

definition arena_reset :: "ArenaAllocator \<Rightarrow> ArenaAllocator" where
  "arena_reset a =
     (case arena_blocks a of
        [] \<Rightarrow> a
      | b # _ \<Rightarrow> a\<lparr>arena_blocks := [b\<lparr>blk_cursor := blk_base b\<rparr>],
                   arena_total_allocated := blk_size b\<rparr>)"

definition arena_owns :: "ArenaAllocator \<Rightarrow> u64 \<Rightarrow> bool" where
  "arena_owns a p \<longleftrightarrow> (\<exists>b\<in>set (arena_blocks a). blk_base b \<le> p \<and> p < blk_end b)"

definition arena_used_bytes :: "ArenaAllocator \<Rightarrow> u64" where
  "arena_used_bytes a = sum_list (map (\<lambda>b. blk_cursor b - blk_base b) (arena_blocks a))"

definition arena_capacity :: "ArenaAllocator \<Rightarrow> u64" where
  "arena_capacity a = arena_total_allocated a"

definition arena_rebind_memory ::
  "(u64 \<Rightarrow> u64 option) \<Rightarrow> ArenaAllocator \<Rightarrow> (cpp_exception + unit) \<times> ArenaAllocator" where
  "arena_rebind_memory malloc a =
     (case make_block malloc (arena_block_size a) of
        Inl e \<Rightarrow> (Inl e, a\<lparr>arena_blocks := [], arena_total_allocated := 0\<rparr>)
      | Inr b \<Rightarrow> (Inr (), a\<lparr>arena_blocks := [b], arena_total_allocated := arena_block_size a\<rparr>))"

section \<open>The allocator contract\<close>

definition region :: "u64 \<Rightarrow> u64 \<Rightarrow> nat set" where
  "region p sz = {unat p..<unat p + unat sz}"

text \<open>A sequence of requests, each with the system's answer to a request for memory it may
  trigger: the regions granted and the final allocator.\<close>

fun alloc_run ::
  "('m \<Rightarrow> u64 \<Rightarrow> u64 \<Rightarrow> 's \<Rightarrow> (cpp_exception + u64 option) \<times> 's) \<Rightarrow> ('m \<times> u64 \<times> u64) list \<Rightarrow> 's \<Rightarrow>
   (u64 \<times> u64 \<times> u64) list \<times> 's" where
  "alloc_run allocate [] s = ([], s)"
| "alloc_run allocate ((m, sz, al) # reqs) s =
     (let (r, s') = allocate m sz al s;
          (granted, s'') = alloc_run allocate reqs s'
      in (case r of Inr (Some p) \<Rightarrow> (p, sz, al) # granted | _ \<Rightarrow> granted, s''))"

fun reqs_ok ::
  "('m \<Rightarrow> u64 \<Rightarrow> u64 \<Rightarrow> 's \<Rightarrow> (cpp_exception + u64 option) \<times> 's) \<Rightarrow>
   ('m \<Rightarrow> u64 \<Rightarrow> u64 \<Rightarrow> 's \<Rightarrow> bool) \<Rightarrow> ('m \<times> u64 \<times> u64) list \<Rightarrow> 's \<Rightarrow> bool" where
  "reqs_ok allocate sys_ok [] s \<longleftrightarrow> True"
| "reqs_ok allocate sys_ok ((m, sz, al) # reqs) s \<longleftrightarrow>
     sys_ok m sz al s \<and> reqs_ok allocate sys_ok reqs (snd (allocate m sz al s))"

fun regions_disjoint :: "(u64 \<times> u64 \<times> u64) list \<Rightarrow> bool" where
  "regions_disjoint [] \<longleftrightarrow> True"
| "regions_disjoint ((p, sz, al) # gs) \<longleftrightarrow>
     (\<forall>(q, sz', al')\<in>set gs. region p sz \<inter> region q sz' = {}) \<and> regions_disjoint gs"

locale core_allocator =
  fixes allocate :: "'m \<Rightarrow> u64 \<Rightarrow> u64 \<Rightarrow> 's \<Rightarrow> (cpp_exception + u64 option) \<times> 's"
    and owns :: "'s \<Rightarrow> u64 \<Rightarrow> bool"
    and inv :: "'s \<Rightarrow> bool"
    and used :: "'s \<Rightarrow> nat set"
    and sys_ok :: "'m \<Rightarrow> u64 \<Rightarrow> u64 \<Rightarrow> 's \<Rightarrow> bool"
  assumes alloc_inv: "inv s \<Longrightarrow> sys_ok m sz al s \<Longrightarrow> inv (snd (allocate m sz al s))"
    and alloc_some: "inv s \<Longrightarrow> sys_ok m sz al s \<Longrightarrow> allocate m sz al s = (Inr (Some p), s') \<Longrightarrow>
      region p sz \<inter> used s = {} \<and> used s \<union> region p sz \<subseteq> used s' \<and> owns s' p"
    and alloc_none: "inv s \<Longrightarrow> sys_ok m sz al s \<Longrightarrow> allocate m sz al s = (r, s') \<Longrightarrow>
      \<forall>p. r \<noteq> Inr (Some p) \<Longrightarrow> s' = s"
begin

lemma used_mono:
  assumes "inv s" and "sys_ok m sz al s"
  shows "used s \<subseteq> used (snd (allocate m sz al s))"
proof (cases "\<exists>p. fst (allocate m sz al s) = Inr (Some p)")
  case True
  then obtain p where "allocate m sz al s = (Inr (Some p), snd (allocate m sz al s))"
    by (metis prod.collapse)
  from alloc_some[OF assms this] show ?thesis by blast
next
  case False
  then have "snd (allocate m sz al s) = s"
    using alloc_none[OF assms, of "fst (allocate m sz al s)"] by simp
  then show ?thesis by simp
qed

text \<open>No two regions a sequence of requests grants overlap, nor anything in use before.\<close>

lemma run_disjoint:
  assumes "inv s" and "reqs_ok allocate sys_ok reqs s" and "alloc_run allocate reqs s = (gs, s')"
  shows "inv s' \<and> used s \<subseteq> used s' \<and> regions_disjoint gs \<and>
    (\<forall>(p, sz, al)\<in>set gs. region p sz \<inter> used s = {} \<and> region p sz \<subseteq> used s')"
  using assms
proof (induction reqs arbitrary: s gs s')
  case Nil
  then show ?case by simp
next
  case (Cons req reqs)
  obtain m sz al where req: "req = (m, sz, al)" by (cases req)
  obtain r s1 where a: "allocate m sz al s = (r, s1)" by (cases "allocate m sz al s")
  obtain gs1 s2 where rest: "alloc_run allocate reqs s1 = (gs1, s2)"
    by (cases "alloc_run allocate reqs s1")
  from Cons.prems(2) have ok: "sys_ok m sz al s" and ok1: "reqs_ok allocate sys_ok reqs s1"
    by (simp_all add: req a)
  have inv1: "inv s1" using alloc_inv[OF Cons.prems(1) ok] by (simp add: a)
  have mono: "used s \<subseteq> used s1" using used_mono[OF Cons.prems(1) ok] by (simp add: a)
  note ih = Cons.IH[OF inv1 ok1 rest]
  show ?case
  proof (cases "\<exists>p. r = Inr (Some p)")
    case True
    then obtain p where p: "r = Inr (Some p)" by blast
    have grant: "region p sz \<inter> used s = {}" "region p sz \<subseteq> used s1"
      using alloc_some[OF Cons.prems(1) ok] a p by auto
    from Cons.prems(3) rest a p have "gs = (p, sz, al) # gs1" "s' = s2" by (simp_all add: req)
    with ih grant mono show ?thesis by (auto simp: Ball_def; blast)
  next
    case False
    with Cons.prems(3) rest a have "gs = gs1" "s' = s2"
      by (auto simp: req split: sum.splits option.splits)
    with ih mono show ?thesis by (auto simp: Ball_def; blast)
  qed
qed

end

text \<open>Allocators that also honour the alignment of the request.\<close>

locale aligned_allocator = core_allocator +
  assumes alloc_aligned: "inv s \<Longrightarrow> sys_ok m sz al s \<Longrightarrow>
    allocate m sz al s = (Inr (Some p), s') \<Longrightarrow> unat al dvd unat p"
begin

lemma run_aligned:
  assumes "inv s" and "reqs_ok allocate sys_ok reqs s" and "alloc_run allocate reqs s = (gs, s')"
  shows "\<forall>(p, sz, al)\<in>set gs. unat al dvd unat p"
  using assms
proof (induction reqs arbitrary: s gs s')
  case (Cons req reqs)
  obtain m sz al where req: "req = (m, sz, al)" by (cases req)
  obtain r s1 where a: "allocate m sz al s = (r, s1)" by (cases "allocate m sz al s")
  obtain gs1 s2 where rest: "alloc_run allocate reqs s1 = (gs1, s2)"
    by (cases "alloc_run allocate reqs s1")
  from Cons.prems(2) have ok: "sys_ok m sz al s" and ok1: "reqs_ok allocate sys_ok reqs s1"
    by (simp_all add: req a)
  have "inv s1" using alloc_inv[OF Cons.prems(1) ok] by (simp add: a)
  from Cons.IH[OF this ok1] rest Cons.prems(3) a alloc_aligned[OF Cons.prems(1) ok]
  show ?case by (auto simp: req split: sum.splits option.splits prod.splits)
qed simp

end


section \<open>Bump and arena allocators meet the contract\<close>

text \<open>User-space addresses of the platform are below \<open>2 ^ 47\<close>; requests stay below
  \<open>2 ^ 62\<close>, so that no sum of them wraps.\<close>

lemma owns_start: "sz \<noteq> 0 \<Longrightarrow> \<forall>x\<in>region p sz. P (of_nat x) \<Longrightarrow> P p"
  by (auto simp: region_def unat_gt_0 dest: bspec[of _ _ "unat p"])

definition request_ok :: "u64 \<Rightarrow> u64 \<Rightarrow> bool" where
  "request_ok sz align \<longleftrightarrow> unat sz \<le> 2 ^ 62 \<and> unat align \<le> 2 ^ 62"

lemma power2_cases:
  fixes align :: u64
  assumes "\<not> (align = 0 \<or> align AND (align - 1) \<noteq> 0)"
  obtains k where "k < 64" and "align = 2 ^ k"
  using assms power2_test[of align] by auto

text \<open>Rounding a cursor up and adding the size, with no wrap-around.\<close>

lemma bump_arith:
  assumes "k < 64" and "unat addr \<le> 2 ^ 47" and "request_ok sz (2 ^ k)"
  shows "unat addr \<le> unat ((addr + 2 ^ k - 1) AND NOT (2 ^ k - 1))"
    and "unat ((addr + 2 ^ k - 1) AND NOT (2 ^ k - 1)) < unat addr + 2 ^ k"
    and "2 ^ k dvd unat ((addr + 2 ^ k - 1) AND NOT (2 ^ k - 1))"
    and "unat (((addr + 2 ^ k - 1) AND NOT (2 ^ k - 1)) + sz) =
         unat ((addr + 2 ^ k - 1) AND NOT (2 ^ k - 1)) + unat sz"
proof -
  have k: "(2::nat) ^ k \<le> 2 ^ 62" and sz: "unat sz \<le> 2 ^ 62"
    using assms(1,3) by (simp_all add: request_ok_def)
  have "unat addr + 2 ^ k \<le> 2 ^ 64" using assms(2) k by simp
  note b = align_up_bounds[OF assms(1) this, unfolded align_up_def]
  from b show "unat addr \<le> unat ((addr + 2 ^ k - 1) AND NOT (2 ^ k - 1))"
    and lt: "unat ((addr + 2 ^ k - 1) AND NOT (2 ^ k - 1)) < unat addr + 2 ^ k"
    and "2 ^ k dvd unat ((addr + 2 ^ k - 1) AND NOT (2 ^ k - 1))" by blast+
  show "unat (((addr + 2 ^ k - 1) AND NOT (2 ^ k - 1)) + sz) =
         unat ((addr + 2 ^ k - 1) AND NOT (2 ^ k - 1)) + unat sz"
    using lt sz k assms(2) by (intro unat_add_small) simp
qed

definition bump_inv :: "BumpAllocator \<Rightarrow> bool" where
  "bump_inv a \<longleftrightarrow> bump_base a \<le> bump_cursor a \<and> bump_cursor a \<le> bump_end a \<and>
     unat (bump_end a) \<le> 2 ^ 47"

definition bump_used :: "BumpAllocator \<Rightarrow> nat set" where
  "bump_used a = {unat (bump_base a)..<unat (bump_cursor a)}"

lemma bump_allocate_cases:
  assumes inv: "bump_inv a" and req: "request_ok sz align"
  shows "(fst (bump_allocate sz align a) = None \<and> snd (bump_allocate sz align a) = a) \<or>
    (\<exists>p. bump_allocate sz align a = (Some p, a\<lparr>bump_cursor := p + sz\<rparr>) \<and>
       unat (bump_cursor a) \<le> unat p \<and> unat (p + sz) = unat p + unat sz \<and>
       unat p + unat sz \<le> unat (bump_end a) \<and> unat align dvd unat p \<and> sz \<noteq> 0)"
proof (cases "sz = 0 \<or> (align = 0 \<or> align AND (align - 1) \<noteq> 0) \<or> bump_base a = 0")
  case True
  then show ?thesis by (auto simp: bump_allocate_def)
next
  case False
  then obtain k where k: "k < 64" "align = 2 ^ k" by (metis power2_cases)
  let ?p = "(bump_cursor a + 2 ^ k - 1) AND NOT (2 ^ k - 1)"
  have "unat (bump_cursor a) \<le> 2 ^ 47"
    using inv by (simp add: bump_inv_def word_le_nat_alt)
  note ar = bump_arith[OF k(1) this req[unfolded k(2)]]
  show ?thesis
  proof (cases "bump_end a < ?p + sz")
    case True
    with False show ?thesis by (simp add: bump_allocate_def k Let_def)
  next
    case fits: False
    then have "unat ?p + unat sz \<le> unat (bump_end a)" using ar(4) by (simp add: word_less_nat_alt)
    moreover from False fits have "bump_allocate sz align a = (Some ?p, a\<lparr>bump_cursor := ?p + sz\<rparr>)"
      by (simp add: bump_allocate_def k Let_def)
    moreover have "unat align = 2 ^ k" using k by simp
    ultimately show ?thesis using ar False by metis
  qed
qed

definition bump_op ::
  "unit \<Rightarrow> u64 \<Rightarrow> u64 \<Rightarrow> BumpAllocator \<Rightarrow> (cpp_exception + u64 option) \<times> BumpAllocator" where
  "bump_op m sz align a = (let (r, a') = bump_allocate sz align a in (Inr r, a'))"

interpretation bump: aligned_allocator bump_op bump_owns bump_inv bump_used "\<lambda>m sz al a. request_ok sz al"
proof
  fix a m sz al assume inv: "bump_inv a" and req: "request_ok sz al"
  show "bump_inv (snd (bump_op m sz al a))"
    using bump_allocate_cases[OF inv req] inv
    by (auto simp: bump_op_def bump_inv_def word_le_nat_alt case_prod_unfold)
  fix p a' assume op: "bump_op m sz al a = (Inr (Some p), a')"
  then have p: "bump_allocate sz al a = (Some p, a\<lparr>bump_cursor := p + sz\<rparr>)"
    "unat (bump_cursor a) \<le> unat p" "unat (p + sz) = unat p + unat sz"
    "unat p + unat sz \<le> unat (bump_end a)" "unat al dvd unat p" "a' = a\<lparr>bump_cursor := p + sz\<rparr>"
    "sz \<noteq> 0"
    using bump_allocate_cases[OF inv req] by (auto simp: bump_op_def split: prod.splits)
  show "unat al dvd unat p" by (fact p(5))
  have lim: "unat (bump_end a) < 2 ^ 64" by (rule unat_u64_less)
  have base: "unat (bump_base a) \<le> unat (bump_cursor a)"
    using inv by (simp add: bump_inv_def word_le_nat_alt)
  have "bump_owns a' (of_nat x)" if "x \<in> region p sz" for x
  proof -
    have "unat p \<le> x" "x < unat p + unat sz" using that by (simp_all add: region_def)
    moreover then have "unat (of_nat x :: u64) = x" using p(4) lim by (intro unat_of_nat_small) simp
    ultimately show ?thesis using p base
      by (simp add: bump_owns_def word_le_nat_alt word_less_nat_alt)
  qed
  then have "bump_owns a' p" using owns_start[OF p(7)] by blast
  then show "region p sz \<inter> bump_used a = {} \<and> bump_used a \<union> region p sz \<subseteq> bump_used a' \<and>
      bump_owns a' p"
    using p(2,3) base by (auto simp: region_def bump_used_def p(6))
next
  fix a m sz al r a' assume inv: "bump_inv a" and req: "request_ok sz al"
    and op: "bump_op m sz al a = (r, a')" and "\<forall>p. r \<noteq> Inr (Some p)"
  then show "a' = a"
    using bump_allocate_cases[OF inv req] by (auto simp: bump_op_def split: prod.splits)
qed

lemma BumpAllocator_new_inv:
  assumes "BumpAllocator_new malloc capacity = Inr a"
    and "\<And>n b. malloc n = Some b \<Longrightarrow> unat b + unat n \<le> 2 ^ 47"
  shows "bump_inv a" and "bump_used a = {}"
proof -
  have "bump_inv a \<and> bump_used a = {}"
  proof (cases "capacity = 0")
    case True
    with assms(1) show ?thesis by (auto simp: BumpAllocator_new_def bump_inv_def bump_used_def)
  next
    case False
    then obtain b where b: "malloc capacity = Some b"
      "a = \<lparr>bump_base = b, bump_cursor = b, bump_end = b + capacity\<rparr>"
      using assms(1) by (auto simp: BumpAllocator_new_def split: option.splits)
    from assms(2)[OF b(1)] have "unat (b + capacity) = unat b + unat capacity"
      by (intro unat_add_small) simp
    with assms(2)[OF b(1)] show ?thesis
      by (simp add: b(2) bump_inv_def bump_used_def word_le_nat_alt)
  qed
  then show "bump_inv a" and "bump_used a = {}" by blast+
qed


definition block_ok :: "Block \<Rightarrow> bool" where
  "block_ok b \<longleftrightarrow> blk_base b \<le> blk_cursor b \<and> blk_cursor b \<le> blk_end b \<and>
     unat (blk_end b) = unat (blk_base b) + unat (blk_size b) \<and> unat (blk_end b) \<le> 2 ^ 47"

definition block_region :: "Block \<Rightarrow> nat set" where
  "block_region b = region (blk_base b) (blk_size b)"

fun blocks_disjoint :: "Block list \<Rightarrow> bool" where
  "blocks_disjoint [] \<longleftrightarrow> True"
| "blocks_disjoint (b # bs) \<longleftrightarrow>
     (\<forall>c\<in>set bs. block_region b \<inter> block_region c = {}) \<and> blocks_disjoint bs"

definition arena_inv :: "ArenaAllocator \<Rightarrow> bool" where
  "arena_inv a \<longleftrightarrow> arena_blocks a \<noteq> [] \<and> (\<forall>b\<in>set (arena_blocks a). block_ok b) \<and>
     blocks_disjoint (arena_blocks a) \<and>
     unat (arena_total_allocated a) \<le> 2 ^ 62 \<and> unat (arena_block_size a) \<le> 2 ^ 62 \<and>
     unat (arena_max_bytes a) \<le> 2 ^ 62 \<and>
     unat (arena_total_allocated a) = sum_list (map (\<lambda>b. unat (blk_size b)) (arena_blocks a))"

definition arena_used :: "ArenaAllocator \<Rightarrow> nat set" where
  "arena_used a = (\<Union>b\<in>set (arena_blocks a). {unat (blk_base b)..<unat (blk_cursor b)})"

text \<open>What \<open>malloc\<close> promises: the block lies in the address space, away from the blocks
  the arena holds.\<close>

definition malloc_ok :: "(u64 \<Rightarrow> u64 option) \<Rightarrow> u64 \<Rightarrow> u64 \<Rightarrow> ArenaAllocator \<Rightarrow> bool" where
  "malloc_ok malloc sz al a \<longleftrightarrow> request_ok sz al \<and>
     (\<forall>n p. malloc n = Some p \<longrightarrow>
        unat p + unat n \<le> 2 ^ 47 \<and> (\<forall>b\<in>set (arena_blocks a). region p n \<inter> block_region b = {}))"

lemma blocks_disjoint_append:
  "blocks_disjoint (xs @ ys) \<longleftrightarrow> blocks_disjoint xs \<and> blocks_disjoint ys \<and>
     (\<forall>b\<in>set xs. \<forall>c\<in>set ys. block_region b \<inter> block_region c = {})"
  by (induction xs) auto

lemma block_used_region: "block_ok b \<Longrightarrow> {unat (blk_base b)..<unat (blk_cursor b)} \<subseteq> block_region b"
  by (auto simp: block_ok_def block_region_def region_def word_le_nat_alt)

lemma block_owns:
  assumes "block_ok b" and "b \<in> set (arena_blocks a)" and "x \<in> block_region b"
  shows "arena_owns a (of_nat x)"
proof -
  have x: "unat (blk_base b) \<le> x" "x < unat (blk_end b)"
    using assms by (auto simp: block_ok_def block_region_def region_def)
  then have "unat (of_nat x :: u64) = x"
    using unat_u64_less[of "blk_end b"] by (intro unat_of_nat_small) simp
  with x assms(2) show ?thesis
    by (auto simp: arena_owns_def word_le_nat_alt word_less_nat_alt)
qed

text \<open>An allocation either changes nothing, moves the cursor of the last block over the
  region, or appends a new block that holds the region.\<close>

lemma arena_allocate_cases:
  assumes inv: "arena_inv a" and ok: "malloc_ok malloc sz al a"
    and op: "arena_allocate malloc sz al a = (r, a')"
  shows "((\<forall>p. r \<noteq> Inr (Some p)) \<and> a' = a) \<or>
    (\<exists>p bs b. r = Inr (Some p) \<and> arena_blocks a = bs @ [b] \<and>
       a' = a\<lparr>arena_blocks := bs @ [b\<lparr>blk_cursor := p + sz\<rparr>]\<rparr> \<and>
       unat (blk_cursor b) \<le> unat p \<and> unat (p + sz) = unat p + unat sz \<and>
       unat p + unat sz \<le> unat (blk_end b) \<and> unat al dvd unat p \<and> sz \<noteq> 0) \<or>
    (\<exists>p b n. r = Inr (Some p) \<and>
       a' = a\<lparr>arena_blocks := arena_blocks a @ [b\<lparr>blk_cursor := p + sz\<rparr>],
              arena_total_allocated := arena_total_allocated a + n\<rparr> \<and>
       block_ok b \<and> blk_size b = n \<and> unat (arena_total_allocated a) + unat n \<le> unat (arena_max_bytes a) \<and>
       (\<forall>c\<in>set (arena_blocks a). block_region b \<inter> block_region c = {}) \<and>
       unat (blk_base b) \<le> unat p \<and> unat (p + sz) = unat p + unat sz \<and>
       unat p + unat sz \<le> unat (blk_end b) \<and> unat al dvd unat p \<and> sz \<noteq> 0)"
proof (cases "sz = 0 \<or> (al = 0 \<or> al AND (al - 1) \<noteq> 0)")
  case True
  then have "arena_allocate malloc sz al a = (Inr None, a)"
    by (cases "sz = 0") (simp_all add: arena_allocate_def)
  with op show ?thesis by auto
next
  case False
  then obtain k where k: "k < 64" "al = 2 ^ k" by (metis power2_cases)
  have al: "unat al = 2 ^ k" using k by simp
  from ok have req: "request_ok sz (2 ^ k)" and sz: "unat sz \<le> 2 ^ 62" and alb: "unat al \<le> 2 ^ 62"
    by (simp_all add: malloc_ok_def request_ok_def k)
  from inv obtain bs b where blocks: "arena_blocks a = bs @ [b]"
    by (auto simp: arena_inv_def dest: append_butlast_last_id[symmetric])
  have b: "block_ok b" using inv by (simp add: arena_inv_def blocks)
  then have "unat (blk_cursor b) \<le> 2 ^ 47" by (simp add: block_ok_def word_le_nat_alt)
  note ar = bump_arith[OF k(1) this req]
  let ?p = "(blk_cursor b + 2 ^ k - 1) AND NOT (2 ^ k - 1)"
  show ?thesis
  proof (cases "?p + sz \<le> blk_end b")
    case True
    with False op have "r = Inr (Some ?p)" "a' = a\<lparr>arena_blocks := bs @ [b\<lparr>blk_cursor := ?p + sz\<rparr>]\<rparr>"
      by (auto simp: arena_allocate_def Let_def blocks k)
    moreover have "unat ?p + unat sz \<le> unat (blk_end b)" using True ar(4) by (simp add: word_le_nat_alt)
    ultimately show ?thesis using ar blocks al False by metis
  next
    case full: False
    define n where "n = max (arena_block_size a) (sz + (if al > 1 then al - 1 else 0))"
    have "unat (sz + (if al > 1 then al - 1 else 0)) = unat sz + (2 ^ k - 1)"
    proof (cases "al > 1")
      case True
      then have "unat (al - 1) = 2 ^ k - 1" using al unat_diff_le[of 1 al] by (simp add: word_less_nat_alt)
      then show ?thesis using True sz al alb by (simp add: unat_add_small)
    next
      case False
      then have "unat al \<le> 1" by (simp add: word_less_nat_alt)
      then show ?thesis using False al by simp
    qed
    then have need: "unat sz + (2 ^ k - 1) \<le> unat n" and nb: "unat n \<le> 2 ^ 63"
      using inv sz al alb by (auto simp: n_def max_def word_le_nat_alt arena_inv_def)
    have tot: "unat (arena_total_allocated a + n) = unat (arena_total_allocated a) + unat n"
      using inv nb by (intro unat_add_small) (simp add: arena_inv_def)
    have eq: "arena_allocate malloc sz al a =
      (if arena_max_bytes a < arena_total_allocated a + n then (Inr None, a)
       else case make_block malloc n of
              Inl e \<Rightarrow> (Inl e, a)
            | Inr fresh \<Rightarrow>
                (Inr (Some ((blk_cursor fresh + 2 ^ k - 1) AND NOT (2 ^ k - 1))),
                 a\<lparr>arena_blocks := arena_blocks a @
                     [fresh\<lparr>blk_cursor := ((blk_cursor fresh + 2 ^ k - 1) AND NOT (2 ^ k - 1)) + sz\<rparr>],
                   arena_total_allocated := arena_total_allocated a + n\<rparr>))"
      using False full unfolding k(2) by (simp add: arena_allocate_def Let_def blocks n_def k(2) split: sum.split)
    show ?thesis
    proof (cases "arena_max_bytes a < arena_total_allocated a + n \<or> malloc n = None")
      case True
      with op have "a' = a \<and> (\<forall>p. r \<noteq> Inr (Some p))"
        unfolding eq by (auto simp: make_block_def split: if_splits)
      then show ?thesis by blast
    next
      case room: False
      then obtain base where m: "malloc n = Some base" by auto
      let ?c = "\<lparr>blk_base = base, blk_cursor = base, blk_end = base + n, blk_size = n\<rparr>"
      let ?q = "(base + 2 ^ k - 1) AND NOT (2 ^ k - 1)"
      have fresh: "unat base + unat n \<le> 2 ^ 47" "\<forall>c\<in>set (arena_blocks a). region base n \<inter> block_region c = {}"
        using ok m by (auto simp: malloc_ok_def)
      have e: "unat (base + n) = unat base + unat n" using fresh(1) by (intro unat_add_small) simp
      have "unat base \<le> 2 ^ 47" using fresh(1) by simp
      note ar2 = bump_arith[OF k(1) this req]
      have "unat ?q + unat sz \<le> unat (base + n)" using ar2(2) need e by linarith
      moreover have "block_ok ?c" using fresh(1) e by (simp add: block_ok_def word_le_nat_alt)
      moreover have "r = Inr (Some ?q)"
        "a' = a\<lparr>arena_blocks := arena_blocks a @ [?c\<lparr>blk_cursor := ?q + sz\<rparr>],
               arena_total_allocated := arena_total_allocated a + n\<rparr>"
        using room op m unfolding eq by (auto simp: make_block_def)
      moreover have "unat (arena_total_allocated a) + unat n \<le> unat (arena_max_bytes a)"
        using room tot by (simp add: word_less_nat_alt)
      moreover have "\<forall>c\<in>set (arena_blocks a). block_region ?c \<inter> block_region c = {}"
        using fresh(2) by (simp add: block_region_def)
      ultimately have "\<exists>p b n. r = Inr (Some p) \<and>
       a' = a\<lparr>arena_blocks := arena_blocks a @ [b\<lparr>blk_cursor := p + sz\<rparr>],
              arena_total_allocated := arena_total_allocated a + n\<rparr> \<and>
       block_ok b \<and> blk_size b = n \<and> unat (arena_total_allocated a) + unat n \<le> unat (arena_max_bytes a) \<and>
       (\<forall>c\<in>set (arena_blocks a). block_region b \<inter> block_region c = {}) \<and>
       unat (blk_base b) \<le> unat p \<and> unat (p + sz) = unat p + unat sz \<and>
       unat p + unat sz \<le> unat (blk_end b) \<and> unat al dvd unat p \<and> sz \<noteq> 0"
        using ar2 al False by (intro exI[of _ ?q] exI[of _ ?c] exI[of _ n]) simp
      then show ?thesis by blast
    qed
  qed
qed


lemma arena_block_moved:
  assumes "block_ok b" and "unat (blk_cursor b) \<le> unat p" and "unat (p + sz) = unat p + unat sz"
    and "unat p + unat sz \<le> unat (blk_end b)"
  shows "block_ok (b\<lparr>blk_cursor := p + sz\<rparr>)"
    and "block_region (b\<lparr>blk_cursor := p + sz\<rparr>) = block_region b"
    and "region p sz \<subseteq> block_region b"
    and "region p sz \<subseteq> {unat (blk_base b)..<unat (p + sz)}"
  using assms by (auto simp: block_ok_def block_region_def region_def word_le_nat_alt)

lemma arena_allocate_inv:
  assumes inv: "arena_inv a" and ok: "malloc_ok malloc sz al a"
  shows "arena_inv (snd (arena_allocate malloc sz al a))"
proof -
  obtain r a' where op: "arena_allocate malloc sz al a = (r, a')"
    by (cases "arena_allocate malloc sz al a")
  from arena_allocate_cases[OF inv ok op] consider "a' = a"
    | p bs b where "arena_blocks a = bs @ [b]" "a' = a\<lparr>arena_blocks := bs @ [b\<lparr>blk_cursor := p + sz\<rparr>]\<rparr>"
      "unat (blk_cursor b) \<le> unat p" "unat (p + sz) = unat p + unat sz"
      "unat p + unat sz \<le> unat (blk_end b)"
    | p b where "a' = a\<lparr>arena_blocks := arena_blocks a @ [b\<lparr>blk_cursor := p + sz\<rparr>],
              arena_total_allocated := arena_total_allocated a + blk_size b\<rparr>"
      "block_ok b" "unat (arena_total_allocated a) + unat (blk_size b) \<le> unat (arena_max_bytes a)"
      "\<forall>c\<in>set (arena_blocks a). block_region b \<inter> block_region c = {}"
      "unat (blk_base b) \<le> unat p" "unat (p + sz) = unat p + unat sz"
      "unat p + unat sz \<le> unat (blk_end b)"
    by auto
  then have "arena_inv a'"
  proof cases
    case 1
    with inv show ?thesis by simp
  next
    case 2
    with inv arena_block_moved[of b p sz] show ?thesis
      by (auto simp: arena_inv_def blocks_disjoint_append)
  next
    case 3
    have ok': "block_ok (b\<lparr>blk_cursor := p + sz\<rparr>)"
      using 3(2,5,6,7) by (simp add: block_ok_def word_le_nat_alt)
    have reg: "block_region (b\<lparr>blk_cursor := p + sz\<rparr>) = block_region b"
      by (simp add: block_region_def)
    have tot: "unat (arena_total_allocated a + blk_size b) =
        unat (arena_total_allocated a) + unat (blk_size b)"
      using 3(3) unat_u64_less[of "arena_max_bytes a"] by (intro unat_add_small) simp
    have "blocks_disjoint (arena_blocks a @ [b\<lparr>blk_cursor := p + sz\<rparr>])"
      using inv 3(4) reg by (auto simp: arena_inv_def blocks_disjoint_append)
    then show ?thesis
      using inv ok' tot 3(3) unfolding 3(1) arena_inv_def by auto
  qed
  with op show ?thesis by simp
qed

interpretation arena: aligned_allocator arena_allocate arena_owns arena_inv arena_used malloc_ok
proof
  fix a malloc sz al assume inv: "arena_inv a" and ok: "malloc_ok malloc sz al a"
  show "arena_inv (snd (arena_allocate malloc sz al a))" by (rule arena_allocate_inv[OF inv ok])
  fix p a' assume op: "arena_allocate malloc sz al a = (Inr (Some p), a')"
  note cs = arena_allocate_cases[OF inv ok op]
  then show "unat al dvd unat p" by auto
  from cs have nz: "sz \<noteq> 0" by auto
  have oks: "\<forall>b\<in>set (arena_blocks a). block_ok b" and disj: "blocks_disjoint (arena_blocks a)"
    using inv by (simp_all add: arena_inv_def)
  from cs consider (move) bs b where "arena_blocks a = bs @ [b]"
      "a' = a\<lparr>arena_blocks := bs @ [b\<lparr>blk_cursor := p + sz\<rparr>]\<rparr>"
      "unat (blk_cursor b) \<le> unat p" "unat (p + sz) = unat p + unat sz"
      "unat p + unat sz \<le> unat (blk_end b)"
    | (new) b where "a' = a\<lparr>arena_blocks := arena_blocks a @ [b\<lparr>blk_cursor := p + sz\<rparr>],
              arena_total_allocated := arena_total_allocated a + blk_size b\<rparr>"
      "block_ok b" "\<forall>c\<in>set (arena_blocks a). block_region b \<inter> block_region c = {}"
      "unat (blk_base b) \<le> unat p" "unat (p + sz) = unat p + unat sz"
      "unat p + unat sz \<le> unat (blk_end b)"
    by auto
  then show "region p sz \<inter> arena_used a = {} \<and> arena_used a \<union> region p sz \<subseteq> arena_used a' \<and>
      arena_owns a' p"
  proof cases
    case move
    have b: "block_ok b" using oks by (simp add: move(1))
    note mv = arena_block_moved[OF b move(3-5)]
    have "region p sz \<inter> {unat (blk_base b)..<unat (blk_cursor b)} = {}"
      using move(3) by (auto simp: region_def)
    moreover have "region p sz \<inter> {unat (blk_base c)..<unat (blk_cursor c)} = {}" if "c \<in> set bs" for c
      using disj mv(3) block_used_region[of c] that oks
      by (fastforce simp: move(1) blocks_disjoint_append)
    ultimately have "region p sz \<inter> arena_used a = {}" by (auto simp: arena_used_def move(1))
    moreover have "arena_used a \<union> region p sz \<subseteq> arena_used a'"
      using mv(4) move(3,4) by (auto simp: arena_used_def move(1,2))
    moreover have "arena_owns a' (of_nat x)" if "x \<in> region p sz" for x
      using that mv by (intro block_owns[OF mv(1)]) (auto simp: move(2))
    ultimately show ?thesis using owns_start[OF nz] by blast
  next
    case new
    have cur: "block_ok (b\<lparr>blk_cursor := p + sz\<rparr>)"
      using new(2,4-6) by (simp add: block_ok_def word_le_nat_alt)
    have sub: "region p sz \<subseteq> block_region b"
      using new(2,4-6) by (auto simp: block_ok_def block_region_def region_def)
    then have "region p sz \<inter> arena_used a = {}"
      using new(3) block_used_region oks by (fastforce simp: arena_used_def)
    moreover have "arena_used a \<union> region p sz \<subseteq> arena_used a'"
      using new(4,5) by (auto simp: arena_used_def new(1) region_def)
    moreover have "arena_owns a' (of_nat x)" if "x \<in> region p sz" for x
      using that sub by (intro block_owns[OF cur]) (auto simp: new(1) block_region_def)
    ultimately show ?thesis using owns_start[OF nz] by blast
  qed
next
  fix a malloc sz al r a' assume "arena_inv a" "malloc_ok malloc sz al a"
    "arena_allocate malloc sz al a = (r, a')" "\<forall>p. r \<noteq> Inr (Some p)"
  from arena_allocate_cases[OF this(1-3)] this(4) show "a' = a" by blast
qed

lemma ArenaAllocator_new_inv:
  assumes "ArenaAllocator_new malloc block_size max_bytes = Inr a"
    and "unat block_size \<le> 2 ^ 47" and "unat max_bytes \<le> 2 ^ 62"
    and "\<And>n b. malloc n = Some b \<Longrightarrow> unat b + unat n \<le> 2 ^ 47"
  shows "arena_inv a" and "arena_used a = {}"
proof -
  obtain b where b: "malloc block_size = Some b"
    "a = \<lparr>arena_blocks = [\<lparr>blk_base = b, blk_cursor = b, blk_end = b + block_size, blk_size = block_size\<rparr>],
          arena_block_size = block_size, arena_max_bytes = max_bytes, arena_total_allocated = block_size\<rparr>"
    using assms(1) by (auto simp: ArenaAllocator_new_def make_block_def split: option.splits)
  from assms(4)[OF b(1)] have "unat (b + block_size) = unat b + unat block_size"
    by (intro unat_add_small) simp
  with assms(2,3) assms(4)[OF b(1)] show "arena_inv a" and "arena_used a = {}"
    by (simp_all add: b(2) arena_inv_def arena_used_def block_ok_def word_le_nat_alt)
qed


text \<open>
  Whatever sequence of requests a bump allocator made by its constructor serves, every
  pointer it returns has the requested alignment, no two regions it hands out overlap, and all
  of them lie in its own block.
\<close>

theorem bump_allocations_disjoint:
  assumes "BumpAllocator_new malloc capacity = Inr a"
    and "\<And>n b. malloc n = Some b \<Longrightarrow> unat b + unat n \<le> 2 ^ 47"
    and "reqs_ok bump_op (\<lambda>m sz al a. request_ok sz al) reqs a"
    and "alloc_run bump_op reqs a = (granted, a')"
  shows "regions_disjoint granted \<and>
    (\<forall>(p, sz, al)\<in>set granted. unat al dvd unat p \<and> region p sz \<subseteq> {unat (bump_base a')..<unat (bump_end a')})"
proof -
  note inv = BumpAllocator_new_inv[OF assms(1,2)]
  note d = bump.run_disjoint[OF inv(1) assms(3,4)]
  have "bump_used a' \<subseteq> {unat (bump_base a')..<unat (bump_end a')}"
    using d by (auto simp: bump_used_def bump_inv_def word_le_nat_alt)
  with d bump.run_aligned[OF inv(1) assms(3,4)] show ?thesis by (fastforce simp: case_prod_unfold)
qed

theorem bump_allocations_disjoint_witness:
  "\<exists>a granted a'. BumpAllocator_new (\<lambda>n. if n = 64 then Some 4104 else None) 64 = Inr a \<and>
     alloc_run bump_op [((), 5, 1), ((), 8, 16), ((), 100, 8)] a = (granted, a') \<and>
     granted = [(4104, 5, 1), (4112, 8, 16)] \<and> regions_disjoint granted"
proof -
  let ?a = "\<lparr>bump_base = 4104, bump_cursor = 4104, bump_end = 4168\<rparr>"
  have new: "BumpAllocator_new (\<lambda>n. if n = 64 then Some 4104 else None) 64 = Inr ?a"
    by (simp add: BumpAllocator_new_def)
  have mal: "unat b + unat n \<le> 2 ^ 47" if "(if n = 64 then Some 4104 else None) = Some b" for n b :: u64
    using that by (auto split: if_splits)
  have run: "alloc_run bump_op [((), 5, 1), ((), 8, 16), ((), 100, 8)] ?a =
      ([(4104, 5, 1), (4112, 8, 16)], \<lparr>bump_base = 4104, bump_cursor = 4120, bump_end = 4168\<rparr>)"
    by (simp add: bump_op_def bump_allocate_def)
  have ok: "reqs_ok bump_op (\<lambda>m sz al a. request_ok sz al) [((), 5, 1), ((), 8, 16), ((), 100, 8)] ?a"
    by (simp add: request_ok_def)
  from bump_allocations_disjoint[OF new mal ok run] run new show ?thesis by blast
qed

text \<open>
  The same for an arena, across the blocks it chains: pointers are aligned, regions never
  overlap and are owned by the arena, and the bytes taken from the system are the sum of the
  block sizes and stay within \<open>max_bytes\<close> once the first block does.
\<close>

theorem arena_allocations_disjoint:
  assumes "ArenaAllocator_new malloc0 block_size max_bytes = Inr a"
    and "unat block_size \<le> 2 ^ 47" and "unat max_bytes \<le> 2 ^ 62"
    and "\<And>n b. malloc0 n = Some b \<Longrightarrow> unat b + unat n \<le> 2 ^ 47"
    and "reqs_ok arena_allocate malloc_ok reqs a"
    and "alloc_run arena_allocate reqs a = (granted, a')"
  shows "regions_disjoint granted \<and>
    (\<forall>(p, sz, al)\<in>set granted. unat al dvd unat p \<and> region p sz \<subseteq> arena_used a') \<and>
    unat (arena_capacity a') = sum_list (map (\<lambda>b. unat (blk_size b)) (arena_blocks a'))"
proof -
  note inv = ArenaAllocator_new_inv[OF assms(1-4)]
  from arena.run_disjoint[OF inv(1) assms(5,6)] arena.run_aligned[OF inv(1) assms(5,6)]
  show ?thesis by (auto simp: arena_inv_def arena_capacity_def)
qed

theorem arena_allocations_disjoint_witness:
  "\<exists>a granted. ArenaAllocator_new (\<lambda>n. if n = 32 then Some 4096 else None) 32 1024 = Inr a \<and>
     fst (alloc_run arena_allocate [(\<lambda>n. None, 20, 8), (\<lambda>n. if n = 55 then Some 8200 else None, 40, 16)] a) = granted \<and>
     granted = [(4096, 20, 8), (8208, 40, 16)] \<and> regions_disjoint granted"
proof -
  let ?m = "\<lambda>n :: u64. if n = 55 then Some (8200 :: u64) else None"
  let ?b = "\<lparr>blk_base = 4096, blk_cursor = 4096, blk_end = 4128, blk_size = 32\<rparr>"
  let ?a = "\<lparr>arena_blocks = [?b], arena_block_size = 32, arena_max_bytes = 1024,
             arena_total_allocated = 32\<rparr>"
  have new: "ArenaAllocator_new (\<lambda>n. if n = 32 then Some 4096 else None) 32 1024 = Inr ?a"
    by (simp add: ArenaAllocator_new_def make_block_def)
  have mal: "unat b + unat n \<le> 2 ^ 47" if "(if n = 32 then Some 4096 else None) = Some b" for n b :: u64
    using that by (auto split: if_splits)
  let ?reqs = "[(\<lambda>n. None, 20, 8), (?m, 40, 16)]"
  have first: "arena_allocate (\<lambda>n. None) 20 8 ?a =
      (Inr (Some 4096), ?a\<lparr>arena_blocks := [?b\<lparr>blk_cursor := 4116\<rparr>]\<rparr>)"
    by (simp add: arena_allocate_def)
  have second: "arena_allocate ?m 40 16 (?a\<lparr>arena_blocks := [?b\<lparr>blk_cursor := 4116\<rparr>]\<rparr>) =
      (Inr (Some 8208), ?a\<lparr>arena_blocks := [?b\<lparr>blk_cursor := 4116\<rparr>,
         \<lparr>blk_base = 8200, blk_cursor = 8248, blk_end = 8255, blk_size = 55\<rparr>],
         arena_total_allocated := 87\<rparr>)"
    by (simp add: arena_allocate_def make_block_def)
  have run: "alloc_run arena_allocate ?reqs ?a =
      ([(4096, 20, 8), (8208, 40, 16)], snd (alloc_run arena_allocate ?reqs ?a))"
    by (simp add: first second[simplified])
  have ok: "reqs_ok arena_allocate malloc_ok ?reqs ?a"
    by (auto simp: first malloc_ok_def request_ok_def region_def block_region_def split: if_splits)
  have sizes: "unat (32 :: u64) \<le> 2 ^ 47" "unat (1024 :: u64) \<le> 2 ^ 62" by simp_all
  have "regions_disjoint [(4096, 20, 8), (8208, 40, 16)]"
    using arena_allocations_disjoint[OF new sizes mal ok run] by blast
  moreover have "fst (alloc_run arena_allocate ?reqs ?a) = [(4096, 20, 8), (8208, 40, 16)]"
    using run by (metis fst_conv)
  ultimately show ?thesis using new by blast
qed

text \<open>
  \<open>BumpAllocator::allocate\<close> checks \<open>result + size > end_\<close> in wrapping arithmetic: a
  request whose size wraps the sum past the null address is granted, and moves the cursor
  below the base of the block.
\<close>

theorem bump_allocate_wraps:
  "\<exists>a. bump_inv a \<and> bump_used_bytes a = 0 \<and>
     bump_allocate (- 4096) 1 a = (Some (bump_base a), a\<lparr>bump_cursor := bump_base a - 4096\<rparr>) \<and>
     bump_base a - 4096 < bump_base a"
  by (rule exI[of _ "\<lparr>bump_base = 8192, bump_cursor = 8192, bump_end = 12288\<rparr>"])
    (simp add: bump_inv_def bump_used_bytes_def bump_allocate_def word_le_nat_alt word_less_nat_alt)

end
