(* ===== verification/Slab_Allocator.thy ===== *)
theory Slab_Allocator
  imports Allocators
begin

text \<open>
  \<open>apex_core/src/slab_allocator.cpp\<close>: fixed-size slots threaded on a free list that lives in
  the slots themselves. The memory of the slots is explicit: \<open>slab_next\<close> and \<open>slab_magic\<close>
  are the two fields of the \<open>FreeNode\<close> at an address, and the owner of an allocated slot may
  overwrite both. The model is the release build: \<open>assert\<close> does nothing.
\<close>

definition SLAB_MAGIC_ALLOCATED :: u32 where "SLAB_MAGIC_ALLOCATED = 0xA110CA7E"
definition SLAB_MAGIC_FREED :: u32 where "SLAB_MAGIC_FREED = 0xF2EED000"

record SlabAllocatorConfig =
  auto_grow :: bool
  grow_chunk_size :: u64
  max_total_count :: u64

record SlabAllocator =
  slab_chunks :: "(u64 \<times> u64) list"
  slab_free_list :: u64
  slab_slot_size :: u64
  slab_total_count :: u64
  slab_free_count :: u64
  slab_config :: SlabAllocatorConfig
  slab_initial_count :: u64
  slab_grow_count :: u64
  slab_peak_allocated :: u64
  slab_double_free_count :: u64
  slab_next :: "u64 \<Rightarrow> u64"
  slab_magic :: "u64 \<Rightarrow> u32"

text \<open>Putting a slot on the free list: the statements grow and deallocate share.\<close>

definition push_free :: "u64 \<Rightarrow> SlabAllocator \<Rightarrow> SlabAllocator" where
  "push_free node s =
     s\<lparr>slab_next := (slab_next s)(node := slab_free_list s),
       slab_magic := (slab_magic s)(node := SLAB_MAGIC_FREED),
       slab_free_list := node\<rparr>"

text \<open>The loop of \<open>grow\<close>, from the last slot of the chunk to the first.\<close>

primrec link_slots :: "u64 \<Rightarrow> nat \<Rightarrow> SlabAllocator \<Rightarrow> SlabAllocator" where
  "link_slots chunk 0 s = s"
| "link_slots chunk (Suc i) s =
     link_slots chunk i (push_free (chunk + of_nat i * slab_slot_size s) s)"

definition slab_grow ::
  "(u64 \<Rightarrow> u64 \<Rightarrow> u64 option) \<Rightarrow> u64 \<Rightarrow> SlabAllocator \<Rightarrow> cpp_exception + SlabAllocator" where
  "slab_grow aligned_alloc count s =
     (if 0 < count \<and> SIZE_MAX div count < slab_slot_size s then Inl std_bad_alloc
      else let alloc_size = align_up (slab_slot_size s * count) 64 in
      case aligned_alloc 64 alloc_size of
        None \<Rightarrow> Inl std_bad_alloc
      | Some chunk \<Rightarrow>
          let s = s\<lparr>slab_chunks := slab_chunks s @ [(chunk, count)]\<rparr>;
              s = link_slots chunk (unat count) s
          in Inr (s\<lparr>slab_total_count := slab_total_count s + count,
                    slab_free_count := slab_free_count s + count\<rparr>))"

definition SlabAllocator_new ::
  "(u64 \<Rightarrow> u64 \<Rightarrow> u64 option) \<Rightarrow> (u64 \<Rightarrow> u64) \<Rightarrow> (u64 \<Rightarrow> u32) \<Rightarrow> u64 \<Rightarrow> u64 \<Rightarrow> SlabAllocatorConfig \<Rightarrow>
   cpp_exception + SlabAllocator" where
  "SlabAllocator_new aligned_alloc next0 magic0 slot_size initial_count config =
     (let s = \<lparr>slab_chunks = [], slab_free_list = 0,
               slab_slot_size = align_up (max slot_size 16) 16,
               slab_total_count = 0, slab_free_count = 0, slab_config = config,
               slab_initial_count = initial_count, slab_grow_count = 0,
               slab_peak_allocated = 0, slab_double_free_count = 0,
               slab_next = next0, slab_magic = magic0\<rparr>
      in if initial_count = 0 then Inl std_invalid_argument
         else slab_grow aligned_alloc initial_count s)"

definition slab_allocated_count :: "SlabAllocator \<Rightarrow> u64" where
  "slab_allocated_count s = slab_total_count s - slab_free_count s"

text \<open>The part of \<open>allocate()\<close> after the free list is known to be non-empty.\<close>

definition pop_free :: "SlabAllocator \<Rightarrow> u64 \<times> SlabAllocator" where
  "pop_free s =
     (let node = slab_free_list s;
          s = s\<lparr>slab_free_list := slab_next s node\<rparr>;
          s = s\<lparr>slab_free_count := slab_free_count s - 1\<rparr>;
          s = s\<lparr>slab_magic := (slab_magic s)(node := SLAB_MAGIC_ALLOCATED)\<rparr>;
          current = slab_allocated_count s;
          s = (if slab_peak_allocated s < current then s\<lparr>slab_peak_allocated := current\<rparr> else s)
      in (node, s))"

definition slab_grow_size :: "SlabAllocator \<Rightarrow> u64" where
  "slab_grow_size s =
     (let chunk = (if 0 < grow_chunk_size (slab_config s) then grow_chunk_size (slab_config s)
                   else slab_initial_count s)
      in if 0 < max_total_count (slab_config s)
         then min chunk (max_total_count (slab_config s) - slab_total_count s)
         else chunk)"

definition slab_allocate_slot ::
  "(u64 \<Rightarrow> u64 \<Rightarrow> u64 option) \<Rightarrow> SlabAllocator \<Rightarrow> (cpp_exception + u64 option) \<times> SlabAllocator" where
  "slab_allocate_slot aligned_alloc s =
     (if slab_free_list s = 0
      then if \<not> auto_grow (slab_config s) then (Inr None, s)
           else if 0 < max_total_count (slab_config s) \<and>
                   max_total_count (slab_config s) \<le> slab_total_count s then (Inr None, s)
           else if slab_grow_size s = 0 then (Inr None, s)
           else case slab_grow aligned_alloc (slab_grow_size s) s of
                  Inl e \<Rightarrow> (Inl e, s)
                | Inr s1 \<Rightarrow>
                    let (node, s2) = pop_free (s1\<lparr>slab_grow_count := slab_grow_count s1 + 1\<rparr>)
                    in (Inr (Some node), s2)
      else let (node, s2) = pop_free s in (Inr (Some node), s2))"

definition slab_allocate ::
  "(u64 \<Rightarrow> u64 \<Rightarrow> u64 option) \<Rightarrow> u64 \<Rightarrow> u64 \<Rightarrow> SlabAllocator \<Rightarrow>
   (cpp_exception + u64 option) \<times> SlabAllocator" where
  "slab_allocate aligned_alloc sz align s =
     (if sz = 0 \<or> slab_slot_size s < sz then (Inr None, s) else slab_allocate_slot aligned_alloc s)"

definition slab_deallocate :: "u64 \<Rightarrow> SlabAllocator \<Rightarrow> SlabAllocator" where
  "slab_deallocate ptr s =
     (if ptr = 0 then s
      else if slab_magic s ptr = SLAB_MAGIC_FREED
      then s\<lparr>slab_double_free_count := slab_double_free_count s + 1\<rparr>
      else let s = push_free ptr s in s\<lparr>slab_free_count := slab_free_count s + 1\<rparr>)"

fun owns_scan :: "u64 \<Rightarrow> (u64 \<times> u64) list \<Rightarrow> u64 \<Rightarrow> bool" where
  "owns_scan slot_size [] p = False"
| "owns_scan slot_size ((d, c) # chunks) p =
     (if d \<le> p \<and> p < d + slot_size * c then (p - d) mod slot_size = 0
      else owns_scan slot_size chunks p)"

definition slab_owns :: "SlabAllocator \<Rightarrow> u64 \<Rightarrow> bool" where
  "slab_owns s ptr = owns_scan (slab_slot_size s) (slab_chunks s) ptr"

definition slab_used_bytes :: "SlabAllocator \<Rightarrow> u64" where
  "slab_used_bytes s = slab_allocated_count s * slab_slot_size s"

definition slab_capacity :: "SlabAllocator \<Rightarrow> u64" where
  "slab_capacity s = slab_total_count s * slab_slot_size s"

text \<open>The owner of a slot writes over the two fields.\<close>

definition owner_writes :: "u64 \<Rightarrow> u64 \<Rightarrow> u32 \<Rightarrow> SlabAllocator \<Rightarrow> SlabAllocator" where
  "owner_writes p n m s = s\<lparr>slab_next := (slab_next s)(p := n), slab_magic := (slab_magic s)(p := m)\<rparr>"

section \<open>Invariant\<close>

definition chunk_slots :: "u64 \<Rightarrow> u64 \<times> u64 \<Rightarrow> u64 list" where
  "chunk_slots slot_size ch = map (\<lambda>i. fst ch + of_nat i * slot_size) [0..<unat (snd ch)]"

definition chunk_region :: "u64 \<Rightarrow> u64 \<times> u64 \<Rightarrow> nat set" where
  "chunk_region slot_size ch = {unat (fst ch)..<unat (fst ch) + unat slot_size * unat (snd ch)}"

fun chunks_disjoint :: "u64 \<Rightarrow> (u64 \<times> u64) list \<Rightarrow> bool" where
  "chunks_disjoint z [] \<longleftrightarrow> True"
| "chunks_disjoint z (c # cs) \<longleftrightarrow>
     (\<forall>d\<in>set cs. chunk_region z c \<inter> chunk_region z d = {}) \<and> chunks_disjoint z cs"

definition chunks_ok :: "u64 \<Rightarrow> (u64 \<times> u64) list \<Rightarrow> bool" where
  "chunks_ok z chunks \<longleftrightarrow> 0 < unat z \<and>
     (\<forall>(d, c)\<in>set chunks. d \<noteq> 0 \<and> unat d + unat z * unat c \<le> 2 ^ 47) \<and> chunks_disjoint z chunks"

definition slots_of :: "u64 \<Rightarrow> (u64 \<times> u64) list \<Rightarrow> u64 list" where
  "slots_of z chunks = concat (map (chunk_slots z) chunks)"

definition slab_slots :: "SlabAllocator \<Rightarrow> u64 list" where
  "slab_slots s = slots_of (slab_slot_size s) (slab_chunks s)"

text \<open>The free list: the nodes reached from the head, ending in the null pointer.\<close>

fun chain :: "(u64 \<Rightarrow> u64) \<Rightarrow> u64 \<Rightarrow> u64 list \<Rightarrow> bool" where
  "chain nx p [] \<longleftrightarrow> p = 0"
| "chain nx p (x # xs) \<longleftrightarrow> p = x \<and> x \<noteq> 0 \<and> chain nx (nx x) xs"

primrec walk :: "(u64 \<Rightarrow> u64) \<Rightarrow> u64 \<Rightarrow> nat \<Rightarrow> u64 list" where
  "walk nx p 0 = []"
| "walk nx p (Suc n) = (if p = 0 then [] else p # walk nx (nx p) n)"

definition slab_free :: "SlabAllocator \<Rightarrow> u64 list" where
  "slab_free s = walk (slab_next s) (slab_free_list s) (unat (slab_free_count s))"

definition slab_taken :: "SlabAllocator \<Rightarrow> u64 set" where
  "slab_taken s = set (slab_slots s) - set (slab_free s)"

definition slab_limits :: "SlabAllocator \<Rightarrow> bool" where
  "slab_limits s \<longleftrightarrow>
     unat (slab_slot_size s) * unat (slab_initial_count s) \<le> 2 ^ 62 \<and>
     unat (slab_slot_size s) * unat (grow_chunk_size (slab_config s)) \<le> 2 ^ 62"

definition slab_inv :: "SlabAllocator \<Rightarrow> bool" where
  "slab_inv s \<longleftrightarrow> slab_limits s \<and> chunks_ok (slab_slot_size s) (slab_chunks s) \<and>
     unat (slab_total_count s) = length (slab_slots s) \<and>
     length (slab_free s) = unat (slab_free_count s) \<and>
     chain (slab_next s) (slab_free_list s) (slab_free s) \<and>
     distinct (slab_free s) \<and> set (slab_free s) \<subseteq> set (slab_slots s) \<and>
     (\<forall>x\<in>set (slab_free s). slab_magic s x = SLAB_MAGIC_FREED)"


section \<open>Slots\<close>

lemma slot_addr:
  fixes d z c :: u64
  assumes "unat d + unat z * unat c \<le> 2 ^ 47" and "i < unat c"
  shows "unat (d + of_nat i * z) = unat d + i * unat z"
proof -
  have "i * unat z \<le> unat c * unat z" using assms(2) by simp
  then have le: "unat d + i * unat z \<le> 2 ^ 47"
    using assms(1) mult.commute[of "unat z" "unat c"] by linarith
  have "of_nat i * z = of_nat (i * unat z)" by simp
  also have "unat (\<dots> :: u64) = i * unat z" using le by (intro unat_of_nat_small) simp
  finally have "unat (of_nat i * z) = i * unat z" .
  then show ?thesis using le by (simp add: unat_add_small)
qed

lemma chunk_slots_iff:
  assumes "unat d + unat z * unat c \<le> 2 ^ 47"
  shows "x \<in> set (chunk_slots z (d, c)) \<longleftrightarrow> (\<exists>i<unat c. unat x = unat d + i * unat z)"
proof
  assume "x \<in> set (chunk_slots z (d, c))"
  then show "\<exists>i<unat c. unat x = unat d + i * unat z"
    using slot_addr[OF assms] by (auto simp: chunk_slots_def)
next
  assume "\<exists>i<unat c. unat x = unat d + i * unat z"
  then obtain i where i: "i < unat c" "unat x = unat d + i * unat z" by blast
  then have "x = d + of_nat i * z" using slot_addr[OF assms i(1)] by (simp add: word_unat_eq_iff)
  with i(1) show "x \<in> set (chunk_slots z (d, c))" by (auto simp: chunk_slots_def)
qed

lemma slot_in_chunk:
  assumes "unat d + unat z * unat c \<le> 2 ^ 47" and "x \<in> set (chunk_slots z (d, c))"
  shows "region x z \<subseteq> chunk_region z (d, c)"
proof -
  from assms obtain i where i: "i < unat c" "unat x = unat d + i * unat z"
    by (auto simp: chunk_slots_iff)
  have "Suc i * unat z \<le> unat c * unat z" using i(1) by (intro mult_le_mono1) simp
  then show ?thesis using i(2) by (auto simp: region_def chunk_region_def mult.commute)
qed

lemma chunk_slots_apart:
  assumes "unat d + unat z * unat c \<le> 2 ^ 47" and "x \<in> set (chunk_slots z (d, c))"
    and "y \<in> set (chunk_slots z (d, c))" and "x \<noteq> y"
  shows "region x z \<inter> region y z = {}"
proof -
  from assms(1-3) obtain i j where ij: "unat x = unat d + i * unat z" "unat y = unat d + j * unat z"
    by (auto simp: chunk_slots_iff)
  with assms(4) have "i \<noteq> j" by (auto simp: word_unat_eq_iff)
  then consider "Suc i \<le> j" | "Suc j \<le> i" by linarith
  then show ?thesis
  proof cases
    case 1
    then have "Suc i * unat z \<le> j * unat z" by (rule mult_le_mono1)
    with ij show ?thesis by (auto simp: region_def)
  next
    case 2
    then have "Suc j * unat z \<le> i * unat z" by (rule mult_le_mono1)
    with ij show ?thesis by (auto simp: region_def)
  qed
qed

lemma distinct_chunk_slots:
  assumes "unat d + unat z * unat c \<le> 2 ^ 47" and "0 < unat z"
  shows "distinct (chunk_slots z (d, c))"
proof -
  have "inj_on (\<lambda>i. d + of_nat i * z) {0..<unat c}"
  proof (rule inj_onI)
    fix i j assume "i \<in> {0..<unat c}" "j \<in> {0..<unat c}" "d + of_nat i * z = d + of_nat j * z"
    then have "unat d + i * unat z = unat d + j * unat z"
      by (metis slot_addr[OF assms(1)] atLeastLessThan_iff)
    with assms(2) show "i = j" by simp
  qed
  then show ?thesis by (simp add: chunk_slots_def distinct_map)
qed

lemma slots_of_chunk:
  assumes "x \<in> set (slots_of z chunks)"
  obtains d c where "(d, c) \<in> set chunks" and "x \<in> set (chunk_slots z (d, c))"
  using assms by (auto simp: slots_of_def)

lemma slots_of_props:
  assumes "chunks_ok z chunks"
  shows "distinct (slots_of z chunks)"
    and "\<And>x y. x \<in> set (slots_of z chunks) \<Longrightarrow> y \<in> set (slots_of z chunks) \<Longrightarrow> x \<noteq> y \<Longrightarrow>
      region x z \<inter> region y z = {}"
    and "\<And>x. x \<in> set (slots_of z chunks) \<Longrightarrow> x \<noteq> 0 \<and> unat x < 2 ^ 47"
proof -
  have z: "0 < unat z" using assms by (simp add: chunks_ok_def)
  have in_chunk: "region x z \<subseteq> chunk_region z ch"
    if "chunks_ok z (ch # cs)" "x \<in> set (chunk_slots z ch)" for x ch cs
    using that slot_in_chunk by (cases ch) (auto simp: chunks_ok_def)
  have tl_ok: "chunks_ok z cs" if "chunks_ok z (ch # cs)" for ch cs
    using that by (auto simp: chunks_ok_def)
  have apart: "region x z \<inter> region y z = {}"
    if "chunks_ok z (ch # cs)" "x \<in> set (chunk_slots z ch)" "y \<in> set (slots_of z cs)" for x y ch cs
  proof -
    from that(3) obtain d c where dc: "(d, c) \<in> set cs" "y \<in> set (chunk_slots z (d, c))"
      by (rule slots_of_chunk)
    then have "region y z \<subseteq> chunk_region z (d, c)"
      using that(1) by (intro slot_in_chunk) (auto simp: chunks_ok_def)
    moreover have "chunk_region z ch \<inter> chunk_region z (d, c) = {}"
      using that(1) dc(1) by (auto simp: chunks_ok_def)
    ultimately show ?thesis using in_chunk[OF that(1,2)] by blast
  qed
  have ne: "region x z \<noteq> {}" for x using z by (simp add: region_def)
  show "distinct (slots_of z chunks)"
    using assms
  proof (induction chunks)
    case Nil
    then show ?case by (simp add: slots_of_def)
  next
    case (Cons ch cs)
    have "distinct (chunk_slots z ch)"
      using Cons.prems distinct_chunk_slots[of "fst ch" z "snd ch"] by (auto simp: chunks_ok_def)
    moreover have "set (chunk_slots z ch) \<inter> set (slots_of z cs) = {}"
      using apart[OF Cons.prems] ne by blast
    ultimately show ?case using Cons.IH[OF tl_ok[OF Cons.prems]] by (simp add: slots_of_def)
  qed
  show "region x z \<inter> region y z = {}"
    if "x \<in> set (slots_of z chunks)" "y \<in> set (slots_of z chunks)" "x \<noteq> y" for x y
    using assms that
  proof (induction chunks)
    case Nil
    then show ?case by (simp add: slots_of_def)
  next
    case (Cons ch cs)
    have split: "set (slots_of z (ch # cs)) = set (chunk_slots z ch) \<union> set (slots_of z cs)"
      by (simp add: slots_of_def)
    have chunk: "unat (fst ch) + unat z * unat (snd ch) \<le> 2 ^ 47"
      using Cons.prems(1) by (auto simp: chunks_ok_def)
    from Cons.prems(2,3) split consider
      "x \<in> set (chunk_slots z ch)" "y \<in> set (chunk_slots z ch)"
      | "x \<in> set (chunk_slots z ch)" "y \<in> set (slots_of z cs)"
      | "x \<in> set (slots_of z cs)" "y \<in> set (chunk_slots z ch)"
      | "x \<in> set (slots_of z cs)" "y \<in> set (slots_of z cs)" by blast
    then show ?case
    proof cases
      case 1
      then show ?thesis using chunk_slots_apart[OF chunk, of x y] Cons.prems(4) by simp
    next
      case 2
      then show ?thesis using apart[OF Cons.prems(1)] by blast
    next
      case 3
      then show ?thesis using apart[OF Cons.prems(1)] by blast
    next
      case 4
      then show ?thesis using Cons.IH tl_ok[OF Cons.prems(1)] Cons.prems(4) by blast
    qed
  qed
  show "x \<noteq> 0 \<and> unat x < 2 ^ 47" if x: "x \<in> set (slots_of z chunks)" for x
  proof -
    from x obtain d c where dc: "(d, c) \<in> set chunks" "x \<in> set (chunk_slots z (d, c))"
      by (rule slots_of_chunk)
    with assms have b: "unat d + unat z * unat c \<le> 2 ^ 47" "d \<noteq> 0" by (auto simp: chunks_ok_def)
    have "region x z \<subseteq> chunk_region z (d, c)" by (rule slot_in_chunk[OF b(1) dc(2)])
    then have "unat d \<le> unat x" "unat x < unat d + unat z * unat c"
      using z by (auto simp: region_def chunk_region_def)
    moreover have "0 < unat d" using b(2) by (simp add: unat_gt_0)
    ultimately show ?thesis using b(1) by auto
  qed
qed


section \<open>The free list\<close>

lemma walk_chain: "chain nx p xs \<Longrightarrow> walk nx p (length xs) = xs"
  by (induction xs arbitrary: p) auto

lemma chain_upd: "x \<notin> set xs \<Longrightarrow> chain (nx(x := v)) p xs \<longleftrightarrow> chain nx p xs"
  by (induction xs arbitrary: p) auto

text \<open>The invariant with the free list as a witness.\<close>

lemma slab_invI:
  assumes "slab_limits s" and "chunks_ok (slab_slot_size s) (slab_chunks s)"
    and "unat (slab_total_count s) = length (slab_slots s)"
    and "chain (slab_next s) (slab_free_list s) fs" and "length fs = unat (slab_free_count s)"
    and "distinct fs" and "set fs \<subseteq> set (slab_slots s)"
    and "\<forall>x\<in>set fs. slab_magic s x = SLAB_MAGIC_FREED"
  shows "slab_inv s" and "slab_free s = fs"
proof -
  show fs: "slab_free s = fs"
    using walk_chain[OF assms(4)] by (simp add: slab_free_def assms(5))
  show "slab_inv s" using assms by (simp add: slab_inv_def fs)
qed

lemma slab_slots_props:
  assumes "slab_inv s"
  shows "distinct (slab_slots s)" and "length (slab_slots s) \<le> 2 ^ 47"
    and "x \<in> set (slab_slots s) \<Longrightarrow> x \<noteq> 0"
proof -
  have ok: "chunks_ok (slab_slot_size s) (slab_chunks s)" using assms by (simp add: slab_inv_def)
  show d: "distinct (slab_slots s)" and "x \<in> set (slab_slots s) \<Longrightarrow> x \<noteq> 0"
    using slots_of_props[OF ok] by (simp_all add: slab_slots_def)
  have "unat ` set (slab_slots s) \<subseteq> {..<2 ^ 47}"
    using slots_of_props(3)[OF ok] by (auto simp: slab_slots_def)
  then have "card (unat ` set (slab_slots s)) \<le> card {..<(2::nat) ^ 47}"
    by (rule card_mono[rotated]) simp
  moreover have "card (unat ` set (slab_slots s)) = length (slab_slots s)"
    using d by (simp add: card_image inj_on_def word_unat_eq_iff distinct_card)
  ultimately show "length (slab_slots s) \<le> 2 ^ 47" by simp
qed

lemma slab_free_len:
  assumes "slab_inv s"
  shows "length (slab_free s) \<le> length (slab_slots s)"
proof -
  have "card (set (slab_free s)) \<le> card (set (slab_slots s))"
    using assms by (intro card_mono) (simp_all add: slab_inv_def)
  then show ?thesis
    using assms slab_slots_props(1)[OF assms] by (simp add: slab_inv_def distinct_card)
qed

lemma slab_counts:
  assumes "slab_inv s"
  shows "unat (slab_allocated_count s) = length (slab_slots s) - length (slab_free s)"
    and "card (slab_taken s) = unat (slab_allocated_count s)"
proof -
  show 1: "unat (slab_allocated_count s) = length (slab_slots s) - length (slab_free s)"
    using assms slab_free_len[OF assms]
    by (simp add: slab_allocated_count_def unat_diff_le slab_inv_def)
  have "card (slab_taken s) = card (set (slab_slots s)) - card (set (slab_free s))"
    using assms unfolding slab_taken_def by (intro card_Diff_subset) (simp_all add: slab_inv_def)
  then show "card (slab_taken s) = unat (slab_allocated_count s)"
    using assms slab_slots_props(1)[OF assms] by (simp add: 1 distinct_card slab_inv_def)
qed

section \<open>Operations\<close>

lemma pop_free_correct:
  assumes inv: "slab_inv s" and ne: "slab_free_list s \<noteq> 0" and pop: "pop_free s = (x, s')"
  shows "slab_inv s'" and "slab_free s = x # slab_free s'" and "slab_slots s' = slab_slots s"
    and "slab_config s' = slab_config s" and "slab_total_count s' = slab_total_count s"
    and "slab_slot_size s' = slab_slot_size s" and "slab_chunks s' = slab_chunks s"
proof -
  have same: "slab_next s' = slab_next s" "slab_chunks s' = slab_chunks s"
    "slab_slot_size s' = slab_slot_size s" "slab_config s' = slab_config s"
    "slab_total_count s' = slab_total_count s" "slab_initial_count s' = slab_initial_count s"
    "slab_free_count s' = slab_free_count s - 1" "slab_free_list s' = slab_next s x"
    "slab_magic s' = (slab_magic s)(x := SLAB_MAGIC_ALLOCATED)" "x = slab_free_list s"
    using pop by (auto simp: pop_free_def Let_def split: if_splits)
  obtain fs where fs: "slab_free s = x # fs"
    using inv ne same(10) by (cases "slab_free s") (auto simp: slab_inv_def)
  have len: "Suc (length fs) = unat (slab_free_count s)" using inv fs by (simp add: slab_inv_def)
  then have cnt: "unat (slab_free_count s - 1) = length fs" by (simp add: unat_diff_le)
  have slots: "slab_slots s' = slab_slots s" by (simp add: slab_slots_def same)
  have "slab_limits s'" "chunks_ok (slab_slot_size s') (slab_chunks s')"
    "unat (slab_total_count s') = length (slab_slots s')"
    "chain (slab_next s') (slab_free_list s') fs" "length fs = unat (slab_free_count s')"
    "distinct fs" "set fs \<subseteq> set (slab_slots s')"
    "\<forall>y\<in>set fs. slab_magic s' y = SLAB_MAGIC_FREED"
    using inv fs cnt by (auto simp: slab_inv_def slab_limits_def same slots)
  note i = slab_invI[OF this]
  show "slab_inv s'" by (fact i(1))
  show "slab_free s = x # slab_free s'" by (simp add: fs i(2))
  show "slab_slots s' = slab_slots s" by (fact slots)
  show "slab_config s' = slab_config s" "slab_total_count s' = slab_total_count s"
    "slab_slot_size s' = slab_slot_size s" "slab_chunks s' = slab_chunks s" by (fact same)+
qed

lemma link_slots_correct:
  fixes chunk :: u64
  assumes "chain (slab_next s) (slab_free_list s) fs"
    and "distinct (map (\<lambda>i. chunk + of_nat i * slab_slot_size s) [0..<n])"
    and "\<forall>i<n. chunk + of_nat i * slab_slot_size s \<noteq> 0 \<and> chunk + of_nat i * slab_slot_size s \<notin> set fs"
    and "\<forall>x\<in>set fs. slab_magic s x = SLAB_MAGIC_FREED"
  shows "\<exists>nx mg fl. link_slots chunk n s = s\<lparr>slab_next := nx, slab_magic := mg, slab_free_list := fl\<rparr> \<and>
    chain nx fl (map (\<lambda>i. chunk + of_nat i * slab_slot_size s) [0..<n] @ fs) \<and>
    (\<forall>x\<in>set (map (\<lambda>i. chunk + of_nat i * slab_slot_size s) [0..<n] @ fs). mg x = SLAB_MAGIC_FREED)"
  using assms
proof (induction n arbitrary: s fs)
  case 0
  then show ?case
    by (intro exI[of _ "slab_next s"] exI[of _ "slab_magic s"] exI[of _ "slab_free_list s"]) simp
next
  case (Suc n)
  let ?slot = "\<lambda>i. chunk + of_nat i * slab_slot_size s"
  let ?s = "push_free (?slot n) s"
  have sz: "slab_slot_size ?s = slab_slot_size s" by (simp add: push_free_def)
  have "chain (slab_next ?s) (slab_free_list ?s) (?slot n # fs)"
    using Suc.prems(1,3) by (simp add: push_free_def chain_upd)
  moreover have "distinct (map ?slot [0..<n])" using Suc.prems(2) by simp
  moreover have "?slot n \<notin> ?slot ` {0..<n}" using Suc.prems(2) by simp
  then have "\<forall>i<n. ?slot i \<noteq> ?slot n" by (metis atLeastLessThan_iff imageI zero_le)
  then have "\<forall>i<n. ?slot i \<noteq> 0 \<and> ?slot i \<notin> set (?slot n # fs)"
    using Suc.prems(3) by simp
  moreover have "\<forall>x\<in>set (?slot n # fs). slab_magic ?s x = SLAB_MAGIC_FREED"
    using Suc.prems(4) by (simp add: push_free_def)
  ultimately obtain nx mg fl where
    "link_slots chunk n ?s = ?s\<lparr>slab_next := nx, slab_magic := mg, slab_free_list := fl\<rparr>"
    "chain nx fl (map ?slot [0..<n] @ ?slot n # fs)"
    "\<forall>x\<in>set (map ?slot [0..<n] @ ?slot n # fs). mg x = SLAB_MAGIC_FREED"
    using Suc.IH[of ?s "?slot n # fs"] unfolding sz by blast
  then show ?case
    by (intro exI[of _ nx] exI[of _ mg] exI[of _ fl]) (simp add: push_free_def)
qed


text \<open>What the allocator relies on from \<open>aligned_alloc\<close>: a non-null block of the address
  space, away from the chunks it holds.\<close>

definition slab_malloc_ok :: "(u64 \<Rightarrow> u64 \<Rightarrow> u64 option) \<Rightarrow> SlabAllocator \<Rightarrow> bool" where
  "slab_malloc_ok aligned_alloc s \<longleftrightarrow>
     (\<forall>a n p. aligned_alloc a n = Some p \<longrightarrow>
        p \<noteq> 0 \<and> unat p + unat n \<le> 2 ^ 47 \<and>
        (\<forall>ch\<in>set (slab_chunks s). region p n \<inter> chunk_region (slab_slot_size s) ch = {}))"

lemma chunks_disjoint_append:
  "chunks_disjoint z (xs @ [c]) \<longleftrightarrow> chunks_disjoint z xs \<and>
     (\<forall>d\<in>set xs. chunk_region z d \<inter> chunk_region z c = {})"
  by (induction xs) auto

lemma slab_grow_correct:
  assumes inv: "slab_inv s" and ok: "slab_malloc_ok aligned_alloc s"
    and bound: "unat (slab_slot_size s) * unat count \<le> 2 ^ 62"
    and grow: "slab_grow aligned_alloc count s = Inr s'"
  shows "slab_inv s'" and "\<exists>ns. slab_free s' = ns @ slab_free s \<and> slab_slots s' = slab_slots s @ ns \<and>
      length ns = unat count"
    and "slab_slot_size s' = slab_slot_size s" and "slab_config s' = slab_config s"
    and "slab_total_count s' = slab_total_count s + count"
proof -
  let ?z = "slab_slot_size s"
  have mul: "unat (?z * count) = unat ?z * unat count"
    using bound by (simp add: unat_word_ariths)
  then have pad: "unat ?z * unat count \<le> unat (align_up (?z * count) (2 ^ 6))"
    using align_up_bounds(1)[of 6 "?z * count"] bound by simp
  obtain chunk where al: "aligned_alloc 64 (align_up (?z * count) 64) = Some chunk"
    and s': "s' = (let s = link_slots chunk (unat count) (s\<lparr>slab_chunks := slab_chunks s @ [(chunk, count)]\<rparr>)
       in s\<lparr>slab_total_count := slab_total_count s + count, slab_free_count := slab_free_count s + count\<rparr>)"
    using grow by (auto simp: slab_grow_def Let_def split: if_splits option.splits)
  have fits: "chunk \<noteq> 0" "unat chunk + unat ?z * unat count \<le> 2 ^ 47"
    "\<forall>ch\<in>set (slab_chunks s). chunk_region ?z (chunk, count) \<inter> chunk_region ?z ch = {}"
  proof -
    from ok al have "chunk \<noteq> 0" "unat chunk + unat (align_up (?z * count) 64) \<le> 2 ^ 47"
      and dis: "\<forall>ch\<in>set (slab_chunks s). region chunk (align_up (?z * count) 64) \<inter> chunk_region ?z ch = {}"
      by (auto simp: slab_malloc_ok_def)
    with pad show "chunk \<noteq> 0" "unat chunk + unat ?z * unat count \<le> 2 ^ 47" by simp_all
    have "chunk_region ?z (chunk, count) \<subseteq> region chunk (align_up (?z * count) 64)"
      using pad by (auto simp: chunk_region_def region_def)
    with dis show "\<forall>ch\<in>set (slab_chunks s). chunk_region ?z (chunk, count) \<inter> chunk_region ?z ch = {}"
      by blast
  qed
  let ?ns = "chunk_slots ?z (chunk, count)"
  let ?s1 = "s\<lparr>slab_chunks := slab_chunks s @ [(chunk, count)]\<rparr>"
  have ok0: "chunks_ok ?z (slab_chunks s)" using inv by (simp add: slab_inv_def)
  have ok1: "chunks_ok ?z (slab_chunks s @ [(chunk, count)])"
    using ok0 fits by (fastforce simp: chunks_ok_def chunks_disjoint_append)
  have slots1: "slots_of ?z (slab_chunks s @ [(chunk, count)]) = slab_slots s @ ?ns"
    by (simp add: slots_of_def slab_slots_def)
  note props = slots_of_props[OF ok1, unfolded slots1]
  have fresh: "set ?ns \<inter> set (slab_free s) = {}"
    using props(1) inv by (auto simp: slab_inv_def)
  have slot: "?ns = map (\<lambda>i. chunk + of_nat i * slab_slot_size ?s1) [0..<unat count]"
    by (simp add: chunk_slots_def)
  have "chain (slab_next ?s1) (slab_free_list ?s1) (slab_free s)"
    "\<forall>x\<in>set (slab_free s). slab_magic ?s1 x = SLAB_MAGIC_FREED" using inv by (simp_all add: slab_inv_def)
  moreover have "distinct ?ns" using props(1) by simp
  moreover have "\<forall>i<unat count. chunk + of_nat i * slab_slot_size ?s1 \<noteq> 0 \<and>
      chunk + of_nat i * slab_slot_size ?s1 \<notin> set (slab_free s)"
  proof (intro allI impI)
    fix i assume "i < unat count"
    then have "chunk + of_nat i * slab_slot_size ?s1 \<in> set ?ns" by (auto simp: slot)
    moreover from this have "chunk + of_nat i * slab_slot_size ?s1 \<noteq> 0"
      using props(3) by (simp only: set_append Un_iff) blast
    ultimately show "chunk + of_nat i * slab_slot_size ?s1 \<noteq> 0 \<and>
      chunk + of_nat i * slab_slot_size ?s1 \<notin> set (slab_free s)" using fresh by blast
  qed
  ultimately obtain nx mg fl where
    link: "link_slots chunk (unat count) ?s1 = ?s1\<lparr>slab_next := nx, slab_magic := mg, slab_free_list := fl\<rparr>"
    and ch: "chain nx fl (?ns @ slab_free s)"
    and mg: "\<forall>x\<in>set (?ns @ slab_free s). mg x = SLAB_MAGIC_FREED"
    using link_slots_correct[of ?s1 "slab_free s" chunk "unat count", folded slot] by blast
  have s'2: "s' = s\<lparr>slab_chunks := slab_chunks s @ [(chunk, count)], slab_next := nx, slab_magic := mg,
      slab_free_list := fl, slab_total_count := slab_total_count s + count,
      slab_free_count := slab_free_count s + count\<rparr>"
    by (simp add: s' link Let_def)
  have lens: "length ?ns = unat count" by (simp add: chunk_slots_def)
  have small: "unat count \<le> 2 ^ 47"
  proof -
    have "1 * unat count \<le> unat ?z * unat count"
      using ok0 by (intro mult_le_mono1) (simp add: chunks_ok_def)
    then show ?thesis using fits(2) by linarith
  qed
  have tot: "unat (slab_total_count s + count) = length (slab_slots s @ ?ns)"
    using inv small slab_slots_props(2)[OF inv] by (simp add: unat_add_small slab_inv_def lens)
  have fre: "unat (slab_free_count s + count) = length (?ns @ slab_free s)"
    using inv small slab_slots_props(2)[OF inv] slab_free_len[OF inv]
    by (simp add: unat_add_small slab_inv_def lens)
  have slots': "slab_slots s' = slab_slots s @ ?ns" by (simp add: slab_slots_def s'2 slots1[unfolded slab_slots_def])
  have "slab_limits s'" "chunks_ok (slab_slot_size s') (slab_chunks s')"
    "unat (slab_total_count s') = length (slab_slots s')"
    "chain (slab_next s') (slab_free_list s') (?ns @ slab_free s)"
    "length (?ns @ slab_free s) = unat (slab_free_count s')"
    "distinct (?ns @ slab_free s)" "set (?ns @ slab_free s) \<subseteq> set (slab_slots s')"
    "\<forall>x\<in>set (?ns @ slab_free s). slab_magic s' x = SLAB_MAGIC_FREED"
    using inv ok1 tot fre ch mg props(1) fresh unfolding slots'
    by (auto simp: s'2 slab_inv_def slab_limits_def)
  note i = slab_invI[OF this]
  show "slab_inv s'" by (fact i(1))
  show "\<exists>ns. slab_free s' = ns @ slab_free s \<and> slab_slots s' = slab_slots s @ ns \<and> length ns = unat count"
    using i(2) slots' lens by blast
  show "slab_slot_size s' = slab_slot_size s" "slab_config s' = slab_config s"
    "slab_total_count s' = slab_total_count s + count" by (simp_all add: s'2)
qed


lemma slab_grow_size_bound:
  assumes "slab_inv s"
  shows "unat (slab_slot_size s) * unat (slab_grow_size s) \<le> 2 ^ 62"
proof -
  let ?c = "if 0 < grow_chunk_size (slab_config s) then grow_chunk_size (slab_config s)
            else slab_initial_count s"
  have "unat (slab_grow_size s) \<le> unat ?c"
    by (auto simp: slab_grow_size_def Let_def min_def word_le_nat_alt)
  then have "unat (slab_slot_size s) * unat (slab_grow_size s) \<le> unat (slab_slot_size s) * unat ?c"
    by (rule mult_le_mono2)
  moreover have "\<dots> \<le> 2 ^ 62" using assms by (simp add: slab_inv_def slab_limits_def)
  ultimately show ?thesis by linarith
qed

lemma slab_pop_taken:
  assumes "slab_inv s" and "slab_free_list s \<noteq> 0" and "pop_free s = (x, s')"
  shows "slab_inv s'" and "x \<notin> slab_taken s" and "slab_taken s' = insert x (slab_taken s)"
    and "slab_slots s' = slab_slots s" and "x \<in> set (slab_slots s)"
proof -
  note p = pop_free_correct[OF assms]
  have "distinct (slab_free s)" "set (slab_free s) \<subseteq> set (slab_slots s)"
    using assms(1) by (simp_all add: slab_inv_def)
  then have x: "x \<notin> set (slab_free s')" "x \<in> set (slab_slots s)" using p(2) by auto
  with p show "x \<notin> slab_taken s" "slab_taken s' = insert x (slab_taken s)"
    by (auto simp: slab_taken_def)
  show "slab_inv s'" "slab_slots s' = slab_slots s" "x \<in> set (slab_slots s)"
    using p(1,3) x(2) by simp_all
qed

lemma slab_inv_grow_count [simp]: "slab_inv (s\<lparr>slab_grow_count := n\<rparr>) = slab_inv s"
  "slab_slots (s\<lparr>slab_grow_count := n\<rparr>) = slab_slots s"
  "slab_free (s\<lparr>slab_grow_count := n\<rparr>) = slab_free s"
  "slab_taken (s\<lparr>slab_grow_count := n\<rparr>) = slab_taken s"
  by (simp_all add: slab_inv_def slab_limits_def slab_slots_def slab_free_def slab_taken_def)

lemma slab_allocate_slot_correct:
  assumes inv: "slab_inv s" and ok: "slab_malloc_ok aligned_alloc s"
    and op: "slab_allocate_slot aligned_alloc s = (r, s')"
  shows "(case r of
      Inr (Some x) \<Rightarrow> slab_inv s' \<and> x \<notin> slab_taken s \<and> slab_taken s' = insert x (slab_taken s) \<and>
        x \<in> set (slab_slots s') \<and> slab_slot_size s' = slab_slot_size s \<and>
        (x \<in> set (slab_slots s) \<or> slab_free s = [])
    | Inr None \<Rightarrow> s' = s \<and> slab_free s = [] \<and>
        (\<not> auto_grow (slab_config s) \<or> slab_grow_size s = 0 \<or>
         0 < max_total_count (slab_config s) \<and> max_total_count (slab_config s) \<le> slab_total_count s)
    | Inl e \<Rightarrow> s' = s \<and> slab_free s = [])"
proof (cases "slab_free_list s = 0")
  case False
  obtain x s2 where pop: "pop_free s = (x, s2)" by (cases "pop_free s")
  with op False have "r = Inr (Some x)" "s' = s2" by (auto simp: slab_allocate_slot_def)
  with slab_pop_taken[OF inv False pop] pop_free_correct(6)[OF inv False pop] show ?thesis by simp
next
  case True
  then have empty: "slab_free s = []"
    using inv by (cases "slab_free s") (auto simp: slab_inv_def)
  show ?thesis
  proof (cases "slab_grow aligned_alloc (slab_grow_size s) s")
    case (Inl e)
    with True op empty show ?thesis by (auto simp: slab_allocate_slot_def split: if_splits)
  next
    case (Inr s1)
    note g = slab_grow_correct[OF inv ok slab_grow_size_bound[OF inv] Inr]
    obtain ns where ns: "slab_free s1 = ns @ slab_free s" "slab_slots s1 = slab_slots s @ ns"
      "length ns = unat (slab_grow_size s)" using g(2) by blast
    let ?s1 = "s1\<lparr>slab_grow_count := slab_grow_count s1 + 1\<rparr>"
    have dis: "distinct (slab_slots s1)" using slab_slots_props(1)[OF g(1)] .
    have taken: "slab_taken ?s1 = slab_taken s"
      using dis by (auto simp: slab_taken_def ns empty)
    show ?thesis
    proof (cases "\<not> auto_grow (slab_config s) \<or> slab_grow_size s = 0 \<or>
        0 < max_total_count (slab_config s) \<and> max_total_count (slab_config s) \<le> slab_total_count s")
      case stop: True
      with True op empty show ?thesis by (auto simp: slab_allocate_slot_def split: if_splits)
    next
      case go: False
      then have "ns \<noteq> []" using ns(3) by (auto simp: unat_eq_0)
      then have ne: "slab_free_list ?s1 \<noteq> 0"
        using g(1) ns(1) by (cases ns) (auto simp: slab_inv_def)
      obtain x s2 where pop: "pop_free ?s1 = (x, s2)" by (cases "pop_free ?s1")
      have "r = Inr (Some x)" "s' = s2"
        using op True go Inr pop by (auto simp: slab_allocate_slot_def split: if_splits)
      moreover have inv1: "slab_inv ?s1" using g(1) by simp
      ultimately show ?thesis
        using slab_pop_taken[OF inv1 ne pop] pop_free_correct(6)[OF inv1 ne pop] taken g(3) empty
        by simp
    qed
  qed
qed

lemma slab_deallocate_taken:
  assumes inv: "slab_inv s" and x: "x \<in> slab_taken s" and "slab_magic s x \<noteq> SLAB_MAGIC_FREED"
  shows "slab_inv (slab_deallocate x s)" and "slab_free (slab_deallocate x s) = x # slab_free s"
    and "slab_taken (slab_deallocate x s) = slab_taken s - {x}"
proof -
  let ?s = "slab_deallocate x s"
  have x': "x \<in> set (slab_slots s)" "x \<notin> set (slab_free s)" using x by (auto simp: slab_taken_def)
  have nz: "x \<noteq> 0" using slab_slots_props(3)[OF inv x'(1)] .
  have s': "?s = s\<lparr>slab_next := (slab_next s)(x := slab_free_list s),
      slab_magic := (slab_magic s)(x := SLAB_MAGIC_FREED), slab_free_list := x,
      slab_free_count := slab_free_count s + 1\<rparr>"
    using assms(3) nz by (simp add: slab_deallocate_def push_free_def Let_def)
  have len: "Suc (length (slab_free s)) \<le> 2 ^ 47"
  proof -
    have "set (x # slab_free s) \<subseteq> set (slab_slots s)" "distinct (x # slab_free s)"
      using inv x' by (simp_all add: slab_inv_def)
    then have "length (x # slab_free s) \<le> card (set (slab_slots s))"
      by (metis List.finite_set card_mono distinct_card)
    then show ?thesis using slab_slots_props(2)[OF inv] card_length[of "slab_slots s"] by simp
  qed
  have slots: "slab_slots ?s = slab_slots s" by (simp add: slab_slots_def s')
  have "unat (slab_free_count s + 1) = Suc (length (slab_free s))"
    using inv len by (simp add: unat_add_small slab_inv_def)
  then have "slab_limits ?s" "chunks_ok (slab_slot_size ?s) (slab_chunks ?s)"
    "unat (slab_total_count ?s) = length (slab_slots ?s)"
    "chain (slab_next ?s) (slab_free_list ?s) (x # slab_free s)"
    "length (x # slab_free s) = unat (slab_free_count ?s)"
    "distinct (x # slab_free s)" "set (x # slab_free s) \<subseteq> set (slab_slots ?s)"
    "\<forall>y\<in>set (x # slab_free s). slab_magic ?s y = SLAB_MAGIC_FREED"
    using inv x' nz unfolding slots by (auto simp: s' slab_inv_def slab_limits_def chain_upd)
  note i = slab_invI[OF this]
  show "slab_inv ?s" "slab_free ?s = x # slab_free s" by (fact i)+
  then show "slab_taken ?s = slab_taken s - {x}" by (auto simp: slab_taken_def slots)
qed

lemma slab_deallocate_free:
  assumes "slab_inv s" and "x \<in> set (slab_free s)"
  shows "slab_deallocate x s = s\<lparr>slab_double_free_count := slab_double_free_count s + 1\<rparr>"
  using assms slab_slots_props(3)[OF assms(1)] by (auto simp: slab_deallocate_def slab_inv_def)

lemma owner_writes_inv:
  assumes inv: "slab_inv s" and x: "x \<in> slab_taken s"
  shows "slab_inv (owner_writes x n m s)" and "slab_taken (owner_writes x n m s) = slab_taken s"
proof -
  let ?s = "owner_writes x n m s"
  have x': "x \<notin> set (slab_free s)" using x by (simp add: slab_taken_def)
  have "slab_limits ?s" "chunks_ok (slab_slot_size ?s) (slab_chunks ?s)"
    "unat (slab_total_count ?s) = length (slab_slots ?s)"
    "chain (slab_next ?s) (slab_free_list ?s) (slab_free s)"
    "length (slab_free s) = unat (slab_free_count ?s)"
    "distinct (slab_free s)" "set (slab_free s) \<subseteq> set (slab_slots ?s)"
    "\<forall>y\<in>set (slab_free s). slab_magic ?s y = SLAB_MAGIC_FREED"
    using inv x' by (auto simp: owner_writes_def slab_inv_def slab_limits_def slab_slots_def chain_upd)
  note i = slab_invI[OF this]
  show "slab_inv ?s" by (fact i(1))
  show "slab_taken ?s = slab_taken s"
    by (simp add: slab_taken_def i(2) slab_slots_def) (simp add: owner_writes_def)
qed


lemma SlabAllocator_new_inv:
  assumes new: "SlabAllocator_new aligned_alloc nx mg slot_size n config = Inr s"
    and small: "unat slot_size \<le> 2 ^ 40" "unat n \<le> 2 ^ 20" "unat (grow_chunk_size config) \<le> 2 ^ 20"
    and malloc: "\<And>a k p. aligned_alloc a k = Some p \<Longrightarrow> p \<noteq> 0 \<and> unat p + unat k \<le> 2 ^ 47"
  shows "slab_inv s" and "slab_taken s = {}" and "unat (slab_total_count s) = unat n"
    and "slab_config s = config" and "slot_size \<le> slab_slot_size s"
proof -
  let ?z = "align_up (max slot_size 16) 16"
  let ?s0 = "\<lparr>slab_chunks = [], slab_free_list = 0, slab_slot_size = ?z, slab_total_count = 0,
    slab_free_count = 0, slab_config = config, slab_initial_count = n, slab_grow_count = 0,
    slab_peak_allocated = 0, slab_double_free_count = 0, slab_next = nx, slab_magic = mg\<rparr>"
  have max: "unat (max slot_size 16) = max (unat slot_size) 16" by (simp add: max_def word_le_nat_alt)
  have "unat (max slot_size 16) + 2 ^ 4 \<le> 2 ^ 64" using small(1) max by simp
  from align_up_bounds[of 4, OF _ this]
  have z: "unat slot_size \<le> unat ?z" "16 \<le> unat ?z" "unat ?z \<le> 2 ^ 41"
    using small(1) max by simp_all
  have bnd: "unat ?z * m \<le> 2 ^ 62" if "m \<le> 2 ^ 20" for m
  proof -
    have "unat ?z * m \<le> 2 ^ 41 * 2 ^ 20" using z(3) that by (rule mult_le_mono)
    then show ?thesis by simp
  qed
  have inv0: "slab_inv ?s0"
    using bnd[OF small(2)] bnd[OF small(3)] z
    by (simp add: slab_inv_def slab_limits_def chunks_ok_def slab_slots_def slots_of_def slab_free_def)
  have ok0: "slab_malloc_ok aligned_alloc ?s0" using malloc by (auto simp: slab_malloc_ok_def)
  from new have grow: "slab_grow aligned_alloc n ?s0 = Inr s"
    by (auto simp: SlabAllocator_new_def Let_def split: if_splits)
  have b: "unat (slab_slot_size ?s0) * unat n \<le> 2 ^ 62" using bnd[OF small(2)] by simp
  note g = slab_grow_correct[OF inv0 ok0 b grow]
  show "slab_inv s" by (fact g(1))
  show "slab_taken s = {}"
    using g(2) by (auto simp: slab_taken_def slab_free_def slab_slots_def slots_of_def)
  show "unat (slab_total_count s) = unat n" using g(5) by simp
  show "slab_config s = config" using g(4) by simp
  show "slot_size \<le> slab_slot_size s" using g(3) z(1) by (simp add: word_le_nat_alt)
qed

section \<open>The slab allocator meets the contract\<close>

definition slab_used :: "SlabAllocator \<Rightarrow> nat set" where
  "slab_used s = (\<Union>x\<in>slab_taken s. region x (slab_slot_size s))"

lemma slab_regions_disjoint:
  assumes "slab_inv s" and "x \<in> set (slab_slots s)" and "y \<in> set (slab_slots s)" and "x \<noteq> y"
  shows "region x (slab_slot_size s) \<inter> region y (slab_slot_size s) = {}"
  using assms slots_of_props(2)[of "slab_slot_size s" "slab_chunks s"]
  by (simp add: slab_inv_def slab_slots_def)

lemma owns_scan_slot:
  assumes "chunks_ok z chunks" and "x \<in> set (slots_of z chunks)"
  shows "owns_scan z chunks x"
  using assms
proof (induction chunks)
  case Nil
  then show ?case by (simp add: slots_of_def)
next
  case (Cons ch cs)
  obtain d c where ch: "ch = (d, c)" by (cases ch)
  have dc: "unat d + unat z * unat c \<le> 2 ^ 47" "0 < unat z" and ok: "chunks_ok z cs"
    and dis: "\<forall>e\<in>set cs. chunk_region z (d, c) \<inter> chunk_region z e = {}"
    using Cons.prems(1) by (auto simp: chunks_ok_def ch)
  have "unat (z * c) = unat z * unat c" using dc(1) by (simp add: unat_word_ariths)
  then have e: "unat (d + z * c) = unat d + unat z * unat c"
    using dc(1) by (simp add: unat_add_small)
  have self: "unat x \<in> region x z" using dc(2) by (simp add: region_def)
  show ?case
  proof (cases "x \<in> set (chunk_slots z (d, c))")
    case True
    then obtain i where i: "i < unat c" "unat x = unat d + i * unat z"
      using dc(1) by (auto simp: chunk_slots_iff)
    have "unat x \<in> chunk_region z (d, c)" using slot_in_chunk[OF dc(1) True] self by blast
    then have "d \<le> x" "x < d + z * c"
      by (auto simp: chunk_region_def word_le_nat_alt word_less_nat_alt e)
    moreover have "unat (x - d) = i * unat z" using i by (simp add: unat_diff_le)
    then have "(x - d) mod z = 0" by (simp add: word_unat_eq_iff unat_mod)
    ultimately show ?thesis by (simp add: ch)
  next
    case False
    then have x: "x \<in> set (slots_of z cs)" using Cons.prems(2) by (simp add: ch slots_of_def)
    then obtain d' c' where e': "(d', c') \<in> set cs" "x \<in> set (chunk_slots z (d', c'))"
      by (rule slots_of_chunk)
    have "unat d' + unat z * unat c' \<le> 2 ^ 47" using ok e'(1) by (auto simp: chunks_ok_def)
    from slot_in_chunk[OF this e'(2)] self have "unat x \<in> chunk_region z (d', c')" by blast
    with dis e'(1) have "unat x \<notin> chunk_region z (d, c)" by blast
    then have "\<not> (d \<le> x \<and> x < d + z * c)"
      by (auto simp: chunk_region_def word_le_nat_alt word_less_nat_alt e)
    with Cons.IH[OF ok x] show ?thesis by (auto simp: ch)
  qed
qed

lemma slab_allocate_correct:
  assumes "slab_inv s" and "slab_malloc_ok aa s" and "slab_allocate aa sz al s = (r, s')"
  shows "r = Inr (Some x) \<Longrightarrow> slab_inv s' \<and> x \<notin> slab_taken s \<and>
      slab_taken s' = insert x (slab_taken s) \<and> x \<in> set (slab_slots s') \<and>
      slab_slot_size s' = slab_slot_size s \<and> unat sz \<le> unat (slab_slot_size s)"
    and "\<forall>x. r \<noteq> Inr (Some x) \<Longrightarrow> s' = s"
proof -
  consider "sz = 0 \<or> slab_slot_size s < sz" "r = Inr None" "s' = s"
    | "\<not> slab_slot_size s < sz" "slab_allocate_slot aa s = (r, s')"
    using assms(3) by (auto simp: slab_allocate_def split: if_splits)
  then have "(r = Inr (Some x) \<longrightarrow> slab_inv s' \<and> x \<notin> slab_taken s \<and>
      slab_taken s' = insert x (slab_taken s) \<and> x \<in> set (slab_slots s') \<and>
      slab_slot_size s' = slab_slot_size s \<and> unat sz \<le> unat (slab_slot_size s)) \<and>
    ((\<forall>x. r \<noteq> Inr (Some x)) \<longrightarrow> s' = s)"
  proof cases
    case 1
    then show ?thesis by simp
  next
    case 2
    with slab_allocate_slot_correct[OF assms(1,2) 2(2)] show ?thesis
      by (auto simp: word_less_nat_alt split: sum.splits option.splits)
  qed
  then show "r = Inr (Some x) \<Longrightarrow> slab_inv s' \<and> x \<notin> slab_taken s \<and>
      slab_taken s' = insert x (slab_taken s) \<and> x \<in> set (slab_slots s') \<and>
      slab_slot_size s' = slab_slot_size s \<and> unat sz \<le> unat (slab_slot_size s)"
    and "\<forall>x. r \<noteq> Inr (Some x) \<Longrightarrow> s' = s" by blast+
qed

interpretation slab: core_allocator slab_allocate slab_owns slab_inv slab_used
  "\<lambda>aa sz al s. slab_malloc_ok aa s"
proof
  fix s aa sz al assume inv: "slab_inv s" and ok: "slab_malloc_ok aa s"
  obtain r s' where op: "slab_allocate aa sz al s = (r, s')" by (cases "slab_allocate aa sz al s")
  show "slab_inv (snd (slab_allocate aa sz al s))"
    using slab_allocate_correct[OF inv ok op] inv op by (cases "\<exists>x. r = Inr (Some x)") auto
next
  fix s aa sz al p s' assume inv: "slab_inv s" and ok: "slab_malloc_ok aa s"
    and op: "slab_allocate aa sz al s = (Inr (Some p), s')"
  note a = slab_allocate_correct(1)[OF inv ok op refl]
  have sub: "region p sz \<subseteq> region p (slab_slot_size s)" using a by (auto simp: region_def)
  have "region p (slab_slot_size s) \<inter> region x (slab_slot_size s) = {}" if "x \<in> slab_taken s" for x
  proof -
    have "x \<in> set (slab_slots s')" "x \<noteq> p" using a that by (auto simp: slab_taken_def)
    then show ?thesis using slab_regions_disjoint[of s' p x] a by simp
  qed
  then have "region p sz \<inter> slab_used s = {}" using sub by (fastforce simp: slab_used_def)
  moreover have "slab_used s \<union> region p sz \<subseteq> slab_used s'" using a sub by (auto simp: slab_used_def)
  moreover have "chunks_ok (slab_slot_size s') (slab_chunks s')"
    "p \<in> set (slots_of (slab_slot_size s') (slab_chunks s'))"
    using a by (auto simp: slab_inv_def slab_slots_def)
  then have "slab_owns s' p" unfolding slab_owns_def by (rule owns_scan_slot)
  ultimately show "region p sz \<inter> slab_used s = {} \<and> slab_used s \<union> region p sz \<subseteq> slab_used s' \<and> slab_owns s' p"
    by blast
next
  fix s aa sz al r s' assume "slab_inv s" "slab_malloc_ok aa s" "slab_allocate aa sz al s = (r, s')"
    "\<forall>p. r \<noteq> Inr (Some p)"
  then show "s' = s" by (rule slab_allocate_correct(2))
qed


text \<open>The operations of the owners of slots: take a slot, give one back, write into one's own.\<close>

datatype slab_op = Slab_alloc "u64 \<Rightarrow> u64 \<Rightarrow> u64 option" | Slab_free u64 | Slab_write u64 u64 u32

fun slab_step :: "slab_op \<Rightarrow> SlabAllocator \<Rightarrow> SlabAllocator" where
  "slab_step (Slab_alloc aa) s = snd (slab_allocate_slot aa s)"
| "slab_step (Slab_free x) s = slab_deallocate x s"
| "slab_step (Slab_write x n m) s = owner_writes x n m s"

text \<open>The rules owners follow: only free a slot of the allocator, and not after writing the
  freed marker into it; write only into slots held.\<close>

fun slab_op_ok :: "slab_op \<Rightarrow> SlabAllocator \<Rightarrow> bool" where
  "slab_op_ok (Slab_alloc aa) s \<longleftrightarrow> slab_malloc_ok aa s"
| "slab_op_ok (Slab_free x) s \<longleftrightarrow>
     x \<in> set (slab_slots s) \<and> (x \<in> slab_taken s \<longrightarrow> slab_magic s x \<noteq> SLAB_MAGIC_FREED)"
| "slab_op_ok (Slab_write x n m) s \<longleftrightarrow> x \<in> slab_taken s"

fun slab_ops_ok :: "slab_op list \<Rightarrow> SlabAllocator \<Rightarrow> bool" where
  "slab_ops_ok [] s \<longleftrightarrow> True"
| "slab_ops_ok (op # ops) s \<longleftrightarrow> slab_op_ok op s \<and> slab_ops_ok ops (slab_step op s)"

lemma slab_inv_double_free [simp]:
  "slab_inv (s\<lparr>slab_double_free_count := n\<rparr>) = slab_inv s"
  by (simp add: slab_inv_def slab_limits_def slab_slots_def slab_free_def)

lemma slab_step_inv:
  assumes inv: "slab_inv s" and ok: "slab_op_ok op s"
  shows "slab_inv (slab_step op s)"
proof (cases op)
  case (Slab_alloc aa)
  then show ?thesis
    using slab_allocate_slot_correct[OF inv, of aa "fst (slab_allocate_slot aa s)"
        "snd (slab_allocate_slot aa s)"] ok inv
    by (auto split: sum.splits option.splits)
next
  case (Slab_free x)
  show ?thesis
  proof (cases "x \<in> slab_taken s")
    case True
    then show ?thesis using slab_deallocate_taken(1)[OF inv True] ok Slab_free by simp
  next
    case False
    then have "x \<in> set (slab_free s)" using ok Slab_free by (simp add: slab_taken_def)
    then show ?thesis using slab_deallocate_free[OF inv] inv Slab_free by simp
  qed
next
  case (Slab_write x n m)
  then show ?thesis using owner_writes_inv(1)[OF inv] ok by simp
qed

lemma slab_run_inv: "slab_inv s \<Longrightarrow> slab_ops_ok ops s \<Longrightarrow> slab_inv (foldl (\<lambda>s op. slab_step op s) s ops)"
  by (induction ops arbitrary: s) (simp_all add: slab_step_inv)

text \<open>
  C12: After any run of allocations, frees (double frees included) and writes by the owners,
  the next allocation returns a slot nobody holds, within the pool and disjoint from every
  slot that is held, or fails without changing anything, and then only because no slot is free.
  The count the allocator reports is the number of slots held.
\<close>

theorem slab_allocate_exclusive:
  assumes "SlabAllocator_new aa0 nx mg slot_size n config = Inr s0"
    and "unat slot_size \<le> 2 ^ 40" "unat n \<le> 2 ^ 20" "unat (grow_chunk_size config) \<le> 2 ^ 20"
    and "\<And>a k p. aa0 a k = Some p \<Longrightarrow> p \<noteq> 0 \<and> unat p + unat k \<le> 2 ^ 47"
    and "slab_ops_ok ops s0" and "s = foldl (\<lambda>s op. slab_step op s) s0 ops"
    and "slab_malloc_ok aa s" and "slab_allocate_slot aa s = (r, s')"
  shows "unat (slab_allocated_count s) = card (slab_taken s) \<and>
    (case r of
       Inr (Some x) \<Rightarrow> x \<notin> slab_taken s \<and> slab_taken s' = insert x (slab_taken s) \<and> slab_owns s' x \<and>
         (\<forall>y\<in>slab_taken s. region x (slab_slot_size s') \<inter> region y (slab_slot_size s') = {})
     | _ \<Rightarrow> s' = s \<and> slab_free s = [])"
proof -
  have inv: "slab_inv s"
    using slab_run_inv[OF SlabAllocator_new_inv(1)[OF assms(1-5)] assms(6)] assms(7) by simp
  note a = slab_allocate_slot_correct[OF inv assms(8,9)]
  have "slab_owns s' x \<and> (\<forall>y\<in>slab_taken s. region x (slab_slot_size s') \<inter> region y (slab_slot_size s') = {})"
    if r: "r = Inr (Some x)" for x
  proof -
    from a r have i: "slab_inv s'" "x \<in> set (slab_slots s')" "x \<notin> slab_taken s"
      "slab_taken s' = insert x (slab_taken s)" by simp_all
    have "chunks_ok (slab_slot_size s') (slab_chunks s')"
      "x \<in> set (slots_of (slab_slot_size s') (slab_chunks s'))"
      using i(1,2) by (auto simp: slab_inv_def slab_slots_def)
    then have "slab_owns s' x" unfolding slab_owns_def by (rule owns_scan_slot)
    moreover have "region x (slab_slot_size s') \<inter> region y (slab_slot_size s') = {}"
      if y: "y \<in> slab_taken s" for y
    proof -
      have "y \<in> slab_taken s'" "x \<noteq> y" using y i(3,4) by auto
      then show ?thesis using slab_regions_disjoint[OF i(1,2)] by (simp add: slab_taken_def)
    qed
    ultimately show ?thesis by blast
  qed
  with a slab_counts(2)[OF inv] show ?thesis by (auto split: sum.splits option.splits)
qed

lemma slab_example:
  defines "cfg \<equiv> \<lparr>auto_grow = False, grow_chunk_size = 0, max_total_count = 0\<rparr>"
    and "aa \<equiv> \<lambda>a k :: u64. if k = 64 then Some (4096 :: u64) else None"
  shows "\<exists>s0 s1 s2 s3. SlabAllocator_new aa (\<lambda>p. 0) (\<lambda>p. 0) 24 2 cfg = Inr s0 \<and>
    slab_allocate_slot (\<lambda>a k. None) s0 = (Inr (Some 4096), s1) \<and> owner_writes 4096 1 2 s1 = s2 \<and>
    slab_allocate_slot (\<lambda>a k. None) s2 = (Inr (Some 4128), s3) \<and>
    slab_taken s1 = {4096} \<and> slab_magic s2 4096 \<noteq> SLAB_MAGIC_FREED"
proof -
  let ?mg = "((\<lambda>p. 0)(4128 := SLAB_MAGIC_FREED, 4096 := SLAB_MAGIC_FREED)) :: u64 \<Rightarrow> u32"
  let ?s0 = "\<lparr>slab_chunks = [(4096, 2)], slab_free_list = 4096, slab_slot_size = 32,
    slab_total_count = 2, slab_free_count = 2, slab_config = cfg, slab_initial_count = 2,
    slab_grow_count = 0, slab_peak_allocated = 0, slab_double_free_count = 0,
    slab_next = (\<lambda>p. 0)(4128 := 0, 4096 := 4128), slab_magic = ?mg\<rparr>"
  let ?s1 = "?s0\<lparr>slab_free_list := 4128, slab_free_count := 1,
    slab_magic := ?mg(4096 := SLAB_MAGIC_ALLOCATED), slab_peak_allocated := 1\<rparr>"
  have two: "link_slots c 2 s = push_free c (push_free (c + slab_slot_size s) s)" for c s
    by (simp add: numeral_2_eq_2 push_free_def)
  have al: "align_up 24 16 = 32" "align_up 64 64 = 64" by (simp_all add: align_up_def)
  have "SlabAllocator_new aa (\<lambda>p. 0) (\<lambda>p. 0) 24 2 cfg = Inr ?s0"
    by (simp add: SlabAllocator_new_def slab_grow_def aa_def al SIZE_MAX_def two push_free_def)
  moreover have "slab_allocate_slot (\<lambda>a k. None) ?s0 = (Inr (Some 4096), ?s1)"
    by (simp add: slab_allocate_slot_def pop_free_def slab_allocated_count_def)
  moreover have "slab_allocate_slot (\<lambda>a k. None) (owner_writes 4096 1 2 ?s1) =
      (Inr (Some 4128), snd (slab_allocate_slot (\<lambda>a k. None) (owner_writes 4096 1 2 ?s1)))"
    by (simp add: owner_writes_def slab_allocate_slot_def pop_free_def slab_allocated_count_def)
  moreover have "slab_taken ?s1 = {4096}"
    by (auto simp: slab_taken_def slab_slots_def slots_of_def chunk_slots_def slab_free_def upt_rec)
  moreover have "slab_magic (owner_writes 4096 1 2 ?s1) 4096 \<noteq> SLAB_MAGIC_FREED"
    by (simp add: owner_writes_def SLAB_MAGIC_FREED_def)
  ultimately show ?thesis by blast
qed

theorem slab_allocate_exclusive_witness:
  "\<exists>s0 s2 s3. SlabAllocator_new (\<lambda>a k. if k = 64 then Some 4096 else None) (\<lambda>p. 0) (\<lambda>p. 0) 24 2
        \<lparr>auto_grow = False, grow_chunk_size = 0, max_total_count = 0\<rparr> = Inr s0 \<and>
      foldl (\<lambda>s op. slab_step op s) s0 [Slab_alloc (\<lambda>a k. None), Slab_write 4096 1 2] = s2 \<and>
      slab_allocate_slot (\<lambda>a k. None) s2 = (Inr (Some 4128), s3) \<and>
      4128 \<notin> slab_taken s2 \<and> slab_owns s3 4128"
proof -
  let ?aa = "\<lambda>a k :: u64. if k = 64 then Some (4096 :: u64) else None"
  let ?cfg = "\<lparr>auto_grow = False, grow_chunk_size = 0, max_total_count = 0\<rparr>"
  let ?ops = "[Slab_alloc (\<lambda>a k. None), Slab_write 4096 1 2]"
  obtain s0 s1 s2 s3 where ex: "SlabAllocator_new ?aa (\<lambda>p. 0) (\<lambda>p. 0) 24 2 ?cfg = Inr s0"
    "slab_allocate_slot (\<lambda>a k. None) s0 = (Inr (Some 4096), s1)" "owner_writes 4096 1 2 s1 = s2"
    "slab_allocate_slot (\<lambda>a k. None) s2 = (Inr (Some 4128), s3)" "slab_taken s1 = {4096}"
    using slab_example by blast
  have run: "s2 = foldl (\<lambda>s op. slab_step op s) s0 ?ops" by (simp add: ex(2,3))
  have ops: "slab_ops_ok ?ops s0" by (simp add: slab_malloc_ok_def ex(2,5))
  have mal: "p \<noteq> 0 \<and> unat p + unat k \<le> 2 ^ 47" if "?aa a k = Some p" for a k p
    using that by (auto split: if_splits)
  have sizes: "unat (24 :: u64) \<le> 2 ^ 40" "unat (2 :: u64) \<le> 2 ^ 20" "unat (grow_chunk_size ?cfg) \<le> 2 ^ 20"
    by simp_all
  have none: "slab_malloc_ok (\<lambda>a k. None) s2" by (simp add: slab_malloc_ok_def)
  from slab_allocate_exclusive[OF ex(1) sizes mal ops run none ex(4)]
  have "4128 \<notin> slab_taken s2 \<and> slab_owns s3 4128" by simp
  then show ?thesis using ex(1,4) run by blast
qed

text \<open>
  Freeing a held slot makes exactly that slot available, and it is the next one handed
  out. Freeing it again, before it is handed out again, changes nothing but the double-free
  counter.
\<close>

theorem slab_free_then_allocate:
  assumes "slab_inv s" and "x \<in> slab_taken s" and "slab_magic s x \<noteq> SLAB_MAGIC_FREED"
  shows "slab_taken (slab_deallocate x s) = slab_taken s - {x} \<and>
    fst (slab_allocate_slot aa (slab_deallocate x s)) = Inr (Some x) \<and>
    slab_deallocate x (slab_deallocate x s) =
      (slab_deallocate x s)\<lparr>slab_double_free_count := slab_double_free_count (slab_deallocate x s) + 1\<rparr>"
proof -
  note d = slab_deallocate_taken[OF assms]
  have head: "slab_free_list (slab_deallocate x s) = x" and nz: "x \<noteq> 0"
    using d(1,2) slab_slots_props(3)[OF d(1), of x] by (auto simp: slab_inv_def)
  obtain y s2 where pop: "pop_free (slab_deallocate x s) = (y, s2)" by (cases "pop_free (slab_deallocate x s)")
  have "y = x" using pop_free_correct(2)[OF d(1) _ pop] d(2) head nz by simp
  then have "fst (slab_allocate_slot aa (slab_deallocate x s)) = Inr (Some x)"
    using head nz pop by (simp add: slab_allocate_slot_def)
  moreover have "x \<in> set (slab_free (slab_deallocate x s))" using d(2) by simp
  ultimately show ?thesis using d(3) slab_deallocate_free[OF d(1)] by blast
qed


theorem slab_free_then_allocate_witness:
  "\<exists>s. slab_taken s = {4096} \<and> slab_taken (slab_deallocate 4096 s) = {} \<and>
     fst (slab_allocate_slot (\<lambda>a k. None) (slab_deallocate 4096 s)) = Inr (Some 4096)"
proof -
  let ?aa = "\<lambda>a k :: u64. if k = 64 then Some (4096 :: u64) else None"
  let ?cfg = "\<lparr>auto_grow = False, grow_chunk_size = 0, max_total_count = 0\<rparr>"
  obtain s0 s1 s2 s3 where ex: "SlabAllocator_new ?aa (\<lambda>p. 0) (\<lambda>p. 0) 24 2 ?cfg = Inr s0"
    "slab_allocate_slot (\<lambda>a k. None) s0 = (Inr (Some 4096), s1)" "owner_writes 4096 1 2 s1 = s2"
    "slab_taken s1 = {4096}" "slab_magic s2 4096 \<noteq> SLAB_MAGIC_FREED"
    using slab_example by blast
  have mal: "p \<noteq> 0 \<and> unat p + unat k \<le> 2 ^ 47" if "?aa a k = Some p" for a k p
    using that by (auto split: if_splits)
  have "slab_inv s0" by (rule SlabAllocator_new_inv(1)[OF ex(1) _ _ _ mal]) simp_all
  then have "slab_inv s1"
    using slab_step_inv[of s0 "Slab_alloc (\<lambda>a k. None)"] by (simp add: slab_malloc_ok_def ex(2))
  then have "slab_inv s2" and t: "slab_taken s2 = {4096}"
    using owner_writes_inv[of s1 4096 1 2] ex(3,4) by simp_all
  from slab_free_then_allocate[OF this(1) _ ex(5), of "\<lambda>a k. None"] t show ?thesis by blast
qed

end
