(* ===== verification/Bounded_Queue.thy ===== *)
theory Bounded_Queue
  imports Prelude
begin

text \<open>
  The contract of the bounded queues that connect the cores: first in, first out, and a
  refusal when full. \<open>SpscQueue\<close> and \<open>MpscQueue\<close> implement it; the mesh and every sender
  rely on nothing else.
\<close>

datatype 'a fifo_op = Enq 'a | Deq

datatype 'a fifo_out = Accepted bool | Item "'a option"

fun fifo_step ::
  "('a \<Rightarrow> 'q \<Rightarrow> bool \<times> 'q) \<Rightarrow> ('q \<Rightarrow> 'a option \<times> 'q) \<Rightarrow> 'a fifo_op \<Rightarrow> 'q \<Rightarrow> 'a fifo_out \<times> 'q" where
  "fifo_step enq deq (Enq x) q = (let (ok, q') = enq x q in (Accepted ok, q'))"
| "fifo_step enq deq Deq q = (let (r, q') = deq q in (Item r, q'))"

text \<open>The specification: a capacity and the items, oldest first.\<close>

fun list_fifo_step :: "'a fifo_op \<Rightarrow> nat \<times> 'a list \<Rightarrow> 'a fifo_out \<times> (nat \<times> 'a list)" where
  "list_fifo_step (Enq x) (cap, xs) =
     (if length xs < cap then (Accepted True, (cap, xs @ [x])) else (Accepted False, (cap, xs)))"
| "list_fifo_step Deq (cap, xs) =
     (case xs of [] \<Rightarrow> (Item None, (cap, [])) | x # xs' \<Rightarrow> (Item (Some x), (cap, xs')))"

text \<open>What a run put into the queue and what it took out.\<close>

fun accepted :: "'a fifo_op list \<Rightarrow> 'a fifo_out list \<Rightarrow> 'a list" where
  "accepted (Enq x # ops) (Accepted True # outs) = x # accepted ops outs"
| "accepted (op # ops) (out # outs) = accepted ops outs"
| "accepted ops outs = []"

fun taken :: "'a fifo_out list \<Rightarrow> 'a list" where
  "taken (Item (Some x) # outs) = x # taken outs"
| "taken (out # outs) = taken outs"
| "taken [] = []"

lemma list_fifo_run:
  "run list_fifo_step ops (cap, xs) = (outs, (cap', ys)) \<Longrightarrow>
   cap' = cap \<and> xs @ accepted ops outs = taken outs @ ys"
proof (induction ops arbitrary: xs outs)
  case (Cons op ops)
  show ?case
  proof (cases op)
    case (Enq x)
    then show ?thesis using Cons.prems Cons.IH
      by (cases "length xs < cap") (fastforce simp: Let_def split: prod.splits)+
  next
    case Deq
    then show ?thesis using Cons.prems Cons.IH
      by (cases xs) (fastforce simp: Let_def split: prod.splits)+
  qed
qed simp

locale bounded_fifo =
  fixes enq :: "'a \<Rightarrow> 'q \<Rightarrow> bool \<times> 'q"
    and deq :: "'q \<Rightarrow> 'a option \<times> 'q"
    and inv :: "nat \<Rightarrow> 'q \<Rightarrow> bool"
    and items :: "'q \<Rightarrow> 'a list"
    and cap :: "'q \<Rightarrow> nat"
  assumes enq_room: "inv (Suc n) q \<Longrightarrow> length (items q) < cap q \<Longrightarrow> enq x q = (ok, q') \<Longrightarrow>
      ok \<and> inv n q' \<and> items q' = items q @ [x] \<and> cap q' = cap q"
    and enq_full: "inv (Suc n) q \<Longrightarrow> cap q \<le> length (items q) \<Longrightarrow> enq x q = (False, q)"
    and deq_empty: "inv (Suc n) q \<Longrightarrow> items q = [] \<Longrightarrow> deq q = (None, q)"
    and deq_item: "inv (Suc n) q \<Longrightarrow> items q = x # xs \<Longrightarrow> deq q = (r, q') \<Longrightarrow>
      r = Some x \<and> inv n q' \<and> items q' = xs \<and> cap q' = cap q"
    and inv_Suc: "inv (Suc n) q \<Longrightarrow> inv n q"
    and bounded: "inv n q \<Longrightarrow> length (items q) \<le> cap q"
begin

lemma step_refines:
  assumes "inv (Suc n) q"
  shows "inv n (snd (fifo_step enq deq op q)) \<and>
    list_fifo_step op (cap q, items q) =
      (fst (fifo_step enq deq op q),
       (cap (snd (fifo_step enq deq op q)), items (snd (fifo_step enq deq op q))))"
proof (cases op)
  case (Enq x)
  obtain ok q' where e: "enq x q = (ok, q')" by (cases "enq x q")
  show ?thesis
    using enq_room[OF assms _ e] enq_full[OF assms, of x] inv_Suc[OF assms] e
    by (cases "length (items q) < cap q") (auto simp: Enq)
next
  case Deq
  obtain r q' where d: "deq q = (r, q')" by (cases "deq q")
  show ?thesis
    using deq_item[OF assms _ d] deq_empty[OF assms] inv_Suc[OF assms] d
    by (cases "items q") (auto simp: Deq)
qed

end

sublocale bounded_fifo \<subseteq> refine: refinement "fifo_step enq deq" list_fifo_step inv "\<lambda>q. (cap q, items q)"
  by unfold_locales (use step_refines in \<open>simp_all\<close>)

context bounded_fifo
begin

text \<open>Conservation and order: what was in the queue and what was accepted comes out in that
  order, the rest is still there, and no more than the capacity.\<close>

lemma run_fifo:
  assumes "inv (length ops) q" and "run (fifo_step enq deq) ops q = (outs, q')"
  shows "items q @ accepted ops outs = taken outs @ items q'" and "length (items q') \<le> cap q'"
    and "cap q' = cap q"
proof -
  from refine.run_abs[OF assms(1)] assms(2)
  have "run list_fifo_step ops (cap q, items q) = (outs, (cap q', items q'))" by simp
  from list_fifo_run[OF this]
  show "items q @ accepted ops outs = taken outs @ items q'" "cap q' = cap q" by auto
  have "inv (length ops + 0) q" using assms(1) by simp
  from refine.run_inv[OF this] assms(2) have "inv 0 q'" by simp
  then show "length (items q') \<le> cap q'" by (rule bounded)
qed

end

end
