(* ===== verification/Spsc_Queue.thy ===== *)
theory Spsc_Queue
  imports Bounded_Queue Math_Utils
begin

text \<open>
  \<open>apex_core/include/apex/core/spsc_queue.hpp\<close>: the wait-free single-producer
  single-consumer queue between two cores. First each call as a whole (that is what one thread
  sees while the other is idle), then the same code cut at its atomic accesses, as a step
  relation of a producer and a consumer that interleave in every order.

  Handlers posted to the producer's \<open>io_context\<close> are kept as the list of outcomes posted.
\<close>

datatype resume = Resume_ok | Resume_aborted

record 'a SpscQueue =
  sq_head :: u64
  sq_tail :: u64
  sq_published :: u64
  sq_consumed :: u64
  sq_capacity :: u64
  sq_mask :: u64
  sq_slots :: "'a list"
  sq_producer_waiting :: bool
  sq_pending_handler :: bool
  sq_posted :: "resume list"

text \<open>The slots are value-initialised to \<open>init\<close>.\<close>

definition SpscQueue_new :: "'a \<Rightarrow> u64 \<Rightarrow> cpp_exception + 'a SpscQueue" where
  "SpscQueue_new init capacity =
     (let cap = next_power_of_2 (if capacity < 1 then 1 else capacity) in
      if cap = 0 then Inl std_overflow_error
      else Inr \<lparr>sq_head = 0, sq_tail = 0, sq_published = 0, sq_consumed = 0, sq_capacity = cap,
                sq_mask = cap - 1, sq_slots = replicate (unat cap) init,
                sq_producer_waiting = False, sq_pending_handler = False, sq_posted = []\<rparr>)"

definition try_enqueue :: "'a \<Rightarrow> 'a SpscQueue \<Rightarrow> bool \<times> 'a SpscQueue" where
  "try_enqueue item q =
     (let consumed = sq_consumed q in
      if sq_capacity q \<le> sq_head q - consumed then (False, q)
      else let q = q\<lparr>sq_slots := (sq_slots q)[unat (sq_head q AND sq_mask q) := item]\<rparr>;
               q = q\<lparr>sq_head := sq_head q + 1\<rparr>;
               q = q\<lparr>sq_published := sq_head q\<rparr>
           in (True, q))"

definition try_dequeue :: "'a SpscQueue \<Rightarrow> 'a option \<times> 'a SpscQueue" where
  "try_dequeue q =
     (let published = sq_published q in
      if published \<le> sq_tail q then (None, q)
      else let item = sq_slots q ! unat (sq_tail q AND sq_mask q);
               q = q\<lparr>sq_tail := sq_tail q + 1\<rparr>;
               q = q\<lparr>sq_consumed := sq_tail q\<rparr>
           in (Some item, q))"

text \<open>\<open>drain\<close> into a batch of \<open>n\<close> elements: the elements written, in order.\<close>

definition drain :: "nat \<Rightarrow> 'a SpscQueue \<Rightarrow> 'a list \<times> 'a SpscQueue" where
  "drain n q =
     (let published = sq_published q;
          available = published - sq_tail q;
          count = min (unat available) n;
          batch = map (\<lambda>i. sq_slots q ! unat ((sq_tail q + of_nat i) AND sq_mask q)) [0..<count];
          q = q\<lparr>sq_tail := sq_tail q + of_nat count\<rparr>;
          q = (if 0 < count then q\<lparr>sq_consumed := sq_tail q\<rparr> else q)
      in (batch, q))"

definition notify_producer_if_waiting :: "'a SpscQueue \<Rightarrow> 'a SpscQueue" where
  "notify_producer_if_waiting q =
     (if \<not> sq_producer_waiting q then q
      else let q = q\<lparr>sq_producer_waiting := False\<rparr> in
           if sq_pending_handler q
           then q\<lparr>sq_pending_handler := False, sq_posted := sq_posted q @ [Resume_ok]\<rparr> else q)"

definition cancel_waiting_producer :: "'a SpscQueue \<Rightarrow> 'a SpscQueue" where
  "cancel_waiting_producer q =
     (if \<not> sq_producer_waiting q then q
      else let q = q\<lparr>sq_producer_waiting := False\<rparr> in
           if sq_pending_handler q
           then q\<lparr>sq_pending_handler := False, sq_posted := sq_posted q @ [Resume_aborted]\<rparr> else q)"

definition sq_size_approx :: "'a SpscQueue \<Rightarrow> u64" where
  "sq_size_approx q =
     (let pub = sq_published q; con = sq_consumed q in if con \<le> pub then pub - con else 0)"

definition sq_empty :: "'a SpscQueue \<Rightarrow> bool" where
  "sq_empty q \<longleftrightarrow> sq_published q = sq_consumed q"

text \<open>
  The coroutine \<open>enqueue\<close> up to its suspension point (done; resumed through a posted handler;
  suspended), and after it. The \<open>assert\<close> after the resumption is the boolean of
  \<open>enqueue_resume\<close>.
\<close>

datatype enqueue_state = Enqueue_done | Enqueue_posted | Enqueue_suspended

definition enqueue_start :: "'a \<Rightarrow> 'a SpscQueue \<Rightarrow> enqueue_state \<times> 'a SpscQueue" where
  "enqueue_start item q =
     (let (ok, q) = try_enqueue item q in
      if ok then (Enqueue_done, q)
      else let consumed = sq_consumed q in
      if sq_head q - consumed < sq_capacity q
      then (Enqueue_posted, q\<lparr>sq_posted := sq_posted q @ [Resume_ok]\<rparr>)
      else (Enqueue_suspended, q\<lparr>sq_pending_handler := True, sq_producer_waiting := True\<rparr>))"

definition enqueue_resume :: "'a \<Rightarrow> 'a SpscQueue \<Rightarrow> bool \<times> 'a SpscQueue" where
  "enqueue_resume item q = try_enqueue item q"

section \<open>Interleaved execution\<close>

datatype 'a producer_pc = P_idle | P_loaded 'a u64 | P_written 'a

datatype 'a consumer_pc = C_idle | C_loaded u64 | C_read 'a

text \<open>The queue, where each thread is, and the items that went in and came out so far.\<close>

record 'a spsc_sys =
  sys_q :: "'a SpscQueue"
  sys_p :: "'a producer_pc"
  sys_c :: "'a consumer_pc"
  sys_in :: "'a list"
  sys_out :: "'a list"

inductive spsc_step :: "'a spsc_sys \<Rightarrow> 'a spsc_sys \<Rightarrow> bool" where
  p_load: "sys_p s = P_idle \<Longrightarrow>
     spsc_step s (s\<lparr>sys_p := P_loaded item (sq_consumed (sys_q s))\<rparr>)"
| p_full: "sys_p s = P_loaded item consumed \<Longrightarrow>
     sq_capacity (sys_q s) \<le> sq_head (sys_q s) - consumed \<Longrightarrow> spsc_step s (s\<lparr>sys_p := P_idle\<rparr>)"
| p_write: "sys_p s = P_loaded item consumed \<Longrightarrow>
     \<not> sq_capacity (sys_q s) \<le> sq_head (sys_q s) - consumed \<Longrightarrow> q = sys_q s \<Longrightarrow>
     spsc_step s (s\<lparr>sys_q := q\<lparr>sq_slots := (sq_slots q)[unat (sq_head q AND sq_mask q) := item]\<rparr>,
                    sys_p := P_written item\<rparr>)"
| p_publish: "sys_p s = P_written item \<Longrightarrow> q = sys_q s \<Longrightarrow>
     spsc_step s (s\<lparr>sys_q := q\<lparr>sq_head := sq_head q + 1, sq_published := sq_head q + 1\<rparr>,
                    sys_p := P_idle, sys_in := sys_in s @ [item]\<rparr>)"
| c_load: "sys_c s = C_idle \<Longrightarrow>
     spsc_step s (s\<lparr>sys_c := C_loaded (sq_published (sys_q s))\<rparr>)"
| c_empty: "sys_c s = C_loaded published \<Longrightarrow> published \<le> sq_tail (sys_q s) \<Longrightarrow>
     spsc_step s (s\<lparr>sys_c := C_idle\<rparr>)"
| c_read: "sys_c s = C_loaded published \<Longrightarrow> \<not> published \<le> sq_tail (sys_q s) \<Longrightarrow> q = sys_q s \<Longrightarrow>
     spsc_step s (s\<lparr>sys_c := C_read (sq_slots q ! unat (sq_tail q AND sq_mask q))\<rparr>)"
| c_release: "sys_c s = C_read item \<Longrightarrow> q = sys_q s \<Longrightarrow>
     spsc_step s (s\<lparr>sys_q := q\<lparr>sq_tail := sq_tail q + 1, sq_consumed := sq_tail q + 1\<rparr>,
                    sys_c := C_idle, sys_out := sys_out s @ [item]\<rparr>)"

inductive spsc_reachable :: "'a \<Rightarrow> u64 \<Rightarrow> 'a spsc_sys \<Rightarrow> bool" for init capacity where
  start: "SpscQueue_new init capacity = Inr q \<Longrightarrow>
     spsc_reachable init capacity
       \<lparr>sys_q = q, sys_p = P_idle, sys_c = C_idle, sys_in = [], sys_out = []\<rparr>"
| step: "spsc_reachable init capacity s \<Longrightarrow> spsc_step s s' \<Longrightarrow> spsc_reachable init capacity s'"

section \<open>One thread at a time\<close>

definition sq_shape :: "'a SpscQueue \<Rightarrow> bool" where
  "sq_shape q \<longleftrightarrow> (\<exists>k<64. sq_capacity q = 2 ^ k) \<and> sq_mask q = sq_capacity q - 1 \<and>
     length (sq_slots q) = unat (sq_capacity q) \<and>
     sq_published q = sq_head q \<and> sq_consumed q = sq_tail q \<and> unat (sq_tail q) \<le> unat (sq_head q) \<and>
     unat (sq_head q) - unat (sq_tail q) \<le> unat (sq_capacity q)"

definition sq_inv :: "nat \<Rightarrow> 'a SpscQueue \<Rightarrow> bool" where
  "sq_inv n q \<longleftrightarrow> sq_shape q \<and> unat (sq_head q) + n < 2 ^ 64"

definition sq_items :: "'a SpscQueue \<Rightarrow> 'a list" where
  "sq_items q = ring_view (sq_slots q) (unat (sq_tail q)) (unat (sq_head q) - unat (sq_tail q))"

lemma sq_index:
  assumes "\<exists>k<64. sq_capacity q = 2 ^ k" and "sq_mask q = sq_capacity q - 1"
    and "length (sq_slots q) = unat (sq_capacity q)"
  shows "unat (x AND sq_mask q) = unat x mod length (sq_slots q)"
  using assms unat_and_mask_mod[where 'a = 64, of _ x] by auto

lemma length_sq_items: "length (sq_items q) = unat (sq_head q) - unat (sq_tail q)"
  by (simp add: sq_items_def)

lemma sq_full_iff:
  assumes "sq_shape q"
  shows "sq_capacity q \<le> sq_head q - sq_consumed q \<longleftrightarrow> unat (sq_capacity q) \<le> length (sq_items q)"
  using assms by (simp add: sq_shape_def word_le_nat_alt unat_diff_le length_sq_items)

lemma try_enqueue_room:
  assumes inv: "sq_inv (Suc n) q" and room: "length (sq_items q) < unat (sq_capacity q)"
    and enq: "try_enqueue x q = (ok, q')"
  shows "ok \<and> sq_inv n q' \<and> sq_items q' = sq_items q @ [x] \<and> unat (sq_capacity q') = unat (sq_capacity q)"
proof -
  have sh: "sq_shape q" and lim: "unat (sq_head q) + Suc n < 2 ^ 64" using inv by (simp_all add: sq_inv_def)
  have idx: "unat (sq_head q AND sq_mask q) = unat (sq_head q) mod length (sq_slots q)"
    using sh by (intro sq_index) (simp_all add: sq_shape_def)
  have h1: "unat (sq_head q + 1) = Suc (unat (sq_head q))" using lim by (simp add: unat_add_small)
  have "\<not> sq_capacity q \<le> sq_head q - sq_consumed q" using room by (simp add: sq_full_iff[OF sh])
  then have q': "ok" "q' = q\<lparr>sq_slots := (sq_slots q)[unat (sq_head q) mod length (sq_slots q) := x],
      sq_head := sq_head q + 1, sq_published := sq_head q + 1\<rparr>"
    using enq by (auto simp: try_enqueue_def idx)
  let ?n = "unat (sq_head q) - unat (sq_tail q)"
  have le: "unat (sq_tail q) \<le> unat (sq_head q)" using sh by (simp add: sq_shape_def)
  then have head: "unat (sq_tail q) + ?n = unat (sq_head q)" by simp
  have "?n < length (sq_slots q)" using room sh by (simp add: length_sq_items sq_shape_def)
  from ring_view_snoc[OF this, of "unat (sq_tail q)" x] have "sq_items q' = sq_items q @ [x]"
    using le unfolding head by (simp add: q'(2) sq_items_def h1 Suc_diff_le)
  moreover have "sq_inv n q'"
    using sh lim room le h1 by (simp add: sq_inv_def sq_shape_def q'(2) length_sq_items Suc_diff_le)
  ultimately show ?thesis using q' by simp
qed

lemma try_dequeue_item:
  assumes inv: "sq_inv (Suc n) q" and items: "sq_items q = x # xs" and deq: "try_dequeue q = (r, q')"
  shows "r = Some x \<and> sq_inv n q' \<and> sq_items q' = xs \<and> unat (sq_capacity q') = unat (sq_capacity q)"
proof -
  have sh: "sq_shape q" and lim: "unat (sq_head q) + Suc n < 2 ^ 64" using inv by (simp_all add: sq_inv_def)
  have lt: "unat (sq_tail q) < unat (sq_head q)" using length_sq_items[of q] items by simp
  have idx: "unat (sq_tail q AND sq_mask q) = unat (sq_tail q) mod length (sq_slots q)"
    using sh by (intro sq_index) (simp_all add: sq_shape_def)
  have t1: "unat (sq_tail q + 1) = Suc (unat (sq_tail q))"
    using lt unat_u64_less[of "sq_head q"] by (simp add: unat_add_small)
  have "\<not> sq_published q \<le> sq_tail q" using lt sh by (simp add: sq_shape_def word_le_nat_alt)
  then have q': "r = Some (sq_slots q ! (unat (sq_tail q) mod length (sq_slots q)))"
    "q' = q\<lparr>sq_tail := sq_tail q + 1, sq_consumed := sq_tail q + 1\<rparr>"
    using deq by (auto simp: try_dequeue_def idx)
  have "unat (sq_head q) - unat (sq_tail q) = Suc (unat (sq_head q) - Suc (unat (sq_tail q)))"
    using lt by simp
  then have "sq_items q = sq_slots q ! (unat (sq_tail q) mod length (sq_slots q)) # sq_items q'"
    using ring_view_Suc[of "sq_slots q" "unat (sq_tail q)" "unat (sq_head q) - Suc (unat (sq_tail q))"]
    by (simp add: sq_items_def q'(2) t1)
  moreover have "sq_inv n q'"
    using sh lim lt t1 by (auto simp: sq_inv_def sq_shape_def q'(2))
  ultimately show ?thesis using q' items by simp
qed

interpretation spsc: bounded_fifo try_enqueue try_dequeue sq_inv sq_items "\<lambda>q. unat (sq_capacity q)"
proof
  fix n and q :: "'a SpscQueue" and x ok q'
  assume inv: "sq_inv (Suc n) q"
  then have sh: "sq_shape q" by (simp add: sq_inv_def)
  show "length (sq_items q) < unat (sq_capacity q) \<Longrightarrow> try_enqueue x q = (ok, q') \<Longrightarrow>
      ok \<and> sq_inv n q' \<and> sq_items q' = sq_items q @ [x] \<and> unat (sq_capacity q') = unat (sq_capacity q)"
    using try_enqueue_room[OF inv, of x ok q'] by blast
  show "unat (sq_capacity q) \<le> length (sq_items q) \<Longrightarrow> try_enqueue x q = (False, q)"
    using sq_full_iff[OF sh] by (simp add: try_enqueue_def)
  show "sq_items q = [] \<Longrightarrow> try_dequeue q = (None, q)"
    using sh length_sq_items[of q] by (simp add: try_dequeue_def sq_shape_def word_le_nat_alt)
  show "sq_inv n q" using inv by (simp add: sq_inv_def)
next
  fix n and q :: "'a SpscQueue" and x xs r q'
  assume "sq_inv (Suc n) q" "sq_items q = x # xs" "try_dequeue q = (r, q')"
  then show "r = Some x \<and> sq_inv n q' \<and> sq_items q' = xs \<and> unat (sq_capacity q') = unat (sq_capacity q)"
    using try_dequeue_item[of n q x xs r q'] by blast
next
  fix n and q :: "'a SpscQueue" assume "sq_inv n q"
  then show "length (sq_items q) \<le> unat (sq_capacity q)"
    by (simp add: sq_inv_def sq_shape_def length_sq_items)
qed

lemma SpscQueue_new_inv:
  assumes "SpscQueue_new init capacity = Inr q"
  shows "sq_shape q" and "sq_items q = []" and "sq_head q = 0" and "sq_tail q = 0"
    and "capacity \<le> sq_capacity q"
proof -
  let ?v = "if capacity < 1 then 1 else capacity :: u64"
  from assms have nz: "next_power_of_2 ?v \<noteq> 0"
    and q: "q = \<lparr>sq_head = 0, sq_tail = 0, sq_published = 0, sq_consumed = 0,
       sq_capacity = next_power_of_2 ?v, sq_mask = next_power_of_2 ?v - 1,
       sq_slots = replicate (unat (next_power_of_2 ?v)) init, sq_producer_waiting = False,
       sq_pending_handler = False, sq_posted = []\<rparr>"
    by (auto simp: SpscQueue_new_def Let_def split: if_splits)
  obtain k where k: "k < 64" "next_power_of_2 ?v = 2 ^ k" "unat ?v \<le> 2 ^ k"
    using next_power_of_2_pow2[OF nz] by blast
  show "sq_shape q" using k by (auto simp: q sq_shape_def)
  show "sq_items q = []" "sq_head q = 0" "sq_tail q = 0" by (simp_all add: q sq_items_def)
  have "unat capacity \<le> unat ?v" by (simp add: word_less_nat_alt)
  with k show "capacity \<le> sq_capacity q" by (simp add: q word_le_nat_alt)
qed


lemma drain_correct:
  assumes inv: "sq_inv m q" and d: "drain n q = (batch, q')"
  shows "batch = take n (sq_items q) \<and> sq_items q' = drop n (sq_items q) \<and> sq_inv m q'"
proof -
  have sh: "sq_shape q" and lim: "unat (sq_head q) + m < 2 ^ 64" using inv by (simp_all add: sq_inv_def)
  then have le: "unat (sq_tail q) \<le> unat (sq_head q)" "unat (sq_head q) - unat (sq_tail q) \<le> unat (sq_capacity q)"
    by (simp_all add: sq_shape_def)
  obtain k where k: "k < 64" "sq_capacity q = 2 ^ k" using sh by (auto simp: sq_shape_def)
  then have len: "length (sq_slots q) = 2 ^ k" using sh by (simp add: sq_shape_def)
  let ?c = "min (unat (sq_head q) - unat (sq_tail q)) n"
  have c: "unat (of_nat ?c :: u64) = ?c"
    using unat_u64_less[of "sq_head q"] by (intro unat_of_nat_small) simp
  have t: "unat (sq_tail q + of_nat ?c) = unat (sq_tail q) + ?c"
    using c le(1) unat_u64_less[of "sq_head q"] by (simp add: unat_add_small)
  have idx: "unat ((sq_tail q + of_nat i) AND sq_mask q) = (unat (sq_tail q) + i) mod length (sq_slots q)"
    if "i < ?c" for i
  proof -
    have "i < 2 ^ 64" using that unat_u64_less[of "sq_head q"] by linarith
    then have "unat (of_nat i :: u64) = i" by (intro unat_of_nat_small) simp
    moreover have "unat ((sq_tail q + of_nat i) AND sq_mask q) =
        unat (sq_tail q + of_nat i) mod length (sq_slots q)"
      using sh by (intro sq_index) (simp_all add: sq_shape_def)
    ultimately show ?thesis
      using unat_add_mod_power2[of k "sq_tail q" "of_nat i"] k(1) by (simp add: len)
  qed
  have avail: "unat (sq_published q - sq_tail q) = unat (sq_head q) - unat (sq_tail q)"
    using sh by (simp add: sq_shape_def unat_diff_le)
  have "batch = map (\<lambda>i. sq_slots q ! unat ((sq_tail q + of_nat i) AND sq_mask q)) [0..<?c]"
    using d by (auto simp: drain_def avail Let_def)
  also have "\<dots> = map (\<lambda>i. sq_slots q ! ((unat (sq_tail q) + i) mod length (sq_slots q))) [0..<?c]"
    using idx by (auto intro!: map_cong)
  also have "\<dots> = take n (sq_items q)"
    by (simp add: sq_items_def ring_view_def take_map min.commute)
       (simp add: min_def take_upt)
  finally have batch: "batch = take n (sq_items q)" .
  have q': "q' = q\<lparr>sq_tail := sq_tail q + of_nat ?c, sq_consumed := sq_tail q + of_nat ?c\<rparr>"
  proof -
    have con: "sq_consumed q = sq_tail q" using sh by (simp add: sq_shape_def)
    have "q' = (let q = q\<lparr>sq_tail := sq_tail q + of_nat ?c\<rparr>
                in if 0 < ?c then q\<lparr>sq_consumed := sq_tail q\<rparr> else q)"
      using d unfolding drain_def avail Let_def by auto
    then show ?thesis using con by (cases q; cases "?c = 0") (simp_all add: Let_def)
  qed
  have "sq_items q' = drop n (sq_items q)"
  proof (rule nth_equalityI)
    show "length (sq_items q') = length (drop n (sq_items q))"
      by (simp add: q' sq_items_def t)
    fix i assume "i < length (sq_items q')"
    then have i: "?c + i < unat (sq_head q) - unat (sq_tail q)" by (simp add: q' sq_items_def t)
    then have cn: "?c = n" by linarith
    have "unat (sq_tail q + of_nat n) = unat (sq_tail q) + n" using t unfolding cn .
    with i cn show "sq_items q' ! i = drop n (sq_items q) ! i"
      by (simp add: q' sq_items_def ring_view_def add.assoc)
  qed
  moreover have "sq_inv m q'" using sh lim le t by (auto simp: q' sq_inv_def sq_shape_def)
  ultimately show ?thesis using batch by blast
qed

lemma drain_sq_empty: "sq_inv m q \<Longrightarrow> sq_items q = [] \<Longrightarrow> drain n q = ([], q)"
  using length_sq_items[of q]
  by (simp add: drain_def sq_inv_def sq_shape_def unat_diff_le Let_def)

section \<open>Every interleaving\<close>

definition spsc_ok :: "'a spsc_sys \<Rightarrow> bool" where
  "spsc_ok s \<longleftrightarrow>
     (let q = sys_q s in
      sq_shape q \<and> unat (sq_head q) = length (sys_in s) \<and> unat (sq_tail q) = length (sys_out s) \<and>
      sys_out s @ sq_items q = sys_in s \<and>
      (case sys_p s of
         P_idle \<Rightarrow> True
       | P_loaded item c \<Rightarrow> unat c \<le> unat (sq_tail q)
       | P_written item \<Rightarrow> unat (sq_head q) - unat (sq_tail q) < unat (sq_capacity q) \<and>
           sq_slots q ! (unat (sq_head q) mod length (sq_slots q)) = item) \<and>
      (case sys_c s of
         C_idle \<Rightarrow> True
       | C_loaded p \<Rightarrow> unat p \<le> unat (sq_head q)
       | C_read item \<Rightarrow> unat (sq_tail q) < unat (sq_head q) \<and> item = hd (sq_items q)))"

lemma sq_items_slots:
  assumes "unat (sq_tail q) \<le> unat (sq_head q)"
    and "unat (sq_head q) - unat (sq_tail q) < length (sq_slots q)"
  shows "sq_items (q\<lparr>sq_slots := (sq_slots q)[unat (sq_head q) mod length (sq_slots q) := x]\<rparr>) = sq_items q"
  using ring_view_update[of "unat (sq_head q) - unat (sq_tail q)" "unat (sq_head q) - unat (sq_tail q)"
      "sq_slots q" "unat (sq_tail q)" x] assms
  by (simp add: sq_items_def)

lemma spsc_step_ok:
  assumes "spsc_step s s'" and "spsc_ok s" and "length (sys_in s') < 2 ^ 64"
  shows "spsc_ok s'"
  using assms
proof (induction rule: spsc_step.induct)
  case (p_load s item)
  then show ?case by (auto simp: spsc_ok_def Let_def sq_shape_def)
next
  case (p_full s item consumed)
  then show ?case by (auto simp: spsc_ok_def Let_def)
next
  case (p_write s item consumed q)
  have sh: "sq_shape q" and c: "unat consumed \<le> unat (sq_tail q)"
    using p_write by (auto simp: spsc_ok_def Let_def)
  have le: "unat (sq_tail q) \<le> unat (sq_head q)" using sh by (simp add: sq_shape_def)
  have room: "unat (sq_head q) - unat (sq_tail q) < unat (sq_capacity q)"
    using p_write(2,3) c le by (auto simp: word_le_nat_alt unat_diff_le)
  have idx: "unat (sq_head q AND sq_mask q) = unat (sq_head q) mod length (sq_slots q)"
    using sh by (intro sq_index) (simp_all add: sq_shape_def)
  have len: "length (sq_slots q) = unat (sq_capacity q)" using sh by (simp add: sq_shape_def)
  let ?q = "q\<lparr>sq_slots := (sq_slots q)[unat (sq_head q) mod length (sq_slots q) := item]\<rparr>"
  have items: "sq_items ?q = sq_items q" using le room len by (intro sq_items_slots) simp_all
  have "0 < length (sq_slots q)" using room len by linarith
  then have nth: "sq_slots ?q ! (unat (sq_head q) mod length (sq_slots q)) = item" by simp
  have sh': "sq_shape ?q" using sh by (simp add: sq_shape_def)
  from p_write(4) show ?case
    unfolding idx spsc_ok_def Let_def using items sh' room nth p_write(3)
    by (auto split: consumer_pc.splits)
next
  case (p_publish s item q)
  have sh: "sq_shape q" and len: "unat (sq_head q) = length (sys_in s)"
    and room: "unat (sq_head q) - unat (sq_tail q) < unat (sq_capacity q)"
    and slot: "sq_slots q ! (unat (sq_head q) mod length (sq_slots q)) = item"
    and hist: "sys_out s @ sq_items q = sys_in s"
    using p_publish(1-3) by (auto simp: spsc_ok_def Let_def)
  have lim: "length (sys_in s) + 1 < 2 ^ 64" using p_publish(4) by simp
  let ?q0 = "q\<lparr>sq_head := sq_head q + 1, sq_published := sq_head q + 1\<rparr>"
  have enq: "try_enqueue item q = (True, ?q0)"
  proof -
    have idx: "unat (sq_head q AND sq_mask q) = unat (sq_head q) mod length (sq_slots q)"
      using sh by (intro sq_index) (simp_all add: sq_shape_def)
    have "(sq_slots q)[unat (sq_head q) mod length (sq_slots q) := item] = sq_slots q"
      using slot by (metis list_update_id)
    moreover have "\<not> sq_capacity q \<le> sq_head q - sq_consumed q"
      using room by (simp add: sq_full_iff[OF sh] length_sq_items)
    ultimately show ?thesis by (simp add: try_enqueue_def idx)
  qed
  have "sq_inv (Suc 0) q" using sh lim len by (simp add: sq_inv_def)
  from try_enqueue_room[OF this _ enq] room
  have new: "sq_shape ?q0" "sq_items ?q0 = sq_items q @ [item]"
    by (simp_all add: sq_inv_def length_sq_items)
  have h1: "unat (sq_head q + 1) = Suc (unat (sq_head q))" using lim len by (simp add: unat_add_small)
  have ne: "unat (sq_tail q) < unat (sq_head q) \<Longrightarrow> sq_items q \<noteq> []"
    using length_sq_items[of q] by (metis list.size(3) zero_less_diff less_numeral_extra(3))
  from p_publish(2,3) show ?case
    unfolding spsc_ok_def Let_def using new h1 len hist ne
    by (auto split: consumer_pc.splits)
next
  case (c_load s)
  then show ?case by (auto simp: spsc_ok_def Let_def sq_shape_def)
next
  case (c_empty s published)
  then show ?case by (auto simp: spsc_ok_def Let_def)
next
  case (c_read s published q)
  have sh: "sq_shape q" and p: "unat published \<le> unat (sq_head q)"
    using c_read by (auto simp: spsc_ok_def Let_def)
  have lt: "unat (sq_tail q) < unat (sq_head q)" using c_read(2,3) p by (simp add: word_le_nat_alt)
  have idx: "unat (sq_tail q AND sq_mask q) = unat (sq_tail q) mod length (sq_slots q)"
    using sh by (intro sq_index) (simp_all add: sq_shape_def)
  have "unat (sq_head q) - unat (sq_tail q) = Suc (unat (sq_head q) - Suc (unat (sq_tail q)))"
    using lt by simp
  then have "hd (sq_items q) = sq_slots q ! (unat (sq_tail q) mod length (sq_slots q))"
    using ring_view_Suc[of "sq_slots q" "unat (sq_tail q)" "unat (sq_head q) - Suc (unat (sq_tail q))"]
    by (simp add: sq_items_def)
  with c_read(3,4) lt idx show ?case by (auto simp: spsc_ok_def Let_def)
next
  case (c_release s item q)
  have sh: "sq_shape q" and len: "unat (sq_head q) = length (sys_in s)"
    and lt: "unat (sq_tail q) < unat (sq_head q)" and item: "item = hd (sq_items q)"
    and hist: "sys_out s @ sq_items q = sys_in s"
    using c_release(1-3) by (auto simp: spsc_ok_def Let_def)
  obtain xs where items: "sq_items q = item # xs"
    using item lt length_sq_items[of q] by (cases "sq_items q") auto
  let ?q0 = "q\<lparr>sq_tail := sq_tail q + 1, sq_consumed := sq_tail q + 1\<rparr>"
  have deq: "try_dequeue q = (fst (try_dequeue q), ?q0)"
    using lt sh by (simp add: try_dequeue_def sq_shape_def word_le_nat_alt)
  have new: "sq_shape ?q0" "sq_items ?q0 = xs"
  proof -
    have t1: "unat (sq_tail q + 1) = Suc (unat (sq_tail q))"
      using lt unat_u64_less[of "sq_head q"] by (simp add: unat_add_small)
    show "sq_shape ?q0" using sh lt t1 by (auto simp: sq_shape_def)
    have "unat (sq_head q) - unat (sq_tail q) = Suc (unat (sq_head q) - Suc (unat (sq_tail q)))"
      using lt by simp
    then show "sq_items ?q0 = xs"
      using items ring_view_Suc[of "sq_slots q" "unat (sq_tail q)" "unat (sq_head q) - Suc (unat (sq_tail q))"]
      by (simp add: sq_items_def t1)
  qed
  have t1: "unat (sq_tail q + 1) = Suc (unat (sq_tail q))"
    using lt unat_u64_less[of "sq_head q"] by (simp add: unat_add_small)
  from c_release(2,3) show ?case
    unfolding spsc_ok_def Let_def using new t1 hist items lt
    by (auto split: producer_pc.splits)
qed

lemma spsc_in_mono: "spsc_step s s' \<Longrightarrow> length (sys_in s) \<le> length (sys_in s')"
  by (induction rule: spsc_step.induct) simp_all

lemma spsc_reachable_ok:
  "spsc_reachable init capacity s \<Longrightarrow> length (sys_in s) < 2 ^ 64 \<Longrightarrow> spsc_ok s"
proof (induction rule: spsc_reachable.induct)
  case (start q)
  then show ?case using SpscQueue_new_inv[OF start(1)] by (simp add: spsc_ok_def)
next
  case (step s s')
  then have "length (sys_in s) < 2 ^ 64" using spsc_in_mono[OF step(2)] by simp
  with step show ?case using spsc_step_ok by blast
qed


text \<open>
  A queue between two cores is first in, first out: after any sequence of
  \<open>try_enqueue\<close> and \<open>try_dequeue\<close> calls (fewer than \<open>2 ^ 64\<close>), the items accepted are the
  items returned followed by the items still queued, which never exceed the capacity, and the
  capacity is at least the requested one.
\<close>

theorem spsc_queue_fifo:
  assumes "SpscQueue_new init capacity = Inr q" and "length ops < 2 ^ 64"
    and "run (fifo_step try_enqueue try_dequeue) ops q = (outs, q')"
  shows "accepted ops outs = taken outs @ sq_items q' \<and>
    length (sq_items q') \<le> unat (sq_capacity q) \<and> capacity \<le> sq_capacity q"
proof -
  note new = SpscQueue_new_inv[OF assms(1)]
  have "sq_inv (length ops) q" using new assms(2) by (simp add: sq_inv_def)
  from spsc.run_fifo[OF this assms(3)] new show ?thesis by simp
qed

theorem spsc_queue_fifo_witness:
  "\<exists>q outs q'. SpscQueue_new (0::nat) 2 = Inr q \<and>
     run (fifo_step try_enqueue try_dequeue) [Enq 7, Enq 8, Enq 9, Deq] q = (outs, q') \<and>
     outs = [Accepted True, Accepted True, Accepted False, Item (Some 7)] \<and>
     accepted [Enq 7, Enq 8, Enq 9, Deq] outs = taken outs @ sq_items q'"
proof -
  have "next_power_of_2 2 = 2" by code_simp
  moreover have "replicate 2 (0::nat) = [0, 0]" by (simp add: numeral_2_eq_2)
  ultimately have new: "SpscQueue_new (0::nat) 2 = Inr \<lparr>sq_head = 0, sq_tail = 0, sq_published = 0,
      sq_consumed = 0, sq_capacity = 2, sq_mask = 1, sq_slots = [0, 0], sq_producer_waiting = False,
      sq_pending_handler = False, sq_posted = []\<rparr>" (is "_ = Inr ?q")
    by (simp add: SpscQueue_new_def)
  let ?ops = "[Enq 7, Enq 8, Enq 9, Deq]"
  have run: "run (fifo_step try_enqueue try_dequeue) ?ops ?q =
      ([Accepted True, Accepted True, Accepted False, Item (Some 7)],
       snd (run (fifo_step try_enqueue try_dequeue) ?ops ?q))"
    by (simp add: try_enqueue_def try_dequeue_def word_le_nat_alt)
  have "length ?ops < 2 ^ 64" by simp
  from spsc_queue_fifo[OF new this run] new run show ?thesis by blast
qed

text \<open>
  C11: In every interleaving of the producer's and the consumer's atomic accesses, what came
  out is a prefix of what went in, at most a queue's capacity of items is in flight, and the
  producer never writes a slot while the consumer may be reading it.
\<close>

theorem spsc_interleaving_safe:
  assumes "spsc_reachable init capacity s" and "length (sys_in s) < 2 ^ 64"
  shows "\<exists>rest. sys_in s = sys_out s @ rest \<and> length rest \<le> unat (sq_capacity (sys_q s)) \<and>
    (\<forall>item c p. sys_p s = P_loaded item c \<and> sys_c s = C_loaded p \<and>
       \<not> sq_capacity (sys_q s) \<le> sq_head (sys_q s) - c \<and> \<not> p \<le> sq_tail (sys_q s) \<longrightarrow>
       sq_head (sys_q s) AND sq_mask (sys_q s) \<noteq> sq_tail (sys_q s) AND sq_mask (sys_q s))"
proof (intro exI[of _ "sq_items (sys_q s)"] conjI allI impI)
  let ?q = "sys_q s"
  have ok: "spsc_ok s" by (rule spsc_reachable_ok[OF assms])
  then have sh: "sq_shape ?q" by (simp add: spsc_ok_def Let_def)
  from ok show "sys_in s = sys_out s @ sq_items ?q" by (simp add: spsc_ok_def Let_def)
  from sh show "length (sq_items ?q) \<le> unat (sq_capacity ?q)" by (simp add: sq_shape_def length_sq_items)
  fix item c p assume pc: "sys_p s = P_loaded item c \<and> sys_c s = C_loaded p \<and>
    \<not> sq_capacity ?q \<le> sq_head ?q - c \<and> \<not> p \<le> sq_tail ?q"
  with ok have le: "unat c \<le> unat (sq_tail ?q)" "unat p \<le> unat (sq_head ?q)"
    by (auto simp: spsc_ok_def Let_def)
  have tl: "unat (sq_tail ?q) < unat (sq_head ?q)" using pc le by (simp add: word_le_nat_alt)
  have "unat (sq_head ?q) - unat c < unat (sq_capacity ?q)"
    using pc le tl by (auto simp: word_le_nat_alt unat_diff_le)
  then have room: "unat (sq_head ?q) < unat (sq_tail ?q) + length (sq_slots ?q)"
    using le sh by (simp add: sq_shape_def)
  have idx: "unat (x AND sq_mask ?q) = unat x mod length (sq_slots ?q)" for x
    using sh by (intro sq_index) (simp_all add: sq_shape_def)
  have "(0 + unat (sq_tail ?q)) mod length (sq_slots ?q) \<noteq> (0 + unat (sq_head ?q)) mod length (sq_slots ?q)"
    using tl room by (intro ring_index_distinct)
  then show "sq_head ?q AND sq_mask ?q \<noteq> sq_tail ?q AND sq_mask ?q"
    by (metis add_0 idx)
qed

theorem spsc_interleaving_safe_witness:
  "\<exists>s. spsc_reachable (0::nat) 2 s \<and> sys_in s = [5] \<and> sys_c s = C_loaded 1 \<and>
     (\<exists>rest. sys_in s = sys_out s @ rest \<and> length rest \<le> 2)"
proof -
  have "next_power_of_2 2 = 2" by code_simp
  moreover have "replicate 2 (0::nat) = [0, 0]" by (simp add: numeral_2_eq_2)
  ultimately have new: "SpscQueue_new (0::nat) 2 = Inr \<lparr>sq_head = 0, sq_tail = 0, sq_published = 0,
      sq_consumed = 0, sq_capacity = 2, sq_mask = 1, sq_slots = [0, 0], sq_producer_waiting = False,
      sq_pending_handler = False, sq_posted = []\<rparr>" (is "_ = Inr ?q")
    by (simp add: SpscQueue_new_def)
  note r = spsc_reachable.step
  note r0 = spsc_reachable.start[OF new]
  note r1 = r[OF r0 p_load[of _ 5], simplified]
  note r2 = r[OF r1 p_write[OF _ _ refl], simplified]
  note r3 = r[OF r2 p_publish[OF _ refl], simplified]
  note r4 = r[OF r3 c_load, simplified]
  from spsc_interleaving_safe[OF r4] r4 show ?thesis by force
qed

end
