(* ===== verification/Mpsc_Queue.thy ===== *)
theory Mpsc_Queue
  imports Bounded_Queue Math_Utils
begin

text \<open>
  \<open>apex_core/include/apex/core/mpsc_queue.hpp\<close>: the lock-free multi-producer single-consumer
  queue. First the calls as a whole, then the same code cut at its atomic accesses: any number
  of producers, each at its own place in \<open>enqueue\<close>, and one consumer. Loads and stores are
  sequentially consistent in the model; a \<open>compare_exchange_weak\<close> may fail for no reason.
\<close>

record 'a MpscQueue =
  mq_head :: u64
  mq_capacity :: u64
  mq_mask :: u64
  mq_slots :: "(bool \<times> 'a) list"
  mq_tail :: u64

definition MpscQueue_new :: "'a \<Rightarrow> u64 \<Rightarrow> cpp_exception + 'a MpscQueue" where
  "MpscQueue_new init capacity =
     (let cap = next_power_of_2 (if capacity < 1 then 1 else capacity) in
      if cap = 0 then Inl std_overflow_error
      else Inr \<lparr>mq_head = 0, mq_capacity = cap, mq_mask = cap - 1,
                mq_slots = replicate (unat cap) (False, init), mq_tail = 0\<rparr>)"

text \<open>\<open>enqueue\<close> with no other producer running; \<open>n\<close> is how often the exchange fails
  spuriously before it succeeds.\<close>

primrec mpsc_enqueue :: "nat \<Rightarrow> 'a \<Rightarrow> 'a MpscQueue \<Rightarrow> unit result \<times> 'a MpscQueue" where
  "mpsc_enqueue 0 item q =
     (if mq_capacity q \<le> mq_head q - mq_tail q then (Inl BufferFull, q)
      else (Inr (), q\<lparr>mq_head := mq_head q + 1,
                      mq_slots := (mq_slots q)[unat (mq_head q AND mq_mask q) := (True, item)]\<rparr>))"
| "mpsc_enqueue (Suc n) item q =
     (if mq_capacity q \<le> mq_head q - mq_tail q then (Inl BufferFull, q) else mpsc_enqueue n item q)"

definition mpsc_dequeue :: "'a MpscQueue \<Rightarrow> 'a option \<times> 'a MpscQueue" where
  "mpsc_dequeue q =
     (let tail = mq_tail q;
          i = unat (tail AND mq_mask q);
          slot = mq_slots q ! i
      in if \<not> fst slot then (None, q)
         else (Some (snd slot),
               q\<lparr>mq_slots := (mq_slots q)[i := (False, snd slot)], mq_tail := tail + 1\<rparr>))"

definition mq_size_approx :: "'a MpscQueue \<Rightarrow> u64" where
  "mq_size_approx q = mq_head q - mq_tail q"

definition mq_empty :: "'a MpscQueue \<Rightarrow> bool" where
  "mq_empty q \<longleftrightarrow> mq_head q = mq_tail q"

section \<open>Interleaved execution\<close>

text \<open>Where a producer is: before the call, with \<open>head\<close> loaded, with \<open>head\<close> and \<open>tail\<close>
  loaded, holding a slot it has not written, holding a slot it has written.\<close>

datatype 'a mpsc_pc =
  M_idle | M_head 'a u64 | M_check 'a u64 u64 | M_reserved 'a u64 | M_stored 'a u64

datatype 'a mpsc_cpc = MC_idle | MC_ready | MC_item 'a | MC_cleared 'a

text \<open>The log has the producer and item of every successful exchange, in their order.\<close>

record 'a mpsc_sys =
  ms_q :: "'a MpscQueue"
  ms_p :: "nat \<Rightarrow> 'a mpsc_pc"
  ms_c :: "'a mpsc_cpc"
  ms_log :: "(nat \<times> 'a) list"
  ms_out :: "'a list"

definition slot_index :: "'a MpscQueue \<Rightarrow> u64 \<Rightarrow> nat" where
  "slot_index q pos = unat (pos AND mq_mask q)"

inductive mpsc_step :: "'a mpsc_sys \<Rightarrow> 'a mpsc_sys \<Rightarrow> bool" where
  load_head: "ms_p s i = M_idle \<Longrightarrow>
     mpsc_step s (s\<lparr>ms_p := (ms_p s)(i := M_head item (mq_head (ms_q s)))\<rparr>)"
| load_tail: "ms_p s i = M_head item h \<Longrightarrow>
     mpsc_step s (s\<lparr>ms_p := (ms_p s)(i := M_check item h (mq_tail (ms_q s)))\<rparr>)"
| full: "ms_p s i = M_check item h t \<Longrightarrow> mq_capacity (ms_q s) \<le> h - t \<Longrightarrow>
     mpsc_step s (s\<lparr>ms_p := (ms_p s)(i := M_idle)\<rparr>)"
| cas_ok: "ms_p s i = M_check item h t \<Longrightarrow> \<not> mq_capacity (ms_q s) \<le> h - t \<Longrightarrow> mq_head (ms_q s) = h \<Longrightarrow>
     mpsc_step s (s\<lparr>ms_q := (ms_q s)\<lparr>mq_head := h + 1\<rparr>, ms_p := (ms_p s)(i := M_reserved item h),
                    ms_log := ms_log s @ [(i, item)]\<rparr>)"
| cas_fail: "ms_p s i = M_check item h t \<Longrightarrow> \<not> mq_capacity (ms_q s) \<le> h - t \<Longrightarrow>
     mpsc_step s (s\<lparr>ms_p := (ms_p s)(i := M_head item (mq_head (ms_q s)))\<rparr>)"
| store: "ms_p s i = M_reserved item h \<Longrightarrow> q = ms_q s \<Longrightarrow> n = slot_index q h \<Longrightarrow>
     mpsc_step s (s\<lparr>ms_q := q\<lparr>mq_slots := (mq_slots q)[n := (fst (mq_slots q ! n), item)]\<rparr>,
                    ms_p := (ms_p s)(i := M_stored item h)\<rparr>)"
| publish: "ms_p s i = M_stored item h \<Longrightarrow> q = ms_q s \<Longrightarrow> n = slot_index q h \<Longrightarrow>
     mpsc_step s (s\<lparr>ms_q := q\<lparr>mq_slots := (mq_slots q)[n := (True, snd (mq_slots q ! n))]\<rparr>,
                    ms_p := (ms_p s)(i := M_idle)\<rparr>)"
| c_ready: "ms_c s = MC_idle \<Longrightarrow> q = ms_q s \<Longrightarrow> fst (mq_slots q ! slot_index q (mq_tail q)) \<Longrightarrow>
     mpsc_step s (s\<lparr>ms_c := MC_ready\<rparr>)"
| c_read: "ms_c s = MC_ready \<Longrightarrow> q = ms_q s \<Longrightarrow>
     mpsc_step s (s\<lparr>ms_c := MC_item (snd (mq_slots q ! slot_index q (mq_tail q)))\<rparr>)"
| c_clear: "ms_c s = MC_item item \<Longrightarrow> q = ms_q s \<Longrightarrow> n = slot_index q (mq_tail q) \<Longrightarrow>
     mpsc_step s (s\<lparr>ms_q := q\<lparr>mq_slots := (mq_slots q)[n := (False, snd (mq_slots q ! n))]\<rparr>,
                    ms_c := MC_cleared item\<rparr>)"
| c_release: "ms_c s = MC_cleared item \<Longrightarrow> q = ms_q s \<Longrightarrow>
     mpsc_step s (s\<lparr>ms_q := q\<lparr>mq_tail := mq_tail q + 1\<rparr>, ms_c := MC_idle,
                    ms_out := ms_out s @ [item]\<rparr>)"

inductive mpsc_reachable :: "'a \<Rightarrow> u64 \<Rightarrow> 'a mpsc_sys \<Rightarrow> bool" for init capacity where
  start: "MpscQueue_new init capacity = Inr q \<Longrightarrow>
     mpsc_reachable init capacity
       \<lparr>ms_q = q, ms_p = (\<lambda>i. M_idle), ms_c = MC_idle, ms_log = [], ms_out = []\<rparr>"
| step: "mpsc_reachable init capacity s \<Longrightarrow> mpsc_step s s' \<Longrightarrow> mpsc_reachable init capacity s'"

section \<open>Invariant\<close>

definition mq_shape :: "'a MpscQueue \<Rightarrow> bool" where
  "mq_shape q \<longleftrightarrow> (\<exists>k<64. mq_capacity q = 2 ^ k) \<and> mq_mask q = mq_capacity q - 1 \<and>
     length (mq_slots q) = unat (mq_capacity q)"

text \<open>Readiness and content of the slot that position \<open>j\<close> maps to.\<close>

definition rdy :: "'a MpscQueue \<Rightarrow> nat \<Rightarrow> bool" where
  "rdy q j = fst (mq_slots q ! (j mod length (mq_slots q)))"

definition dat :: "'a MpscQueue \<Rightarrow> nat \<Rightarrow> 'a" where
  "dat q j = snd (mq_slots q ! (j mod length (mq_slots q)))"

definition holds :: "'a mpsc_pc \<Rightarrow> nat option" where
  "holds pc = (case pc of M_reserved x h \<Rightarrow> Some (unat h) | M_stored x h \<Rightarrow> Some (unat h) | _ \<Rightarrow> None)"

definition producer_ok :: "'a mpsc_sys \<Rightarrow> 'a mpsc_pc \<Rightarrow> bool" where
  "producer_ok s pc \<longleftrightarrow>
     (case pc of
        M_idle \<Rightarrow> True
      | M_head x h \<Rightarrow> unat h \<le> length (ms_log s)
      | M_check x h t \<Rightarrow> unat h \<le> length (ms_log s) \<and> unat t \<le> length (ms_out s)
      | M_reserved x h \<Rightarrow> length (ms_out s) \<le> unat h \<and> unat h < length (ms_log s) \<and>
          snd (ms_log s ! unat h) = x \<and> \<not> rdy (ms_q s) (unat h)
      | M_stored x h \<Rightarrow> length (ms_out s) \<le> unat h \<and> unat h < length (ms_log s) \<and>
          snd (ms_log s ! unat h) = x \<and> \<not> rdy (ms_q s) (unat h) \<and> dat (ms_q s) (unat h) = x)"

definition consumer_ok :: "'a mpsc_sys \<Rightarrow> bool" where
  "consumer_ok s \<longleftrightarrow>
     (let n = length (ms_out s) in
      case ms_c s of
        MC_idle \<Rightarrow> True
      | MC_ready \<Rightarrow> n < length (ms_log s) \<and> rdy (ms_q s) n
      | MC_item x \<Rightarrow> n < length (ms_log s) \<and> rdy (ms_q s) n \<and> x = snd (ms_log s ! n)
      | MC_cleared x \<Rightarrow> n < length (ms_log s) \<and> \<not> rdy (ms_q s) n \<and> x = snd (ms_log s ! n) \<and>
          (\<forall>i. holds (ms_p s i) \<noteq> Some n))"

definition cleared :: "'a mpsc_sys \<Rightarrow> bool" where
  "cleared s \<longleftrightarrow> (\<exists>x. ms_c s = MC_cleared x)"

definition mpsc_counts :: "'a mpsc_sys \<Rightarrow> bool" where
  "mpsc_counts s \<longleftrightarrow> mq_shape (ms_q s) \<and>
     unat (mq_head (ms_q s)) = length (ms_log s) \<and> unat (mq_tail (ms_q s)) = length (ms_out s) \<and>
     length (ms_out s) \<le> length (ms_log s) \<and>
     length (ms_log s) \<le> length (ms_out s) + unat (mq_capacity (ms_q s)) \<and>
     ms_out s = map snd (take (length (ms_out s)) (ms_log s))"

definition mpsc_slots_ok :: "'a mpsc_sys \<Rightarrow> bool" where
  "mpsc_slots_ok s \<longleftrightarrow>
     (\<forall>j. length (ms_out s) \<le> j \<and> j < length (ms_log s) \<longrightarrow>
        (rdy (ms_q s) j \<longrightarrow> dat (ms_q s) j = snd (ms_log s ! j) \<and> (\<forall>i. holds (ms_p s i) \<noteq> Some j)) \<and>
        (rdy (ms_q s) j \<or> (\<exists>i. holds (ms_p s i) = Some j) \<or> j = length (ms_out s) \<and> cleared s)) \<and>
     (\<forall>j. length (ms_log s) \<le> j \<and> j < length (ms_out s) + unat (mq_capacity (ms_q s)) \<longrightarrow>
        \<not> rdy (ms_q s) j)"

definition mpsc_ok :: "'a mpsc_sys \<Rightarrow> bool" where
  "mpsc_ok s \<longleftrightarrow> mpsc_counts s \<and> mpsc_slots_ok s \<and> consumer_ok s \<and>
     (\<forall>i. producer_ok s (ms_p s i)) \<and>
     (\<forall>i j n. holds (ms_p s i) = Some n \<and> holds (ms_p s j) = Some n \<longrightarrow> i = j)"

lemma slot_index_mod: "mq_shape q \<Longrightarrow> slot_index q pos = unat pos mod length (mq_slots q)"
  using unat_and_mask_mod[where 'a = 64, of _ pos] by (auto simp: mq_shape_def slot_index_def)

lemma mq_len_pos: "mq_shape q \<Longrightarrow> 0 < length (mq_slots q)"
  by (auto simp: mq_shape_def)

text \<open>Writing the slot of one position leaves the others of the same window alone.\<close>

lemma slot_write:
  assumes "mq_shape q" and "q' = q\<lparr>mq_slots := (mq_slots q)[h mod length (mq_slots q) := (r, x)]\<rparr>"
  shows "mq_shape q'" and "rdy q' h = r" and "dat q' h = x"
    and "a \<le> h \<Longrightarrow> h < a + unat (mq_capacity q) \<Longrightarrow> a \<le> j \<Longrightarrow> j < a + unat (mq_capacity q) \<Longrightarrow> j \<noteq> h \<Longrightarrow>
      rdy q' j = rdy q j \<and> dat q' j = dat q j"
proof -
  have lt: "h mod length (mq_slots q) < length (mq_slots q)"
    using mq_len_pos[OF assms(1)] by (rule mod_less_divisor)
  show "mq_shape q'" using assms by (simp add: mq_shape_def)
  show "rdy q' h = r" "dat q' h = x" using lt by (simp_all add: assms(2) rdy_def dat_def)
  assume w: "a \<le> h" "h < a + unat (mq_capacity q)" "a \<le> j" "j < a + unat (mq_capacity q)" "j \<noteq> h"
  have len: "length (mq_slots q) = unat (mq_capacity q)" using assms(1) by (simp add: mq_shape_def)
  have "(0 + j) mod length (mq_slots q) \<noteq> (0 + h) mod length (mq_slots q)"
  proof (cases "j < h")
    case True
    then show ?thesis using w len by (intro ring_index_distinct) simp_all
  next
    case False
    then show ?thesis
      using ring_index_distinct[of h j "length (mq_slots q)" 0] w len by auto
  qed
  then show "rdy q' j = rdy q j \<and> dat q' j = dat q j" by (simp add: assms(2) rdy_def dat_def)
qed


section \<open>Every step keeps the invariant\<close>

lemma holds_simps [simp]:
  "holds M_idle = None" "holds (M_head x h) = None" "holds (M_check x h t) = None"
  "holds (M_reserved x h) = Some (unat h)" "holds (M_stored x h) = Some (unat h)"
  by (simp_all add: holds_def)

lemma holds_window:
  assumes "mpsc_ok s" and "holds (ms_p s i) = Some n"
  shows "length (ms_out s) \<le> n \<and> n < length (ms_log s) \<and> \<not> rdy (ms_q s) n"
proof -
  have "producer_ok s (ms_p s i)" using assms(1) by (simp add: mpsc_ok_def)
  with assms(2) show ?thesis by (auto simp: producer_ok_def holds_def split: mpsc_pc.splits)
qed

text \<open>A producer that holds no slot moves on, holding none.\<close>

lemma mpsc_ok_producer:
  assumes ok: "mpsc_ok s" and "holds (ms_p s i) = None" and "holds pc = None" and "producer_ok s pc"
  shows "mpsc_ok (s\<lparr>ms_p := (ms_p s)(i := pc)\<rparr>)"
proof -
  let ?s = "s\<lparr>ms_p := (ms_p s)(i := pc)\<rparr>"
  have h: "holds (ms_p ?s j) = holds (ms_p s j)" for j using assms(2,3) by simp
  have p: "producer_ok ?s = producer_ok s" by (rule ext) (simp add: producer_ok_def cong: mpsc_pc.case_cong)
  have "mpsc_counts ?s = mpsc_counts s" by (simp add: mpsc_counts_def)
  moreover have "cleared ?s = cleared s" by (simp add: cleared_def)
  then have "mpsc_slots_ok ?s = mpsc_slots_ok s" unfolding mpsc_slots_ok_def h by simp
  moreover have "consumer_ok ?s = consumer_ok s" unfolding consumer_ok_def h by (simp cong: mpsc_cpc.case_cong)
  ultimately show ?thesis using ok assms(4) unfolding mpsc_ok_def h p by simp
qed

text \<open>The consumer moves on without touching the queue.\<close>

lemma mpsc_ok_consumer:
  assumes ok: "mpsc_ok s" and "\<not> cleared s" and "\<not> cleared (s\<lparr>ms_c := c\<rparr>)" and "consumer_ok (s\<lparr>ms_c := c\<rparr>)"
  shows "mpsc_ok (s\<lparr>ms_c := c\<rparr>)"
proof -
  have "producer_ok (s\<lparr>ms_c := c\<rparr>) = producer_ok s"
    by (rule ext) (simp add: producer_ok_def cong: mpsc_pc.case_cong)
  moreover have "mpsc_slots_ok (s\<lparr>ms_c := c\<rparr>) = mpsc_slots_ok s"
    using assms(2,3) by (simp add: mpsc_slots_ok_def)
  ultimately show ?thesis using ok assms(4) by (simp add: mpsc_ok_def mpsc_counts_def)
qed

lemma mpsc_cas_ok:
  assumes ok: "mpsc_ok s" and pc: "ms_p s i = M_check item h t" and room: "\<not> mq_capacity (ms_q s) \<le> h - t"
    and head: "mq_head (ms_q s) = h" and lim: "length (ms_log s) + 1 < 2 ^ 64"
    and s': "s' = s\<lparr>ms_q := (ms_q s)\<lparr>mq_head := h + 1\<rparr>, ms_p := (ms_p s)(i := M_reserved item h),
                  ms_log := ms_log s @ [(i, item)]\<rparr>"
  shows "mpsc_ok s'"
proof -
  have c: "mpsc_counts s" and sl: "mpsc_slots_ok s" and co: "consumer_ok s"
    and pr: "\<And>i. producer_ok s (ms_p s i)"
    and ex: "\<And>i j n. holds (ms_p s i) = Some n \<Longrightarrow> holds (ms_p s j) = Some n \<Longrightarrow> i = j"
    using ok unfolding mpsc_ok_def by blast+
  let ?L = "length (ms_log s)" and ?O = "length (ms_out s)" and ?K = "unat (mq_capacity (ms_q s))"
  have h: "unat h = ?L" "?O \<le> ?L" using c head by (auto simp: mpsc_counts_def)
  have t: "unat t \<le> ?O" using pr[of i] by (simp add: pc producer_ok_def)
  have lt: "?L < ?O + ?K" using room h t by (auto simp: word_le_nat_alt unat_diff_le)
  have rd: "rdy (ms_q s') = rdy (ms_q s)" "dat (ms_q s') = dat (ms_q s)"
    by (rule ext, simp add: s' rdy_def dat_def)+
  have nr: "\<not> rdy (ms_q s) ?L" using sl lt by (auto simp: mpsc_slots_ok_def)
  have old: "n < ?L" if "holds (ms_p s j) = Some n" for j n using holds_window[OF ok that] by blast
  have fields: "ms_log s' = ms_log s @ [(i, item)]" "ms_out s' = ms_out s" "ms_c s' = ms_c s"
    "mq_capacity (ms_q s') = mq_capacity (ms_q s)" "mq_tail (ms_q s') = mq_tail (ms_q s)"
    "ms_p s' = (ms_p s)(i := M_reserved item h)" "mq_head (ms_q s') = h + 1"
    "mq_shape (ms_q s') = mq_shape (ms_q s)"
    by (simp_all add: s' mq_shape_def)
  have "unat (h + 1) = Suc ?L" using h lim by (simp add: unat_add_small)
  then have "mpsc_counts s'" using c lt by (simp add: mpsc_counts_def fields)
  moreover have "mpsc_slots_ok s'"
    unfolding mpsc_slots_ok_def fields(2,4) rd
  proof (intro conjI allI impI)
    fix j assume j: "?O \<le> j \<and> j < length (ms_log s')" and r: "rdy (ms_q s) j"
    then have "j < ?L" using nr by (cases "j = ?L") (auto simp: fields)
    then show "dat (ms_q s) j = snd (ms_log s' ! j)"
      using sl j r by (simp add: mpsc_slots_ok_def fields nth_append)
    fix k show "holds (ms_p s' k) \<noteq> Some j"
      using sl j r \<open>j < ?L\<close> h by (auto simp: mpsc_slots_ok_def fields)
  next
    fix j assume j: "?O \<le> j \<and> j < length (ms_log s')"
    have new: "holds (ms_p s' i) = Some ?L" by (simp add: fields h)
    have keep: "\<exists>k. holds (ms_p s' k) = Some j" if "holds (ms_p s k) = Some j" for k
      using that pc by (intro exI[of _ k]) (auto simp: fields)
    have cl: "cleared s' = cleared s" by (simp add: cleared_def fields)
    show "rdy (ms_q s) j \<or> (\<exists>i. holds (ms_p s' i) = Some j) \<or> j = ?O \<and> cleared s'"
    proof (cases "j = ?L")
      case True
      then show ?thesis using new by blast
    next
      case False
      then have "?O \<le> j \<and> j < ?L" using j by (simp add: fields)
      then show ?thesis using sl keep unfolding mpsc_slots_ok_def cl by blast
    qed
  next
    fix j assume "length (ms_log s') \<le> j \<and> j < ?O + ?K"
    then show "\<not> rdy (ms_q s) j" using sl by (simp add: mpsc_slots_ok_def fields)
  qed
  moreover have "consumer_ok s'"
    using co h(1) unfolding consumer_ok_def fields rd Let_def
    by (auto simp: nth_append split: mpsc_cpc.splits)
  moreover have "producer_ok s' (ms_p s' j)" for j
  proof (cases "j = i")
    case True
    then show ?thesis using h nr by (simp add: fields producer_ok_def rd nth_append)
  next
    case False
    then show ?thesis using pr[of j] by (auto simp: fields producer_ok_def rd nth_append split: mpsc_pc.splits)
  qed
  moreover have "a = b" if "holds (ms_p s' a) = Some n" "holds (ms_p s' b) = Some n" for a b n
    using that ex[of a n b] old[of a n] old[of b n] h by (auto simp: fields split: if_splits)
  ultimately show ?thesis unfolding mpsc_ok_def by blast
qed


text \<open>A write to the slot a producer holds, or to the slot the consumer has taken.\<close>

lemma mpsc_other_slots:
  assumes ok: "mpsc_ok s" and n: "length (ms_out s) \<le> n" "n < length (ms_log s)"
    and q': "q' = (ms_q s)\<lparr>mq_slots := (mq_slots (ms_q s))[n mod length (mq_slots (ms_q s)) := (r, x)]\<rparr>"
  shows "mq_shape q'" and "rdy q' n = r" and "dat q' n = x"
    and "\<And>j. length (ms_out s) \<le> j \<Longrightarrow> j < length (ms_out s) + unat (mq_capacity (ms_q s)) \<Longrightarrow> j \<noteq> n \<Longrightarrow>
      rdy q' j = rdy (ms_q s) j \<and> dat q' j = dat (ms_q s) j"
    and "mq_capacity q' = mq_capacity (ms_q s)" and "mq_head q' = mq_head (ms_q s)"
    and "mq_tail q' = mq_tail (ms_q s)"
proof -
  have sh: "mq_shape (ms_q s)" and le: "length (ms_log s) \<le> length (ms_out s) + unat (mq_capacity (ms_q s))"
    using ok by (simp_all add: mpsc_ok_def mpsc_counts_def)
  note w = slot_write[OF sh q']
  show "mq_shape q'" "rdy q' n = r" "dat q' n = x" by (fact w)+
  show "rdy q' j = rdy (ms_q s) j \<and> dat q' j = dat (ms_q s) j"
    if "length (ms_out s) \<le> j" "j < length (ms_out s) + unat (mq_capacity (ms_q s))" "j \<noteq> n" for j
    using w(4)[of "length (ms_out s)" j] n le that by simp
  show "mq_capacity q' = mq_capacity (ms_q s)" "mq_head q' = mq_head (ms_q s)" "mq_tail q' = mq_tail (ms_q s)"
    by (simp_all add: q')
qed

lemma mpsc_store_ok:
  assumes ok: "mpsc_ok s" and pc: "ms_p s i = M_reserved item h"
    and s': "s' = s\<lparr>ms_q := (ms_q s)\<lparr>mq_slots := (mq_slots (ms_q s))[slot_index (ms_q s) h :=
                     (fst (mq_slots (ms_q s) ! slot_index (ms_q s) h), item)]\<rparr>,
                  ms_p := (ms_p s)(i := M_stored item h)\<rparr>"
  shows "mpsc_ok s'"
proof -
  have c: "mpsc_counts s" and sl: "mpsc_slots_ok s" and co: "consumer_ok s"
    and pr: "\<And>i. producer_ok s (ms_p s i)"
    and ex: "\<And>i j n. holds (ms_p s i) = Some n \<Longrightarrow> holds (ms_p s j) = Some n \<Longrightarrow> i = j"
    using ok unfolding mpsc_ok_def by blast+
  have sh: "mq_shape (ms_q s)" using c by (simp add: mpsc_counts_def)
  have hold: "holds (ms_p s i) = Some (unat h)" by (simp add: pc)
  note w = holds_window[OF ok hold]
  have eq: "ms_q s' = (ms_q s)\<lparr>mq_slots := (mq_slots (ms_q s))[unat h mod length (mq_slots (ms_q s)) :=
      (rdy (ms_q s) (unat h), item)]\<rparr>" by (simp add: s' slot_index_mod[OF sh] rdy_def)
  have n: "length (ms_out s) \<le> unat h" "unat h < length (ms_log s)" using w by simp_all
  note o = mpsc_other_slots[OF ok n eq]
  have fields: "ms_log s' = ms_log s" "ms_out s' = ms_out s" "ms_c s' = ms_c s"
    "ms_p s' = (ms_p s)(i := M_stored item h)" by (simp_all add: s')
  have holds: "holds (ms_p s' j) = holds (ms_p s j)" for j using hold by (simp add: fields)
  have le: "length (ms_log s) \<le> length (ms_out s) + unat (mq_capacity (ms_q s))"
    using c by (simp add: mpsc_counts_def)
  have cl: "cleared s' = cleared s" by (simp add: cleared_def fields)
  have rd: "rdy (ms_q s') j = rdy (ms_q s) j"
    if "length (ms_out s) \<le> j" "j < length (ms_out s) + unat (mq_capacity (ms_q s))" for j
    using o(2) o(4)[OF that] by (cases "j = unat h") simp_all
  have da: "dat (ms_q s') j = dat (ms_q s) j"
    if "length (ms_out s) \<le> j" "j < length (ms_out s) + unat (mq_capacity (ms_q s))" "j \<noteq> unat h" for j
    using o(4)[OF that] by simp
  have "mpsc_counts s'" using c o(1,5,6,7) by (simp add: mpsc_counts_def fields)
  moreover have "mpsc_slots_ok s'"
    unfolding mpsc_slots_ok_def fields(1,2) holds cl o(5)
  proof (intro conjI allI impI)
    fix j assume j: "length (ms_out s) \<le> j \<and> j < length (ms_log s)"
    have rj: "rdy (ms_q s') j = rdy (ms_q s) j" using rd j le by simp
    show "rdy (ms_q s') j \<or> (\<exists>i. holds (ms_p s i) = Some j) \<or> j = length (ms_out s) \<and> cleared s"
      using sl j rj by (auto simp: mpsc_slots_ok_def)
    assume r: "rdy (ms_q s') j"
    then have ne: "j \<noteq> unat h" using rj w by auto
    show "dat (ms_q s') j = snd (ms_log s ! j)"
      using sl j r rj da[of j] ne le by (simp add: mpsc_slots_ok_def)
    show "holds (ms_p s k) \<noteq> Some j" for k using sl j r rj by (auto simp: mpsc_slots_ok_def)
  next
    fix j assume "length (ms_log s) \<le> j \<and> j < length (ms_out s) + unat (mq_capacity (ms_q s))"
    then show "\<not> rdy (ms_q s') j"
      using sl rd[of j] c by (auto simp: mpsc_slots_ok_def mpsc_counts_def)
  qed
  moreover have "consumer_ok s'"
    using co rd[of "length (ms_out s)"] le n
    unfolding consumer_ok_def fields(1-3) holds Let_def by (auto split: mpsc_cpc.splits)
  moreover have "producer_ok s' (ms_p s' j)" for j
  proof (cases "j = i")
    case True
    then show ?thesis using pr[of i] w o(2,3) by (auto simp: fields producer_ok_def pc)
  next
    case False
    then have ne: "holds (ms_p s j) \<noteq> Some (unat h)" using ex[OF hold] by blast
    show ?thesis
      using pr[of j] False rd da ne le by (auto simp: fields producer_ok_def split: mpsc_pc.splits)
  qed
  ultimately show ?thesis using ex unfolding mpsc_ok_def holds by blast
qed

lemma mpsc_publish_ok:
  assumes ok: "mpsc_ok s" and pc: "ms_p s i = M_stored item h"
    and s': "s' = s\<lparr>ms_q := (ms_q s)\<lparr>mq_slots := (mq_slots (ms_q s))[slot_index (ms_q s) h :=
                     (True, snd (mq_slots (ms_q s) ! slot_index (ms_q s) h))]\<rparr>,
                  ms_p := (ms_p s)(i := M_idle)\<rparr>"
  shows "mpsc_ok s'"
proof -
  have c: "mpsc_counts s" and sl: "mpsc_slots_ok s" and co: "consumer_ok s"
    and pr: "\<And>i. producer_ok s (ms_p s i)"
    and ex: "\<And>i j n. holds (ms_p s i) = Some n \<Longrightarrow> holds (ms_p s j) = Some n \<Longrightarrow> i = j"
    using ok unfolding mpsc_ok_def by blast+
  have sh: "mq_shape (ms_q s)" using c by (simp add: mpsc_counts_def)
  have hold: "holds (ms_p s i) = Some (unat h)" by (simp add: pc)
  note w = holds_window[OF ok hold]
  have item: "dat (ms_q s) (unat h) = snd (ms_log s ! unat h)"
    using pr[of i] by (simp add: pc producer_ok_def)
  have eq: "ms_q s' = (ms_q s)\<lparr>mq_slots := (mq_slots (ms_q s))[unat h mod length (mq_slots (ms_q s)) :=
      (True, dat (ms_q s) (unat h))]\<rparr>" by (simp add: s' slot_index_mod[OF sh] dat_def)
  have n: "length (ms_out s) \<le> unat h" "unat h < length (ms_log s)" using w by simp_all
  note o = mpsc_other_slots[OF ok n eq]
  have fields: "ms_log s' = ms_log s" "ms_out s' = ms_out s" "ms_c s' = ms_c s"
    "ms_p s' = (ms_p s)(i := M_idle)" by (simp_all add: s')
  have others: "holds (ms_p s j) \<noteq> Some (unat h)" if "j \<noteq> i" for j using ex[OF hold] that by blast
  have holds: "holds (ms_p s' j) = (if j = i then None else holds (ms_p s j))" for j by (simp add: fields)
  have le: "length (ms_log s) \<le> length (ms_out s) + unat (mq_capacity (ms_q s))"
    using c by (simp add: mpsc_counts_def)
  have cl: "cleared s' = cleared s" by (simp add: cleared_def fields)
  have "mpsc_counts s'" using c o(1,5,6,7) by (simp add: mpsc_counts_def fields)
  moreover have "mpsc_slots_ok s'"
    unfolding mpsc_slots_ok_def fields(1,2) holds cl o(5)
  proof (intro conjI allI impI)
    fix j assume j: "length (ms_out s) \<le> j \<and> j < length (ms_log s)"
    have sj: "rdy (ms_q s) j \<or> (\<exists>i. holds (ms_p s i) = Some j) \<or> j = length (ms_out s) \<and> cleared s"
      using sl j by (simp add: mpsc_slots_ok_def)
    show "rdy (ms_q s') j \<or> (\<exists>k. (if k = i then None else holds (ms_p s k)) = Some j) \<or>
        j = length (ms_out s) \<and> cleared s"
    proof (cases "j = unat h")
      case False
      then have "rdy (ms_q s') j = rdy (ms_q s) j" using o(4)[of j] j le by simp
      moreover have "k \<noteq> i" if "holds (ms_p s k) = Some j" for k using that hold False by auto
      ultimately show ?thesis using sj by (metis (full_types))
    qed (simp add: o(2))
    assume r: "rdy (ms_q s') j"
    show "dat (ms_q s') j = snd (ms_log s ! j)"
      using sl j r item o(2,3) o(4)[of j] le by (cases "j = unat h") (simp_all add: mpsc_slots_ok_def)
    show "(if k = i then None else holds (ms_p s k)) \<noteq> Some j" for k
      using sl j r others[of k] o(4)[of j] le by (cases "j = unat h") (auto simp: mpsc_slots_ok_def)
  next
    fix j assume j: "length (ms_log s) \<le> j \<and> j < length (ms_out s) + unat (mq_capacity (ms_q s))"
    then have "j \<noteq> unat h" using n by simp
    with j sl o(4)[of j] n show "\<not> rdy (ms_q s') j" by (auto simp: mpsc_slots_ok_def)
  qed
  moreover have "consumer_ok s'"
  proof -
    have "rdy (ms_q s') (length (ms_out s)) = rdy (ms_q s) (length (ms_out s))"
      if "length (ms_out s) \<noteq> unat h" using o(4)[of "length (ms_out s)"] that n le by simp
    then show ?thesis
      using co hold w others unfolding consumer_ok_def fields(1-3) holds Let_def
      by (cases "length (ms_out s) = unat h") (auto split: mpsc_cpc.splits)
  qed
  moreover have "producer_ok s' (ms_p s' j)" for j
  proof (cases "j = i")
    case True
    then show ?thesis by (simp add: fields producer_ok_def)
  next
    case False
    then show ?thesis
      using pr[of j] others[OF False] o(4) le by (auto simp: fields producer_ok_def split: mpsc_pc.splits)
  qed
  moreover have "a = b" if "holds (ms_p s' a) = Some m" "holds (ms_p s' b) = Some m" for a b m
    using that ex[of a m b] by (simp add: holds split: if_splits)
  ultimately show ?thesis unfolding mpsc_ok_def by blast
qed


lemma mpsc_clear_ok:
  assumes ok: "mpsc_ok s" and pc: "ms_c s = MC_item item"
    and s': "s' = s\<lparr>ms_q := (ms_q s)\<lparr>mq_slots := (mq_slots (ms_q s))[slot_index (ms_q s) (mq_tail (ms_q s)) :=
                     (False, snd (mq_slots (ms_q s) ! slot_index (ms_q s) (mq_tail (ms_q s))))]\<rparr>,
                  ms_c := MC_cleared item\<rparr>"
  shows "mpsc_ok s'"
proof -
  have c: "mpsc_counts s" and sl: "mpsc_slots_ok s" and co: "consumer_ok s"
    and pr: "\<And>i. producer_ok s (ms_p s i)"
    and ex: "\<And>i j n. holds (ms_p s i) = Some n \<Longrightarrow> holds (ms_p s j) = Some n \<Longrightarrow> i = j"
    using ok unfolding mpsc_ok_def by blast+
  have sh: "mq_shape (ms_q s)" using c by (simp add: mpsc_counts_def)
  let ?n = "length (ms_out s)"
  have w: "?n < length (ms_log s)" "rdy (ms_q s) ?n" "item = snd (ms_log s ! ?n)"
    using co by (auto simp: consumer_ok_def pc Let_def)
  then have free: "holds (ms_p s i) \<noteq> Some ?n" for i using sl by (simp add: mpsc_slots_ok_def)
  have tail: "unat (mq_tail (ms_q s)) = ?n" using c by (simp add: mpsc_counts_def)
  have eq: "ms_q s' = (ms_q s)\<lparr>mq_slots := (mq_slots (ms_q s))[?n mod length (mq_slots (ms_q s)) :=
      (False, dat (ms_q s) ?n)]\<rparr>" by (simp add: s' slot_index_mod[OF sh] dat_def tail)
  note o = mpsc_other_slots[OF ok order_refl w(1) eq]
  have fields: "ms_log s' = ms_log s" "ms_out s' = ms_out s" "ms_c s' = MC_cleared item" "ms_p s' = ms_p s"
    by (simp_all add: s')
  have le: "length (ms_log s) \<le> ?n + unat (mq_capacity (ms_q s))" using c by (simp add: mpsc_counts_def)
  have "mpsc_counts s'" using c o(1,5,6,7) by (simp add: mpsc_counts_def fields)
  moreover have "mpsc_slots_ok s'"
    unfolding mpsc_slots_ok_def fields o(5)
  proof (intro conjI allI impI)
    fix j assume j: "?n \<le> j \<and> j < length (ms_log s)"
    have cl: "cleared s'" "\<not> cleared s" by (simp_all add: cleared_def fields pc)
    show "rdy (ms_q s') j \<or> (\<exists>i. holds (ms_p s i) = Some j) \<or> j = ?n \<and> cleared s'"
      using sl j o(4)[of j] le cl by (cases "j = ?n") (auto simp: mpsc_slots_ok_def)
    assume r: "rdy (ms_q s') j"
    then have "j \<noteq> ?n" using o(2) by auto
    then have same: "rdy (ms_q s') j = rdy (ms_q s) j" "dat (ms_q s') j = dat (ms_q s) j"
      using o(4)[of j] j le by simp_all
    show "dat (ms_q s') j = snd (ms_log s ! j)" using sl j r same by (simp add: mpsc_slots_ok_def)
    show "holds (ms_p s k) \<noteq> Some j" for k using sl j r same by (auto simp: mpsc_slots_ok_def)
  next
    fix j assume j: "length (ms_log s) \<le> j \<and> j < ?n + unat (mq_capacity (ms_q s))"
    with w(1) have "j \<noteq> ?n" by simp
    with j sl o(4)[of j] w(1) show "\<not> rdy (ms_q s') j" by (auto simp: mpsc_slots_ok_def)
  qed
  moreover have "consumer_ok s'" using w o(2) free by (simp add: consumer_ok_def fields)
  moreover have "producer_ok s' (ms_p s' j)" for j
    using pr[of j] free[of j] o(4) le by (auto simp: fields producer_ok_def split: mpsc_pc.splits)
  ultimately show ?thesis using ex unfolding mpsc_ok_def fields(4) by blast
qed

lemma mpsc_release_ok:
  assumes ok: "mpsc_ok s" and pc: "ms_c s = MC_cleared item"
    and s': "s' = s\<lparr>ms_q := (ms_q s)\<lparr>mq_tail := mq_tail (ms_q s) + 1\<rparr>, ms_c := MC_idle,
                  ms_out := ms_out s @ [item]\<rparr>"
  shows "mpsc_ok s'"
proof -
  have c: "mpsc_counts s" and sl: "mpsc_slots_ok s" and co: "consumer_ok s"
    and pr: "\<And>i. producer_ok s (ms_p s i)"
    and ex: "\<And>i j n. holds (ms_p s i) = Some n \<Longrightarrow> holds (ms_p s j) = Some n \<Longrightarrow> i = j"
    using ok unfolding mpsc_ok_def by blast+
  let ?n = "length (ms_out s)" and ?K = "unat (mq_capacity (ms_q s))"
  have w: "?n < length (ms_log s)" "\<not> rdy (ms_q s) ?n" "item = snd (ms_log s ! ?n)"
    and free: "\<And>i. holds (ms_p s i) \<noteq> Some ?n" using co by (auto simp: consumer_ok_def pc Let_def)
  have fields: "ms_log s' = ms_log s" "ms_out s' = ms_out s @ [item]" "ms_c s' = MC_idle"
    "ms_p s' = ms_p s" "mq_capacity (ms_q s') = mq_capacity (ms_q s)" "mq_head (ms_q s') = mq_head (ms_q s)"
    "mq_shape (ms_q s') = mq_shape (ms_q s)" by (simp_all add: s' mq_shape_def)
  have rd: "rdy (ms_q s') = rdy (ms_q s)" "dat (ms_q s') = dat (ms_q s)"
    by (rule ext, simp add: s' rdy_def dat_def)+
  have "Suc ?n < 2 ^ 64 \<or> Suc ?n = 2 ^ 64"
    using w(1) c unat_u64_less[of "mq_head (ms_q s)"] by (auto simp: mpsc_counts_def)
  moreover have "Suc ?n \<le> unat (mq_head (ms_q s))" using w(1) c by (simp add: mpsc_counts_def)
  ultimately have "unat (mq_tail (ms_q s) + 1) = Suc ?n"
    using c unat_u64_less[of "mq_head (ms_q s)"] by (auto simp: mpsc_counts_def unat_add_small)
  then have tl: "unat (mq_tail (ms_q s')) = Suc ?n" by (simp add: s')
  have wrap: "rdy (ms_q s) (?n + ?K) = rdy (ms_q s) ?n"
    using c by (simp add: rdy_def mpsc_counts_def mq_shape_def)
  have "mpsc_counts s'"
    using c w(1,3) tl by (simp add: mpsc_counts_def fields take_Suc_conv_app_nth)
  moreover have "mpsc_slots_ok s'"
    unfolding mpsc_slots_ok_def fields rd
  proof (intro conjI allI impI)
    fix j assume j: "length (ms_out s @ [item]) \<le> j \<and> j < length (ms_log s)"
    then have j': "?n \<le> j \<and> j < length (ms_log s)" "j \<noteq> ?n" by simp_all
    show "rdy (ms_q s) j \<or> (\<exists>i. holds (ms_p s i) = Some j) \<or> j = length (ms_out s @ [item]) \<and> cleared s'"
      using sl j' by (auto simp: mpsc_slots_ok_def)
    assume r: "rdy (ms_q s) j"
    show "dat (ms_q s) j = snd (ms_log s ! j)" using sl j' r by (simp add: mpsc_slots_ok_def)
    show "holds (ms_p s k) \<noteq> Some j" for k using sl j' r by (auto simp: mpsc_slots_ok_def)
  next
    fix j assume j: "length (ms_log s) \<le> j \<and> j < length (ms_out s @ [item]) + ?K"
    then show "\<not> rdy (ms_q s) j"
      using sl wrap w(2) by (cases "j = ?n + ?K") (auto simp: mpsc_slots_ok_def)
  qed
  moreover have "consumer_ok s'" by (simp add: consumer_ok_def fields)
  moreover have "producer_ok s' (ms_p s' j)" for j
    using pr[of j] free[of j]
    by (auto simp: fields producer_ok_def rd le_less_Suc_eq Suc_le_eq order_less_le split: mpsc_pc.splits)
  ultimately show ?thesis using ex unfolding mpsc_ok_def fields(4) by blast
qed

lemma mpsc_step_ok:
  assumes "mpsc_step s s'" and "mpsc_ok s" and "length (ms_log s') < 2 ^ 64"
  shows "mpsc_ok s'"
  using assms
proof (induction rule: mpsc_step.induct)
  case (load_head s i item)
  then show ?case
    by (intro mpsc_ok_producer) (auto simp: producer_ok_def mpsc_ok_def mpsc_counts_def)
next
  case (load_tail s i item h)
  then have "producer_ok s (M_head item h)" by (metis mpsc_ok_def)
  with load_tail show ?case
    by (intro mpsc_ok_producer) (auto simp: producer_ok_def mpsc_ok_def mpsc_counts_def)
next
  case (full s i item h t)
  then show ?case by (intro mpsc_ok_producer) (auto simp: producer_ok_def)
next
  case (cas_ok s i item h t)
  then show ?case by (intro mpsc_cas_ok[OF cas_ok(4,1,2,3)]) simp_all
next
  case (cas_fail s i item h t)
  then show ?case
    by (intro mpsc_ok_producer) (auto simp: producer_ok_def mpsc_ok_def mpsc_counts_def)
next
  case (store s i item h q n)
  then show ?case by (intro mpsc_store_ok[OF store(4,1)]) simp
next
  case (publish s i item h q n)
  then show ?case by (intro mpsc_publish_ok[OF publish(4,1)]) simp
next
  case (c_ready s q)
  have c: "mpsc_counts s" "mpsc_slots_ok s" using c_ready(4) by (simp_all add: mpsc_ok_def)
  then have "rdy (ms_q s) (length (ms_out s))"
    using c_ready(2,3) by (simp add: rdy_def slot_index_mod mpsc_counts_def)
  moreover have "length (ms_out s) < length (ms_log s)"
  proof (rule ccontr)
    assume "\<not> ?thesis"
    moreover have "0 < unat (mq_capacity (ms_q s))" using c(1) by (auto simp: mpsc_counts_def mq_shape_def)
    ultimately show False
      using c(2) \<open>rdy (ms_q s) (length (ms_out s))\<close> by (auto simp: mpsc_slots_ok_def)
  qed
  ultimately show ?case
    using c_ready by (intro mpsc_ok_consumer) (auto simp: cleared_def consumer_ok_def)
next
  case (c_read s q)
  have c: "mpsc_counts s" "mpsc_slots_ok s" "consumer_ok s" using c_read(3) by (simp_all add: mpsc_ok_def)
  then have r: "rdy (ms_q s) (length (ms_out s))" "length (ms_out s) < length (ms_log s)"
    using c_read(1) by (simp_all add: consumer_ok_def Let_def)
  then have "dat (ms_q s) (length (ms_out s)) = snd (ms_log s ! length (ms_out s))"
    using c(2) by (simp add: mpsc_slots_ok_def)
  then have "snd (mq_slots q ! slot_index q (mq_tail q)) = snd (ms_log s ! length (ms_out s))"
    using c(1) c_read(2) by (simp add: dat_def slot_index_mod mpsc_counts_def)
  with c_read r show ?case by (intro mpsc_ok_consumer) (auto simp: cleared_def consumer_ok_def)
next
  case (c_clear s item q n)
  then show ?case by (intro mpsc_clear_ok[OF c_clear(4,1)]) simp
next
  case (c_release s item q)
  then show ?case by (intro mpsc_release_ok[OF c_release(3,1)]) simp
qed


lemma mpsc_log_mono: "mpsc_step s s' \<Longrightarrow> length (ms_log s) \<le> length (ms_log s')"
  by (induction rule: mpsc_step.induct) simp_all

lemma MpscQueue_new_props:
  assumes "MpscQueue_new init capacity = Inr q"
  shows "mq_shape q" and "mq_head q = 0" and "mq_tail q = 0"
    and "mq_slots q = replicate (unat (mq_capacity q)) (False, init)" and "capacity \<le> mq_capacity q"
proof -
  let ?v = "if capacity < 1 then 1 else capacity :: u64"
  from assms have nz: "next_power_of_2 ?v \<noteq> 0"
    and q: "q = \<lparr>mq_head = 0, mq_capacity = next_power_of_2 ?v, mq_mask = next_power_of_2 ?v - 1,
       mq_slots = replicate (unat (next_power_of_2 ?v)) (False, init), mq_tail = 0\<rparr>"
    by (auto simp: MpscQueue_new_def Let_def split: if_splits)
  obtain k where k: "k < 64" "next_power_of_2 ?v = 2 ^ k" "unat ?v \<le> 2 ^ k"
    using next_power_of_2_pow2[OF nz] by blast
  show "mq_shape q" using k by (auto simp: q mq_shape_def)
  show "mq_head q = 0" "mq_tail q = 0" "mq_slots q = replicate (unat (mq_capacity q)) (False, init)"
    by (simp_all add: q)
  have "unat capacity \<le> unat ?v" by (simp add: word_less_nat_alt)
  with k show "capacity \<le> mq_capacity q" by (simp add: q word_le_nat_alt)
qed

lemma mpsc_reachable_ok:
  "mpsc_reachable init capacity s \<Longrightarrow> length (ms_log s) < 2 ^ 64 \<Longrightarrow> mpsc_ok s"
proof (induction rule: mpsc_reachable.induct)
  case (start q)
  note new = MpscQueue_new_props[OF start(1)]
  have "\<not> rdy q j" for j
    using mq_len_pos[OF new(1)] by (simp add: rdy_def new(4))
  then show ?case
    using new by (simp add: mpsc_ok_def mpsc_counts_def mpsc_slots_ok_def consumer_ok_def producer_ok_def)
next
  case (step s s')
  then have "length (ms_log s) < 2 ^ 64" using mpsc_log_mono[OF step(2)] by simp
  with step show ?case using mpsc_step_ok by blast
qed

section \<open>One call at a time\<close>

definition mq_inv :: "nat \<Rightarrow> 'a MpscQueue \<Rightarrow> bool" where
  "mq_inv n q \<longleftrightarrow> mq_shape q \<and> unat (mq_head q - mq_tail q) \<le> unat (mq_capacity q) \<and>
     (\<forall>i<unat (mq_capacity q). rdy q (unat (mq_tail q) + i) \<longleftrightarrow> i < unat (mq_head q - mq_tail q))"

definition mq_items :: "'a MpscQueue \<Rightarrow> 'a list" where
  "mq_items q = map (\<lambda>i. dat q (unat (mq_tail q) + i)) [0..<unat (mq_head q - mq_tail q)]"

definition mpsc_enq :: "nat \<Rightarrow> 'a \<Rightarrow> 'a MpscQueue \<Rightarrow> bool \<times> 'a MpscQueue" where
  "mpsc_enq n x q = (let (r, q') = mpsc_enqueue n x q in (r = Inr (), q'))"

lemma mpsc_enqueue_spurious: "mpsc_enqueue n x q = mpsc_enqueue 0 x q"
  by (induction n) simp_all

lemma mpsc_head_index:
  assumes "mq_shape q"
  shows "slot_index q (mq_head q) =
    (unat (mq_tail q) + unat (mq_head q - mq_tail q)) mod length (mq_slots q)"
proof -
  obtain k where k: "k < 64" "length (mq_slots q) = 2 ^ k" using assms by (auto simp: mq_shape_def)
  have "unat (mq_tail q + (mq_head q - mq_tail q)) mod 2 ^ k =
      (unat (mq_tail q) + unat (mq_head q - mq_tail q)) mod 2 ^ k"
    using k(1) by (intro unat_add_mod_power2) simp
  then show ?thesis by (simp add: slot_index_mod[OF assms] k(2))
qed

lemma mpsc_enq_room:
  assumes inv: "mq_inv n q" and room: "length (mq_items q) < unat (mq_capacity q)"
    and enq: "mpsc_enq m x q = (ok, q')"
  shows "ok \<and> mq_inv n' q' \<and> mq_items q' = mq_items q @ [x] \<and> unat (mq_capacity q') = unat (mq_capacity q)"
proof -
  have sh: "mq_shape q" and rd: "\<And>i. i < unat (mq_capacity q) \<Longrightarrow>
      rdy q (unat (mq_tail q) + i) \<longleftrightarrow> i < unat (mq_head q - mq_tail q)"
    using inv by (simp_all add: mq_inv_def)
  let ?c = "unat (mq_head q - mq_tail q)" and ?t = "unat (mq_tail q)"
  have c: "?c < unat (mq_capacity q)" using room by (simp add: mq_items_def)
  then have "\<not> mq_capacity q \<le> mq_head q - mq_tail q" by (simp add: word_le_nat_alt)
  moreover note idx = mpsc_head_index[OF sh, unfolded slot_index_def]
  ultimately have res: "ok" "q' = q\<lparr>mq_head := mq_head q + 1,
      mq_slots := (mq_slots q)[(?t + ?c) mod length (mq_slots q) := (True, x)]\<rparr>"
    using enq by (auto simp: mpsc_enq_def mpsc_enqueue_spurious[of m] idx split: prod.splits)
  let ?q1 = "q\<lparr>mq_slots := (mq_slots q)[(?t + ?c) mod length (mq_slots q) := (True, x)]\<rparr>"
  note w = slot_write[OF sh, of ?q1 "?t + ?c" True x, OF refl]
  have same: "rdy q' = rdy ?q1" "dat q' = dat ?q1" by (rule ext, simp add: res(2) rdy_def dat_def)+
  have c': "unat (mq_head q' - mq_tail q') = Suc ?c"
  proof -
    have "mq_head q' - mq_tail q' = (mq_head q - mq_tail q) + 1" by (simp add: res(2))
    then show ?thesis using c unat_u64_less[of "mq_capacity q"] by (simp add: unat_add_small)
  qed
  have keep: "rdy q' (?t + i) = rdy q (?t + i) \<and> dat q' (?t + i) = dat q (?t + i)"
    if "i < unat (mq_capacity q)" "i \<noteq> ?c" for i
    using w(4)[of ?t "?t + i"] c that unfolding same by simp
  have t': "unat (mq_tail q') = ?t" "mq_capacity q' = mq_capacity q" by (simp_all add: res(2))
  have "mq_items q' = map (\<lambda>i. dat q' (?t + i)) [0..<?c] @ [dat q' (?t + ?c)]"
    by (simp add: mq_items_def c' t')
  also have "map (\<lambda>i. dat q' (?t + i)) [0..<?c] = mq_items q"
    using keep c by (auto simp: mq_items_def intro!: map_cong)
  also have "dat q' (?t + ?c) = x" using w(3) unfolding same .
  finally have "mq_items q' = mq_items q @ [x]" .
  moreover have "rdy q' (?t + i) \<longleftrightarrow> i < Suc ?c" if "i < unat (mq_capacity q)" for i
    using keep[OF that] rd[OF that] w(2) unfolding same by (cases "i = ?c") auto
  then have "mq_inv n' q'" using w(1) c' c by (simp add: mq_inv_def t' mq_shape_def res(2))
  ultimately show ?thesis using res(1) t' by simp
qed

lemma mpsc_dequeue_item:
  assumes inv: "mq_inv n q" and items: "mq_items q = x # xs" and deq: "mpsc_dequeue q = (r, q')"
  shows "r = Some x \<and> mq_inv n' q' \<and> mq_items q' = xs \<and> unat (mq_capacity q') = unat (mq_capacity q)"
proof -
  have sh: "mq_shape q" and le: "unat (mq_head q - mq_tail q) \<le> unat (mq_capacity q)"
    and rd: "\<And>i. i < unat (mq_capacity q) \<Longrightarrow> rdy q (unat (mq_tail q) + i) \<longleftrightarrow> i < unat (mq_head q - mq_tail q)"
    using inv by (simp_all add: mq_inv_def)
  let ?c = "unat (mq_head q - mq_tail q)" and ?t = "unat (mq_tail q)" and ?K = "unat (mq_capacity q)"
  have c: "0 < ?c" using items by (cases "?c") (simp_all add: mq_items_def)
  have idx: "unat (mq_tail q AND mq_mask q) = ?t mod length (mq_slots q)"
    using slot_index_mod[OF sh, of "mq_tail q"] by (simp add: slot_index_def)
  have "rdy q ?t" using rd[of 0] c le by simp
  then have res: "r = Some (dat q ?t)" "q' = q\<lparr>mq_slots := (mq_slots q)[?t mod length (mq_slots q) :=
      (False, dat q ?t)], mq_tail := mq_tail q + 1\<rparr>"
    using deq by (auto simp: mpsc_dequeue_def idx rdy_def dat_def Let_def)
  let ?q1 = "q\<lparr>mq_slots := (mq_slots q)[?t mod length (mq_slots q) := (False, dat q ?t)]\<rparr>"
  note w = slot_write[OF sh, of ?q1 ?t False "dat q ?t", OF refl]
  have same: "rdy q' = rdy ?q1" "dat q' = dat ?q1" by (rule ext, simp add: res(2) rdy_def dat_def)+
  obtain k where k: "k < 64" "length (mq_slots q) = 2 ^ k" using sh by (auto simp: mq_shape_def)
  have len': "length (mq_slots q') = length (mq_slots q)" by (simp add: res(2))
  have shift: "rdy q' (unat (mq_tail q') + i) = rdy q' (?t + Suc i) \<and>
      dat q' (unat (mq_tail q') + i) = dat q' (?t + Suc i)" for i
  proof -
    have "unat (mq_tail q + 1) mod 2 ^ k = (?t + 1) mod 2 ^ k"
      using unat_add_mod_power2[of k "mq_tail q" 1] k(1) by simp
    then have "(unat (mq_tail q + 1) + i) mod 2 ^ k = (?t + Suc i) mod 2 ^ k"
      by (metis add.assoc mod_add_left_eq plus_1_eq_Suc)
    then show ?thesis by (simp add: rdy_def dat_def len' k(2) res(2))
  qed
  have c': "unat (mq_head q' - mq_tail q') = ?c - 1"
  proof -
    have "mq_head q' - mq_tail q' = (mq_head q - mq_tail q) - 1" by (simp add: res(2))
    then show ?thesis using c unat_diff_le[of 1 "mq_head q - mq_tail q"] by simp
  qed
  have keep: "rdy q' (?t + Suc i) = rdy q (?t + Suc i) \<and> dat q' (?t + Suc i) = dat q (?t + Suc i)"
    if "Suc i < ?K" for i
    using w(4)[of ?t "?t + Suc i"] that unfolding same by simp
  have "mq_items q = dat q ?t # map (\<lambda>i. dat q (?t + Suc i)) [0..<?c - 1]"
    using c by (cases ?c) (simp_all add: mq_items_def map_Suc_upt[symmetric] upt_conv_Cons del: upt_Suc)
  also have "map (\<lambda>i. dat q (?t + Suc i)) [0..<?c - 1] = mq_items q'"
    using keep le by (auto simp: mq_items_def shift c' intro!: map_cong)
  finally have "mq_items q = dat q ?t # mq_items q'" .
  moreover have "rdy q' (unat (mq_tail q') + i) \<longleftrightarrow> i < ?c - 1" if "i < ?K" for i
  proof (cases "Suc i < ?K")
    case True
    then show ?thesis using shift[of i] keep[OF True] rd[OF True] by auto
  next
    case False
    then have "Suc i = ?K" using that by simp
    then have "rdy q' (unat (mq_tail q') + i) = rdy q' (?t + ?K)" using shift[of i] by simp
    also have "\<dots> = rdy q' ?t" using sh by (simp add: rdy_def len' mq_shape_def)
    also have "\<dots> = False" using w(2) unfolding same .
    finally show ?thesis using \<open>Suc i = ?K\<close> le by auto
  qed
  then have "mq_inv n' q'" using w(1) c' le by (simp add: mq_inv_def mq_shape_def res(2))
  ultimately show ?thesis using res items by simp
qed

interpretation mpsc: bounded_fifo "mpsc_enq m" mpsc_dequeue mq_inv mq_items "\<lambda>q. unat (mq_capacity q)"
  for m
proof
  fix n and q :: "'a MpscQueue" and x ok q'
  assume inv: "mq_inv (Suc n) q"
  show "length (mq_items q) < unat (mq_capacity q) \<Longrightarrow> mpsc_enq m x q = (ok, q') \<Longrightarrow>
      ok \<and> mq_inv n q' \<and> mq_items q' = mq_items q @ [x] \<and> unat (mq_capacity q') = unat (mq_capacity q)"
    using mpsc_enq_room[OF inv, of m x ok q' n] by blast
  show "unat (mq_capacity q) \<le> length (mq_items q) \<Longrightarrow> mpsc_enq m x q = (False, q)"
    by (simp add: mpsc_enq_def mpsc_enqueue_spurious[of m] mq_items_def word_le_nat_alt)
  show "mpsc_dequeue q = (None, q)" if e: "mq_items q = []"
  proof -
    have sh: "mq_shape q" using inv by (simp add: mq_inv_def)
    have "unat (mq_head q - mq_tail q) = 0" using e by (cases "unat (mq_head q - mq_tail q)") (simp_all add: mq_items_def)
    moreover have "0 < unat (mq_capacity q)" using sh by (auto simp: mq_shape_def)
    ultimately have "\<not> rdy q (unat (mq_tail q))" using inv by (metis add.right_neutral less_not_refl mq_inv_def)
    then show ?thesis
      using slot_index_mod[OF sh, of "mq_tail q"] by (simp add: mpsc_dequeue_def rdy_def slot_index_def Let_def)
  qed
  show "mq_inv n q" using inv by (simp add: mq_inv_def)
next
  fix n and q :: "'a MpscQueue" and x xs r q'
  assume "mq_inv (Suc n) q" "mq_items q = x # xs" "mpsc_dequeue q = (r, q')"
  then show "r = Some x \<and> mq_inv n q' \<and> mq_items q' = xs \<and> unat (mq_capacity q') = unat (mq_capacity q)"
    using mpsc_dequeue_item[of "Suc n" q x xs r q' n] by blast
next
  fix n and q :: "'a MpscQueue" assume "mq_inv n q"
  then show "length (mq_items q) \<le> unat (mq_capacity q)" by (simp add: mq_inv_def mq_items_def)
qed


text \<open>
  C10: However the producers and the consumer interleave, the items that come out are the
  items whose reservation succeeded, in reservation order and without loss or duplication;
  never more than the capacity is reserved; no two producers hold the same slot, and the slot
  the consumer works on is held by none. When nobody is inside a call, every item still in
  the queue is ready to be dequeued.
\<close>

theorem mpsc_interleaving_safe:
  assumes "mpsc_reachable init capacity s" and "length (ms_log s) < 2 ^ 64"
  shows "ms_out s = map snd (take (length (ms_out s)) (ms_log s)) \<and>
    length (ms_log s) - length (ms_out s) \<le> unat (mq_capacity (ms_q s)) \<and>
    (\<forall>i j n m. i \<noteq> j \<and> holds (ms_p s i) = Some n \<and> holds (ms_p s j) = Some m \<longrightarrow>
       n mod unat (mq_capacity (ms_q s)) \<noteq> m mod unat (mq_capacity (ms_q s))) \<and>
    (\<forall>i n. ms_c s \<noteq> MC_idle \<and> holds (ms_p s i) = Some n \<longrightarrow>
       n mod unat (mq_capacity (ms_q s)) \<noteq> length (ms_out s) mod unat (mq_capacity (ms_q s))) \<and>
    ((\<forall>i. ms_p s i = M_idle) \<and> ms_c s = MC_idle \<longrightarrow>
       (\<forall>j. length (ms_out s) \<le> j \<and> j < length (ms_log s) \<longrightarrow>
          rdy (ms_q s) j \<and> dat (ms_q s) j = snd (ms_log s ! j)))"
proof (intro conjI allI impI)
  have ok: "mpsc_ok s" by (rule mpsc_reachable_ok[OF assms])
  let ?K = "unat (mq_capacity (ms_q s))" and ?O = "length (ms_out s)"
  have c: "mpsc_counts s" and sl: "mpsc_slots_ok s" using ok by (simp_all add: mpsc_ok_def)
  then have le: "length (ms_log s) \<le> ?O + ?K" by (simp add: mpsc_counts_def)
  show "ms_out s = map snd (take ?O (ms_log s))" using c by (simp add: mpsc_counts_def)
  show "length (ms_log s) - ?O \<le> ?K" using le by simp
  have apart: "a mod ?K \<noteq> b mod ?K" if "?O \<le> a" "a < b" "b < length (ms_log s)" for a b
    using ring_index_distinct[of a b ?K 0] that le by simp
  fix i n
  { fix j m assume a: "i \<noteq> j \<and> holds (ms_p s i) = Some n \<and> holds (ms_p s j) = Some m"
    then have "n \<noteq> m" using ok unfolding mpsc_ok_def by blast
    with a holds_window[OF ok, of i n] holds_window[OF ok, of j m] apart[of n m] apart[of m n]
    show "n mod ?K \<noteq> m mod ?K" by (metis linorder_neqE_nat) }
  { assume a: "ms_c s \<noteq> MC_idle \<and> holds (ms_p s i) = Some n"
    have "consumer_ok s" using ok by (simp add: mpsc_ok_def)
    then have "holds (ms_p s i) \<noteq> Some ?O"
      using a sl by (auto simp: consumer_ok_def mpsc_slots_ok_def Let_def split: mpsc_cpc.splits)
    with a holds_window[OF ok, of i n] apart[of ?O n] show "n mod ?K \<noteq> ?O mod ?K"
      by (metis order_refl order_le_imp_less_or_eq) }
next
  have ok: "mpsc_ok s" by (rule mpsc_reachable_ok[OF assms])
  then have sl: "mpsc_slots_ok s" by (simp add: mpsc_ok_def)
  fix j assume idle: "(\<forall>i. ms_p s i = M_idle) \<and> ms_c s = MC_idle"
    and j: "length (ms_out s) \<le> j \<and> j < length (ms_log s)"
  then show r: "rdy (ms_q s) j" using sl by (auto simp: mpsc_slots_ok_def cleared_def)
  then show "dat (ms_q s) j = snd (ms_log s ! j)" using sl j by (simp add: mpsc_slots_ok_def)
qed

theorem mpsc_interleaving_safe_witness:
  "\<exists>s. mpsc_reachable (0::nat) 2 s \<and> ms_log s = [(4, 9), (3, 8)] \<and> ms_out s = [] \<and>
     holds (ms_p s 4) = Some 0 \<and> holds (ms_p s 3) = Some 1 \<and>
     length (ms_log s) - length (ms_out s) \<le> unat (mq_capacity (ms_q s))"
proof -
  have "next_power_of_2 2 = 2" by code_simp
  then have new: "MpscQueue_new (0::nat) 2 = Inr \<lparr>mq_head = 0, mq_capacity = 2, mq_mask = 1,
      mq_slots = replicate 2 (False, 0), mq_tail = 0\<rparr>"
    by (simp add: MpscQueue_new_def)
  note r = mpsc_reachable.step
  note r0 = mpsc_reachable.start[OF new]
  note r1 = r[OF r0 load_head[of _ 3 8], simplified]
  note r2 = r[OF r1 load_tail[of _ 3 8 0], simplified]
  note r3 = r[OF r2 load_head[of _ 4 9], simplified]
  note r4 = r[OF r3 load_tail[of _ 4 9 0], simplified]
  note r5 = r[OF r4 cas_ok[of _ 4 9 0 0], simplified]
  note r6 = r[OF r5 cas_fail[of _ 3 8 0 0], simplified]
  note r7 = r[OF r6 load_tail[of _ 3 8 1], simplified]
  note r8 = r[OF r7 cas_ok[of _ 3 8 1 0], simplified word_le_nat_alt, simplified]
  from mpsc_interleaving_safe[OF r8] r8 show ?thesis
    by (intro exI conjI) (rule r8, simp_all)
qed

text \<open>
  Used by one thread at a time, the queue is first in, first out with refusal
  (\<open>BufferFull\<close>) exactly when full, for any number of operations (the 64-bit positions may
  wrap) and however often the exchange fails spuriously.
\<close>

theorem mpsc_queue_fifo:
  assumes "MpscQueue_new init capacity = Inr q"
    and "run (fifo_step (mpsc_enq m) mpsc_dequeue) ops q = (outs, q')"
  shows "outs = fst (run list_fifo_step ops (unat (mq_capacity q), [])) \<and>
    accepted ops outs = taken outs @ mq_items q' \<and> capacity \<le> mq_capacity q"
proof -
  note new = MpscQueue_new_props[OF assms(1)]
  have "\<not> rdy q j" for j using mq_len_pos[OF new(1)] by (simp add: rdy_def new(4))
  then have inv: "mq_inv (length ops) q" using new by (simp add: mq_inv_def)
  have e: "mq_items q = []" using new by (simp add: mq_items_def)
  from mpsc.refine.run_abs[OF inv, of m] assms(2)
  have "run list_fifo_step ops (unat (mq_capacity q), []) = (outs, (unat (mq_capacity q'), mq_items q'))"
    by (simp add: e)
  with mpsc.run_fifo[OF inv assms(2)] new(5) e show ?thesis by simp
qed

theorem mpsc_queue_fifo_witness:
  "\<exists>q outs q'. MpscQueue_new (0::nat) 1 = Inr q \<and>
     run (fifo_step (mpsc_enq 2) mpsc_dequeue) [Enq 7, Enq 8, Deq, Deq] q = (outs, q') \<and>
     outs = [Accepted True, Accepted False, Item (Some 7), Item None]"
proof -
  have "next_power_of_2 1 = 1" by code_simp
  then have new: "MpscQueue_new (0::nat) 1 = Inr \<lparr>mq_head = 0, mq_capacity = 1, mq_mask = 0,
      mq_slots = replicate 1 (False, 0), mq_tail = 0\<rparr>" (is "_ = Inr ?q")
    by (simp add: MpscQueue_new_def)
  let ?r = "run (fifo_step (mpsc_enq 2) mpsc_dequeue) [Enq 7, Enq 8, Deq, Deq] ?q"
  have run: "?r = (fst ?r, snd ?r)" by simp
  from mpsc_queue_fifo[OF new run]
  have "fst ?r = [Accepted True, Accepted False, Item (Some 7), Item None]" by simp
  with new run show ?thesis by metis
qed

end
