(* ===== verification/Session.thy ===== *)
theory Session
  imports Frame_Codec
begin

text \<open>
  \<open>apex_core/src/session.cpp\<close>: one client connection, its life cycle and its write queue. All
  of it runs on the thread of one core, so a coroutine is cut at its \<open>co_await\<close> points only:
  the write pump is its program counter, and each operation is one step. The socket is outside:
  the outcome of a write is part of the step that resumes the pump. A waiter of \<open>async_send\<close>
  is a number, with the result it is woken with; a completion timer never expires by itself.
\<close>

datatype SessionState = Connected | Active | Closed

record WriteRequest =
  wr_data :: bytes
  wr_completion :: "nat option"

record Session =
  s_id :: u64
  s_core_id :: u32
  s_refcount :: u32
  s_pool_owner :: "u64 option"
  s_state :: SessionState
  s_socket_open :: bool
  s_remote_ip :: string
  s_recv_buf :: RingBuffer
  s_timer_entry_id :: u64
  s_write_queue :: "WriteRequest list"
  s_pump_running :: bool
  s_max_queue_depth :: u64

definition Session_new :: "u64 \<Rightarrow> u32 \<Rightarrow> RingBuffer \<Rightarrow> u64 \<Rightarrow> Session" where
  "Session_new id' core_id recv_buf max_queue_depth =
     \<lparr>s_id = id', s_core_id = core_id, s_refcount = 0, s_pool_owner = None, s_state = Connected,
      s_socket_open = True, s_remote_ip = '''', s_recv_buf = recv_buf, s_timer_entry_id = 0,
      s_write_queue = [], s_pump_running = False, s_max_queue_depth = max_queue_depth\<rparr>"

definition is_open :: "Session \<Rightarrow> bool" where
  "is_open s \<longleftrightarrow> s_state s = Connected \<or> s_state s = Active"

definition set_state :: "SessionState \<Rightarrow> Session \<Rightarrow> Session" where
  "set_state st s = s\<lparr>s_state := st\<rparr>"

definition session_close :: "Session \<Rightarrow> Session" where
  "session_close s =
     (if s_state s = Closed then s else s\<lparr>s_state := Closed, s_socket_open := False\<rparr>)"

text \<open>The reference count of the intrusive pointer, and what the last release does.\<close>

datatype release_action = Keep | Pool_destroy u64 | Heap_delete

definition intrusive_ptr_add_ref :: "Session \<Rightarrow> Session" where
  "intrusive_ptr_add_ref s = s\<lparr>s_refcount := s_refcount s + 1\<rparr>"

definition intrusive_ptr_release :: "Session \<Rightarrow> release_action \<times> Session" where
  "intrusive_ptr_release s =
     (let prev = s_refcount s;
          s = s\<lparr>s_refcount := prev - 1\<rparr>
      in if prev = 1 then (case s_pool_owner s of Some p \<Rightarrow> Pool_destroy p | None \<Rightarrow> Heap_delete, s)
         else (Keep, s))"

section \<open>The write queue and the pump\<close>

text \<open>
  Where the pump coroutine is: not running, spawned and not yet started, or suspended in the
  write of a request.
\<close>

datatype pump = Pump_idle | Pump_spawned | Pump_writing WriteRequest

text \<open>
  The state around a session: its pump, the results the waiters were woken with, and two records
  of what happened: the requests accepted, and the requests handed to the socket, in order.
\<close>

record session_rt =
  rt_session :: Session
  rt_pump :: pump
  rt_results :: "nat \<Rightarrow> unit result option"
  rt_accepted :: "WriteRequest list"
  rt_written :: "WriteRequest list"

text \<open>The part \<open>enqueue_write\<close> and \<open>enqueue_and_await\<close> share: append, and start the pump.\<close>

definition push_request :: "WriteRequest \<Rightarrow> session_rt \<Rightarrow> session_rt" where
  "push_request req rt =
     (let s = rt_session rt;
          s' = s\<lparr>s_write_queue := s_write_queue s @ [req]\<rparr>;
          rt = rt\<lparr>rt_session := s', rt_accepted := rt_accepted rt @ [req]\<rparr>
      in if \<not> s_pump_running s'
         then rt\<lparr>rt_session := s'\<lparr>s_pump_running := True\<rparr>, rt_pump := Pump_spawned\<rparr>
         else rt)"

definition queue_full :: "Session \<Rightarrow> bool" where
  "queue_full s \<longleftrightarrow> s_max_queue_depth s \<le> of_nat (length (s_write_queue s))"

definition enqueue_write :: "bytes \<Rightarrow> session_rt \<Rightarrow> unit result \<times> session_rt" where
  "enqueue_write data rt =
     (if \<not> is_open (rt_session rt) then (Inl SessionClosed, rt)
      else if queue_full (rt_session rt) then (Inl BufferFull, rt)
      else (Inr (), push_request \<lparr>wr_data = data, wr_completion = None\<rparr> rt))"

definition enqueue_write_raw :: "bytes \<Rightarrow> session_rt \<Rightarrow> unit result \<times> session_rt" where
  "enqueue_write_raw data rt = (let copy = data in enqueue_write copy rt)"

text \<open>
  \<open>enqueue_and_await\<close> up to its \<open>co_await\<close>: either it returns an error at once, or the
  caller, as waiter \<open>k\<close>, is suspended (\<open>None\<close>) until the pump signals it.
\<close>

definition enqueue_and_await :: "nat \<Rightarrow> bytes \<Rightarrow> session_rt \<Rightarrow> unit result option \<times> session_rt" where
  "enqueue_and_await k data rt =
     (if queue_full (rt_session rt) then (Some (Inl BufferFull), rt)
      else (None, push_request \<lparr>wr_data = data, wr_completion = Some k\<rparr> rt))"

definition async_send :: "nat \<Rightarrow> WireHeader \<Rightarrow> bytes \<Rightarrow> session_rt \<Rightarrow> unit result option \<times> session_rt" where
  "async_send k hdr payload rt =
     (if \<not> is_open (rt_session rt) then (Some (Inl SessionClosed), rt)
      else enqueue_and_await k (WireHeader_serialize hdr @ payload) rt)"

definition async_send_raw :: "nat \<Rightarrow> bytes \<Rightarrow> session_rt \<Rightarrow> unit result option \<times> session_rt" where
  "async_send_raw k data rt =
     (if \<not> is_open (rt_session rt) then (Some (Inl SessionClosed), rt)
      else enqueue_and_await k data rt)"

text \<open>Storing a result and cancelling the completion timer of a request, if it has one.\<close>

definition signal :: "unit result \<Rightarrow> WriteRequest \<Rightarrow> (nat \<Rightarrow> unit result option) \<Rightarrow> (nat \<Rightarrow> unit result option)" where
  "signal r req res = (case wr_completion req of None \<Rightarrow> res | Some k \<Rightarrow> res(k \<mapsto> r))"

text \<open>The head of the loop of \<open>write_pump\<close>, up to the next \<open>co_await\<close> or the end.\<close>

definition pump_head :: "session_rt \<Rightarrow> session_rt" where
  "pump_head rt =
     (let s = rt_session rt in
      if s_write_queue s \<noteq> [] \<and> is_open s
      then rt\<lparr>rt_session := s\<lparr>s_write_queue := tl (s_write_queue s)\<rparr>,
              rt_pump := Pump_writing (hd (s_write_queue s)),
              rt_written := rt_written rt @ [hd (s_write_queue s)]\<rparr>
      else rt\<lparr>rt_session := s\<lparr>s_pump_running := False\<rparr>, rt_pump := Pump_idle\<rparr>)"

text \<open>The rest of the loop body, when the write of \<open>req\<close> has completed, with an error or not.\<close>

definition pump_resume :: "bool \<Rightarrow> WriteRequest \<Rightarrow> session_rt \<Rightarrow> session_rt" where
  "pump_resume ec req rt =
     (if ec
      then let res = signal (Inl SendFailed) req (rt_results rt);
               res = fold (signal (Inl SendFailed)) (s_write_queue (rt_session rt)) res;
               s = session_close ((rt_session rt)\<lparr>s_write_queue := []\<rparr>)
           in rt\<lparr>rt_results := res, rt_session := s\<lparr>s_pump_running := False\<rparr>, rt_pump := Pump_idle\<rparr>
      else pump_head (rt\<lparr>rt_results := signal (Inr ()) req (rt_results rt)\<rparr>))"

definition rt_close :: "session_rt \<Rightarrow> session_rt" where
  "rt_close rt = rt\<lparr>rt_session := session_close (rt_session rt)\<rparr>"

definition session_rt_new :: "Session \<Rightarrow> session_rt" where
  "session_rt_new s = \<lparr>rt_session = s, rt_pump = Pump_idle, rt_results = (\<lambda>k. None),
     rt_accepted = [], rt_written = []\<rparr>"

text \<open>The waiters of a list of requests, in order.\<close>

fun waiters :: "WriteRequest list \<Rightarrow> nat list" where
  "waiters [] = []"
| "waiters (r # rs) = (case wr_completion r of None \<Rightarrow> waiters rs | Some k \<Rightarrow> k # waiters rs)"

text \<open>Every interleaving of callers, the pump and the socket. A waiter number is used once.\<close>

inductive session_step :: "session_rt \<Rightarrow> session_rt \<Rightarrow> bool" where
  step_enqueue: "session_step rt (snd (enqueue_write data rt))"
| step_send: "k \<notin> set (waiters (rt_accepted rt)) \<Longrightarrow> session_step rt (snd (async_send k hdr payload rt))"
| step_send_raw: "k \<notin> set (waiters (rt_accepted rt)) \<Longrightarrow> session_step rt (snd (async_send_raw k data rt))"
| step_start: "rt_pump rt = Pump_spawned \<Longrightarrow> session_step rt (pump_head rt)"
| step_written: "rt_pump rt = Pump_writing req \<Longrightarrow> session_step rt (pump_resume ec req rt)"
| step_close: "session_step rt (rt_close rt)"

inductive session_run :: "session_rt \<Rightarrow> session_rt \<Rightarrow> bool" for rt0 where
  run_refl: "session_run rt0 rt0"
| run_step: "session_run rt0 rt \<Longrightarrow> session_step rt rt' \<Longrightarrow> session_run rt0 rt'"

section \<open>Invariant\<close>

text \<open>The request in the hands of the socket.\<close>

definition in_flight :: "pump \<Rightarrow> WriteRequest list" where
  "in_flight p = (case p of Pump_writing req \<Rightarrow> [req] | _ \<Rightarrow> [])"

text \<open>
  Order and completion, for the request \<open>cur\<close> in flight: the accepted requests are those
  finished (\<open>don\<close>), the one in flight, those queued and those dropped by a write error
  (\<open>lost\<close>, only once the session is closed); exactly the waiters of finished and dropped
  requests have a result, a success only for finished ones.
\<close>

definition order_inv :: "WriteRequest list \<Rightarrow> session_rt \<Rightarrow> bool" where
  "order_inv cur rt \<longleftrightarrow>
     distinct (waiters (rt_accepted rt)) \<and>
     length (s_write_queue (rt_session rt)) \<le> unat (s_max_queue_depth (rt_session rt)) \<and>
     (\<exists>don lost. rt_written rt = don @ cur \<and>
        rt_accepted rt = rt_written rt @ s_write_queue (rt_session rt) @ lost \<and>
        (lost \<noteq> [] \<longrightarrow> \<not> is_open (rt_session rt)) \<and>
        (\<forall>k. rt_results rt k \<noteq> None \<longleftrightarrow> k \<in> set (waiters (don @ lost))) \<and>
        (\<forall>k. rt_results rt k = Some (Inr ()) \<longrightarrow> k \<in> set (waiters don)))"

text \<open>The running flag says whether the pump exists, and no wake-up is lost: an open session
  with queued data has a pump.\<close>

definition rt_inv :: "session_rt \<Rightarrow> bool" where
  "rt_inv rt \<longleftrightarrow> order_inv (in_flight (rt_pump rt)) rt \<and>
     s_pump_running (rt_session rt) = (rt_pump rt \<noteq> Pump_idle) \<and>
     (is_open (rt_session rt) \<and> s_write_queue (rt_session rt) \<noteq> [] \<longrightarrow> rt_pump rt \<noteq> Pump_idle)"

lemma waiters_append [simp]: "waiters (xs @ ys) = waiters xs @ waiters ys"
  by (induction xs) (auto split: option.split)

lemma fold_signal:
  "fold (signal r) rs res k = (if k \<in> set (waiters rs) then Some r else res k)"
  by (induction rs arbitrary: res) (auto simp: signal_def split: option.split)

lemma is_open_iff: "is_open s \<longleftrightarrow> s_state s \<noteq> Closed"
  by (cases "s_state s") (auto simp: is_open_def)

lemma session_close_fields [simp]:
  "s_state (session_close s) = Closed" "s_write_queue (session_close s) = s_write_queue s"
  "s_max_queue_depth (session_close s) = s_max_queue_depth s"
  "s_pump_running (session_close s) = s_pump_running s" "\<not> is_open (session_close s)"
  by (auto simp: session_close_def is_open_iff)

lemma push_request_inv:
  assumes inv: "rt_inv rt" and "is_open (rt_session rt)" and "\<not> queue_full (rt_session rt)"
    and "\<forall>k. wr_completion req = Some k \<longrightarrow> k \<notin> set (waiters (rt_accepted rt))"
  shows "rt_inv (push_request req rt)"
proof -
  let ?s = "rt_session rt"
  have "length (s_write_queue ?s) < unat (s_max_queue_depth ?s)"
  proof -
    have "of_nat (length (s_write_queue ?s)) < s_max_queue_depth ?s" using assms(3) by (simp add: queue_full_def)
    moreover have "length (s_write_queue ?s) < 2 ^ 64"
      using inv unat_u64_less[of "s_max_queue_depth ?s"] unfolding rt_inv_def order_inv_def by linarith
    ultimately show ?thesis by (simp add: word_less_nat_alt unat_of_nat_small)
  qed
  moreover have "distinct (waiters (rt_accepted rt @ [req]))"
    using inv assms(4) unfolding rt_inv_def order_inv_def by (auto split: option.split)
  ultimately show ?thesis
    using inv assms(2) unfolding rt_inv_def order_inv_def
    by (auto simp: push_request_def Let_def is_open_def in_flight_def)
qed

lemma pump_head_inv:
  assumes "order_inv [] rt" and "s_pump_running (rt_session rt)"
  shows "rt_inv (pump_head rt)"
proof (cases "s_write_queue (rt_session rt) \<noteq> [] \<and> is_open (rt_session rt)")
  case True
  then obtain q qs where q: "s_write_queue (rt_session rt) = q # qs" by (cases "s_write_queue (rt_session rt)") auto
  then show ?thesis using assms True unfolding rt_inv_def order_inv_def
    by (auto simp: pump_head_def Let_def in_flight_def is_open_def q)
next
  case False
  then show ?thesis using assms unfolding rt_inv_def order_inv_def
    by (auto simp: pump_head_def Let_def in_flight_def is_open_def)
qed

lemma order_inv_done:
  assumes "order_inv [req] rt"
  shows "order_inv [] (rt\<lparr>rt_results := signal (Inr ()) req (rt_results rt)\<rparr>)"
proof -
  obtain don lost where "rt_written rt = don @ [req]"
      "rt_accepted rt = rt_written rt @ s_write_queue (rt_session rt) @ lost"
      "lost \<noteq> [] \<longrightarrow> \<not> is_open (rt_session rt)"
      "\<forall>k. rt_results rt k \<noteq> None \<longleftrightarrow> k \<in> set (waiters (don @ lost))"
      "\<forall>k. rt_results rt k = Some (Inr ()) \<longrightarrow> k \<in> set (waiters don)"
    using assms unfolding order_inv_def by blast
  then show ?thesis using assms unfolding order_inv_def
    by (intro conjI exI[of _ "don @ [req]"] exI[of _ lost]) (auto simp: signal_def split: option.splits)
qed

lemma pump_resume_inv:
  assumes inv: "rt_inv rt" and p: "rt_pump rt = Pump_writing req"
  shows "rt_inv (pump_resume ec req rt)"
proof (cases ec)
  case False
  have "order_inv [req] rt" using inv by (simp add: rt_inv_def p in_flight_def)
  moreover have "s_pump_running (rt_session rt)" using inv by (simp add: rt_inv_def p)
  ultimately show ?thesis using False order_inv_done pump_head_inv by (simp add: pump_resume_def)
next
  case True
  have "order_inv [req] rt" using inv by (simp add: rt_inv_def p in_flight_def)
  then obtain don lost where o: "rt_written rt = don @ [req]"
      "rt_accepted rt = rt_written rt @ s_write_queue (rt_session rt) @ lost"
      "\<forall>k. rt_results rt k \<noteq> None \<longleftrightarrow> k \<in> set (waiters (don @ lost))"
      "\<forall>k. rt_results rt k = Some (Inr ()) \<longrightarrow> k \<in> set (waiters don)"
      "distinct (waiters (rt_accepted rt))"
    unfolding order_inv_def by blast
  let ?rt = "pump_resume ec req rt" and ?q = "s_write_queue (rt_session rt)"
  have f: "rt_written ?rt = rt_written rt" "rt_accepted ?rt = rt_accepted rt" "rt_pump ?rt = Pump_idle"
      "s_write_queue (rt_session ?rt) = []" "\<not> is_open (rt_session ?rt)" "\<not> s_pump_running (rt_session ?rt)"
      "rt_results ?rt = fold (signal (Inl SendFailed)) ?q (signal (Inl SendFailed) req (rt_results rt))"
    using True by (simp_all add: pump_resume_def Let_def is_open_def)
  have "order_inv [] ?rt"
    unfolding order_inv_def f
    by (rule conjI[OF o(5)], rule conjI, simp, rule exI[of _ "don @ [req]"], rule exI[of _ "?q @ lost"])
      (use o f(5) in \<open>auto simp: fold_signal signal_def split: option.splits\<close>)
  then show ?thesis by (simp add: rt_inv_def f in_flight_def)
qed

lemma rt_close_inv: "rt_inv rt \<Longrightarrow> rt_inv (rt_close rt)"
  unfolding rt_inv_def order_inv_def by (auto simp: rt_close_def)

lemma session_step_inv: "session_step rt rt' \<Longrightarrow> rt_inv rt \<Longrightarrow> rt_inv rt'"
proof (induction rule: session_step.induct)
  case (step_enqueue rt data)
  then show ?case by (simp add: enqueue_write_def push_request_inv)
next
  case (step_send k rt hdr payload)
  then show ?case by (simp add: async_send_def enqueue_and_await_def push_request_inv)
next
  case (step_send_raw k rt data)
  then show ?case by (simp add: async_send_raw_def enqueue_and_await_def push_request_inv)
next
  case (step_start rt)
  then show ?case by (intro pump_head_inv) (simp_all add: rt_inv_def in_flight_def)
qed (simp_all add: pump_resume_inv rt_close_inv)

lemma session_rt_new_inv: "s_write_queue s = [] \<Longrightarrow> \<not> s_pump_running s \<Longrightarrow> rt_inv (session_rt_new s)"
  by (simp add: rt_inv_def order_inv_def session_rt_new_def in_flight_def)

lemma session_run_inv:
  assumes "session_run (session_rt_new (Session_new i c b d)) rt"
  shows "rt_inv rt"
  using assms by (induction) (simp_all add: session_rt_new_inv Session_new_def session_step_inv)

section \<open>Properties\<close>

text \<open>A session of depth 4 on which one request is being written.\<close>

definition example_session :: Session where
  "example_session = Session_new 1 0
     \<lparr>rb_buffer = [], rb_linear_buf = None, rb_capacity = 0, rb_mask = 0, rb_read_pos = 0,
      rb_write_pos = 0, rb_linear_buf_size = 0\<rparr> 4"

definition example_rt :: session_rt where
  "example_rt = pump_head (snd (async_send_raw 7 [1, 2] (session_rt_new example_session)))"

lemmas session_ops = enqueue_write_def async_send_raw_def enqueue_and_await_def push_request_def
  queue_full_def pump_head_def session_rt_new_def Session_new_def is_open_def Let_def

lemma example_run: "session_run (session_rt_new example_session) example_rt"
proof -
  let ?a = "session_rt_new example_session"
  have "session_run ?a (snd (async_send_raw 7 [1, 2] ?a))"
    by (rule run_step[OF run_refl step_send_raw]) (simp add: session_rt_new_def)
  then show ?thesis unfolding example_rt_def
    by (rule run_step) (rule step_start, simp add: session_ops example_session_def)
qed

text \<open>
  A depth limit of 0 accepts nothing: the limit is compared as it is, although the constructor
  documents 0 as unlimited.
\<close>

lemma depth_zero_rejects:
  "s_max_queue_depth (rt_session rt) = 0 \<Longrightarrow> is_open (rt_session rt) \<Longrightarrow>
   enqueue_write data rt = (Inl BufferFull, rt)"
  by (simp add: enqueue_write_def queue_full_def)

text \<open>
  C8: In every interleaving of senders, the write pump, write errors and a close, the socket is
  given a prefix of the accepted requests, in the order they were accepted; while the session is
  open nothing is lost, the queue respects its depth limit, and queued data always has a running
  pump.
\<close>

theorem session_writes_in_order:
  assumes "session_run (session_rt_new (Session_new i c b d)) rt"
  shows "(\<exists>rest. rt_accepted rt = rt_written rt @ rest) \<and>
    (is_open (rt_session rt) \<longrightarrow> rt_accepted rt = rt_written rt @ s_write_queue (rt_session rt)) \<and>
    length (s_write_queue (rt_session rt)) \<le> unat (s_max_queue_depth (rt_session rt)) \<and>
    (is_open (rt_session rt) \<and> s_write_queue (rt_session rt) \<noteq> [] \<longrightarrow> s_pump_running (rt_session rt))"
  using session_run_inv[OF assms] unfolding rt_inv_def order_inv_def by auto

theorem session_writes_in_order_witness:
  "session_run (session_rt_new example_session) example_rt \<and> rt_written example_rt \<noteq> [] \<and>
   rt_accepted example_rt = rt_written example_rt @ s_write_queue (rt_session example_rt)"
proof -
  have "is_open (rt_session example_rt)" "rt_written example_rt \<noteq> []"
    by (simp_all add: example_rt_def session_ops example_session_def)
  then show ?thesis using session_writes_in_order[OF example_run[unfolded example_session_def]]
    example_run by simp
qed



text \<open>A closed session whose pump has ended never changes again.\<close>

lemma dead_session_step:
  assumes "session_step rt rt'" and "\<not> is_open (rt_session rt)" and "rt_pump rt = Pump_idle"
  shows "rt' = rt"
  using assms
  by (induction rule: session_step.induct)
    (auto simp: enqueue_write_def async_send_def async_send_raw_def rt_close_def session_close_def is_open_iff)

lemma dead_session_run:
  assumes "session_run rt rt'" and "\<not> is_open (rt_session rt)" and "rt_pump rt = Pump_idle"
  shows "rt' = rt"
  using assms(1)
proof (induction)
  case (run_step v v')
  then show ?case using dead_session_step assms(2,3) by blast
qed simp

text \<open>
  When a session is closed after a send was accepted and before the pump got to run, the pump
  ends with the request still queued, and nothing that happens afterwards wakes the sender.
\<close>

theorem close_strands_waiter:
  assumes "0 < d"
    and "rt = pump_head (rt_close (snd (async_send_raw k data (session_rt_new (Session_new i c b d)))))"
  shows "session_run (session_rt_new (Session_new i c b d)) rt \<and>
    (\<forall>rt'. session_run rt rt' \<longrightarrow> k \<in> set (waiters (rt_accepted rt')) \<and> rt_results rt' k = None)"
proof
  let ?a = "session_rt_new (Session_new i c b d)"
  let ?b = "snd (async_send_raw k data ?a)" and ?req = "\<lparr>wr_data = data, wr_completion = Some k\<rparr>"
  have b: "?b = ?a\<lparr>rt_session := (Session_new i c b d)\<lparr>s_write_queue := [?req], s_pump_running := True\<rparr>,
      rt_accepted := [?req], rt_pump := Pump_spawned\<rparr>"
    using assms(1)
    by (simp add: async_send_raw_def enqueue_and_await_def push_request_def queue_full_def session_rt_new_def
        Session_new_def is_open_def)
  have "session_run ?a ?b" by (rule run_step[OF run_refl step_send_raw]) (simp add: session_rt_new_def)
  then have "session_run ?a (rt_close ?b)" by (rule run_step) (rule step_close)
  then show "session_run ?a rt"
    unfolding assms(2) by (rule run_step) (rule step_start, simp add: b rt_close_def)
  have rt: "rt_pump rt = Pump_idle" "\<not> is_open (rt_session rt)" "rt_accepted rt = [?req]" "rt_results rt = (\<lambda>k. None)"
    unfolding assms(2) b by (simp_all add: pump_head_def rt_close_def is_open_iff session_rt_new_def)
  show "\<forall>rt'. session_run rt rt' \<longrightarrow> k \<in> set (waiters (rt_accepted rt')) \<and> rt_results rt' k = None"
  proof (intro allI impI)
    fix rt' assume "session_run rt rt'"
    then have "rt' = rt" using rt(2,1) by (rule dead_session_run)
    then show "k \<in> set (waiters (rt_accepted rt')) \<and> rt_results rt' k = None" by (simp add: rt)
  qed
qed

theorem close_strands_waiter_witness:
  "\<exists>rt. session_run (session_rt_new example_session) rt \<and> 7 \<in> set (waiters (rt_accepted rt)) \<and>
     (\<forall>rt'. session_run rt rt' \<longrightarrow> rt_results rt' 7 = None)"
proof -
  define rt where "rt = pump_head (rt_close (snd (async_send_raw 7 [1, 2] (session_rt_new example_session))))"
  have "(0 :: u64) < 4" by simp
  from close_strands_waiter[OF this rt_def[unfolded example_session_def]]
  show ?thesis using run_refl[of rt] unfolding example_session_def by blast
qed

end
