(* ===== verification/Timing_Wheel.thy ===== *)
theory Timing_Wheel
  imports Math_Utils
begin

text \<open>
  \<open>apex_core/src/timing_wheel.cpp\<close>: the timer wheel that drives session timeouts. The
  entries of a slot form an intrusive doubly linked list; the model keeps it as such, in a heap
  that maps the address of an entry to its fields. An entry is allocated with a fresh identifier
  and its identifier is only reused after it is deleted, so the identifier serves as the
  address.

  The expiry callback is a parameter that may call back into the wheel and owns a state of its
  own; an exception it throws is caught by \<open>tick\<close> and is one of its outcomes.
\<close>

record Entry =
  e_id :: u64
  e_deadline :: u64
  e_cancelled :: bool
  e_next :: "u64 option"
  e_prev :: "u64 option"

record TimingWheel =
  tw_slots :: "u64 option list"
  tw_num_slots :: u64
  tw_mask :: u64
  tw_current_tick :: u64
  tw_next_id :: u64
  tw_entries :: "u64 option list"
  tw_free_ids :: "u64 list"
  tw_active_count :: u64
  tw_heap :: "u64 \<Rightarrow> Entry option"

definition TimingWheel_new :: "u64 \<Rightarrow> cpp_exception + TimingWheel" where
  "TimingWheel_new num_slots =
     (let n = next_power_of_2 (if num_slots < 1 then 1 else num_slots) in
      if n = 0 then Inl std_overflow_error
      else Inr \<lparr>tw_slots = replicate (unat n) None, tw_num_slots = n, tw_mask = n - 1,
                tw_current_tick = 0, tw_next_id = 1, tw_entries = [], tw_free_ids = [],
                tw_active_count = 0, tw_heap = (\<lambda>p. None)\<rparr>)"

text \<open>Assignment to one field of the entry at an address.\<close>

definition upd_entry :: "u64 \<Rightarrow> (Entry \<Rightarrow> Entry) \<Rightarrow> (u64 \<Rightarrow> Entry option) \<Rightarrow> (u64 \<Rightarrow> Entry option)" where
  "upd_entry p f H = H(p := map_option f (H p))"

definition insert_entry :: "u64 \<Rightarrow> nat \<Rightarrow> TimingWheel \<Rightarrow> TimingWheel" where
  "insert_entry entry slot_idx w =
     (let head = tw_slots w ! slot_idx;
          H = upd_entry entry (\<lambda>e. e\<lparr>e_prev := None\<rparr>) (tw_heap w);
          H = upd_entry entry (\<lambda>e. e\<lparr>e_next := head\<rparr>) H;
          H = (case head of None \<Rightarrow> H | Some h \<Rightarrow> upd_entry h (\<lambda>e. e\<lparr>e_prev := Some entry\<rparr>) H)
      in w\<lparr>tw_heap := H, tw_slots := (tw_slots w)[slot_idx := Some entry]\<rparr>)"

definition remove_entry :: "u64 \<Rightarrow> nat \<Rightarrow> TimingWheel \<Rightarrow> TimingWheel" where
  "remove_entry entry slot_idx w =
     (let e = the (tw_heap w entry);
          w = (case e_prev e of
                 Some p \<Rightarrow> w\<lparr>tw_heap := upd_entry p (\<lambda>x. x\<lparr>e_next := e_next e\<rparr>) (tw_heap w)\<rparr>
               | None \<Rightarrow> w\<lparr>tw_slots := (tw_slots w)[slot_idx := e_next e]\<rparr>);
          w = (case e_next e of
                 Some n \<Rightarrow> w\<lparr>tw_heap := upd_entry n (\<lambda>x. x\<lparr>e_prev := e_prev e\<rparr>) (tw_heap w)\<rparr>
               | None \<Rightarrow> w)
      in w\<lparr>tw_heap := upd_entry entry (\<lambda>x. x\<lparr>e_prev := None, e_next := None\<rparr>) (tw_heap w)\<rparr>)"

definition compute_deadline :: "u32 \<Rightarrow> TimingWheel \<Rightarrow> u64" where
  "compute_deadline ticks_from_now w =
     (if ticks_from_now = 0 then tw_current_tick w else tw_current_tick w + ucast ticks_from_now)"

definition slot_of :: "TimingWheel \<Rightarrow> u64 \<Rightarrow> nat" where
  "slot_of w deadline = unat (deadline AND tw_mask w)"

text \<open>The identifier \<open>schedule\<close> takes: a recycled one, or the next new one.\<close>

definition take_id :: "TimingWheel \<Rightarrow> u64 \<times> TimingWheel" where
  "take_id w =
     (if tw_free_ids w \<noteq> []
      then (last (tw_free_ids w), w\<lparr>tw_free_ids := butlast (tw_free_ids w)\<rparr>)
      else let id = tw_next_id w;
               w = w\<lparr>tw_next_id := id + 1\<rparr>
           in (id, if length (tw_entries w) \<le> unat id
                   then w\<lparr>tw_entries := tw_entries w @ replicate (unat id + 1 - length (tw_entries w)) None\<rparr>
                   else w))"

definition schedule :: "u32 \<Rightarrow> TimingWheel \<Rightarrow> (cpp_exception + u64) \<times> TimingWheel" where
  "schedule ticks_from_now w =
     (if tw_num_slots w \<le> ucast ticks_from_now then (Inl std_out_of_range, w)
      else let (id, w) = take_id w;
               deadline = compute_deadline ticks_from_now w;
               entry = \<lparr>e_id = id, e_deadline = deadline, e_cancelled = False, e_next = None, e_prev = None\<rparr>;
               w = w\<lparr>tw_heap := (tw_heap w)(id \<mapsto> entry)\<rparr>;
               w = insert_entry id (slot_of w deadline) w;
               w = w\<lparr>tw_entries := (tw_entries w)[unat id := Some id],
                     tw_active_count := tw_active_count w + 1\<rparr>
           in (Inr id, w))"

definition cancel :: "u64 \<Rightarrow> TimingWheel \<Rightarrow> TimingWheel" where
  "cancel eid w =
     (if length (tw_entries w) \<le> unat eid then w
      else case tw_entries w ! unat eid of
             None \<Rightarrow> w
           | Some p \<Rightarrow>
               let e = the (tw_heap w p) in
               if e_cancelled e then w
               else let w = w\<lparr>tw_heap := upd_entry p (\<lambda>x. x\<lparr>e_cancelled := True\<rparr>) (tw_heap w)\<rparr>;
                        w = remove_entry p (slot_of w (e_deadline e)) w;
                        w = w\<lparr>tw_heap := (tw_heap w)(p := None)\<rparr>
                    in w\<lparr>tw_entries := (tw_entries w)[unat eid := None],
                         tw_free_ids := tw_free_ids w @ [eid],
                         tw_active_count := tw_active_count w - 1\<rparr>)"

definition reschedule :: "u64 \<Rightarrow> u32 \<Rightarrow> TimingWheel \<Rightarrow> (cpp_exception + unit) \<times> TimingWheel" where
  "reschedule eid ticks_from_now w =
     (if tw_num_slots w \<le> ucast ticks_from_now then (Inl std_out_of_range, w)
      else if length (tw_entries w) \<le> unat eid then (Inr (), w)
      else case tw_entries w ! unat eid of
             None \<Rightarrow> (Inr (), w)
           | Some p \<Rightarrow>
               let e = the (tw_heap w p) in
               if e_cancelled e then (Inr (), w)
               else let w = remove_entry p (slot_of w (e_deadline e)) w;
                        deadline = compute_deadline ticks_from_now w;
                        w = w\<lparr>tw_heap := upd_entry p (\<lambda>x. x\<lparr>e_deadline := deadline\<rparr>) (tw_heap w)\<rparr>
                    in (Inr (), insert_entry p (slot_of w deadline) w))"

text \<open>Phase 1 of \<open>tick\<close>: follow the list of the slot, for at most \<open>n\<close> entries, and keep those
  whose deadline is now.\<close>

primrec collect :: "nat \<Rightarrow> u64 option \<Rightarrow> TimingWheel \<Rightarrow> u64 list" where
  "collect 0 p w = []"
| "collect (Suc n) p w =
     (case p of
        None \<Rightarrow> []
      | Some entry \<Rightarrow>
          let e = the (tw_heap w entry);
              rest = collect n (e_next e) w
          in if \<not> e_cancelled e \<and> e_deadline e = tw_current_tick w then entry # rest else rest)"

text \<open>Phase 3a for one entry, and phase 3b: the callback, then delete and recycle.\<close>

definition retire :: "u64 \<Rightarrow> TimingWheel \<Rightarrow> TimingWheel" where
  "retire p w =
     w\<lparr>tw_entries := (tw_entries w)[unat (e_id (the (tw_heap w p))) := None],
       tw_active_count := tw_active_count w - 1\<rparr>"

fun fire :: "(u64 \<Rightarrow> TimingWheel \<times> 'e \<Rightarrow> TimingWheel \<times> 'e) \<Rightarrow> u64 list \<Rightarrow> TimingWheel \<times> 'e \<Rightarrow> TimingWheel \<times> 'e" where
  "fire on_expire [] s = s"
| "fire on_expire (p # ps) (w, env) =
     (let expired_id = e_id (the (tw_heap w p));
          (w, env) = on_expire expired_id (w, env);
          w = w\<lparr>tw_heap := (tw_heap w)(p := None)\<rparr>;
          w = w\<lparr>tw_free_ids := tw_free_ids w @ [expired_id]\<rparr>
      in fire on_expire ps (w, env))"

text \<open>The phases of \<open>tick\<close> before the callbacks; the entries found expired come first. The
  list of a slot is never longer than the number of entries.\<close>

definition tick_collect :: "TimingWheel \<Rightarrow> u64 list \<times> TimingWheel" where
  "tick_collect w =
     (let slot_idx = slot_of w (tw_current_tick w);
          expired = collect (length (tw_entries w)) (tw_slots w ! slot_idx) w;
          w = fold (\<lambda>p. remove_entry p slot_idx) expired w
      in (expired, fold retire expired w))"

definition tick ::
  "(u64 \<Rightarrow> TimingWheel \<times> 'e \<Rightarrow> TimingWheel \<times> 'e) \<Rightarrow> TimingWheel \<times> 'e \<Rightarrow> TimingWheel \<times> 'e" where
  "tick on_expire s =
     (let (w, env) = s;
          (expired, w) = tick_collect w;
          (w, env) = fire on_expire expired (w, env)
      in (w\<lparr>tw_current_tick := tw_current_tick w + 1\<rparr>, env))"

section \<open>Doubly linked lists\<close>

fun dll :: "(u64 \<Rightarrow> Entry option) \<Rightarrow> u64 option \<Rightarrow> u64 option \<Rightarrow> u64 list \<Rightarrow> bool" where
  "dll H p head [] \<longleftrightarrow> head = None"
| "dll H p head (x # xs) \<longleftrightarrow> head = Some x \<and>
     (\<exists>e. H x = Some e \<and> e_prev e = p \<and> dll H (Some x) (e_next e) xs)"

lemma dll_frame:
  "(\<And>x. x \<in> set xs \<Longrightarrow> H' x = H x) \<Longrightarrow> dll H' p head xs = dll H p head xs"
  by (induction xs arbitrary: p head) auto

text \<open>Only the links matter to the list.\<close>

lemma dll_cong:
  assumes "\<And>x. x \<in> set xs \<Longrightarrow>
    map_option (\<lambda>e. (e_prev e, e_next e)) (H' x) = map_option (\<lambda>e. (e_prev e, e_next e)) (H x)"
  shows "dll H' p head xs = dll H p head xs"
  using assms
proof (induction xs arbitrary: p head)
  case (Cons x xs)
  have "map_option (\<lambda>e. (e_prev e, e_next e)) (H' x) = map_option (\<lambda>e. (e_prev e, e_next e)) (H x)"
    using Cons.prems by simp
  moreover have "\<And>q n. dll H' q n xs = dll H q n xs" using Cons by simp
  ultimately show ?case by (cases "H x"; cases "H' x") auto
qed simp

lemma dll_head: "dll H p head xs \<Longrightarrow> head = (case xs of [] \<Rightarrow> None | x # _ \<Rightarrow> Some x)"
  by (cases xs) auto

lemma upd_entry_simps [simp]:
  "upd_entry p f H p = map_option f (H p)" "q \<noteq> p \<Longrightarrow> upd_entry p f H q = H q"
  by (simp_all add: upd_entry_def)

lemma dll_upd_other [simp]: "x \<notin> set xs \<Longrightarrow> dll (upd_entry x f H) p head xs = dll H p head xs"
  by (rule dll_frame) (auto simp: upd_entry_def)

lemma dll_set_prev:
  "dll H p head (x # xs) \<Longrightarrow> x \<notin> set xs \<Longrightarrow> dll (upd_entry x (\<lambda>e. e\<lparr>e_prev := q\<rparr>) H) q head (x # xs)"
  by auto

lemma dll_insert:
  assumes "dll H None head xs" and "x \<notin> set xs" and "H x = Some e" and "distinct xs"
    and "H' = (case head of None \<Rightarrow> upd_entry x (\<lambda>e. e\<lparr>e_prev := None, e_next := head\<rparr>) H
             | Some h \<Rightarrow> upd_entry h (\<lambda>e. e\<lparr>e_prev := Some x\<rparr>)
                           (upd_entry x (\<lambda>e. e\<lparr>e_prev := None, e_next := head\<rparr>) H))"
  shows "dll H' None (Some x) (x # xs)"
proof (cases xs)
  case Nil
  then show ?thesis using assms by auto
next
  case (Cons y ys)
  have head: "head = Some y" using assms(1) by (simp add: Cons)
  let ?H = "upd_entry x (\<lambda>e. e\<lparr>e_prev := None, e_next := head\<rparr>) H"
  have "dll ?H None head xs" using assms(1,2) by simp
  then have "dll H' (Some x) head xs"
    using assms(4,5) dll_set_prev[of ?H None head y ys "Some x"] by (simp add: Cons head)
  moreover have "H' x = Some (e\<lparr>e_prev := None, e_next := head\<rparr>)"
    using assms(2,3,5) by (simp add: head Cons)
  ultimately show ?thesis by simp
qed

text \<open>Unlinking an element: the predecessor (or the head) and the successor are joined.\<close>

definition unlink_heap :: "u64 \<Rightarrow> (u64 \<Rightarrow> Entry option) \<Rightarrow> (u64 \<Rightarrow> Entry option)" where
  "unlink_heap x H =
     (let e = the (H x);
          H = (case e_prev e of Some p \<Rightarrow> upd_entry p (\<lambda>x. x\<lparr>e_next := e_next e\<rparr>) H | None \<Rightarrow> H);
          H = (case e_next e of Some n \<Rightarrow> upd_entry n (\<lambda>x. x\<lparr>e_prev := e_prev e\<rparr>) H | None \<Rightarrow> H)
      in upd_entry x (\<lambda>x. x\<lparr>e_prev := None, e_next := None\<rparr>) H)"

lemma remove_entry_eq:
  "remove_entry x i w =
     w\<lparr>tw_heap := unlink_heap x (tw_heap w),
       tw_slots := (case e_prev (the (tw_heap w x)) of
                      None \<Rightarrow> (tw_slots w)[i := e_next (the (tw_heap w x))] | Some p \<Rightarrow> tw_slots w)\<rparr>"
  by (cases w) (simp add: remove_entry_def unlink_heap_def Let_def split: option.split)

lemma dll_last_prev:
  assumes "dll H p head (xs @ x # ys)"
  shows "\<exists>e. H x = Some e \<and> e_prev e = (if xs = [] then p else Some (last xs)) \<and>
    e_next e = (case ys of [] \<Rightarrow> None | y # _ \<Rightarrow> Some y)"
  using assms
proof (induction xs arbitrary: p head)
  case Nil
  then show ?case using dll_head by auto
next
  case (Cons a xs)
  then show ?case by (cases xs) fastforce+
qed

lemma unlink_heap_at:
  assumes "H x = Some e" and "e_prev e \<noteq> Some x" and "e_next e \<noteq> Some x"
  shows "unlink_heap x H x = Some (e\<lparr>e_prev := None, e_next := None\<rparr>)"
  using assms by (auto simp: unlink_heap_def Let_def split: option.split)

lemma unlink_heap_other:
  assumes "H x = Some e" and "y \<noteq> x" and "e_prev e \<noteq> Some y" and "e_next e \<noteq> Some y"
  shows "unlink_heap x H y = H y"
  using assms by (auto simp: unlink_heap_def Let_def split: option.split)

lemma unlink_heap_prev:
  assumes "H x = Some e" and "y \<noteq> x" and "e_prev e = Some y" and "e_next e \<noteq> Some y"
  shows "unlink_heap x H y = map_option (\<lambda>z. z\<lparr>e_next := e_next e\<rparr>) (H y)"
  using assms by (auto simp: unlink_heap_def Let_def split: option.split)

lemma unlink_heap_next:
  assumes "H x = Some e" and "y \<noteq> x" and "e_next e = Some y" and "e_prev e \<noteq> Some y"
  shows "unlink_heap x H y = map_option (\<lambda>z. z\<lparr>e_prev := e_prev e\<rparr>) (H y)"
  using assms by (auto simp: unlink_heap_def Let_def split: option.split)

text \<open>Unlinking changes nothing but links.\<close>

lemma unlink_heap_data:
  "map_option (\<lambda>e. (e_id e, e_deadline e, e_cancelled e)) (unlink_heap x H y) =
   map_option (\<lambda>e. (e_id e, e_deadline e, e_cancelled e)) (H y)"
  by (auto simp: unlink_heap_def upd_entry_def Let_def option.map_comp comp_def split: option.split)

lemma dll_unlink:
  assumes "dll H p head (xs @ x # ys)" and "distinct (xs @ x # ys)"
    and "\<forall>q. p = Some q \<longrightarrow> q \<notin> set (xs @ x # ys)"
  shows "dll (unlink_heap x H) p (if xs = [] then e_next (the (H x)) else head) (xs @ ys)"
  using assms
proof (induction xs arbitrary: p head)
  case Nil
  obtain e where e: "H x = Some e" "e_prev e = p" "dll H (Some x) (e_next e) ys"
    using Nil.prems(1) by auto
  show ?case
  proof (cases ys)
    case Nil
    then show ?thesis using e by simp
  next
    case (Cons y zs)
    obtain f where f: "H y = Some f" "e_next e = Some y" "dll H (Some y) (e_next f) zs"
      using e(3) by (auto simp: Cons)
    have "unlink_heap x H z = H z" if "z \<in> set zs" for z
      using unlink_heap_other[of H x e z, OF e(1)] e(2) f(2) Nil.prems(2,3) that by (auto simp: Cons)
    then have "dll (unlink_heap x H) (Some y) (e_next f) zs"
      using f(3) dll_frame[of zs "unlink_heap x H" H] by simp
    moreover have "unlink_heap x H y = Some (f\<lparr>e_prev := p\<rparr>)"
      using unlink_heap_next[of H x e y, OF e(1)] e(2) f(1,2) Nil.prems(2,3) by (auto simp: Cons)
    ultimately show ?thesis by (simp add: Cons e f(2))
  qed
next
  case (Cons a xs)
  obtain ea where ea: "H a = Some ea" "e_prev ea = p" "head = Some a"
    "dll H (Some a) (e_next ea) (xs @ x # ys)"
    using Cons.prems(1) by auto
  obtain e where e: "H x = Some e" "e_prev e = (if xs = [] then Some a else Some (last xs))"
    "e_next e = (case ys of [] \<Rightarrow> None | y # _ \<Rightarrow> Some y)"
    using dll_last_prev[OF ea(4)] by auto
  have rest: "dll (unlink_heap x H) (Some a) (if xs = [] then e_next e else e_next ea) (xs @ ys)"
    using Cons.IH[OF ea(4)] Cons.prems(2) e(1) by (cases "xs = []") simp_all
  have a: "a \<noteq> x" "e_next e \<noteq> Some a" "xs \<noteq> [] \<Longrightarrow> last xs \<noteq> a"
    using Cons.prems(2) e(3) by (auto split: list.splits)
  have "unlink_heap x H a = Some (if xs = [] then ea\<lparr>e_next := e_next e\<rparr> else ea)"
    using unlink_heap_prev[of H x e a] unlink_heap_other[of H x e a] a e(1,2)
    by (cases "xs = []") (simp_all add: ea(1))
  then show ?case using rest ea(2,3) by (cases "xs = []") simp_all
qed

text \<open>Linking and unlinking touch the heap and the slots only.\<close>

lemma insert_entry_fields [simp]:
  "tw_entries (insert_entry x i w) = tw_entries w" "tw_mask (insert_entry x i w) = tw_mask w"
  "tw_num_slots (insert_entry x i w) = tw_num_slots w" "tw_next_id (insert_entry x i w) = tw_next_id w"
  "tw_free_ids (insert_entry x i w) = tw_free_ids w"
  "tw_active_count (insert_entry x i w) = tw_active_count w"
  "tw_current_tick (insert_entry x i w) = tw_current_tick w"
  "length (tw_slots (insert_entry x i w)) = length (tw_slots w)"
  by (simp_all add: insert_entry_def Let_def)

lemma remove_entry_fields [simp]:
  "tw_entries (remove_entry x i w) = tw_entries w" "tw_mask (remove_entry x i w) = tw_mask w"
  "tw_num_slots (remove_entry x i w) = tw_num_slots w" "tw_next_id (remove_entry x i w) = tw_next_id w"
  "tw_free_ids (remove_entry x i w) = tw_free_ids w"
  "tw_active_count (remove_entry x i w) = tw_active_count w"
  "tw_current_tick (remove_entry x i w) = tw_current_tick w"
  "length (tw_slots (remove_entry x i w)) = length (tw_slots w)"
  by (simp_all add: remove_entry_eq split: option.split)

lemma insert_entry_update:
  "insert_entry x i (w\<lparr>tw_entries := es, tw_active_count := c\<rparr>) =
   (insert_entry x i w)\<lparr>tw_entries := es, tw_active_count := c\<rparr>"
  by (cases w) (simp add: insert_entry_def Let_def)

lemma tw_update_id:
  "tw_entries w = es \<Longrightarrow> tw_active_count w = c \<Longrightarrow> w\<lparr>tw_entries := es, tw_active_count := c\<rparr> = w"
  by (cases w) simp

section \<open>The slot lists\<close>

text \<open>
  The lists \<open>L\<close> of the slots hold exactly the scheduled entries \<open>S\<close>, each in the slot of its
  deadline.
\<close>

definition linked ::
  "u64 option list \<Rightarrow> u64 \<Rightarrow> (u64 \<Rightarrow> Entry option) \<Rightarrow> (nat \<Rightarrow> u64 list) \<Rightarrow> u64 set \<Rightarrow> bool" where
  "linked slots msk H L S \<longleftrightarrow>
     (\<forall>i < length slots. dll H None (slots ! i) (L i) \<and> distinct (L i) \<and>
        (\<forall>x \<in> set (L i). \<exists>e. H x = Some e \<and> unat (e_deadline e AND msk) = i \<and> x \<in> S)) \<and>
     (\<forall>x \<in> S. \<exists>e. H x = Some e \<and> unat (e_deadline e AND msk) < length slots \<and>
        x \<in> set (L (unat (e_deadline e AND msk))))"

lemma linked_at:
  assumes "linked slots msk H L S" and "x \<in> S"
  obtains e i where "H x = Some e" and "i = unat (e_deadline e AND msk)" and "i < length slots"
    and "x \<in> set (L i)" and "\<And>j. j < length slots \<Longrightarrow> j \<noteq> i \<Longrightarrow> x \<notin> set (L j)"
  using assms unfolding linked_def by fastforce

lemma linked_disjoint:
  assumes "linked slots msk H L S" and "i < length slots" and "j < length slots" and "j \<noteq> i"
    and "y \<in> set (L j)"
  shows "y \<notin> set (L i)"
proof
  assume "y \<in> set (L i)"
  then obtain e f where "H y = Some e" "unat (e_deadline e AND msk) = i"
      "H y = Some f" "unat (e_deadline f AND msk) = j"
    using assms(1,2,3,5) unfolding linked_def by blast
  with assms(4) show False by simp
qed

lemma linked_frame:
  assumes "linked slots msk H L S"
    and "\<And>x. x \<in> S \<Longrightarrow> map_option (\<lambda>e. (e_prev e, e_next e, e_deadline e)) (H' x) =
                   map_option (\<lambda>e. (e_prev e, e_next e, e_deadline e)) (H x)"
  shows "linked slots msk H' L S"
proof -
  have d: "\<exists>e'. H' x = Some e' \<and> e_deadline e' = e_deadline e" if "x \<in> S" "H x = Some e" for x e
    using assms(2)[OF that(1)] that(2) by auto
  have "dll H' None (slots ! i) (L i)" if i: "i < length slots" for i
  proof -
    have "map_option (\<lambda>e. (e_prev e, e_next e)) (H' x) = map_option (\<lambda>e. (e_prev e, e_next e)) (H x)"
      if x: "x \<in> set (L i)" for x
    proof -
      have "x \<in> S" using assms(1) i x unfolding linked_def by blast
      from assms(2)[OF this] show ?thesis by (cases "H x"; cases "H' x") auto
    qed
    then have "dll H' None (slots ! i) (L i) = dll H None (slots ! i) (L i)" by (rule dll_cong)
    then show ?thesis using assms(1) i unfolding linked_def by blast
  qed
  then show ?thesis using assms(1) d unfolding linked_def by (metis (no_types, opaque_lifting))
qed

lemma linked_insert:
  assumes lk: "linked (tw_slots w) (tw_mask w) (tw_heap w) L S" and "x \<notin> S" and "tw_heap w x = Some e"
    and i: "i = unat (e_deadline e AND tw_mask w)" "i < length (tw_slots w)"
    and w': "w' = insert_entry x i w"
  shows "linked (tw_slots w') (tw_mask w') (tw_heap w') (L(i := x # L i)) (insert x S)"
    and "map_option (\<lambda>e. (e_id e, e_deadline e, e_cancelled e)) (tw_heap w' y) =
         map_option (\<lambda>e. (e_id e, e_deadline e, e_cancelled e)) (tw_heap w y)"
proof -
  let ?H = "tw_heap w" and ?s = "tw_slots w"
  let ?d = "\<lambda>e. (e_id e, e_deadline e, e_cancelled e)"
  have x: "x \<notin> set (L j)" if "j < length ?s" for j using lk that assms(2) unfolding linked_def by blast
  have li: "dll ?H None (?s ! i) (L i)" "distinct (L i)" using lk i(2) unfolding linked_def by blast+
  have H': "tw_heap w' = (case ?s ! i of None \<Rightarrow> upd_entry x (\<lambda>e. e\<lparr>e_prev := None, e_next := ?s ! i\<rparr>) ?H
             | Some h \<Rightarrow> upd_entry h (\<lambda>e. e\<lparr>e_prev := Some x\<rparr>)
                           (upd_entry x (\<lambda>e. e\<lparr>e_prev := None, e_next := ?s ! i\<rparr>) ?H))"
    by (simp add: w' insert_entry_def Let_def upd_entry_def option.map_comp comp_def split: option.split)
  show data: "map_option ?d (tw_heap w' y) = map_option ?d (?H y)" for y
    by (auto simp: H' upd_entry_def option.map_comp comp_def split: option.split)
  have d: "\<exists>e'. tw_heap w' y = Some e' \<and> e_deadline e' = e_deadline e" if "?H y = Some e" for y e
    using data[of y] that by auto
  have new: "dll (tw_heap w') None (Some x) (x # L i)"
    using dll_insert[OF li(1) x[OF i(2)] assms(3) li(2) H'] .
  have other: "dll (tw_heap w') None (?s ! j) (L j)" if j: "j < length ?s" "j \<noteq> i" for j
  proof -
    have "tw_heap w' y = ?H y" if y: "y \<in> set (L j)" for y
    proof -
      have "y \<notin> set (L i)" using linked_disjoint[OF lk i(2) j y] .
      then have "?s ! i \<noteq> Some y" using dll_head[OF li(1)] by (auto split: list.splits)
      then show ?thesis using x[OF j(1)] y by (auto simp: H' upd_entry_def split: option.split)
    qed
    then show ?thesis using lk j dll_frame[of "L j" "tw_heap w'" ?H] unfolding linked_def by simp
  qed
  have fields: "tw_slots w' = ?s[i := Some x]" "tw_mask w' = tw_mask w"
    by (simp_all add: w' insert_entry_def Let_def)
  show "linked (tw_slots w') (tw_mask w') (tw_heap w') (L(i := x # L i)) (insert x S)"
    unfolding linked_def
  proof (intro conjI allI impI ballI)
    fix j assume "j < length (tw_slots w')"
    then have j: "j < length ?s" by (simp add: fields)
    show "dll (tw_heap w') None (tw_slots w' ! j) ((L(i := x # L i)) j)"
      using new other j by (cases "j = i") (simp_all add: fields)
    show "distinct ((L(i := x # L i)) j)" using lk j x[OF j] unfolding linked_def by auto
    fix y assume y: "y \<in> set ((L(i := x # L i)) j)"
    show "\<exists>e. tw_heap w' y = Some e \<and> unat (e_deadline e AND tw_mask w') = j \<and> y \<in> insert x S"
    proof (cases "y = x \<and> j = i")
      case True
      then show ?thesis using d[OF assms(3)] i by (auto simp: fields)
    next
      case False
      then have "y \<in> set (L j)" using y by (auto split: if_splits)
      then obtain f where "?H y = Some f" "unat (e_deadline f AND tw_mask w) = j" "y \<in> S"
        using lk j unfolding linked_def by blast
      then show ?thesis using d[of y f] by (auto simp: fields)
    qed
  next
    fix y assume y: "y \<in> insert x S"
    show "\<exists>e. tw_heap w' y = Some e \<and> unat (e_deadline e AND tw_mask w') < length (tw_slots w') \<and>
        y \<in> set ((L(i := x # L i)) (unat (e_deadline e AND tw_mask w')))"
    proof (cases "y = x")
      case True
      then show ?thesis using d[OF assms(3)] i by (auto simp: fields)
    next
      case False
      then obtain f where "?H y = Some f" "unat (e_deadline f AND tw_mask w) < length ?s"
          "y \<in> set (L (unat (e_deadline f AND tw_mask w)))"
        using lk y unfolding linked_def by blast
      then show ?thesis using d[of y f] by (auto simp: fields)
    qed
  qed
qed

lemma linked_remove:
  assumes lk: "linked (tw_slots w) (tw_mask w) (tw_heap w) L S" and "x \<in> S" and e: "tw_heap w x = Some e"
    and i: "i = unat (e_deadline e AND tw_mask w)"
    and w': "w' = remove_entry x i w"
  shows "linked (tw_slots w') (tw_mask w') (tw_heap w') (L(i := remove1 x (L i))) (S - {x})"
    and "map_option (\<lambda>e. (e_id e, e_deadline e, e_cancelled e)) (tw_heap w' y) =
         map_option (\<lambda>e. (e_id e, e_deadline e, e_cancelled e)) (tw_heap w y)"
proof -
  let ?H = "tw_heap w" and ?s = "tw_slots w"
  let ?d = "\<lambda>e. (e_id e, e_deadline e, e_cancelled e)"
  have H': "tw_heap w' = unlink_heap x ?H" by (simp add: w' remove_entry_eq)
  show data: "map_option ?d (tw_heap w' y) = map_option ?d (?H y)" for y
    unfolding H' by (rule unlink_heap_data)
  have d: "\<exists>e'. tw_heap w' y = Some e' \<and> e_deadline e' = e_deadline e" if "?H y = Some e" for y e
    using data[of y] that by auto
  have li: "x \<in> set (L i)" "i < length ?s" using lk e i assms(2) unfolding linked_def by fastforce+
  have dl: "dll ?H None (?s ! i) (L i)" "distinct (L i)" using lk li(2) unfolding linked_def by blast+
  obtain xs ys where L: "L i = xs @ x # ys" using li(1) by (metis split_list)
  have rm: "remove1 x (L i) = xs @ ys" using dl(2) by (simp add: L remove1_append)
  have lp: "e_prev e = (if xs = [] then None else Some (last xs))"
      "e_next e = (case ys of [] \<Rightarrow> None | y # _ \<Rightarrow> Some y)"
    using dll_last_prev[of ?H None "?s ! i" xs x ys] dl(1) e by (simp_all add: L)
  have s': "tw_slots w' = (if xs = [] then ?s[i := e_next e] else ?s)" "tw_mask w' = tw_mask w"
    using lp(1) e by (simp_all add: w' remove_entry_eq)
  have head: "tw_slots w' ! i = (if xs = [] then e_next (the (?H x)) else ?s ! i)"
    using li(2) e by (simp add: s')
  have new: "dll (tw_heap w') None (tw_slots w' ! i) (xs @ ys)"
    unfolding head H' using dl by (intro dll_unlink) (simp_all add: L)
  have other: "dll (tw_heap w') None (?s ! j) (L j)" if j: "j < length ?s" "j \<noteq> i" for j
  proof -
    have "tw_heap w' y = ?H y" if y: "y \<in> set (L j)" for y
    proof -
      have "y \<notin> set (L i)" using linked_disjoint[OF lk li(2) j y] .
      then have "y \<noteq> x" "e_prev e \<noteq> Some y" "e_next e \<noteq> Some y"
        by (auto simp: L lp split: list.splits)
      then show ?thesis unfolding H' using unlink_heap_other[of ?H x e y] e by simp
    qed
    then show ?thesis using lk j dll_frame[of "L j" "tw_heap w'" ?H] unfolding linked_def by simp
  qed
  show "linked (tw_slots w') (tw_mask w') (tw_heap w') (L(i := remove1 x (L i))) (S - {x})"
    unfolding linked_def
  proof (intro conjI allI impI ballI)
    fix j assume "j < length (tw_slots w')"
    then have j: "j < length ?s" by (simp add: s' split: if_splits)
    show "dll (tw_heap w') None (tw_slots w' ! j) ((L(i := remove1 x (L i))) j)"
      using new other j by (cases "j = i") (simp_all add: s' rm)
    show "distinct ((L(i := remove1 x (L i))) j)" using lk j dl(2) unfolding linked_def by simp
    fix y assume y: "y \<in> set ((L(i := remove1 x (L i))) j)"
    have "y \<in> set (L j)" "y = x \<Longrightarrow> j \<noteq> i" using y dl(2) by (auto split: if_splits dest: notin_set_remove1)
    moreover from this obtain f where "?H y = Some f" "unat (e_deadline f AND tw_mask w) = j" "y \<in> S"
      using lk j unfolding linked_def by blast
    ultimately show "\<exists>e. tw_heap w' y = Some e \<and> unat (e_deadline e AND tw_mask w') = j \<and> y \<in> S - {x}"
      using d[of y f] e i by (auto simp: s')
  next
    fix y assume y: "y \<in> S - {x}"
    then obtain f where "?H y = Some f" "unat (e_deadline f AND tw_mask w) < length ?s"
          "y \<in> set (L (unat (e_deadline f AND tw_mask w)))"
        using lk y unfolding linked_def by blast
    then show "\<exists>e. tw_heap w' y = Some e \<and> unat (e_deadline e AND tw_mask w') < length (tw_slots w') \<and>
        y \<in> set ((L(i := remove1 x (L i))) (unat (e_deadline e AND tw_mask w')))"
      using d[of y f] y by (auto simp: s')
  qed
qed

section \<open>The invariant of the wheel\<close>

text \<open>
  \<open>live\<close> are the identifiers with an entry in the table. Between the phases of \<open>tick\<close> some
  entries are allocated but no longer scheduled: the set \<open>P\<close>. Every identifier handed out so far
  is live, in \<open>P\<close> or on the free list, never two of these, so none leaks and none is reused
  early; the heap holds exactly the live entries and those of \<open>P\<close>; 0 is never an identifier. At
  least \<open>n\<close> new identifiers remain.
\<close>

definition live :: "TimingWheel \<Rightarrow> u64 set" where
  "live w = {x. unat x < length (tw_entries w) \<and> tw_entries w ! unat x = Some x}"

definition tw_ids :: "nat \<Rightarrow> u64 set \<Rightarrow> TimingWheel \<Rightarrow> bool" where
  "tw_ids n P w \<longleftrightarrow>
     (\<forall>j < length (tw_entries w). tw_entries w ! j \<noteq> None \<longrightarrow> tw_entries w ! j = Some (of_nat j)) \<and>
     P \<inter> live w = {} \<and> P \<inter> set (tw_free_ids w) = {} \<and> live w \<inter> set (tw_free_ids w) = {} \<and>
     distinct (tw_free_ids w) \<and>
     live w \<union> P \<union> set (tw_free_ids w) = {x. 0 < unat x \<and> unat x < length (tw_entries w)} \<and>
     length (tw_entries w) = (if tw_next_id w = 1 then 0 else unat (tw_next_id w)) \<and>
     1 \<le> tw_next_id w \<and> unat (tw_next_id w) + n < 2 ^ 64 \<and>
     tw_active_count w = of_nat (card (live w))"

definition tw_inv :: "nat \<Rightarrow> u64 set \<Rightarrow> TimingWheel \<Rightarrow> bool" where
  "tw_inv n P w \<longleftrightarrow>
     (\<exists>k < 64. tw_num_slots w = 2 ^ k) \<and> tw_mask w = tw_num_slots w - 1 \<and>
     length (tw_slots w) = unat (tw_num_slots w) \<and>
     (\<exists>L. linked (tw_slots w) (tw_mask w) (tw_heap w) L (live w)) \<and>
     (\<forall>x. (tw_heap w x \<noteq> None) = (x \<in> live w \<union> P)) \<and>
     (\<forall>x e. tw_heap w x = Some e \<longrightarrow> e_id e = x \<and> \<not> e_cancelled e) \<and>
     tw_ids n P w"

text \<open>The timers of the wheel: the deadline of every scheduled identifier.\<close>

definition timers :: "TimingWheel \<Rightarrow> u64 \<Rightarrow> u64 option" where
  "timers w x = (if x \<in> live w then map_option e_deadline (tw_heap w x) else None)"

lemma live_code [code_unfold]:
  "x \<in> live w \<longleftrightarrow> unat x < length (tw_entries w) \<and> tw_entries w ! unat x = Some x"
  by (simp add: live_def)

lemma tw_ids_cong:
  assumes "tw_entries w' = tw_entries w" and "tw_free_ids w' = tw_free_ids w"
    and "tw_next_id w' = tw_next_id w" and "tw_active_count w' = tw_active_count w"
  shows "tw_ids n P w' = tw_ids n P w"
proof -
  have "live w' = live w" by (simp add: live_def assms(1))
  then show ?thesis unfolding tw_ids_def by (simp only: assms)
qed

lemma tw_entry_cases:
  assumes "tw_ids n P w" and "unat x < length (tw_entries w)"
  shows "tw_entries w ! unat x = (if x \<in> live w then Some x else None)"
  using assms by (cases "tw_entries w ! unat x") (auto simp: tw_ids_def live_def)

lemma live_entries_update:
  assumes "tw_ids n P w" and "unat x < length (tw_entries w)" and "v = None \<or> v = Some x"
    and "tw_entries w' = (tw_entries w)[unat x := v]"
  shows "live w' = (if v = None then live w - {x} else insert x (live w))"
  using assms(2,3) unfolding live_def assms(4) by (auto simp: nth_list_update word_unat_eq_iff)

lemma finite_live [simp]: "finite (live w)"
  by (rule finite_subset[OF subset_UNIV]) simp

lemma slot_of_less:
  assumes "tw_inv n P w"
  shows "unat (d AND tw_mask w) < length (tw_slots w)"
proof -
  obtain k where "k < 64" "tw_mask w = 2 ^ k - 1" "length (tw_slots w) = 2 ^ k"
    using assms unfolding tw_inv_def by auto
  then show ?thesis using unat_and_mask_mod[of k d] by simp
qed

lemma TimingWheel_new_inv:
  assumes "TimingWheel_new num_slots = Inr w" and "n < 2 ^ 64 - 1"
  shows "tw_inv n {} w" and "timers w = (\<lambda>x. None)" and "num_slots \<le> tw_num_slots w"
    and "tw_current_tick w = 0"
proof -
  have w: "next_power_of_2 (if num_slots < 1 then 1 else num_slots) = tw_num_slots w"
      "tw_num_slots w \<noteq> 0" "tw_mask w = tw_num_slots w - 1" "tw_slots w = replicate (unat (tw_num_slots w)) None"
      "tw_entries w = []" "tw_heap w = (\<lambda>p. None)" "tw_free_ids w = []" "tw_next_id w = 1"
      "tw_active_count w = 0" "tw_current_tick w = 0"
    using assms(1) by (auto simp: TimingWheel_new_def Let_def split: if_splits)
  obtain k where k: "k < 64" "tw_num_slots w = 2 ^ k" "unat (if num_slots < 1 then 1 else num_slots) \<le> 2 ^ k"
    using next_power_of_2_pow2[of "if num_slots < 1 then 1 else num_slots"] w(1,2) by metis
  then have p: "\<exists>k<64. tw_num_slots w = 2 ^ k" "num_slots \<le> tw_num_slots w"
    by (auto simp: word_le_nat_alt split: if_splits)
  have l: "live w = {}" by (simp add: live_def w)
  have "linked (tw_slots w) (tw_mask w) (tw_heap w) (\<lambda>i. []) (live w)"
    unfolding linked_def by (simp add: w(4) l)
  then show "tw_inv n {} w"
    using p(1) assms(2) unfolding tw_inv_def tw_ids_def by (auto simp: w l)
  show "timers w = (\<lambda>x. None)" "num_slots \<le> tw_num_slots w" "tw_current_tick w = 0"
    using p by (auto simp: timers_def l w)
qed

text \<open>A step that keeps the shape of the wheel and the data of the entries.\<close>

lemma tw_inv_step:
  assumes "tw_inv m P w" and "tw_num_slots w' = tw_num_slots w" "tw_mask w' = tw_mask w"
    "length (tw_slots w') = length (tw_slots w)"
    and "linked (tw_slots w') (tw_mask w') (tw_heap w') L (live w')"
    and dom: "live w' \<union> P' = live w \<union> P"
    and data: "\<And>y. map_option (\<lambda>e. (e_id e, e_deadline e, e_cancelled e)) (tw_heap w' y) =
         map_option (\<lambda>e. (e_id e, e_deadline e, e_cancelled e)) (tw_heap w y)"
    and "tw_ids n P' w'"
  shows "tw_inv n P' w'"
proof -
  have "(tw_heap w' y \<noteq> None) = (tw_heap w y \<noteq> None)" for y
    using data[of y] by (cases "tw_heap w y"; cases "tw_heap w' y") auto
  then have "\<forall>x. (tw_heap w' x \<noteq> None) = (x \<in> live w' \<union> P')"
    using assms(1) unfolding tw_inv_def dom by simp
  moreover have "e_id e' = y \<and> \<not> e_cancelled e'" if "tw_heap w' y = Some e'" for y e'
    using data[of y] that assms(1) unfolding tw_inv_def by (cases "tw_heap w y") auto
  ultimately show ?thesis using assms(1-5,8) unfolding tw_inv_def by (simp only:) blast
qed

lemma timers_data:
  assumes "\<And>y. map_option (\<lambda>e. (e_id e, e_deadline e, e_cancelled e)) (tw_heap w' y) =
         map_option (\<lambda>e. (e_id e, e_deadline e, e_cancelled e)) (tw_heap w y)"
  shows "map_option e_deadline (tw_heap w' y) = map_option e_deadline (tw_heap w y)"
  using assms[of y] by (cases "tw_heap w y"; cases "tw_heap w' y") auto

text \<open>Linking an allocated entry of \<open>P\<close> into the slot of its deadline makes it live.\<close>

lemma tw_link:
  assumes inv: "tw_inv n P w" and "x \<in> P" and e: "tw_heap w x = Some e"
    and w': "w' = (insert_entry x (unat (e_deadline e AND tw_mask w)) w)
               \<lparr>tw_entries := (tw_entries w)[unat x := Some x], tw_active_count := tw_active_count w + 1\<rparr>"
  shows "tw_inv n (P - {x}) w'" and "timers w' = (timers w)(x \<mapsto> e_deadline e)"
proof -
  let ?i = "unat (e_deadline e AND tw_mask w)"
  let ?w = "insert_entry x ?i w"
  obtain L where L: "linked (tw_slots w) (tw_mask w) (tw_heap w) L (live w)"
    using inv unfolding tw_inv_def by blast
  have ids: "tw_ids n P w" using inv unfolding tw_inv_def by blast
  have x: "x \<notin> live w" "unat x < length (tw_entries w)" "0 < unat x"
    using ids assms(2) unfolding tw_ids_def by blast+
  have f: "tw_slots w' = tw_slots ?w" "tw_mask w' = tw_mask ?w" "tw_mask w' = tw_mask w"
      "tw_heap w' = tw_heap ?w" "tw_num_slots w' = tw_num_slots w" "tw_free_ids w' = tw_free_ids w"
      "tw_next_id w' = tw_next_id w" "length (tw_slots ?w) = length (tw_slots w)"
      "tw_entries w' = (tw_entries w)[unat x := Some x]" "tw_active_count w' = tw_active_count w + 1"
    by (simp_all add: w')
  have live: "live w' = insert x (live w)"
    using live_entries_update[OF ids x(2) _ f(9)] by simp
  note li = linked_insert[OF L x(1) e refl slot_of_less[OF inv] refl]
  have dat: "map_option (\<lambda>e. (e_id e, e_deadline e, e_cancelled e)) (tw_heap w' y) =
         map_option (\<lambda>e. (e_id e, e_deadline e, e_cancelled e)) (tw_heap w y)" for y
    using li(2)[of y] unfolding f(4) .
  have "tw_ids n (P - {x}) w'"
  proof -
    have "live w' \<union> (P - {x}) \<union> set (tw_free_ids w') = live w \<union> P \<union> set (tw_free_ids w)"
      using assms(2) by (auto simp: live f)
    moreover have "x \<notin> set (tw_free_ids w)" using ids assms(2) unfolding tw_ids_def by blast
    moreover have "\<forall>j < length (tw_entries w'). tw_entries w' ! j \<noteq> None \<longrightarrow> tw_entries w' ! j = Some (of_nat j)"
    proof (intro allI impI)
      fix j assume j: "j < length (tw_entries w')" "tw_entries w' ! j \<noteq> None"
      show "tw_entries w' ! j = Some (of_nat j)"
        using ids j unfolding tw_ids_def by (cases "j = unat x") (simp_all add: f)
    qed
    ultimately show ?thesis using ids x(1) unfolding tw_ids_def by (auto simp: live f)
  qed
  moreover have "linked (tw_slots w') (tw_mask w') (tw_heap w') (L(?i := x # L ?i)) (live w')"
    using li(1) unfolding live by (simp only: f)
  ultimately show "tw_inv n (P - {x}) w'"
    using assms(2) f by (intro tw_inv_step[OF inv _ _ _ _ _ dat]) (auto simp: live)
  show "timers w' = (timers w)(x \<mapsto> e_deadline e)"
    using e timers_data[OF dat] by (auto simp: timers_def live fun_eq_iff)
qed

text \<open>Unlinking a live entry leaves it allocated.\<close>

lemma tw_unlink:
  assumes inv: "tw_inv n P w" and "x \<in> live w" and e: "tw_heap w x = Some e"
    and w': "w' = (remove_entry x (unat (e_deadline e AND tw_mask w)) w)
               \<lparr>tw_entries := (tw_entries w)[unat x := None], tw_active_count := tw_active_count w - 1\<rparr>"
  shows "tw_inv n (insert x P) w'" and "timers w' = (timers w)(x := None)"
    and "\<And>y. map_option (\<lambda>e. (e_id e, e_deadline e, e_cancelled e)) (tw_heap w' y) =
         map_option (\<lambda>e. (e_id e, e_deadline e, e_cancelled e)) (tw_heap w y)"
proof -
  let ?i = "unat (e_deadline e AND tw_mask w)"
  let ?w = "remove_entry x ?i w"
  obtain L where L: "linked (tw_slots w) (tw_mask w) (tw_heap w) L (live w)"
    using inv unfolding tw_inv_def by blast
  have ids: "tw_ids n P w" using inv unfolding tw_inv_def by blast
  have x: "x \<notin> P" "unat x < length (tw_entries w)" "0 < unat x" "x \<notin> set (tw_free_ids w)"
    using ids assms(2) unfolding tw_ids_def by blast+
  have f: "tw_slots w' = tw_slots ?w" "tw_mask w' = tw_mask ?w" "tw_mask w' = tw_mask w"
      "tw_heap w' = tw_heap ?w" "tw_num_slots w' = tw_num_slots w" "tw_free_ids w' = tw_free_ids w"
      "tw_next_id w' = tw_next_id w" "length (tw_slots ?w) = length (tw_slots w)"
      "tw_entries w' = (tw_entries w)[unat x := None]" "tw_active_count w' = tw_active_count w - 1"
    by (simp_all add: w')
  have live: "live w' = live w - {x}"
    using live_entries_update[OF ids x(2) _ f(9)] by simp
  note li = linked_remove[OF L assms(2) e refl refl]
  show dat: "map_option (\<lambda>e. (e_id e, e_deadline e, e_cancelled e)) (tw_heap w' y) =
         map_option (\<lambda>e. (e_id e, e_deadline e, e_cancelled e)) (tw_heap w y)" for y
    using li(2)[of y] unfolding f(4) .
  have "tw_ids n (insert x P) w'"
  proof -
    have "live w' \<union> insert x P \<union> set (tw_free_ids w') = live w \<union> P \<union> set (tw_free_ids w)"
      using assms(2) by (auto simp: live f)
    moreover have "\<forall>j < length (tw_entries w'). tw_entries w' ! j \<noteq> None \<longrightarrow> tw_entries w' ! j = Some (of_nat j)"
    proof (intro allI impI)
      fix j assume j: "j < length (tw_entries w')" "tw_entries w' ! j \<noteq> None"
      show "tw_entries w' ! j = Some (of_nat j)"
        using ids j unfolding tw_ids_def by (cases "j = unat x") (simp_all add: f)
    qed
    moreover have "of_nat (card (live w)) - 1 = (of_nat (card (live w - {x})) :: u64)"
      using assms(2) card_Suc_Diff1[OF finite_live assms(2)] by (metis add_diff_cancel_left' of_nat_Suc)
    ultimately show ?thesis using ids x(1,4) unfolding tw_ids_def by (auto simp: live f)
  qed
  moreover have "linked (tw_slots w') (tw_mask w') (tw_heap w') (L(?i := remove1 x (L ?i))) (live w')"
    using li(1) unfolding live by (simp only: f)
  ultimately show "tw_inv n (insert x P) w'"
    using assms(2) f by (intro tw_inv_step[OF inv _ _ _ _ _ dat]) (auto simp: live)
  show "timers w' = (timers w)(x := None)"
    using timers_data[OF dat] by (auto simp: timers_def live fun_eq_iff)
qed

text \<open>Deleting an unlinked entry returns its identifier to the free list.\<close>

lemma tw_release:
  assumes inv: "tw_inv n P w" and "x \<in> P"
    and w': "w' = w\<lparr>tw_heap := (tw_heap w)(x := None), tw_free_ids := tw_free_ids w @ [x]\<rparr>"
  shows "tw_inv n (P - {x}) w'" and "timers w' = timers w"
proof -
  have ids: "tw_ids n P w" using inv unfolding tw_inv_def by blast
  have x: "x \<notin> live w" "x \<notin> set (tw_free_ids w)" using ids assms(2) unfolding tw_ids_def by blast+
  have live: "live w' = live w" by (simp add: live_def w')
  obtain L where "linked (tw_slots w) (tw_mask w) (tw_heap w) L (live w)"
    using inv unfolding tw_inv_def by blast
  then have "linked (tw_slots w) (tw_mask w) (tw_heap w') L (live w)"
    by (rule linked_frame) (use x in \<open>auto simp: w'\<close>)
  moreover have "tw_ids n (P - {x}) w'"
    using ids assms(2) x unfolding tw_ids_def live by (auto simp: w')
  ultimately show "tw_inv n (P - {x}) w'"
    using inv x assms(2) unfolding tw_inv_def by (auto simp: w' live[unfolded w'])
  show "timers w' = timers w" unfolding timers_def live using x by (auto simp: w' fun_eq_iff)
qed

text \<open>Taking an identifier and allocating its entry.\<close>

lemma tw_alloc:
  assumes inv: "tw_inv (Suc n) P w" and t: "take_id w = (x, w1)"
    and e: "e_id e = x" "\<not> e_cancelled e" and w': "w' = w1\<lparr>tw_heap := (tw_heap w1)(x \<mapsto> e)\<rparr>"
  shows "tw_inv n (insert x P) w'" and "timers w' = timers w" and "x \<notin> live w \<union> P" and "x \<noteq> 0"
    and "tw_current_tick w1 = tw_current_tick w" and "tw_mask w1 = tw_mask w"
    and "tw_num_slots w1 = tw_num_slots w"
proof -
  have ids: "tw_ids (Suc n) P w" using inv unfolding tw_inv_def by blast
  have f: "tw_slots w1 = tw_slots w" "tw_mask w1 = tw_mask w" "tw_num_slots w1 = tw_num_slots w"
      "tw_heap w1 = tw_heap w" "tw_active_count w1 = tw_active_count w" "tw_current_tick w1 = tw_current_tick w"
    using t by (auto simp: take_id_def Let_def split: if_splits)
  have core: "live w1 = live w \<and> x \<notin> live w \<union> P \<and> x \<noteq> 0 \<and> tw_ids n (insert x P) w1"
  proof (cases "tw_free_ids w = []")
    case False
    then have w1: "w1 = w\<lparr>tw_free_ids := butlast (tw_free_ids w)\<rparr>" "x = last (tw_free_ids w)"
      using t by (auto simp: take_id_def)
    obtain ys where ys: "tw_free_ids w = ys @ [x]" using False w1(2) by (metis append_butlast_last_id)
    have live: "live w1 = live w" by (simp add: live_def w1(1))
    have "x \<in> set (tw_free_ids w)" by (simp add: ys)
    then have "0 < unat x" using ids unfolding tw_ids_def by blast
    then have "x \<noteq> 0" by auto
    then show ?thesis using ids unfolding tw_ids_def live by (auto simp: w1(1) ys)
  next
    case True
    have nid: "length (tw_entries w) = (if tw_next_id w = 1 then 0 else unat (tw_next_id w))"
        "1 \<le> tw_next_id w" "unat (tw_next_id w) + Suc n < 2 ^ 64"
      using ids unfolding tw_ids_def by blast+
    have x: "x = tw_next_id w" and w1: "tw_free_ids w1 = []" "tw_next_id w1 = tw_next_id w + 1"
      using t True by (auto simp: take_id_def Let_def split: if_splits)
    have le: "length (tw_entries w) \<le> unat x" using nid(1) by (simp add: x)
    have en: "tw_entries w1 = tw_entries w @ replicate (unat x + 1 - length (tw_entries w)) None"
      using t True le by (auto simp: take_id_def Let_def x)
    have len: "length (tw_entries w1) = unat x + 1" using le by (simp add: en)
    have nx: "unat (tw_next_id w1) = unat x + 1"
      using nid(3) unat_add_small[of "tw_next_id w" 1] by (simp add: w1 x)
    have nth: "tw_entries w1 ! j = (if j < length (tw_entries w) then tw_entries w ! j else None)"
      if "j < length (tw_entries w1)" for j
      using that by (simp add: en nth_append)
    have live: "live w1 = live w" using len le by (auto simp: live_def nth split: if_splits)
    have pos: "0 < unat x" using nid(2) by (simp add: x word_le_nat_alt)
    have "x \<notin> {y. 0 < unat y \<and> unat y < length (tw_entries w)}" using le by simp
    moreover have "live w \<union> insert x P \<union> set (tw_free_ids w1) = {y. 0 < unat y \<and> unat y < length (tw_entries w1)}"
    proof -
      have "{y. 0 < unat y \<and> unat y < length (tw_entries w1)} = insert x {y. 0 < unat y \<and> unat y < length (tw_entries w)}"
        using pos le nid(1) unfolding len
        by (cases "tw_next_id w = 1") (auto simp: x less_Suc_eq word_unat_eq_iff)
      then show ?thesis using ids True unfolding tw_ids_def by (auto simp: w1)
    qed
    moreover have "\<forall>j < length (tw_entries w1). tw_entries w1 ! j \<noteq> None \<longrightarrow> tw_entries w1 ! j = Some (of_nat j)"
      using ids unfolding tw_ids_def by (simp add: nth)
    moreover have "x \<notin> live w \<union> P" using calculation(1) ids unfolding tw_ids_def by blast
    moreover have "tw_next_id w1 \<noteq> 1" "1 \<le> tw_next_id w1" using nx pos by (auto simp: word_le_nat_alt)
    moreover have "unat (tw_next_id w1) + n < 2 ^ 64" using nid(3) nx by (simp add: x)
    ultimately show ?thesis using ids pos nx len unfolding tw_ids_def live
      by (simp add: w1(1) f(5)) auto
  qed
  then show "x \<notin> live w \<union> P" "x \<noteq> 0" by blast+
  show "tw_current_tick w1 = tw_current_tick w" "tw_mask w1 = tw_mask w" "tw_num_slots w1 = tw_num_slots w"
    by (fact f)+
  have live: "live w' = live w" using core by (simp add: live_def w')
  obtain L where "linked (tw_slots w) (tw_mask w) (tw_heap w) L (live w)"
    using inv unfolding tw_inv_def by blast
  then have "linked (tw_slots w) (tw_mask w) (tw_heap w') L (live w)"
    by (rule linked_frame) (use core in \<open>auto simp: w' f\<close>)
  moreover have "tw_ids n (insert x P) w'" using core tw_ids_cong[of w' w1] by (simp add: w')
  ultimately show "tw_inv n (insert x P) w'"
    using inv core e unfolding tw_inv_def live by (auto simp: w' f)
  show "timers w' = timers w" unfolding timers_def live using core by (auto simp: w' f fun_eq_iff)
qed

section \<open>The operations\<close>

lemma compute_deadline_eq: "compute_deadline t w = tw_current_tick w + ucast t"
  by (simp add: compute_deadline_def)

lemma schedule_ok:
  assumes inv: "tw_inv (Suc n) P w" and t: "ucast t < tw_num_slots w"
  obtains x w' where "schedule t w = (Inr x, w')" and "tw_inv n P w'"
    and "timers w' = (timers w)(x \<mapsto> tw_current_tick w + ucast t)" and "timers w x = None"
    and "x \<notin> P" and "x \<noteq> 0" and "tw_current_tick w' = tw_current_tick w"
    and "tw_num_slots w' = tw_num_slots w"
proof -
  obtain x w1 where t1: "take_id w = (x, w1)" by (cases "take_id w")
  let ?e = "\<lparr>e_id = x, e_deadline = compute_deadline t w1, e_cancelled = False, e_next = None, e_prev = None\<rparr>"
  define w2 where "w2 = w1\<lparr>tw_heap := (tw_heap w1)(x \<mapsto> ?e)\<rparr>"
  define w3 where "w3 = (insert_entry x (unat (e_deadline ?e AND tw_mask w2)) w2)
               \<lparr>tw_entries := (tw_entries w2)[unat x := Some x], tw_active_count := tw_active_count w2 + 1\<rparr>"
  have eq: "schedule t w = (Inr x, w3)"
  proof -
    have "schedule t w = (Inr x, (insert_entry x (slot_of w2 (compute_deadline t w1)) w2)
        \<lparr>tw_entries := (tw_entries w2)[unat x := Some x], tw_active_count := tw_active_count w2 + 1\<rparr>)"
      using t by (simp add: schedule_def t1 w2_def Let_def not_le)
    then show ?thesis by (simp add: w3_def slot_of_def)
  qed
  have e: "e_id ?e = x" "\<not> e_cancelled ?e" by simp_all
  note al = tw_alloc[OF inv t1 e w2_def]
  have h2: "tw_heap w2 x = Some ?e" unfolding w2_def by simp
  note li = tw_link[OF al(1) insertI1 h2 w3_def]
  have x: "x \<notin> live w" "x \<notin> P" "x \<noteq> 0" using al(3,4) by blast+
  have P: "insert x P - {x} = P" using x(2) by blast
  show thesis
  proof (rule that[OF eq])
    show "tw_inv n P w3" using li(1) unfolding P .
    show "timers w3 = (timers w)(x \<mapsto> tw_current_tick w + ucast t)"
      unfolding li(2) al(2) by (simp add: compute_deadline_eq al(5))
    show "timers w x = None" using x(1) by (simp add: timers_def)
    show "tw_current_tick w3 = tw_current_tick w" "tw_num_slots w3 = tw_num_slots w"
      unfolding w3_def w2_def by (simp_all add: al(5,7))
  qed (fact x)+
qed

lemma schedule_range: "tw_num_slots w \<le> ucast t \<Longrightarrow> schedule t w = (Inl std_out_of_range, w)"
  by (simp add: schedule_def)

lemma tw_heap_live: "tw_inv n P w \<Longrightarrow> x \<in> live w \<Longrightarrow> \<exists>e. tw_heap w x = Some e \<and> e_id e = x \<and> \<not> e_cancelled e"
  unfolding tw_inv_def by blast

lemma tw_heap_pending: "tw_inv n P w \<Longrightarrow> x \<in> P \<Longrightarrow> \<exists>e. tw_heap w x = Some e \<and> e_id e = x"
  unfolding tw_inv_def by blast

lemma timers_not_live: "tw_inv n P w \<Longrightarrow> timers w x = None \<longleftrightarrow> x \<notin> live w"
  using tw_heap_live by (fastforce simp: timers_def)

lemma unlink_heap_flag:
  "(unlink_heap x (upd_entry x (\<lambda>x. x\<lparr>e_cancelled := True\<rparr>) H))(x := None) = (unlink_heap x H)(x := None)"
  if "H x = Some e"
  using that by (intro ext) (simp add: unlink_heap_def upd_entry_def Let_def split: option.split)

lemma remove_entry_flag:
  assumes "tw_heap w x = Some e"
    and "r = remove_entry x i (w\<lparr>tw_heap := upd_entry x (\<lambda>x. x\<lparr>e_cancelled := True\<rparr>) (tw_heap w)\<rparr>)"
  shows "r\<lparr>tw_heap := (tw_heap r)(x := None)\<rparr> =
    (remove_entry x i w)\<lparr>tw_heap := (tw_heap (remove_entry x i w))(x := None)\<rparr>"
proof (cases w)
  case (fields slots num_slots msk tick nxt entries free_ids active H)
  then show ?thesis
    using assms by (cases "e_prev e") (simp_all add: remove_entry_eq unlink_heap_flag[of H x e])
qed

lemma cancel_not_live:
  assumes "tw_inv n P w" and "x \<notin> live w"
  shows "cancel x w = w"
  using tw_entry_cases[of n P w x] assms by (auto simp: cancel_def tw_inv_def)

lemma cancel_ok:
  assumes inv: "tw_inv n P w"
  shows "tw_inv n P (cancel x w)" and "timers (cancel x w) = (timers w)(x := None)"
    and "tw_current_tick (cancel x w) = tw_current_tick w" and "tw_num_slots (cancel x w) = tw_num_slots w"
proof -
  have "tw_inv n P (cancel x w) \<and> timers (cancel x w) = (timers w)(x := None) \<and>
      tw_current_tick (cancel x w) = tw_current_tick w \<and> tw_num_slots (cancel x w) = tw_num_slots w"
  proof (cases "x \<in> live w")
    case False
    then show ?thesis using inv cancel_not_live[OF inv False] timers_not_live[OF inv, of x] by auto
  next
    case True
    have ids: "tw_ids n P w" using inv unfolding tw_inv_def by blast
    obtain e where e: "tw_heap w x = Some e" "\<not> e_cancelled e"
      using tw_heap_live[OF inv True] by blast
    have x: "x \<notin> P" "unat x < length (tw_entries w)" "tw_entries w ! unat x = Some x"
      using ids True unfolding tw_ids_def live_def by blast+
    define w1 where "w1 = (remove_entry x (unat (e_deadline e AND tw_mask w)) w)
               \<lparr>tw_entries := (tw_entries w)[unat x := None], tw_active_count := tw_active_count w - 1\<rparr>"
    define w2 where "w2 = w1\<lparr>tw_heap := (tw_heap w1)(x := None), tw_free_ids := tw_free_ids w1 @ [x]\<rparr>"
    have eq: "cancel x w = w2"
      using x e remove_entry_flag[of w x e _ "unat (e_deadline e AND tw_mask w)"]
      by (simp add: cancel_def w2_def w1_def Let_def slot_of_def not_le)
    note un = tw_unlink[OF inv True e(1) w1_def]
    note re = tw_release[OF un(1) _ w2_def]
    have "insert x P - {x} = P" using x(1) by auto
    then have "tw_inv n P w2" "timers w2 = (timers w)(x := None)" using re un(2) by simp_all
    then show ?thesis by (simp add: eq) (simp add: w2_def w1_def)
  qed
  then show "tw_inv n P (cancel x w)" and "timers (cancel x w) = (timers w)(x := None)"
    and "tw_current_tick (cancel x w) = tw_current_tick w" and "tw_num_slots (cancel x w) = tw_num_slots w"
    by blast+
qed

text \<open>Rescheduling is unlinking, setting the deadline and linking again.\<close>

lemma tw_set_deadline:
  assumes inv: "tw_inv n P w" and "x \<in> P"
    and w': "w' = w\<lparr>tw_heap := upd_entry x (\<lambda>e. e\<lparr>e_deadline := d\<rparr>) (tw_heap w)\<rparr>"
  shows "tw_inv n P w'" and "timers w' = timers w"
proof -
  have x: "x \<notin> live w" using inv assms(2) unfolding tw_inv_def tw_ids_def by blast
  have live: "live w' = live w" by (simp add: live_def w')
  obtain L where "linked (tw_slots w) (tw_mask w) (tw_heap w) L (live w)"
    using inv unfolding tw_inv_def by blast
  then have "linked (tw_slots w) (tw_mask w) (tw_heap w') L (live w)"
    by (rule linked_frame) (use x in \<open>auto simp: w' upd_entry_def\<close>)
  moreover have "tw_ids n P w'" using inv unfolding tw_inv_def tw_ids_def live by (simp add: w')
  ultimately show "tw_inv n P w'"
    using inv unfolding tw_inv_def live by (auto simp: w' upd_entry_def)
  show "timers w' = timers w" unfolding timers_def live using x by (auto simp: w' upd_entry_def fun_eq_iff)
qed

lemma reschedule_ok:
  assumes inv: "tw_inv n P w" and t: "ucast t < tw_num_slots w"
  shows "\<exists>w'. reschedule x t w = (Inr (), w') \<and> tw_inv n P w' \<and>
    timers w' = (if timers w x = None then timers w else (timers w)(x \<mapsto> tw_current_tick w + ucast t)) \<and>
    tw_current_tick w' = tw_current_tick w \<and> tw_num_slots w' = tw_num_slots w"
proof (cases "x \<in> live w")
  case False
  then show ?thesis using inv t tw_entry_cases[of n P w x] timers_not_live[OF inv, of x]
    by (auto simp: reschedule_def tw_inv_def leD not_le_imp_less)
next
  case True
  have ids: "tw_ids n P w" using inv unfolding tw_inv_def by blast
  obtain e where e: "tw_heap w x = Some e" "\<not> e_cancelled e"
    using tw_heap_live[OF inv True] by blast
  have x: "x \<notin> P" "unat x < length (tw_entries w)" "tw_entries w ! unat x = Some x"
    using ids True unfolding tw_ids_def live_def by blast+
  let ?d = "compute_deadline t w"
  define w1 where "w1 = (remove_entry x (unat (e_deadline e AND tw_mask w)) w)
             \<lparr>tw_entries := (tw_entries w)[unat x := None], tw_active_count := tw_active_count w - 1\<rparr>"
  define w2 where "w2 = w1\<lparr>tw_heap := upd_entry x (\<lambda>e. e\<lparr>e_deadline := ?d\<rparr>) (tw_heap w1)\<rparr>"
  note un = tw_unlink[OF inv True e(1) w1_def]
  note sd = tw_set_deadline[OF un(1) _ w2_def]
  obtain e1 where "tw_heap w1 x = Some e1" using un(3)[of x] e(1) by auto
  then obtain e2 where e2: "tw_heap w2 x = Some e2" "e_deadline e2 = ?d" by (simp add: w2_def)
  define w3 where "w3 = (insert_entry x (unat (e_deadline e2 AND tw_mask w2)) w2)
             \<lparr>tw_entries := (tw_entries w2)[unat x := Some x], tw_active_count := tw_active_count w2 + 1\<rparr>"
  have len: "(tw_entries w)[unat x := Some x] = tw_entries w" using x(3) by (metis list_update_id)
  have eq: "reschedule x t w = (Inr (), w3)"
  proof -
    let ?r = "remove_entry x (unat (e_deadline e AND tw_mask w)) w"
    have "w2 = (?r\<lparr>tw_heap := upd_entry x (\<lambda>e. e\<lparr>e_deadline := ?d\<rparr>) (tw_heap ?r)\<rparr>)
        \<lparr>tw_entries := (tw_entries w)[unat x := None], tw_active_count := tw_active_count w - 1\<rparr>"
      by (simp add: w2_def w1_def)
    then have "w3 = (insert_entry x (unat (?d AND tw_mask w)) (?r\<lparr>tw_heap := upd_entry x (\<lambda>e. e\<lparr>e_deadline := ?d\<rparr>) (tw_heap ?r)\<rparr>))
        \<lparr>tw_entries := tw_entries w, tw_active_count := tw_active_count w\<rparr>"
      using len by (simp add: w3_def e2(2) insert_entry_update)
    also have "\<dots> = insert_entry x (unat (?d AND tw_mask w)) (?r\<lparr>tw_heap := upd_entry x (\<lambda>e. e\<lparr>e_deadline := ?d\<rparr>) (tw_heap ?r)\<rparr>)"
      by (rule tw_update_id) simp_all
    finally show ?thesis
      using t x(2) e by (simp add: reschedule_def x(3) Let_def slot_of_def compute_deadline_eq not_le)
  qed
  have w2: "tw_inv n (insert x P) w2" "timers w2 = (timers w)(x := None)" using sd un(2) by simp_all
  note li = tw_link[OF w2(1) insertI1 e2(1) w3_def]
  have P: "insert x P - {x} = P" using x(1) by blast
  have "timers w3 = (timers w)(x \<mapsto> tw_current_tick w + ucast t)"
    unfolding li(2) w2(2) e2(2) by (simp add: compute_deadline_eq)
  moreover have "timers w x \<noteq> None" using timers_not_live[OF inv] True by simp
  moreover have "tw_current_tick w3 = tw_current_tick w" "tw_num_slots w3 = tw_num_slots w"
    unfolding w3_def w2_def w1_def by simp_all
  ultimately show ?thesis unfolding eq using li(1) unfolding P by auto
qed

section \<open>A tick\<close>

lemma collect_dll:
  "dll (tw_heap w) q p xs \<Longrightarrow> length xs \<le> n \<Longrightarrow>
   collect n p w = filter (\<lambda>x. \<not> e_cancelled (the (tw_heap w x)) \<and>
                             e_deadline (the (tw_heap w x)) = tw_current_tick w) xs"
proof (induction n arbitrary: q p xs)
  case (Suc n)
  then show ?case by (cases xs) (auto simp: Let_def)
qed simp

lemma card_live_le: "card (live w) \<le> length (tw_entries w)"
proof -
  have "unat ` live w \<subseteq> {..<length (tw_entries w)}" by (auto simp: live_def)
  then have "card (unat ` live w) \<le> length (tw_entries w)" using card_mono[OF finite_lessThan] by fastforce
  then show ?thesis by (simp add: card_image inj_on_def word_unat_eq_iff)
qed

text \<open>Phase 1 finds exactly the timers due now, each once.\<close>

lemma collect_expired:
  assumes inv: "tw_inv n P w"
    and xs: "xs = collect (length (tw_entries w)) (tw_slots w ! slot_of w (tw_current_tick w)) w"
  shows "distinct xs" and "set xs = {x. timers w x = Some (tw_current_tick w)}"
proof -
  let ?i = "slot_of w (tw_current_tick w)" and ?P = "\<lambda>x. \<not> e_cancelled (the (tw_heap w x)) \<and>
                             e_deadline (the (tw_heap w x)) = tw_current_tick w"
  obtain L where L: "linked (tw_slots w) (tw_mask w) (tw_heap w) L (live w)"
    using inv unfolding tw_inv_def by blast
  have i: "?i < length (tw_slots w)" unfolding slot_of_def by (rule slot_of_less[OF inv])
  have li: "dll (tw_heap w) None (tw_slots w ! ?i) (L ?i)" "distinct (L ?i)" "set (L ?i) \<subseteq> live w"
    using L i unfolding linked_def by blast+
  have "length (L ?i) \<le> length (tw_entries w)"
    using card_mono[OF finite_live li(3)] card_live_le[of w] distinct_card[OF li(2)] by simp
  then have xs': "xs = filter ?P (L ?i)" unfolding xs using collect_dll[OF li(1)] by simp
  show "distinct xs" using li(2) by (simp add: xs')
  show "set xs = {x. timers w x = Some (tw_current_tick w)}"
  proof (intro set_eqI iffI)
    fix x assume "x \<in> set xs"
    then have "x \<in> live w" "e_deadline (the (tw_heap w x)) = tw_current_tick w"
      using li(3) by (auto simp: xs')
    then show "x \<in> {x. timers w x = Some (tw_current_tick w)}"
      using tw_heap_live[OF inv] by (force simp: timers_def)
  next
    fix x assume "x \<in> {x. timers w x = Some (tw_current_tick w)}"
    then obtain e where x: "x \<in> live w" "tw_heap w x = Some e" "e_deadline e = tw_current_tick w"
      by (auto simp: timers_def split: if_splits)
    then have "x \<in> set (L ?i)" using L unfolding linked_def slot_of_def by fastforce
    then show "x \<in> set xs" using x tw_heap_live[OF inv x(1)] by (auto simp: xs')
  qed
qed

text \<open>Phases 2 and 3a together unlink the expired entries one by one.\<close>

lemma retire_remove_commute: "retire p (remove_entry q i w) = remove_entry q i (retire p w)"
proof -
  have "e_id (the (unlink_heap q (tw_heap w) p)) = e_id (the (tw_heap w p))"
    using unlink_heap_data[of q "tw_heap w" p]
    by (cases "tw_heap w p"; cases "unlink_heap q (tw_heap w) p") auto
  then show ?thesis by (cases w) (simp add: retire_def remove_entry_eq split: option.split)
qed

lemma retire_removes_commute:
  "retire x (fold (\<lambda>p. remove_entry p i) xs w) = fold (\<lambda>p. remove_entry p i) xs (retire x w)"
  by (induction xs arbitrary: w) (simp_all add: retire_remove_commute)

lemma fold_retire_remove:
  "fold retire xs (fold (\<lambda>p. remove_entry p i) xs w) = fold (\<lambda>p w. retire p (remove_entry p i w)) xs w"
proof (induction xs arbitrary: w)
  case (Cons x xs)
  then show ?case by (simp add: retire_removes_commute)
qed simp

lemma unlink_all:
  assumes "tw_inv n P w" and "distinct xs"
    and "\<forall>x \<in> set xs. timers w x = Some d" and "i = slot_of w d"
    and "w' = fold (\<lambda>p w. retire p (remove_entry p i w)) xs w"
  shows "tw_inv n (P \<union> set xs) w' \<and> timers w' = (\<lambda>x. if x \<in> set xs then None else timers w x) \<and>
    tw_current_tick w' = tw_current_tick w \<and> tw_num_slots w' = tw_num_slots w"
  using assms
proof (induction xs arbitrary: w P)
  case (Cons x xs)
  let ?w = "retire x (remove_entry x i w)"
  from Cons.prems(3) obtain e where e: "x \<in> live w" "tw_heap w x = Some e" "e_deadline e = d"
    by (auto simp: timers_def split: if_splits)
  have "e_id (the (tw_heap (remove_entry x i w) x)) = x"
    using unlink_heap_data[of x "tw_heap w" x] tw_heap_live[OF Cons.prems(1) e(1)]
    by (auto simp: remove_entry_eq)
  then have w: "?w = (remove_entry x (unat (e_deadline e AND tw_mask w)) w)
               \<lparr>tw_entries := (tw_entries w)[unat x := None], tw_active_count := tw_active_count w - 1\<rparr>"
    using Cons.prems(4) e(3) by (simp add: retire_def slot_of_def)
  note un = tw_unlink[OF Cons.prems(1) e(1,2) w]
  have "i = slot_of ?w d" using Cons.prems(4) by (simp add: retire_def slot_of_def)
  moreover have "\<forall>y \<in> set xs. timers ?w y = Some d" using un(2) Cons.prems(2,3) by auto
  ultimately have "tw_inv n (insert x P \<union> set xs) w' \<and>
      timers w' = (\<lambda>y. if y \<in> set xs then None else timers ?w y) \<and>
      tw_current_tick w' = tw_current_tick ?w \<and> tw_num_slots w' = tw_num_slots ?w"
    using Cons.prems(2,5) by (intro Cons.IH[OF un(1)]) simp_all
  moreover have "tw_current_tick ?w = tw_current_tick w" "tw_num_slots ?w = tw_num_slots w"
    by (simp_all add: retire_def)
  ultimately show ?case using un(2) by (auto simp: fun_eq_iff)
qed simp

lemma tick_collect_ok:
  assumes inv: "tw_inv n {} w" and t: "tick_collect w = (xs, w')"
  shows "distinct xs" and "set xs = {x. timers w x = Some (tw_current_tick w)}"
    and "tw_inv n (set xs) w'" and "timers w' = (\<lambda>x. if x \<in> set xs then None else timers w x)"
    and "tw_current_tick w' = tw_current_tick w" and "tw_num_slots w' = tw_num_slots w"
proof -
  have xs: "xs = collect (length (tw_entries w)) (tw_slots w ! slot_of w (tw_current_tick w)) w"
    using t by (auto simp: tick_collect_def Let_def)
  have w': "w' = fold (\<lambda>p v. retire p (remove_entry p (slot_of w (tw_current_tick w)) v)) xs w"
    using t by (auto simp: tick_collect_def Let_def fold_retire_remove)
  note ce = collect_expired[OF inv xs]
  show "distinct xs" "set xs = {x. timers w x = Some (tw_current_tick w)}" by (fact ce)+
  have "tw_inv n ({} \<union> set xs) w' \<and> timers w' = (\<lambda>x. if x \<in> set xs then None else timers w x) \<and>
      tw_current_tick w' = tw_current_tick w \<and> tw_num_slots w' = tw_num_slots w"
    using ce by (intro unlink_all[OF inv _ _ refl w']) auto
  then show "tw_inv n (set xs) w'" "timers w' = (\<lambda>x. if x \<in> set xs then None else timers w x)"
    "tw_current_tick w' = tw_current_tick w" "tw_num_slots w' = tw_num_slots w" by simp_all
qed

text \<open>
  A callback keeps to the interface of the wheel when it only calls its operations: it keeps the
  invariant, with the entries being expired still allocated, takes at most \<open>b\<close> new identifiers
  and does not advance the clock.
\<close>

definition callback_ok :: "nat \<Rightarrow> (u64 \<Rightarrow> TimingWheel \<times> 'e \<Rightarrow> TimingWheel \<times> 'e) \<Rightarrow> bool" where
  "callback_ok b cb \<longleftrightarrow>
     (\<forall>x n P w env. tw_inv (n + b) P w \<longrightarrow>
        tw_inv n P (fst (cb x (w, env))) \<and>
        tw_current_tick (fst (cb x (w, env))) = tw_current_tick w \<and>
        tw_num_slots (fst (cb x (w, env))) = tw_num_slots w)"

lemma tw_inv_mono: "tw_inv (n + b) P w \<Longrightarrow> tw_inv n P w"
  unfolding tw_inv_def tw_ids_def by (elim conjE) (intro conjI; (assumption | linarith))

lemma callback_cancel: "callback_ok b (\<lambda>x (w, env). (cancel (f x env) w, g x env))"
  by (auto simp: callback_ok_def cancel_ok tw_inv_mono)

lemma callback_schedule:
  "callback_ok (Suc 0) (\<lambda>x (w, env). case schedule (f x env) w of (r, w) \<Rightarrow> (w, g x r env))"
  unfolding callback_ok_def
proof (intro allI impI)
  fix x n P w env assume inv: "tw_inv (n + Suc 0) P w"
  have inv': "tw_inv n P w" using inv by (rule tw_inv_mono)
  let ?r = "case (w, env) of (w, env) \<Rightarrow> case schedule (f x env) w of (r, w) \<Rightarrow> (w, g x r env)"
  show "tw_inv n P (fst ?r) \<and> tw_current_tick (fst ?r) = tw_current_tick w \<and> tw_num_slots (fst ?r) = tw_num_slots w"
  proof (cases "tw_num_slots w \<le> ucast (f x env)")
    case True
    then show ?thesis using inv' by (simp add: schedule_range)
  next
    case False
    then have "ucast (f x env) < tw_num_slots w" by simp
    moreover have "tw_inv (Suc n) P w" using inv by simp
    ultimately obtain y w' where "schedule (f x env) w = (Inr y, w')" "tw_inv n P w'"
        "tw_current_tick w' = tw_current_tick w" "tw_num_slots w' = tw_num_slots w"
      using schedule_ok[of n P w "f x env"] by blast
    then show ?thesis by simp
  qed
qed

lemma fire_ok:
  assumes "callback_ok b cb" and "tw_inv (n + b * length xs) (set xs) w" and "distinct xs"
  shows "tw_inv n {} (fst (fire cb xs (w, env)))"
    and "tw_current_tick (fst (fire cb xs (w, env))) = tw_current_tick w"
    and "tw_num_slots (fst (fire cb xs (w, env))) = tw_num_slots w"
proof -
  have "tw_inv n {} (fst (fire cb xs (w, env))) \<and>
      tw_current_tick (fst (fire cb xs (w, env))) = tw_current_tick w \<and>
      tw_num_slots (fst (fire cb xs (w, env))) = tw_num_slots w"
    using assms(2,3)
  proof (induction xs arbitrary: w env)
    case (Cons x xs)
    obtain v env' where v: "cb x (w, env) = (v, env')" by (cases "cb x (w, env)")
    have "tw_inv ((n + b * length xs) + b) (set (x # xs)) w" using Cons.prems(1) by (simp add: algebra_simps)
    note this[THEN assms(1)[unfolded callback_ok_def, rule_format], of x env]
    then have inv: "tw_inv (n + b * length xs) (set (x # xs)) v" "tw_current_tick v = tw_current_tick w"
        "tw_num_slots v = tw_num_slots w"
      by (simp_all add: v)
    have id: "e_id (the (tw_heap w x)) = x" using tw_heap_pending[OF Cons.prems(1), of x] by auto
    define u where "u = v\<lparr>tw_heap := (tw_heap v)(x := None), tw_free_ids := tw_free_ids v @ [x]\<rparr>"
    have "tw_inv (n + b * length xs) (set (x # xs) - {x}) u"
      using tw_release(1)[OF inv(1) _ u_def] by simp
    moreover have "set (x # xs) - {x} = set xs" using Cons.prems(2) by auto
    ultimately have "tw_inv n {} (fst (fire cb xs (u, env'))) \<and>
      tw_current_tick (fst (fire cb xs (u, env'))) = tw_current_tick u \<and>
      tw_num_slots (fst (fire cb xs (u, env'))) = tw_num_slots u"
      using Cons.IH[of u env'] Cons.prems(2) by simp
    moreover have "fire cb (x # xs) (w, env) = fire cb xs (u, env')"
      by (simp add: v id Let_def u_def)
    ultimately show ?case using inv by (simp add: u_def)
  qed simp
  then show "tw_inv n {} (fst (fire cb xs (w, env)))"
    and "tw_current_tick (fst (fire cb xs (w, env))) = tw_current_tick w"
    and "tw_num_slots (fst (fire cb xs (w, env))) = tw_num_slots w" by blast+
qed

lemma tw_inv_clock: "tw_inv n P (w\<lparr>tw_current_tick := c\<rparr>) = tw_inv n P w"
proof -
  have "live (w\<lparr>tw_current_tick := c\<rparr>) = live w" by (simp add: live_def)
  moreover have "tw_ids n P (w\<lparr>tw_current_tick := c\<rparr>) = tw_ids n P w" by (rule tw_ids_cong) simp_all
  ultimately show ?thesis unfolding tw_inv_def by simp
qed

lemma timers_clock: "timers (w\<lparr>tw_current_tick := c\<rparr>) = timers w"
  by (simp add: timers_def live_def fun_eq_iff)

text \<open>The entries that expire in the next tick.\<close>

definition expiring :: "TimingWheel \<Rightarrow> u64 list" where
  "expiring w = fst (tick_collect w)"

lemma tick_ok:
  assumes "callback_ok b cb" and "tw_inv (n + b * length (expiring w)) {} w"
  shows "tw_inv n {} (fst (tick cb (w, env)))"
    and "tw_current_tick (fst (tick cb (w, env))) = tw_current_tick w + 1"
    and "tw_num_slots (fst (tick cb (w, env))) = tw_num_slots w"
proof -
  obtain xs w1 where t: "tick_collect w = (xs, w1)" by (cases "tick_collect w")
  note tc = tick_collect_ok[OF assms(2) t]
  have xs: "expiring w = xs" by (simp add: expiring_def t)
  note fi = fire_ok[OF assms(1) tc(3)[unfolded xs] tc(1), of env]
  have eq: "fst (tick cb (w, env)) = (fst (fire cb xs (w1, env)))
      \<lparr>tw_current_tick := tw_current_tick (fst (fire cb xs (w1, env))) + 1\<rparr>"
    by (simp add: tick_def t split: prod.split)
  show "tw_inv n {} (fst (tick cb (w, env)))" using fi(1) unfolding eq tw_inv_clock .
  show "tw_current_tick (fst (tick cb (w, env))) = tw_current_tick w + 1"
    "tw_num_slots (fst (tick cb (w, env))) = tw_num_slots w"
    using fi(2,3) tc(5,6) by (simp_all add: eq)
qed

text \<open>A callback that leaves the timer \<open>x\<close> alone.\<close>

definition callback_leaves :: "u64 \<Rightarrow> (u64 \<Rightarrow> TimingWheel \<times> 'e \<Rightarrow> TimingWheel \<times> 'e) \<Rightarrow> bool" where
  "callback_leaves x cb \<longleftrightarrow> (\<forall>y w env. timers (fst (cb y (w, env))) x = timers w x)"

lemma fire_leaves:
  assumes "callback_ok 0 cb" and "callback_leaves x cb" and "tw_inv n (set xs) w" and "distinct xs"
  shows "timers (fst (fire cb xs (w, env))) x = timers w x"
  using assms(3,4)
proof (induction xs arbitrary: w env)
  case (Cons y xs)
  obtain v env' where v: "cb y (w, env) = (v, env')" by (cases "cb y (w, env)")
  have "tw_inv (n + 0) (set (y # xs)) w" using Cons.prems(1) by simp
  from this[THEN assms(1)[unfolded callback_ok_def, rule_format], of y env]
  have inv: "tw_inv n (set (y # xs)) v" by (simp add: v)
  have id: "e_id (the (tw_heap w y)) = y" using tw_heap_pending[OF Cons.prems(1), of y] by auto
  define u where "u = v\<lparr>tw_heap := (tw_heap v)(y := None), tw_free_ids := tw_free_ids v @ [y]\<rparr>"
  note re = tw_release[OF inv _ u_def]
  have "set (y # xs) - {y} = set xs" using Cons.prems(2) by auto
  then have "timers (fst (fire cb xs (u, env'))) x = timers u x"
    using Cons.IH[of u env'] re(1) Cons.prems(2) by simp
  moreover have "timers u x = timers w x"
    using assms(2)[unfolded callback_leaves_def, rule_format, of y w env] re(2) by (simp add: v)
  moreover have "fire cb (y # xs) (w, env) = fire cb xs (u, env')" by (simp add: v id Let_def u_def)
  ultimately show ?case by simp
qed simp

lemma tick_leaves:
  assumes "callback_ok 0 cb" and "callback_leaves x cb" and "tw_inv n {} w"
    and "timers w x \<noteq> Some (tw_current_tick w)"
  shows "timers (fst (tick cb (w, env))) x = timers w x"
proof -
  obtain xs w1 where t: "tick_collect w = (xs, w1)" by (cases "tick_collect w")
  note tc = tick_collect_ok[OF assms(3) t]
  have "x \<notin> set xs" using tc(2) assms(4) by simp
  moreover have "fst (tick cb (w, env)) = (fst (fire cb xs (w1, env)))
      \<lparr>tw_current_tick := tw_current_tick (fst (fire cb xs (w1, env))) + 1\<rparr>"
    by (simp add: tick_def t split: prod.split)
  ultimately show ?thesis using fire_leaves[OF assms(1,2) tc(3,1)] tc(4) by (simp add: timers_clock)
qed

text \<open>A timer stays as it is until the clock reaches its deadline.\<close>

lemma timer_pending:
  assumes cb: "callback_ok 0 cb" "callback_leaves x cb" and inv: "tw_inv n {} w" "timers w x = Some d"
    and early: "\<forall>k < m. tw_current_tick w + of_nat k \<noteq> d"
  shows "tw_inv n {} (fst ((tick cb ^^ m) (w, env))) \<and>
    timers (fst ((tick cb ^^ m) (w, env))) x = Some d \<and>
    tw_current_tick (fst ((tick cb ^^ m) (w, env))) = tw_current_tick w + of_nat m"
  using early
proof (induction m)
  case (Suc m)
  obtain v env' where v: "(tick cb ^^ m) (w, env) = (v, env')" by (cases "(tick cb ^^ m) (w, env)")
  have IH: "tw_inv n {} v" "timers v x = Some d" "tw_current_tick v = tw_current_tick w + of_nat m"
    using Suc by (simp_all add: v)
  have "tw_current_tick v \<noteq> d" using Suc.prems IH(3) by simp
  then have "timers (fst (tick cb (v, env'))) x = Some d"
    using tick_leaves[OF cb IH(1)] IH(2) by simp
  moreover have "tw_inv (n + 0 * length (expiring v)) {} v" using IH(1) by simp
  note tick_ok[OF cb(1) this, of env']
  ultimately show ?case using IH(3) by (simp add: v)
qed (use inv in simp)

lemma expiring_iff:
  "tw_inv n {} w \<Longrightarrow> x \<in> set (expiring w) \<longleftrightarrow> timers w x = Some (tw_current_tick w)"
  using tick_collect_ok(2)[of n w "fst (tick_collect w)" "snd (tick_collect w)"]
  by (simp add: expiring_def)

section \<open>Properties of the wheel\<close>

lemma small_wheel:
  obtains w where "TimingWheel_new 4 = Inr w" and "tw_num_slots w = 4" and "tw_inv (Suc 0) {} w"
proof -
  have "next_power_of_2 4 = 4" by code_simp
  then obtain w where w: "TimingWheel_new 4 = Inr w" "tw_num_slots w = 4"
    by (simp add: TimingWheel_new_def Let_def)
  have "tw_inv (Suc 0) {} w" by (rule TimingWheel_new_inv[OF w(1)]) simp
  with w show thesis by (rule that)
qed



text \<open>
  Before any callback runs, a tick takes out of the wheel exactly the timers that are due,
  each once; after the callbacks, which may schedule, cancel and reschedule, every identifier is
  again accounted for: the expired ones are free for reuse and no entry is leaked.
\<close>

theorem tick_expires_due_timers:
  assumes "tw_inv (n + b * length xs) {} w" and "callback_ok b cb" and "tick_collect w = (xs, w1)"
  shows "distinct xs \<and> set xs = {x. timers w x = Some (tw_current_tick w)} \<and>
    timers w1 = (\<lambda>x. if timers w x = Some (tw_current_tick w) then None else timers w x) \<and>
    fst (tick cb (w, env)) = (fst (fire cb xs (w1, env)))\<lparr>tw_current_tick := tw_current_tick w + 1\<rparr> \<and>
    tw_inv n {} (fst (tick cb (w, env)))"
proof -
  note tc = tick_collect_ok[OF assms(1,3)]
  have x: "expiring w = xs" by (simp add: expiring_def assms(3))
  note fi = fire_ok[OF assms(2) tc(3,1), of env]
  have "fst (tick cb (w, env)) = (fst (fire cb xs (w1, env)))\<lparr>tw_current_tick := tw_current_tick w + 1\<rparr>"
    using fi(2) tc(5) by (cases "fire cb xs (w1, env)") (simp add: tick_def assms(3))
  moreover have "tw_inv n {} (fst (tick cb (w, env)))" using tick_ok[OF assms(2)] assms(1) by (simp add: x)
  ultimately show ?thesis using tc(1,2,4) by auto
qed

theorem tick_expires_due_timers_witness:
  "\<exists>w x w' xs w1. TimingWheel_new 4 = Inr w \<and> schedule 0 w = (Inr x, w') \<and> tick_collect w' = (xs, w1) \<and>
     x \<in> set xs \<and> tw_inv 0 {} (fst (tick (\<lambda>x (w, env). (cancel x w, env)) (w', ())))"
proof -
  obtain w where w: "TimingWheel_new 4 = Inr w" "tw_num_slots w = 4" and inv: "tw_inv (Suc 0) {} w"
    by (rule small_wheel)
  have "ucast (0 :: u32) < tw_num_slots w" by (simp add: w(2))
  then obtain x w' where s: "schedule 0 w = (Inr x, w')" "tw_inv 0 {} w'"
      and t: "timers w' = (timers w)(x \<mapsto> tw_current_tick w + ucast (0 :: u32))"
        "tw_current_tick w' = tw_current_tick w"
    using schedule_ok[OF inv] by blast
  have due: "timers w' x = Some (tw_current_tick w')" by (simp add: t)
  obtain xs w1 where t: "tick_collect w' = (xs, w1)" by (cases "tick_collect w'")
  have "tw_inv (0 + 0 * length xs) {} w'" using s(2) by simp
  note r = tick_expires_due_timers[OF this callback_cancel[of 0 "\<lambda>x env. x" "\<lambda>x env. env"] t, of "()"]
  have "x \<in> set xs" using r due by simp
  moreover have "tw_inv 0 {} (fst (tick (\<lambda>x (w, env). (cancel x w, env)) (w', ())))"
    using r by (elim conjE)
  ultimately show ?thesis
    by (intro exI[of _ w] exI[of _ x] exI[of _ w'] exI[of _ xs] exI[of _ w1] conjI w(1) s(1) t)
qed

text \<open>
  A timer scheduled with 0 ticks from inside an expiry callback (the clock still shows the
  tick being processed, and advances right after) does not expire in any of the next
  \<open>2 ^ 64 - 1\<close> ticks, whereas the interface documents that it expires after one revolution of
  the wheel, \<open>num_slots\<close> ticks later.
\<close>

theorem schedule_zero_in_callback_lost:
  assumes "tw_inv (Suc n) {} w" and "schedule 0 w = (Inr x, w')"
    and "callback_ok 0 cb" and "callback_leaves x cb" and "m < 2 ^ 64 - 1"
  shows "x \<notin> set (expiring (fst ((tick cb ^^ m) (w'\<lparr>tw_current_tick := tw_current_tick w' + 1\<rparr>, env))))"
proof -
  let ?v = "w'\<lparr>tw_current_tick := tw_current_tick w' + 1\<rparr>"
  have "ucast (0 :: u32) < tw_num_slots w"
    using assms(1) unfolding tw_inv_def by (auto simp: word_less_nat_alt)
  then obtain y v where y: "schedule 0 w = (Inr y, v)" "tw_inv n {} v"
      "timers v = (timers w)(y \<mapsto> tw_current_tick w + ucast (0 :: u32))" "tw_current_tick v = tw_current_tick w"
    using schedule_ok[OF assms(1)] by blast
  then have w': "tw_inv n {} w'" "timers w' x = Some (tw_current_tick w')" using assms(2) by simp_all
  have v: "tw_inv n {} ?v" "timers ?v x = Some (tw_current_tick w')"
    using w' by (simp_all add: tw_inv_clock timers_clock)
  have ne: "tw_current_tick ?v + of_nat k \<noteq> tw_current_tick w'" if "k < 2 ^ 64 - 1" for k
  proof
    assume "tw_current_tick ?v + of_nat k = tw_current_tick w'"
    then have "of_nat (Suc k) = (0 :: u64)" by (simp add: add.assoc)
    then have "unat (of_nat (Suc k) :: u64) = 0" by simp
    moreover have "unat (of_nat (Suc k) :: u64) = Suc k" using that by (intro unat_of_nat_small) simp
    ultimately show False by simp
  qed
  have "\<forall>k < m. tw_current_tick ?v + of_nat k \<noteq> tw_current_tick w'" using ne assms(5) by simp
  note p = timer_pending[OF assms(3,4) v this, of env]
  then have "tw_inv n {} (fst ((tick cb ^^ m) (?v, env)))" by (elim conjE)
  from expiring_iff[OF this, of x] show ?thesis using p ne[OF assms(5)] by simp
qed

theorem schedule_zero_in_callback_lost_witness:
  "\<exists>w x w'. TimingWheel_new 4 = Inr w \<and> schedule 0 w = (Inr x, w') \<and>
     x \<notin> set (expiring (fst ((tick (\<lambda>x s. s) ^^ 1000) (w'\<lparr>tw_current_tick := tw_current_tick w' + 1\<rparr>, ()))))"
proof -
  obtain w where w: "TimingWheel_new 4 = Inr w" "tw_num_slots w = 4" and inv: "tw_inv (Suc 0) {} w"
    by (rule small_wheel)
  have "ucast (0 :: u32) < tw_num_slots w" by (simp add: w(2))
  then obtain x w' where s: "schedule 0 w = (Inr x, w')" using schedule_ok[OF inv] by blast
  have "callback_ok 0 (\<lambda>x s. s)" "callback_leaves x (\<lambda>x s. s)"
    by (simp_all add: callback_ok_def callback_leaves_def)
  from schedule_zero_in_callback_lost[OF inv s this, of 1000 "()"] show ?thesis using w(1) s by auto
qed

section \<open>What users of the wheel rely on\<close>

text \<open>
  The contract of a timer service: a map from identifiers to deadlines that \<open>schedule\<close>
  extends by a fresh non-zero identifier, \<open>cancel\<close> shrinks and \<open>reschedule\<close> updates.
\<close>

locale timer_service =
  fixes tok :: "nat \<Rightarrow> 's \<Rightarrow> bool" and tview :: "'s \<Rightarrow> u64 \<Rightarrow> u64 option" and tnow :: "'s \<Rightarrow> u64"
    and tslots :: "'s \<Rightarrow> u64" and tschedule :: "u32 \<Rightarrow> 's \<Rightarrow> (cpp_exception + u64) \<times> 's"
    and tcancel :: "u64 \<Rightarrow> 's \<Rightarrow> 's" and treschedule :: "u64 \<Rightarrow> u32 \<Rightarrow> 's \<Rightarrow> (cpp_exception + unit) \<times> 's"
  assumes ok_mono: "tok (n + b) s \<Longrightarrow> tok n s"
    and schedule_law: "tok (Suc n) s \<Longrightarrow> ucast t < tslots s \<Longrightarrow>
      \<exists>x s'. tschedule t s = (Inr x, s') \<and> tok n s' \<and> tview s' = (tview s)(x \<mapsto> tnow s + ucast t) \<and>
        tview s x = None \<and> x \<noteq> 0 \<and> tnow s' = tnow s \<and> tslots s' = tslots s"
    and schedule_range_law: "tslots s \<le> ucast t \<Longrightarrow> tschedule t s = (Inl std_out_of_range, s)"
    and cancel_law: "tok n s \<Longrightarrow> tok n (tcancel x s) \<and> tview (tcancel x s) = (tview s)(x := None) \<and>
        tnow (tcancel x s) = tnow s \<and> tslots (tcancel x s) = tslots s"
    and reschedule_law: "tok n s \<Longrightarrow> ucast t < tslots s \<Longrightarrow>
      \<exists>s'. treschedule x t s = (Inr (), s') \<and> tok n s' \<and>
        tview s' = (if tview s x = None then tview s else (tview s)(x \<mapsto> tnow s + ucast t)) \<and>
        tnow s' = tnow s \<and> tslots s' = tslots s"
begin

lemma schedule_cases:
  assumes "tok (Suc n) s"
  obtains (range) "tslots s \<le> ucast t" "tschedule t s = (Inl std_out_of_range, s)"
  | (ok) x s' where "ucast t < tslots s" "tschedule t s = (Inr x, s')" "tok n s'"
      "tview s' = (tview s)(x \<mapsto> tnow s + ucast t)" "tview s x = None" "x \<noteq> 0"
      "tnow s' = tnow s" "tslots s' = tslots s"
  using schedule_law[OF assms, of t] schedule_range_law[of s t] by (meson linorder_not_le)

text \<open>Cancelling the timer just scheduled restores the timers; cancelling twice is cancelling
  once; a cancelled timer cannot be revived.\<close>

lemma schedule_cancel:
  assumes "tok (Suc n) s" and "tschedule t s = (Inr x, s')"
  shows "tview (tcancel x s') = tview s"
  using assms(1)
proof (cases rule: schedule_cases[where t = t])
  case (ok y u)
  then show ?thesis using assms(2) cancel_law[of n s' x] by auto
qed (use assms(2) in simp)

lemma reschedule_cancelled:
  assumes "tok n s" and "ucast t < tslots s"
  shows "tview (snd (treschedule x t (tcancel x s))) x = None"
  using cancel_law[OF assms(1), of x] reschedule_law[of n "tcancel x s" t x] assms(2) by auto

end

interpretation wheel: timer_service "\<lambda>n. tw_inv n P" timers tw_current_tick tw_num_slots schedule cancel reschedule for P
proof (unfold_locales, goal_cases)
  case (1 n b s) then show ?case by (rule tw_inv_mono)
next
  case (2 n s t) then show ?case using schedule_ok[of n P s t] by blast
next
  case (3 s t) then show ?case by (rule schedule_range)
next
  case (4 n s x) then show ?case using cancel_ok[of n P s x] by simp
next
  case (5 n s t x) then show ?case by (rule reschedule_ok)
qed

end
