(* ===== verification/Session_Manager.thy ===== *)
theory Session_Manager
  imports Session Timing_Wheel Slab_Allocator
begin

text \<open>
  \<open>apex_core/src/session_manager.cpp\<close>: the sessions of one core and their heartbeat timers. A
  session object is identified by its session id, which is issued once; the store holds every
  allocated session, the table the ones the manager knows, and the pointers to a session are
  counted in it. Memory is outside: \<open>pool_alloc\<close> and \<open>buf_alloc\<close> stand for the aligned
  allocations of the session pool and of the receive buffers, \<open>realloc\<close> for that of the C
  library. The remove and timeout callbacks may change the manager and an environment, and may
  throw.
\<close>

record SessionManager =
  sm_core_id :: u32
  sm_heartbeat_timeout_ticks :: u32
  sm_recv_buf_capacity :: u64
  sm_max_queue_depth :: u64
  sm_next_id :: u64
  sm_sessions_created :: u64
  sm_sessions_timeout :: u64
  sm_heap_fallback :: u64
  sm_pool :: SlabAllocator
  sm_store :: "u64 \<Rightarrow> Session option"
  sm_sessions :: "u64 list"
  sm_wheel :: TimingWheel
  sm_timer_to_session :: "u64 \<Rightarrow> u64 option"
  sm_shrink_tick_counter :: u32

definition kShrinkIntervalTicks :: u32 where "kShrinkIntervalTicks = 600"

text \<open>A callback, and whether it threw; \<open>None\<close> is a callback that is not set.\<close>

type_synonym 'e sm_callback = "(u64 \<Rightarrow> SessionManager \<times> 'e \<Rightarrow> bool \<times> SessionManager \<times> 'e) option"

definition SessionManager_new ::
  "u32 \<Rightarrow> u32 \<Rightarrow> u64 \<Rightarrow> u64 \<Rightarrow> u64 \<Rightarrow> SlabAllocator \<Rightarrow> cpp_exception + SessionManager" where
  "SessionManager_new core_id heartbeat_timeout_ticks timer_wheel_slots recv_buf_capacity max_queue_depth pool =
     (case TimingWheel_new timer_wheel_slots of
        Inl e \<Rightarrow> Inl e
      | Inr wheel \<Rightarrow>
          Inr \<lparr>sm_core_id = core_id, sm_heartbeat_timeout_ticks = heartbeat_timeout_ticks,
               sm_recv_buf_capacity = recv_buf_capacity, sm_max_queue_depth = max_queue_depth,
               sm_next_id = 1, sm_sessions_created = 0, sm_sessions_timeout = 0, sm_heap_fallback = 0,
               sm_pool = pool, sm_store = (\<lambda>i. None), sm_sessions = [], sm_wheel = wheel,
               sm_timer_to_session = (\<lambda>t. None), sm_shrink_tick_counter = 0\<rparr>)"

text \<open>An assignment to the session object with the given id.\<close>

definition upd_session :: "u64 \<Rightarrow> (Session \<Rightarrow> Session) \<Rightarrow> SessionManager \<Rightarrow> SessionManager" where
  "upd_session i f sm = sm\<lparr>sm_store := (sm_store sm)(i := map_option f (sm_store sm i))\<rparr>"

text \<open>Dropping one pointer to a session: the last one destroys the object, which closes it.\<close>

definition drop_ptr :: "u64 \<Rightarrow> SessionManager \<Rightarrow> SessionManager" where
  "drop_ptr i sm =
     (case sm_store sm i of
        None \<Rightarrow> sm
      | Some s \<Rightarrow>
          (case intrusive_ptr_release s of
             (Keep, s') \<Rightarrow> sm\<lparr>sm_store := (sm_store sm)(i \<mapsto> s')\<rparr>
           | (Pool_destroy p, s') \<Rightarrow>
               sm\<lparr>sm_store := (sm_store sm)(i := None), sm_pool := slab_deallocate p (sm_pool sm)\<rparr>
           | (Heap_delete, s') \<Rightarrow> sm\<lparr>sm_store := (sm_store sm)(i := None)\<rparr>))"

text \<open>
  \<open>TypedSlabAllocator::construct\<close> with a fallback to the heap: the session, and the manager
  with its pool and fallback counter. A constructor that throws gives the slot back.
\<close>

definition construct_session ::
  "(u64 \<Rightarrow> u64 \<Rightarrow> u64 option) \<Rightarrow> (u64 \<Rightarrow> u64 \<Rightarrow> bytes option) \<Rightarrow> u64 \<Rightarrow> SessionManager \<Rightarrow>
   (cpp_exception + Session) \<times> SessionManager" where
  "construct_session pool_alloc buf_alloc i sm =
     (case slab_allocate_slot pool_alloc (sm_pool sm) of
        (Inl e, pool) \<Rightarrow> (Inl e, sm\<lparr>sm_pool := pool\<rparr>)
      | (Inr p, pool) \<Rightarrow>
          (case RingBuffer_new buf_alloc (sm_recv_buf_capacity sm) of
             Inl e \<Rightarrow> (Inl e, sm\<lparr>sm_pool := (case p of Some a \<Rightarrow> slab_deallocate a pool | None \<Rightarrow> pool)\<rparr>)
           | Inr rb \<Rightarrow>
               let s = Session_new i (sm_core_id sm) rb (sm_max_queue_depth sm) in
               (case p of
                  Some a \<Rightarrow> (Inr (s\<lparr>s_pool_owner := Some a\<rparr>), sm\<lparr>sm_pool := pool\<rparr>)
                | None \<Rightarrow> (Inr s, sm\<lparr>sm_pool := pool, sm_heap_fallback := sm_heap_fallback sm + 1\<rparr>))))"

definition create_session ::
  "(u64 \<Rightarrow> u64 \<Rightarrow> u64 option) \<Rightarrow> (u64 \<Rightarrow> u64 \<Rightarrow> bytes option) \<Rightarrow> SessionManager \<Rightarrow>
   (cpp_exception + u64) \<times> SessionManager" where
  "create_session pool_alloc buf_alloc sm =
     (let i = sm_next_id sm;
          sm = sm\<lparr>sm_next_id := i + 1\<rparr>
      in case construct_session pool_alloc buf_alloc i sm of
           (Inl e, sm) \<Rightarrow> (Inl e, sm)
         | (Inr raw, sm) \<Rightarrow>
             let s = set_state Active (intrusive_ptr_add_ref (intrusive_ptr_add_ref raw));
                 sm = sm\<lparr>sm_store := (sm_store sm)(i \<mapsto> s),
                         sm_sessions := (if i \<in> set (sm_sessions sm) then sm_sessions sm else sm_sessions sm @ [i])\<rparr>
             in if 0 < sm_heartbeat_timeout_ticks sm
                then case schedule (sm_heartbeat_timeout_ticks sm) (sm_wheel sm) of
                       (Inl e, w) \<Rightarrow> (Inl e, drop_ptr i (sm\<lparr>sm_wheel := w\<rparr>))
                     | (Inr t, w) \<Rightarrow>
                         let sm = sm\<lparr>sm_wheel := w, sm_timer_to_session := (sm_timer_to_session sm)(t \<mapsto> i)\<rparr>;
                             sm = upd_session i (\<lambda>s. s\<lparr>s_timer_entry_id := t\<rparr>) sm
                         in (Inr i, sm\<lparr>sm_sessions_created := sm_sessions_created sm + 1\<rparr>)
                else (Inr i, sm\<lparr>sm_sessions_created := sm_sessions_created sm + 1\<rparr>))"

definition timer_of :: "SessionManager \<Rightarrow> u64 \<Rightarrow> u64" where
  "timer_of sm i = (case sm_store sm i of None \<Rightarrow> 0 | Some s \<Rightarrow> s_timer_entry_id s)"

definition find_session :: "u64 \<Rightarrow> SessionManager \<Rightarrow> u64 option" where
  "find_session i sm = (if i \<in> set (sm_sessions sm) then Some i else None)"

text \<open>Removing a session from the table drops the pointer of the table.\<close>

definition erase_session :: "u64 \<Rightarrow> SessionManager \<Rightarrow> SessionManager" where
  "erase_session i sm =
     (if i \<in> set (sm_sessions sm) then drop_ptr i (sm\<lparr>sm_sessions := removeAll i (sm_sessions sm)\<rparr>) else sm)"

definition call_back :: "'e sm_callback \<Rightarrow> u64 \<Rightarrow> SessionManager \<times> 'e \<Rightarrow> bool \<times> SessionManager \<times> 'e" where
  "call_back cb i st = (case cb of None \<Rightarrow> (False, st) | Some f \<Rightarrow> f i st)"

text \<open>The cancellation of a session's timer in \<open>remove_session\<close>.\<close>

definition cancel_timer :: "u64 \<Rightarrow> SessionManager \<Rightarrow> SessionManager" where
  "cancel_timer i sm =
     (let t = timer_of sm i in
      if t \<noteq> 0
      then upd_session i (\<lambda>s. s\<lparr>s_timer_entry_id := 0\<rparr>)
             (sm\<lparr>sm_wheel := cancel t (sm_wheel sm),
                 sm_timer_to_session := (sm_timer_to_session sm)(t := None)\<rparr>)
      else sm)"

text \<open>The result says whether the remove callback threw, which leaves the session in the table.\<close>

definition remove_session :: "'e sm_callback \<Rightarrow> u64 \<Rightarrow> SessionManager \<times> 'e \<Rightarrow> bool \<times> SessionManager \<times> 'e" where
  "remove_session remove_callback i st =
     (let (sm, env) = st in
      if i \<notin> set (sm_sessions sm) then (False, sm, env)
      else let sm = cancel_timer i (upd_session i session_close sm);
               (thrown, sm, env) = call_back remove_callback i (sm, env)
           in if thrown then (True, sm, env) else (False, erase_session i sm, env))"

definition touch_session :: "u64 \<Rightarrow> SessionManager \<Rightarrow> (cpp_exception + unit) \<times> SessionManager" where
  "touch_session i sm =
     (if sm_heartbeat_timeout_ticks sm = 0 then (Inr (), sm)
      else if i \<notin> set (sm_sessions sm) then (Inr (), sm)
      else if timer_of sm i = 0 then (Inr (), sm)
      else case reschedule (timer_of sm i) (sm_heartbeat_timeout_ticks sm) (sm_wheel sm) of
             (r, w) \<Rightarrow> (r, sm\<lparr>sm_wheel := w\<rparr>))"

text \<open>
  \<open>on_timer_expire\<close> keeps a pointer of its own to the session while it runs. An exception of
  the remove callback leaves it and drops that pointer; the timer wheel catches the exception.
  One of the timeout callback is caught here.
\<close>

definition on_timer_expire ::
  "'e sm_callback \<Rightarrow> 'e sm_callback \<Rightarrow> u64 \<Rightarrow> SessionManager \<times> 'e \<Rightarrow> SessionManager \<times> 'e" where
  "on_timer_expire remove_callback timeout_callback t st =
     (let (sm, env) = st in
      case sm_timer_to_session sm t of
        None \<Rightarrow> (sm, env)
      | Some i \<Rightarrow>
          let sm = sm\<lparr>sm_timer_to_session := (sm_timer_to_session sm)(t := None)\<rparr> in
          if i \<notin> set (sm_sessions sm) then (sm, env)
          else let sm = sm\<lparr>sm_sessions_timeout := sm_sessions_timeout sm + 1\<rparr>;
                   sm = upd_session i intrusive_ptr_add_ref sm;
                   sm = upd_session i (\<lambda>s. s\<lparr>s_timer_entry_id := 0\<rparr>) sm;
                   (thrown, sm, env) = call_back remove_callback i (sm, env)
               in if thrown then (drop_ptr i sm, env)
                  else let sm = erase_session i sm;
                           (_, sm, env) = call_back timeout_callback i (sm, env);
                           sm = upd_session i session_close sm
                       in (drop_ptr i sm, env))"

text \<open>The callback the manager gives to its wheel.\<close>

definition wheel_callback ::
  "'e sm_callback \<Rightarrow> 'e sm_callback \<Rightarrow> u64 \<Rightarrow> TimingWheel \<times> SessionManager \<times> 'e \<Rightarrow> TimingWheel \<times> SessionManager \<times> 'e" where
  "wheel_callback remove_callback timeout_callback t st =
     (let (w, sm, env) = st;
          (sm, env) = on_timer_expire remove_callback timeout_callback t (sm\<lparr>sm_wheel := w\<rparr>, env)
      in (sm_wheel sm, sm, env))"

definition shrink_buffers :: "(bytes option \<Rightarrow> u64 \<Rightarrow> bytes option) \<Rightarrow> SessionManager \<Rightarrow> SessionManager" where
  "shrink_buffers realloc sm =
     fold (\<lambda>i. upd_session i (\<lambda>s. s\<lparr>s_recv_buf := shrink_to_fit realloc (s_recv_buf s)\<rparr>)) (sm_sessions sm) sm"

definition sm_tick ::
  "(bytes option \<Rightarrow> u64 \<Rightarrow> bytes option) \<Rightarrow> 'e sm_callback \<Rightarrow> 'e sm_callback \<Rightarrow> SessionManager \<times> 'e \<Rightarrow> SessionManager \<times> 'e" where
  "sm_tick realloc remove_callback timeout_callback st =
     (let (sm, env) = st;
          (w, sm, env) = tick (wheel_callback remove_callback timeout_callback) (sm_wheel sm, sm, env);
          sm = sm\<lparr>sm_wheel := w\<rparr>;
          sm = sm\<lparr>sm_shrink_tick_counter := sm_shrink_tick_counter sm + 1\<rparr>
      in if kShrinkIntervalTicks \<le> sm_shrink_tick_counter sm
         then (shrink_buffers realloc (sm\<lparr>sm_shrink_tick_counter := 0\<rparr>), env)
         else (sm, env))"

definition sm_for_each :: "(u64 \<Rightarrow> 'e \<Rightarrow> 'e) \<Rightarrow> SessionManager \<Rightarrow> 'e \<Rightarrow> 'e" where
  "sm_for_each fn sm env = fold fn (sm_sessions sm) env"

definition session_count :: "SessionManager \<Rightarrow> u64" where
  "session_count sm = of_nat (length (sm_sessions sm))"

section \<open>Invariant\<close>

text \<open>
  The table, the timers and the reverse map agree: every session in the table is allocated; its
  timer, if it has one, is scheduled (or among the expired timers \<open>P\<close> being processed) and
  leads back to it; every session has a timer unless heartbeats are off or it is in \<open>X\<close>; the
  reverse map has no other entries. At least \<open>n\<close> session ids and timer ids remain.
\<close>

definition session_ok :: "u64 set \<Rightarrow> u64 set \<Rightarrow> SessionManager \<Rightarrow> u64 \<Rightarrow> bool" where
  "session_ok P X sm i \<longleftrightarrow> 0 < unat i \<and> unat i < unat (sm_next_id sm) \<and> sm_store sm i \<noteq> None \<and>
     (timer_of sm i = 0 \<longrightarrow> sm_heartbeat_timeout_ticks sm = 0 \<or> i \<in> X) \<and>
     (timer_of sm i \<noteq> 0 \<longrightarrow> sm_timer_to_session sm (timer_of sm i) = Some i \<and>
        (timers (sm_wheel sm) (timer_of sm i) \<noteq> None \<or> timer_of sm i \<in> P))"

definition sm_inv :: "nat \<Rightarrow> u64 set \<Rightarrow> u64 set \<Rightarrow> SessionManager \<Rightarrow> bool" where
  "sm_inv n P X sm \<longleftrightarrow>
     tw_inv n P (sm_wheel sm) \<and> distinct (sm_sessions sm) \<and>
     ucast (sm_heartbeat_timeout_ticks sm) < tw_num_slots (sm_wheel sm) \<and>
     0 < unat (sm_next_id sm) \<and> unat (sm_next_id sm) + n < 2 ^ 64 \<and>
     (\<forall>i \<in> set (sm_sessions sm). session_ok P X sm i) \<and>
     (\<forall>t i. sm_timer_to_session sm t = Some i \<longrightarrow> i \<in> set (sm_sessions sm) \<and> timer_of sm i = t \<and> t \<noteq> 0)"

lemma sm_invD:
  assumes "sm_inv n P X sm"
  shows "tw_inv n P (sm_wheel sm)" "distinct (sm_sessions sm)"
    "ucast (sm_heartbeat_timeout_ticks sm) < tw_num_slots (sm_wheel sm)"
    "0 < unat (sm_next_id sm)" "unat (sm_next_id sm) + n < 2 ^ 64"
    "i \<in> set (sm_sessions sm) \<Longrightarrow> session_ok P X sm i"
    "sm_timer_to_session sm t = Some i \<Longrightarrow> i \<in> set (sm_sessions sm)"
    "sm_timer_to_session sm t = Some i \<Longrightarrow> timer_of sm i = t"
    "sm_timer_to_session sm t = Some i \<Longrightarrow> t \<noteq> 0"
  using assms unfolding sm_inv_def by blast+

lemma sm_invI:
  assumes "tw_inv n P (sm_wheel sm)" "distinct (sm_sessions sm)"
    "ucast (sm_heartbeat_timeout_ticks sm) < tw_num_slots (sm_wheel sm)"
    "0 < unat (sm_next_id sm)" "unat (sm_next_id sm) + n < 2 ^ 64"
    "\<And>i. i \<in> set (sm_sessions sm) \<Longrightarrow> session_ok P X sm i"
    "\<And>t i. sm_timer_to_session sm t = Some i \<Longrightarrow> i \<in> set (sm_sessions sm) \<and> timer_of sm i = t \<and> t \<noteq> 0"
  shows "sm_inv n P X sm"
  unfolding sm_inv_def using assms by blast

text \<open>A session in the table with a timer is the one its timer leads to.\<close>

lemma sm_timer_unique:
  assumes "sm_inv n P X sm" "i \<in> set (sm_sessions sm)" "j \<in> set (sm_sessions sm)"
    "timer_of sm i = timer_of sm j" "timer_of sm i \<noteq> 0"
  shows "i = j"
  using sm_invD(6)[OF assms(1,2)] sm_invD(6)[OF assms(1,3)] assms(4,5) by (simp add: session_ok_def)

lemma sm_inv_cong:
  assumes "sm_wheel sm' = sm_wheel sm" "sm_sessions sm' = sm_sessions sm"
    "sm_heartbeat_timeout_ticks sm' = sm_heartbeat_timeout_ticks sm" "sm_next_id sm' = sm_next_id sm"
    "sm_timer_to_session sm' = sm_timer_to_session sm"
    "\<And>i. i \<in> set (sm_sessions sm) \<Longrightarrow> timer_of sm' i = timer_of sm i \<and> (sm_store sm' i = None \<longleftrightarrow> sm_store sm i = None)"
  shows "sm_inv n P X sm' = sm_inv n P X sm"
proof -
  have "(\<forall>t i. sm_timer_to_session sm t = Some i \<longrightarrow> i \<in> set (sm_sessions sm) \<and> timer_of sm' i = t \<and> t \<noteq> 0) =
      (\<forall>t i. sm_timer_to_session sm t = Some i \<longrightarrow> i \<in> set (sm_sessions sm) \<and> timer_of sm i = t \<and> t \<noteq> 0)"
    by (intro all_cong1 imp_cong refl conj_cong) (simp add: assms(6))
  moreover have "(\<forall>i \<in> set (sm_sessions sm). session_ok P X sm' i) = (\<forall>i \<in> set (sm_sessions sm). session_ok P X sm i)"
    by (intro ball_cong refl) (simp add: session_ok_def assms)
  ultimately show ?thesis unfolding sm_inv_def assms(1-5) by (simp only:)
qed

lemma sm_inv_mono: "sm_inv (n + b) P X sm \<Longrightarrow> sm_inv n P X sm"
  unfolding sm_inv_def by (auto intro: tw_inv_mono)

lemma upd_session_fields [simp]:
  "sm_wheel (upd_session i f sm) = sm_wheel sm" "sm_sessions (upd_session i f sm) = sm_sessions sm"
  "sm_heartbeat_timeout_ticks (upd_session i f sm) = sm_heartbeat_timeout_ticks sm"
  "sm_next_id (upd_session i f sm) = sm_next_id sm"
  "sm_timer_to_session (upd_session i f sm) = sm_timer_to_session sm"
  "(sm_store (upd_session i f sm) j = None) = (sm_store sm j = None)"
  by (simp_all add: upd_session_def)

lemma timer_of_upd_other [simp]: "j \<noteq> i \<Longrightarrow> timer_of (upd_session i f sm) j = timer_of sm j"
  by (simp add: timer_of_def upd_session_def)

lemma timer_of_upd:
  "(\<And>s. s_timer_entry_id (f s) = s_timer_entry_id s) \<Longrightarrow> timer_of (upd_session i f sm) j = timer_of sm j"
  by (auto simp: timer_of_def upd_session_def split: option.split)

lemma timer_of_clear [simp]: "timer_of (upd_session i (\<lambda>s. s\<lparr>s_timer_entry_id := 0\<rparr>) sm) i = 0"
  by (auto simp: timer_of_def upd_session_def split: option.split)

lemma timer_of_fields [simp]:
  "timer_of (sm\<lparr>sm_wheel := w\<rparr>) i = timer_of sm i" "timer_of (sm\<lparr>sm_timer_to_session := m\<rparr>) i = timer_of sm i"
  "timer_of (sm\<lparr>sm_sessions := ss\<rparr>) i = timer_of sm i" "timer_of (sm\<lparr>sm_sessions_timeout := c\<rparr>) i = timer_of sm i"
  "timer_of (sm\<lparr>sm_shrink_tick_counter := d\<rparr>) i = timer_of sm i" "timer_of (sm\<lparr>sm_next_id := k\<rparr>) i = timer_of sm i"
  "timer_of (sm\<lparr>sm_sessions_created := c\<rparr>) i = timer_of sm i"
  by (simp_all add: timer_of_def)

lemma drop_ptr_fields [simp]:
  "sm_wheel (drop_ptr i sm) = sm_wheel sm" "sm_sessions (drop_ptr i sm) = sm_sessions sm"
  "sm_heartbeat_timeout_ticks (drop_ptr i sm) = sm_heartbeat_timeout_ticks sm"
  "sm_next_id (drop_ptr i sm) = sm_next_id sm"
  "sm_timer_to_session (drop_ptr i sm) = sm_timer_to_session sm"
  by (auto simp: drop_ptr_def split: option.split prod.split release_action.split)

lemma drop_ptr_other [simp]:
  "j \<noteq> i \<Longrightarrow> sm_store (drop_ptr i sm) j = sm_store sm j"
  "j \<noteq> i \<Longrightarrow> timer_of (drop_ptr i sm) j = timer_of sm j"
  by (auto simp: drop_ptr_def timer_of_def split: option.split prod.split release_action.split)

lemma drop_ptr_inv: "i \<notin> set (sm_sessions sm) \<Longrightarrow> sm_inv n P X (drop_ptr i sm) = sm_inv n P X sm"
proof (rule sm_inv_cong)
  fix j assume "i \<notin> set (sm_sessions sm)" "j \<in> set (sm_sessions sm)"
  then have "j \<noteq> i" by auto
  then show "timer_of (drop_ptr i sm) j = timer_of sm j \<and> (sm_store (drop_ptr i sm) j = None \<longleftrightarrow> sm_store sm j = None)"
    by simp
qed simp_all

lemma erase_session_sessions [simp]: "sm_sessions (erase_session i sm) = removeAll i (sm_sessions sm)"
  by (simp add: erase_session_def)

lemma erase_session_fields [simp]:
  "sm_wheel (erase_session i sm) = sm_wheel sm"
  "sm_heartbeat_timeout_ticks (erase_session i sm) = sm_heartbeat_timeout_ticks sm"
  "sm_timer_to_session (erase_session i sm) = sm_timer_to_session sm"
  "j \<noteq> i \<Longrightarrow> timer_of (erase_session i sm) j = timer_of sm j"
  by (simp_all add: erase_session_def)

text \<open>A session without a timer can be erased; being erased it needs no exemption.\<close>

lemma erase_session_inv:
  assumes inv: "sm_inv n P (insert i X) sm" and "i \<in> set (sm_sessions sm) \<longrightarrow> timer_of sm i = 0"
  shows "sm_inv n P X (erase_session i sm)"
proof (cases "i \<in> set (sm_sessions sm)")
  case True
  let ?sm = "sm\<lparr>sm_sessions := removeAll i (sm_sessions sm)\<rparr>"
  have "sm_inv n P X ?sm"
  proof (rule sm_invI)
    fix j assume j: "j \<in> set (sm_sessions ?sm)"
    then show "session_ok P X ?sm j" using sm_invD(6)[OF inv, of j] by (auto simp: session_ok_def)
  next
    fix t j assume "sm_timer_to_session ?sm t = Some j"
    then have t: "sm_timer_to_session sm t = Some j" by simp
    note r = sm_invD(7-9)[OF inv t]
    then have "j \<noteq> i" using assms(2) by auto
    then show "j \<in> set (sm_sessions ?sm) \<and> timer_of ?sm j = t \<and> t \<noteq> 0" using r by simp
  qed (use sm_invD(1-5)[OF inv] in \<open>simp_all add: distinct_removeAll\<close>)
  then show ?thesis using True by (simp add: erase_session_def drop_ptr_inv)
next
  case False
  then show ?thesis using inv by (auto simp: sm_inv_def session_ok_def erase_session_def)
qed

lemma cancel_timer_fields [simp]:
  "sm_sessions (cancel_timer i sm) = sm_sessions sm"
  "sm_heartbeat_timeout_ticks (cancel_timer i sm) = sm_heartbeat_timeout_ticks sm"
  "timer_of (cancel_timer i sm) i = 0"
  "j \<noteq> i \<Longrightarrow> timer_of (cancel_timer i sm) j = timer_of sm j"
  by (simp_all add: cancel_timer_def Let_def)

text \<open>Taking a session off its timer, whether the timer is cancelled or has just expired.\<close>

lemma sm_unmap:
  assumes inv: "sm_inv n P X sm" and t: "sm_timer_to_session sm t = Some i"
    and w: "tw_inv n P (sm_wheel sm')" "\<And>y. y \<noteq> t \<Longrightarrow> timers (sm_wheel sm') y = timers (sm_wheel sm) y"
      "tw_num_slots (sm_wheel sm') = tw_num_slots (sm_wheel sm)"
    and f: "sm_sessions sm' = sm_sessions sm" "sm_next_id sm' = sm_next_id sm"
      "sm_heartbeat_timeout_ticks sm' = sm_heartbeat_timeout_ticks sm"
      "sm_timer_to_session sm' = (sm_timer_to_session sm)(t := None)"
      "\<And>j. (sm_store sm' j = None) = (sm_store sm j = None)"
      "timer_of sm' i = 0" "\<And>j. j \<noteq> i \<Longrightarrow> timer_of sm' j = timer_of sm j"
  shows "sm_inv n P (insert i X) sm'"
proof (rule sm_invI)
  note ti = sm_invD(7-9)[OF inv t]
  show "ucast (sm_heartbeat_timeout_ticks sm') < tw_num_slots (sm_wheel sm')"
    using sm_invD(3)[OF inv] by (simp add: f w)
  fix j assume "j \<in> set (sm_sessions sm')"
  then have j: "j \<in> set (sm_sessions sm)" by (simp add: f)
  show "session_ok P (insert i X) sm' j"
  proof (cases "j = i")
    case True
    then show ?thesis using sm_invD(6)[OF inv j] by (simp add: session_ok_def f)
  next
    case False
    then have "timer_of sm j \<noteq> 0 \<Longrightarrow> timer_of sm j \<noteq> t"
      using sm_timer_unique[OF inv j ti(1)] ti(2) by auto
    then show ?thesis using sm_invD(6)[OF inv j] False by (simp add: session_ok_def f w)
  qed
next
  fix t' j assume "sm_timer_to_session sm' t' = Some j"
  then have t': "sm_timer_to_session sm t' = Some j" "t' \<noteq> t" by (auto simp: f split: if_splits)
  note r = sm_invD(7-9)[OF inv t'(1)]
  then have "j \<noteq> i" using t'(2) sm_invD(8)[OF inv t] by auto
  then show "j \<in> set (sm_sessions sm') \<and> timer_of sm' j = t' \<and> t' \<noteq> 0" using r by (simp add: f)
qed (use sm_invD(2,4,5)[OF inv] w(1) in \<open>simp_all add: f\<close>)

lemma cancel_timer_inv:
  assumes inv: "sm_inv n P X sm" and "i \<in> set (sm_sessions sm)"
  shows "sm_inv n P (insert i X) (cancel_timer i sm)"
    and "timers (sm_wheel (cancel_timer i sm)) =
      (if timer_of sm i = 0 then timers (sm_wheel sm) else (timers (sm_wheel sm))(timer_of sm i := None))"
    and "tw_current_tick (sm_wheel (cancel_timer i sm)) = tw_current_tick (sm_wheel sm)"
proof -
  let ?t = "timer_of sm i"
  have w: "tw_inv n P (sm_wheel sm)" by (rule sm_invD(1)[OF inv])
  note c = cancel_ok[OF w, of ?t]
  show "timers (sm_wheel (cancel_timer i sm)) =
      (if timer_of sm i = 0 then timers (sm_wheel sm) else (timers (sm_wheel sm))(timer_of sm i := None))"
    "tw_current_tick (sm_wheel (cancel_timer i sm)) = tw_current_tick (sm_wheel sm)"
    using c by (simp_all add: cancel_timer_def Let_def)
  show "sm_inv n P (insert i X) (cancel_timer i sm)"
  proof (cases "?t = 0")
    case True
    then have "cancel_timer i sm = sm" by (simp add: cancel_timer_def)
    then show ?thesis using inv by (auto simp: sm_inv_def session_ok_def)
  next
    case False
    then have "sm_timer_to_session sm ?t = Some i"
      using sm_invD(6)[OF inv assms(2)] by (simp add: session_ok_def)
    then show ?thesis
      by (rule sm_unmap[OF inv]) (use False c in \<open>simp_all add: cancel_timer_def Let_def\<close>)
  qed
qed

section \<open>The operations\<close>

text \<open>
  A callback keeps to the interface: it does not throw, keeps the invariant, does not advance the
  clock, neither gives the session it is called for another timer nor revives an expired one.
\<close>

definition sm_callback_ok :: "'e sm_callback \<Rightarrow> bool" where
  "sm_callback_ok cb \<longleftrightarrow>
     (\<forall>n P X sm env i. sm_inv n P X sm \<longrightarrow>
        (case call_back cb i (sm, env) of (thrown, sm', env') \<Rightarrow>
           \<not> thrown \<and> sm_inv n P X sm' \<and>
           (i \<in> set (sm_sessions sm') \<longrightarrow> i \<in> set (sm_sessions sm) \<and> timer_of sm' i = timer_of sm i) \<and>
           (\<forall>t. sm_timer_to_session sm t = None \<and> t \<in> P \<longrightarrow> sm_timer_to_session sm' t = None) \<and>
           tw_current_tick (sm_wheel sm') = tw_current_tick (sm_wheel sm) \<and>
           sm_heartbeat_timeout_ticks sm' = sm_heartbeat_timeout_ticks sm))"

lemma sm_callback_okE:
  assumes "sm_callback_ok cb" and "sm_inv n P X sm"
  obtains sm' env' where "call_back cb i (sm, env) = (False, sm', env')" and "sm_inv n P X sm'"
    and "i \<in> set (sm_sessions sm') \<Longrightarrow> i \<in> set (sm_sessions sm) \<and> timer_of sm' i = timer_of sm i"
    and "\<And>t. sm_timer_to_session sm t = None \<Longrightarrow> t \<in> P \<Longrightarrow> sm_timer_to_session sm' t = None"
    and "tw_current_tick (sm_wheel sm') = tw_current_tick (sm_wheel sm)"
    and "sm_heartbeat_timeout_ticks sm' = sm_heartbeat_timeout_ticks sm"
proof -
  obtain th sm' env' where c: "call_back cb i (sm, env) = (th, sm', env')" by (cases "call_back cb i (sm, env)")
  note r = assms(1)[unfolded sm_callback_ok_def, rule_format, OF assms(2), of i env, unfolded c prod.case]
  show thesis by (rule that[of sm' env']) (use c r in \<open>simp_all\<close>)
qed

text \<open>A callback that does not touch the manager is one, whatever it does to its environment.\<close>

definition sm_quiet :: "'e sm_callback \<Rightarrow> bool" where
  "sm_quiet cb \<longleftrightarrow> (\<forall>i sm env. \<exists>env'. call_back cb i (sm, env) = (False, sm, env'))"

lemma quiet_callback_ok: "sm_quiet cb \<Longrightarrow> sm_callback_ok cb"
  unfolding sm_callback_ok_def
proof (intro allI impI)
  fix n P X sm env i assume q: "sm_quiet cb" and inv: "sm_inv n P X sm"
  obtain env' where "call_back cb i (sm, env) = (False, sm, env')" using q unfolding sm_quiet_def by blast
  then show "case call_back cb i (sm, env) of (thrown, sm', env') \<Rightarrow>
           \<not> thrown \<and> sm_inv n P X sm' \<and>
           (i \<in> set (sm_sessions sm') \<longrightarrow> i \<in> set (sm_sessions sm) \<and> timer_of sm' i = timer_of sm i) \<and>
           (\<forall>t. sm_timer_to_session sm t = None \<and> t \<in> P \<longrightarrow> sm_timer_to_session sm' t = None) \<and>
           tw_current_tick (sm_wheel sm') = tw_current_tick (sm_wheel sm) \<and>
           sm_heartbeat_timeout_ticks sm' = sm_heartbeat_timeout_ticks sm"
    using inv by simp
qed

lemma upd_session_inv:
  "(\<And>s. s_timer_entry_id (f s) = s_timer_entry_id s) \<Longrightarrow> sm_inv n P X (upd_session i f sm) = sm_inv n P X sm"
  by (rule sm_inv_cong) (simp_all add: timer_of_upd)

lemma session_close_timer [simp]: "s_timer_entry_id (session_close s) = s_timer_entry_id s"
  by (simp add: session_close_def)

lemma remove_session_ok:
  assumes inv: "sm_inv n P X sm" and cb: "sm_callback_ok cb"
  obtains sm' env' where "remove_session cb i (sm, env) = (False, sm', env')" and "sm_inv n P X sm'"
    and "i \<notin> set (sm_sessions sm')" and "tw_current_tick (sm_wheel sm') = tw_current_tick (sm_wheel sm)"
    and "sm_heartbeat_timeout_ticks sm' = sm_heartbeat_timeout_ticks sm"
proof (cases "i \<in> set (sm_sessions sm)")
  case False
  then show thesis using inv by (intro that[of sm env]) (simp_all add: remove_session_def)
next
  case True
  define sm1 where "sm1 = cancel_timer i (upd_session i session_close sm)"
  have "sm_inv n P X (upd_session i session_close sm)" using inv by (simp add: upd_session_inv)
  then have inv1: "sm_inv n P (insert i X) sm1" "tw_current_tick (sm_wheel sm1) = tw_current_tick (sm_wheel sm)"
    using cancel_timer_inv True by (simp_all add: sm1_def)
  obtain sm2 env2 where c: "call_back cb i (sm1, env) = (False, sm2, env2)" "sm_inv n P (insert i X) sm2"
      "i \<in> set (sm_sessions sm2) \<Longrightarrow> i \<in> set (sm_sessions sm1) \<and> timer_of sm2 i = timer_of sm1 i"
      "tw_current_tick (sm_wheel sm2) = tw_current_tick (sm_wheel sm1)"
      "sm_heartbeat_timeout_ticks sm2 = sm_heartbeat_timeout_ticks sm1"
    using sm_callback_okE[OF cb inv1(1)] by blast
  have "timer_of sm1 i = 0" by (simp add: sm1_def)
  then have "sm_inv n P X (erase_session i sm2)" using c(2,3) by (intro erase_session_inv) simp_all
  then show thesis
    using True c(1,4,5) inv1(2)
    by (intro that[of "erase_session i sm2" env2]) (simp_all add: remove_session_def sm1_def)
qed

lemma touch_session_ok:
  assumes inv: "sm_inv n P X sm" and "touch_session i sm = (r, sm')"
  shows "r = Inr () \<and> sm_inv n P X sm' \<and>
    sm_heartbeat_timeout_ticks sm' = sm_heartbeat_timeout_ticks sm \<and> sm_sessions sm' = sm_sessions sm \<and>
    (\<forall>j. timer_of sm' j = timer_of sm j) \<and>
    tw_current_tick (sm_wheel sm') = tw_current_tick (sm_wheel sm) \<and>
    timers (sm_wheel sm') =
      (if i \<in> set (sm_sessions sm) \<and> sm_heartbeat_timeout_ticks sm \<noteq> 0 \<and> timers (sm_wheel sm) (timer_of sm i) \<noteq> None \<and> timer_of sm i \<noteq> 0
       then (timers (sm_wheel sm))(timer_of sm i \<mapsto> tw_current_tick (sm_wheel sm) + ucast (sm_heartbeat_timeout_ticks sm))
       else timers (sm_wheel sm))"
proof (cases "sm_heartbeat_timeout_ticks sm = 0 \<or> i \<notin> set (sm_sessions sm) \<or> timer_of sm i = 0")
  case True
  then have "touch_session i sm = (Inr (), sm)" unfolding touch_session_def by presburger
  then have "r = Inr ()" "sm' = sm" using assms(2) by simp_all
  then show ?thesis using inv True by auto
next
  case False
  note rl = reschedule_ok[OF sm_invD(1)[OF inv] sm_invD(3)[OF inv], of "timer_of sm i"]
  then obtain w where w: "reschedule (timer_of sm i) (sm_heartbeat_timeout_ticks sm) (sm_wheel sm) = (Inr (), w)"
      "tw_inv n P w" "tw_current_tick w = tw_current_tick (sm_wheel sm)" "tw_num_slots w = tw_num_slots (sm_wheel sm)"
    and t: "timers w = (if timers (sm_wheel sm) (timer_of sm i) = None then timers (sm_wheel sm)
        else (timers (sm_wheel sm))(timer_of sm i \<mapsto> tw_current_tick (sm_wheel sm) + ucast (sm_heartbeat_timeout_ticks sm)))"
    by blast
  have eq: "r = Inr ()" "sm' = sm\<lparr>sm_wheel := w\<rparr>" using assms(2) False w(1) by (auto simp: touch_session_def)
  have "sm_inv n P X (sm\<lparr>sm_wheel := w\<rparr>)"
  proof (rule sm_invI)
    fix j assume "j \<in> set (sm_sessions (sm\<lparr>sm_wheel := w\<rparr>))"
    then show "session_ok P X (sm\<lparr>sm_wheel := w\<rparr>) j"
      using sm_invD(6)[OF inv, of j] by (auto simp: session_ok_def t)
  qed (use sm_invD[OF inv] w in \<open>simp_all\<close>)
  then show ?thesis using False w t by (simp add: eq)
qed

lemma construct_session_fields:
  assumes "construct_session pa ba i sm = (r, sm')"
  shows "\<exists>p h. sm' = sm\<lparr>sm_pool := p, sm_heap_fallback := h\<rparr>"
    and "r = Inr s \<Longrightarrow> s_timer_entry_id s = 0 \<and> s_id s = i \<and> is_open s"
proof -
  have id: "\<exists>p h. sm\<lparr>sm_pool := q\<rparr> = sm\<lparr>sm_pool := p, sm_heap_fallback := h\<rparr>" for q
    by (rule exI[of _ q], rule exI[of _ "sm_heap_fallback sm"]) (cases sm, simp)
  have id': "\<exists>p h. sm\<lparr>sm_pool := q, sm_heap_fallback := k\<rparr> = sm\<lparr>sm_pool := p, sm_heap_fallback := h\<rparr>" for q k
    by blast
  show "\<exists>p h. sm' = sm\<lparr>sm_pool := p, sm_heap_fallback := h\<rparr>"
    using assms unfolding construct_session_def
    by (auto simp: Let_def id id' split: prod.splits sum.splits option.splits)
  show "r = Inr s \<Longrightarrow> s_timer_entry_id s = 0 \<and> s_id s = i \<and> is_open s"
    using assms unfolding construct_session_def
    by (auto simp: Let_def Session_new_def is_open_def split: prod.splits sum.splits option.splits)
qed

text \<open>The session joins the table with its timer.\<close>

lemma sm_inv_add:
  assumes inv: "sm_inv (Suc n) P X sm" and i: "i = sm_next_id sm"
    and w: "tw_inv n P (sm_wheel sm')" "tw_num_slots (sm_wheel sm') = tw_num_slots (sm_wheel sm)"
      "\<And>y. y \<noteq> timer_of sm' i \<Longrightarrow> timers (sm_wheel sm') y = timers (sm_wheel sm) y"
    and f: "sm_sessions sm' = sm_sessions sm @ [i]" "sm_next_id sm' = i + 1"
      "sm_heartbeat_timeout_ticks sm' = sm_heartbeat_timeout_ticks sm"
      "\<And>j. j \<noteq> i \<Longrightarrow> timer_of sm' j = timer_of sm j" "\<And>j. j \<noteq> i \<Longrightarrow> sm_store sm' j = sm_store sm j"
      "sm_store sm' i \<noteq> None"
    and t: "if timer_of sm' i = 0 then sm_heartbeat_timeout_ticks sm = 0 \<and> sm_timer_to_session sm' = sm_timer_to_session sm
      else timers (sm_wheel sm) (timer_of sm' i) = None \<and> timers (sm_wheel sm') (timer_of sm' i) \<noteq> None \<and>
        timer_of sm' i \<notin> P \<and> sm_timer_to_session sm' = (sm_timer_to_session sm)(timer_of sm' i \<mapsto> i)"
  shows "sm_inv n P X sm'"
proof (rule sm_invI)
  have nx: "unat (i + 1) = unat i + 1"
    using sm_invD(5)[OF inv] unat_add_small[of i 1] by (simp add: i)
  have old: "i \<notin> set (sm_sessions sm)" using sm_invD(6)[OF inv, of i] by (auto simp: session_ok_def i)
  show "distinct (sm_sessions sm')" using sm_invD(2)[OF inv] old by (simp add: f)
  show "0 < unat (sm_next_id sm')" by (simp add: f nx)
  show "unat (sm_next_id sm') + n < 2 ^ 64" using sm_invD(5)[OF inv] unfolding f nx by (simp add: i)
  show "ucast (sm_heartbeat_timeout_ticks sm') < tw_num_slots (sm_wheel sm')"
    using sm_invD(3)[OF inv] by (simp add: f w)
  have free: "timer_of sm j \<noteq> timer_of sm' i" if "j \<in> set (sm_sessions sm)" "timer_of sm j \<noteq> 0" for j
    using sm_invD(6)[OF inv that(1)] that(2) t by (auto simp: session_ok_def split: if_splits)
  have unmapped: "sm_timer_to_session sm (timer_of sm' i) = None" if "timer_of sm' i \<noteq> 0"
  proof (rule ccontr)
    assume "sm_timer_to_session sm (timer_of sm' i) \<noteq> None"
    then obtain j where j: "sm_timer_to_session sm (timer_of sm' i) = Some j" by blast
    from sm_invD(7,8)[OF inv j] free[of j] that show False by simp
  qed
  fix j assume j: "j \<in> set (sm_sessions sm')"
  show "session_ok P X sm' j"
  proof (cases "j = i")
    case True
    then show ?thesis using t sm_invD(4)[OF inv] f(6)
      by (auto simp: session_ok_def f nx i[symmetric] split: if_splits)
  next
    case False
    then have j': "j \<in> set (sm_sessions sm)" using j by (simp add: f)
    have m: "sm_timer_to_session sm' (timer_of sm j) = sm_timer_to_session sm (timer_of sm j)" if "timer_of sm j \<noteq> 0"
      using t free[OF j' that] by (auto split: if_splits)
    have "unat j < unat i" using sm_invD(6)[OF inv j'] by (simp add: session_ok_def i)
    then show ?thesis using sm_invD(6)[OF inv j'] False free[OF j'] m
      by (simp add: session_ok_def f nx w)
  qed
next
  fix t' j assume tj: "sm_timer_to_session sm' t' = Some j"
  have old: "i \<notin> set (sm_sessions sm)" using sm_invD(6)[OF inv, of i] by (auto simp: session_ok_def i)
  show "j \<in> set (sm_sessions sm') \<and> timer_of sm' j = t' \<and> t' \<noteq> 0"
  proof (cases "t' = timer_of sm' i \<and> t' \<noteq> 0")
    case True
    then have "j = i" using tj t by (auto split: if_splits)
    then show ?thesis using True by (auto simp: f)
  next
    case False
    then have "sm_timer_to_session sm t' = Some j" using tj t by (auto split: if_splits)
    note r = sm_invD(7-9)[OF inv this]
    then have "j \<noteq> i" using old by auto
    then show ?thesis using r by (simp add: f)
  qed
qed (fact w)

lemma create_session_ok:
  assumes inv: "sm_inv (Suc n) P X sm" and c: "create_session pa ba sm = (r, sm')"
  shows "case r of
      Inl e \<Rightarrow> sm_inv n P X sm' \<and> sm_sessions sm' = sm_sessions sm \<and>
        sm_heartbeat_timeout_ticks sm' = sm_heartbeat_timeout_ticks sm
    | Inr i \<Rightarrow> sm_inv n P X sm' \<and> i = sm_next_id sm \<and> sm_sessions sm' = sm_sessions sm @ [i] \<and>
        sm_heartbeat_timeout_ticks sm' = sm_heartbeat_timeout_ticks sm \<and> tw_current_tick (sm_wheel sm') = tw_current_tick (sm_wheel sm) \<and>
        (0 < sm_heartbeat_timeout_ticks sm \<longrightarrow> timer_of sm' i \<noteq> 0 \<and>
           timers (sm_wheel sm') = (timers (sm_wheel sm))
             (timer_of sm' i \<mapsto> tw_current_tick (sm_wheel sm) + ucast (sm_heartbeat_timeout_ticks sm)))"
proof -
  let ?i = "sm_next_id sm" and ?hb = "sm_heartbeat_timeout_ticks sm"
  obtain q sm1 where k: "construct_session pa ba ?i (sm\<lparr>sm_next_id := ?i + 1\<rparr>) = (q, sm1)"
    by (cases "construct_session pa ba ?i (sm\<lparr>sm_next_id := ?i + 1\<rparr>)")
  obtain pl h where sm1: "sm1 = sm\<lparr>sm_next_id := ?i + 1, sm_pool := pl, sm_heap_fallback := h\<rparr>"
    using construct_session_fields(1)[OF k] by auto
  have old: "?i \<notin> set (sm_sessions sm)" using sm_invD(6)[OF inv, of ?i] by (auto simp: session_ok_def)
  have nx: "unat (?i + 1) = unat ?i + 1" using sm_invD(5)[OF inv] unat_add_small[of ?i 1] by simp
  show ?thesis
  proof (cases q)
    case (Inl e)
    then have "r = Inl e" "sm' = sm1" using c k by (simp_all add: create_session_def)
    moreover have "sm_inv n P X sm1"
    proof (rule sm_invI)
      show "tw_inv n P (sm_wheel sm1)" using sm_invD(1)[OF inv] tw_inv_mono[of n 1] by (simp add: sm1)
      fix j assume "j \<in> set (sm_sessions sm1)"
      then show "session_ok P X sm1 j" using sm_invD(6)[OF inv, of j] nx
        by (auto simp: session_ok_def sm1 timer_of_def)
    next
      fix t j assume "sm_timer_to_session sm1 t = Some j"
      then have "sm_timer_to_session sm t = Some j" by (simp add: sm1)
      from sm_invD(7-9)[OF inv this] show "j \<in> set (sm_sessions sm1) \<and> timer_of sm1 j = t \<and> t \<noteq> 0"
        by (simp add: sm1 timer_of_def)
    qed (use sm_invD(2-5)[OF inv] nx in \<open>simp_all add: sm1\<close>)
    ultimately show ?thesis by (simp add: sm1)
  next
    case (Inr raw)
    have raw: "s_timer_entry_id raw = 0" using construct_session_fields(2)[OF k Inr] by simp
    define s where "s = set_state Active (intrusive_ptr_add_ref (intrusive_ptr_add_ref raw))"
    have s0: "s_timer_entry_id s = 0" using raw by (simp add: s_def set_state_def intrusive_ptr_add_ref_def)
    define sm2 where "sm2 = sm1\<lparr>sm_store := (sm_store sm1)(?i \<mapsto> s), sm_sessions := sm_sessions sm @ [?i]\<rparr>"
    have cr: "create_session pa ba sm = (if 0 < ?hb
                then case schedule ?hb (sm_wheel sm) of
                       (Inl e, w) \<Rightarrow> (Inl e, drop_ptr ?i (sm2\<lparr>sm_wheel := w\<rparr>))
                     | (Inr t, w) \<Rightarrow>
                         let sm = sm2\<lparr>sm_wheel := w, sm_timer_to_session := (sm_timer_to_session sm2)(t \<mapsto> ?i)\<rparr>;
                             sm = upd_session ?i (\<lambda>s. s\<lparr>s_timer_entry_id := t\<rparr>) sm
                         in (Inr ?i, sm\<lparr>sm_sessions_created := sm_sessions_created sm + 1\<rparr>)
                else (Inr ?i, sm2\<lparr>sm_sessions_created := sm_sessions_created sm2 + 1\<rparr>))"
      using old by (simp add: create_session_def k Inr Let_def sm2_def s_def sm1 split: prod.split sum.split)
    show ?thesis
    proof (cases "0 < ?hb")
      case False
      then have r: "r = Inr ?i" "sm' = sm2\<lparr>sm_sessions_created := sm_sessions_created sm2 + 1\<rparr>"
        using c cr by simp_all
      have "tw_inv n P (sm_wheel sm)" using sm_invD(1)[OF inv] tw_inv_mono[of n 1] by simp
      then have "sm_inv n P X sm'"
        using False by (intro sm_inv_add[OF inv refl])
          (simp_all add: r(2) sm2_def sm1 timer_of_def s0 word_gt_0)
      then show ?thesis using False by (simp add: r(1)) (simp add: r(2) sm2_def sm1)
    next
      case True
      obtain x w where sc: "schedule ?hb (sm_wheel sm) = (Inr x, w)" "tw_inv n P w"
          "timers w = (timers (sm_wheel sm))(x \<mapsto> tw_current_tick (sm_wheel sm) + ucast ?hb)"
          "timers (sm_wheel sm) x = None" "x \<notin> P" "x \<noteq> 0" "tw_current_tick w = tw_current_tick (sm_wheel sm)"
          "tw_num_slots w = tw_num_slots (sm_wheel sm)"
        using schedule_ok[OF sm_invD(1)[OF inv] sm_invD(3)[OF inv]] by blast
      define sm3 where "sm3 = upd_session ?i (\<lambda>s. s\<lparr>s_timer_entry_id := x\<rparr>)
          (sm2\<lparr>sm_wheel := w, sm_timer_to_session := (sm_timer_to_session sm2)(x \<mapsto> ?i)\<rparr>)"
      have r: "r = Inr ?i" "sm' = sm3\<lparr>sm_sessions_created := sm_sessions_created sm3 + 1\<rparr>"
        using c cr True sc(1) by (simp_all add: Let_def sm3_def)
      have ti: "timer_of sm' ?i = x" by (simp add: r(2) sm3_def upd_session_def timer_of_def sm2_def)
      have w: "sm_wheel sm' = w" by (simp add: r(2) sm3_def)
      have "sm_inv n P X sm'"
        by (rule sm_inv_add[OF inv refl])
          (use sc in \<open>simp_all add: ti w\<close>, simp_all add: r(2) sm3_def sm2_def sm1 upd_session_def timer_of_def)
      then show ?thesis using sc(3,6,7) by (simp add: r(1) ti w) (simp add: r(2) sm3_def sm2_def sm1)
    qed
  qed
qed

section \<open>Expiry\<close>

text \<open>The state in which the remove callback of an expired session runs.\<close>

definition expire_prepare :: "u64 \<Rightarrow> u64 \<Rightarrow> SessionManager \<Rightarrow> SessionManager" where
  "expire_prepare t i sm =
     (let sm = sm\<lparr>sm_timer_to_session := (sm_timer_to_session sm)(t := None)\<rparr>;
          sm = sm\<lparr>sm_sessions_timeout := sm_sessions_timeout sm + 1\<rparr>
      in upd_session i (\<lambda>s. s\<lparr>s_timer_entry_id := 0\<rparr>) (upd_session i intrusive_ptr_add_ref sm))"

lemma add_ref_timer [simp]: "s_timer_entry_id (intrusive_ptr_add_ref s) = s_timer_entry_id s"
  by (simp add: intrusive_ptr_add_ref_def)

lemma expire_prepare_fields [simp]:
  "sm_sessions (expire_prepare t i sm) = sm_sessions sm" "sm_wheel (expire_prepare t i sm) = sm_wheel sm"
  "sm_timer_to_session (expire_prepare t i sm) = (sm_timer_to_session sm)(t := None)"
  "timer_of (expire_prepare t i sm) i = 0" "j \<noteq> i \<Longrightarrow> timer_of (expire_prepare t i sm) j = timer_of sm j"
  by (simp_all add: expire_prepare_def Let_def)

lemma expire_prepare_inv:
  assumes "sm_inv n P X sm" and "sm_timer_to_session sm t = Some i"
  shows "sm_inv n P (insert i X) (expire_prepare t i sm)"
  by (rule sm_unmap[OF assms]) (use sm_invD(1)[OF assms(1)] in \<open>simp_all add: expire_prepare_def Let_def\<close>)

lemma expire_finish_inv:
  assumes "sm_inv n P X sm" and "i \<notin> set (sm_sessions sm)"
  shows "sm_inv n P X (drop_ptr i (upd_session i session_close sm))"
  using assms by (simp add: drop_ptr_inv upd_session_inv)

lemma on_timer_expire_eq:
  assumes "sm_timer_to_session sm t = Some i" and "i \<in> set (sm_sessions sm)"
    and "call_back rcb i (expire_prepare t i sm, env) = (False, sm1, env1)"
    and "call_back tcb i (erase_session i sm1, env1) = (th, sm2, env2)"
  shows "on_timer_expire rcb tcb t (sm, env) = (drop_ptr i (upd_session i session_close sm2), env2)"
  using assms by (simp add: on_timer_expire_def expire_prepare_def Let_def)

lemma on_timer_expire_ok:
  assumes inv: "sm_inv n P X sm" and cb: "sm_callback_ok rcb" "sm_callback_ok tcb" and "t \<in> P"
  obtains sm' env' where "on_timer_expire rcb tcb t (sm, env) = (sm', env')" and "sm_inv n P X sm'"
    and "sm_timer_to_session sm' t = None" and "tw_current_tick (sm_wheel sm') = tw_current_tick (sm_wheel sm)"
    and "sm_heartbeat_timeout_ticks sm' = sm_heartbeat_timeout_ticks sm"
proof (cases "sm_timer_to_session sm t")
  case None
  then show thesis using inv by (intro that[of sm env]) (simp_all add: on_timer_expire_def)
next
  case (Some i)
  have i: "i \<in> set (sm_sessions sm)" by (rule sm_invD(7)[OF inv Some])
  let ?sm0 = "expire_prepare t i sm"
  have hb: "sm_heartbeat_timeout_ticks ?sm0 = sm_heartbeat_timeout_ticks sm"
    by (simp add: expire_prepare_def Let_def)
  obtain sm1 env1 where c1: "call_back rcb i (?sm0, env) = (False, sm1, env1)" "sm_inv n P (insert i X) sm1"
      "i \<in> set (sm_sessions sm1) \<Longrightarrow> i \<in> set (sm_sessions ?sm0) \<and> timer_of sm1 i = timer_of ?sm0 i"
      "\<And>t. sm_timer_to_session ?sm0 t = None \<Longrightarrow> t \<in> P \<Longrightarrow> sm_timer_to_session sm1 t = None"
      "tw_current_tick (sm_wheel sm1) = tw_current_tick (sm_wheel ?sm0)"
      "sm_heartbeat_timeout_ticks sm1 = sm_heartbeat_timeout_ticks ?sm0"
    using sm_callback_okE[OF cb(1) expire_prepare_inv[OF inv Some]] by blast
  have inv2: "sm_inv n P X (erase_session i sm1)" using c1(2,3) by (intro erase_session_inv) simp_all
  obtain sm2 env2 where c2: "call_back tcb i (erase_session i sm1, env1) = (False, sm2, env2)" "sm_inv n P X sm2"
      "i \<in> set (sm_sessions sm2) \<Longrightarrow> i \<in> set (sm_sessions (erase_session i sm1)) \<and> timer_of sm2 i = timer_of (erase_session i sm1) i"
      "\<And>t. sm_timer_to_session (erase_session i sm1) t = None \<Longrightarrow> t \<in> P \<Longrightarrow> sm_timer_to_session sm2 t = None"
      "tw_current_tick (sm_wheel sm2) = tw_current_tick (sm_wheel (erase_session i sm1))"
      "sm_heartbeat_timeout_ticks sm2 = sm_heartbeat_timeout_ticks (erase_session i sm1)"
    using sm_callback_okE[OF cb(2) inv2] by blast
  have ni: "i \<notin> set (sm_sessions sm2)" using c2(3) by auto
  show thesis
  proof (rule that[OF on_timer_expire_eq[OF Some i c1(1) c2(1)] expire_finish_inv[OF c2(2) ni]])
    show "sm_timer_to_session (drop_ptr i (upd_session i session_close sm2)) t = None"
      using c2(4)[of t] c1(4)[of t] assms(4) by simp
  qed (use c1(5,6) c2(5,6) hb in simp_all)
qed

text \<open>Reasoning about the callbacks of a tick: what each expired entry in turn must keep.\<close>

lemma fire_rule:
  assumes "J xs w env"
    and "\<And>x xs w env w' env'. J (x # xs) w env \<Longrightarrow> cb x (w, env) = (w', env') \<Longrightarrow>
      e_id (the (tw_heap w x)) = x \<and>
      J xs (w'\<lparr>tw_heap := (tw_heap w')(x := None), tw_free_ids := tw_free_ids w' @ [x]\<rparr>) env'"
  shows "J [] (fst (fire cb xs (w, env))) (snd (fire cb xs (w, env)))"
  using assms(1)
proof (induction xs arbitrary: w env)
  case (Cons x xs)
  obtain w' env' where c: "cb x (w, env) = (w', env')" by (cases "cb x (w, env)")
  note st = assms(2)[OF Cons.prems c]
  from Cons.IH[OF conjunct2[OF st]] show ?case using st by (simp add: c Let_def)
qed simp

lemma release_inv:
  assumes inv: "sm_inv n P X sm" and "x \<in> P" and "sm_timer_to_session sm x = None"
    and w: "w = (sm_wheel sm)\<lparr>tw_heap := (tw_heap (sm_wheel sm))(x := None), tw_free_ids := tw_free_ids (sm_wheel sm) @ [x]\<rparr>"
  shows "sm_inv n (P - {x}) X (sm\<lparr>sm_wheel := w\<rparr>)"
proof (rule sm_invI)
  note re = tw_release[OF sm_invD(1)[OF inv] assms(2) w]
  show "tw_inv n (P - {x}) (sm_wheel (sm\<lparr>sm_wheel := w\<rparr>))" using re(1) by simp
  have "tw_num_slots w = tw_num_slots (sm_wheel sm)" by (simp add: w)
  then show "ucast (sm_heartbeat_timeout_ticks (sm\<lparr>sm_wheel := w\<rparr>)) < tw_num_slots (sm_wheel (sm\<lparr>sm_wheel := w\<rparr>))"
    using sm_invD(3)[OF inv] by simp
  fix j assume "j \<in> set (sm_sessions (sm\<lparr>sm_wheel := w\<rparr>))"
  then have "session_ok P X sm j" using sm_invD(6)[OF inv] by simp
  then show "session_ok (P - {x}) X (sm\<lparr>sm_wheel := w\<rparr>) j"
    using assms(3) by (auto simp: session_ok_def re(2))
qed (use sm_invD(2,4,5)[OF inv] sm_invD(7-9)[OF inv] in simp_all)

text \<open>The wheel changes between the phases of a tick, with the due timers moved to \<open>P\<close>.\<close>

lemma wheel_due_inv:
  assumes inv: "sm_inv n {} X sm" and t: "tick_collect (sm_wheel sm) = (xs, w)"
  shows "sm_inv n (set xs) X (sm\<lparr>sm_wheel := w\<rparr>)"
proof (rule sm_invI)
  note tc = tick_collect_ok[OF sm_invD(1)[OF inv] t]
  show "tw_inv n (set xs) (sm_wheel (sm\<lparr>sm_wheel := w\<rparr>))" using tc(3) by simp
  show "ucast (sm_heartbeat_timeout_ticks (sm\<lparr>sm_wheel := w\<rparr>)) < tw_num_slots (sm_wheel (sm\<lparr>sm_wheel := w\<rparr>))"
    using sm_invD(3)[OF inv] tc(6) by simp
  fix j assume "j \<in> set (sm_sessions (sm\<lparr>sm_wheel := w\<rparr>))"
  then have "session_ok {} X sm j" using sm_invD(6)[OF inv] by simp
  then show "session_ok (set xs) X (sm\<lparr>sm_wheel := w\<rparr>) j" by (auto simp: session_ok_def tc(4))
qed (use sm_invD(2,4,5)[OF inv] sm_invD(7-9)[OF inv] in simp_all)

lemma sm_inv_wheel:
  assumes "sm_inv n P X sm" and "tw_inv n P w" and "timers w = timers (sm_wheel sm)"
    and "tw_num_slots w = tw_num_slots (sm_wheel sm)"
  shows "sm_inv n P X (sm\<lparr>sm_wheel := w\<rparr>)"
proof (rule sm_invI)
  fix j assume "j \<in> set (sm_sessions (sm\<lparr>sm_wheel := w\<rparr>))"
  then have "session_ok P X sm j" using sm_invD(6)[OF assms(1)] by simp
  then show "session_ok P X (sm\<lparr>sm_wheel := w\<rparr>) j" by (simp add: session_ok_def assms(3))
qed (use assms(2,4) sm_invD(2-5)[OF assms(1)] sm_invD(7-9)[OF assms(1)] in simp_all)

lemma shrink_buffers_fields:
  "sm_wheel (shrink_buffers ra sm) = sm_wheel sm" "sm_sessions (shrink_buffers ra sm) = sm_sessions sm"
  "timer_of (shrink_buffers ra sm) j = timer_of sm j"
  "sm_inv n P X (shrink_buffers ra sm) = sm_inv n P X sm"
  "sm_heartbeat_timeout_ticks (shrink_buffers ra sm) = sm_heartbeat_timeout_ticks sm"
proof -
  let ?f = "\<lambda>i. upd_session i (\<lambda>s. s\<lparr>s_recv_buf := shrink_to_fit ra (s_recv_buf s)\<rparr>)"
  have "sm_wheel (fold ?f xs sm) = sm_wheel sm \<and> sm_sessions (fold ?f xs sm) = sm_sessions sm \<and>
      timer_of (fold ?f xs sm) j = timer_of sm j \<and> sm_inv n P X (fold ?f xs sm) = sm_inv n P X sm \<and>
      sm_heartbeat_timeout_ticks (fold ?f xs sm) = sm_heartbeat_timeout_ticks sm" for xs
    by (induction xs arbitrary: sm) (simp_all add: upd_session_inv timer_of_upd)
  then show "sm_wheel (shrink_buffers ra sm) = sm_wheel sm" "sm_sessions (shrink_buffers ra sm) = sm_sessions sm"
    "timer_of (shrink_buffers ra sm) j = timer_of sm j"
    "sm_inv n P X (shrink_buffers ra sm) = sm_inv n P X sm"
    "sm_heartbeat_timeout_ticks (shrink_buffers ra sm) = sm_heartbeat_timeout_ticks sm"
    by (simp_all add: shrink_buffers_def)
qed

lemma sm_inv_counter [simp]: "sm_inv n P X (sm\<lparr>sm_shrink_tick_counter := c\<rparr>) = sm_inv n P X sm"
  by (rule sm_inv_cong) simp_all

text \<open>A tick of the manager is a tick of its wheel, with the manager threaded through the
  callbacks, up to housekeeping.\<close>

lemma sm_tick_eq:
  assumes t: "tick_collect (sm_wheel sm) = (xs, w)"
    and f: "fire (wheel_callback rcb tcb) xs (w, sm, env) = (w1, sm1, env1)"
    and w2: "w2 = w1\<lparr>tw_current_tick := tw_current_tick w1 + 1\<rparr>"
    and r: "sm_tick ra rcb tcb (sm, env) = (sm', env')"
  shows "env' = env1" and "sm_wheel sm' = w2" and "sm_sessions sm' = sm_sessions sm1"
    and "timer_of sm' j = timer_of sm1 j" and "sm_inv n P X sm' = sm_inv n P X (sm1\<lparr>sm_wheel := w2\<rparr>)"
    and "sm_heartbeat_timeout_ticks sm' = sm_heartbeat_timeout_ticks sm1"
proof -
  have "tick (wheel_callback rcb tcb) (sm_wheel sm, sm, env) = (w2, sm1, env1)"
    by (simp add: tick_def t f w2)
  then have "sm_tick ra rcb tcb (sm, env) =
      (let sm = sm1\<lparr>sm_wheel := w2, sm_shrink_tick_counter := sm_shrink_tick_counter sm1 + 1\<rparr>
       in if kShrinkIntervalTicks \<le> sm_shrink_tick_counter sm
          then (shrink_buffers ra (sm\<lparr>sm_shrink_tick_counter := 0\<rparr>), env1) else (sm, env1))"
    by (simp add: sm_tick_def Let_def)
  then show "env' = env1" and "sm_wheel sm' = w2" and "sm_sessions sm' = sm_sessions sm1"
    and "timer_of sm' j = timer_of sm1 j" and "sm_inv n P X sm' = sm_inv n P X (sm1\<lparr>sm_wheel := w2\<rparr>)"
    and "sm_heartbeat_timeout_ticks sm' = sm_heartbeat_timeout_ticks sm1"
    using r by (auto simp: Let_def shrink_buffers_fields split: if_splits)
qed

lemma wheel_callback_eq:
  assumes "wheel_callback rcb tcb x (v, e) = (v', e')"
  shows "v' = sm_wheel (fst e')" and "e' = on_timer_expire rcb tcb x ((fst e)\<lparr>sm_wheel := v\<rparr>, snd e)"
  using assms by (cases e; cases e'; auto simp: wheel_callback_def Let_def split: prod.splits)+

lemma sm_fire_ok:
  assumes inv: "sm_inv n {} X sm" and cb: "sm_callback_ok rcb" "sm_callback_ok tcb"
    and t: "tick_collect (sm_wheel sm) = (xs, w)"
    and f: "fire (wheel_callback rcb tcb) xs (w, sm, env) = (w1, sm1, env1)"
  shows "sm_inv n {} X (sm1\<lparr>sm_wheel := w1\<rparr>)" and "tw_current_tick w1 = tw_current_tick (sm_wheel sm)"
    and "sm_heartbeat_timeout_ticks sm1 = sm_heartbeat_timeout_ticks sm"
proof -
  note tc = tick_collect_ok[OF sm_invD(1)[OF inv] t]
  define J where "J ys v e \<longleftrightarrow> distinct ys \<and> sm_inv n (set ys) X ((fst e)\<lparr>sm_wheel := v\<rparr>) \<and>
      tw_current_tick v = tw_current_tick (sm_wheel sm) \<and>
      sm_heartbeat_timeout_ticks (fst e) = sm_heartbeat_timeout_ticks sm" for ys v and e :: "SessionManager \<times> 'a"
  have "J [] (fst (fire (wheel_callback rcb tcb) xs (w, sm, env))) (snd (fire (wheel_callback rcb tcb) xs (w, sm, env)))"
  proof (rule fire_rule)
    show "J xs w (sm, env)" using tc(1,5) wheel_due_inv[OF inv t] by (simp add: J_def)
    fix x ys v e v' e'
    assume j: "J (x # ys) v e" and c: "wheel_callback rcb tcb x (v, e) = (v', e')"
    let ?s = "(fst e)\<lparr>sm_wheel := v\<rparr>"
    have i: "sm_inv n (set (x # ys)) X ?s" and d: "distinct (x # ys)" using j by (simp_all add: J_def)
    obtain s' env' where o: "on_timer_expire rcb tcb x (?s, snd e) = (s', env')" "sm_inv n (set (x # ys)) X s'"
        "sm_timer_to_session s' x = None" "tw_current_tick (sm_wheel s') = tw_current_tick (sm_wheel ?s)"
        "sm_heartbeat_timeout_ticks s' = sm_heartbeat_timeout_ticks ?s"
      using on_timer_expire_ok[OF i cb list.set_intros(1)] by blast
    have e: "v' = sm_wheel s'" "fst e' = s'" using wheel_callback_eq[OF c] o(1) by simp_all
    let ?v = "v'\<lparr>tw_heap := (tw_heap v')(x := None), tw_free_ids := tw_free_ids v' @ [x]\<rparr>"
    have "sm_inv n (set (x # ys) - {x}) X (s'\<lparr>sm_wheel := ?v\<rparr>)"
      by (rule release_inv[OF o(2) _ o(3)]) (simp_all add: e)
    moreover have "set (x # ys) - {x} = set ys" using d by auto
    moreover have "e_id (the (tw_heap v x)) = x" using tw_heap_pending[OF sm_invD(1)[OF i], of x] by auto
    ultimately show "e_id (the (tw_heap v x)) = x \<and> J ys ?v e'"
      using d o(4,5) j by (simp add: J_def e)
  qed
  then show "sm_inv n {} X (sm1\<lparr>sm_wheel := w1\<rparr>)" "tw_current_tick w1 = tw_current_tick (sm_wheel sm)"
    "sm_heartbeat_timeout_ticks sm1 = sm_heartbeat_timeout_ticks sm"
    by (simp_all add: J_def f)
qed

lemma sm_tick_ok:
  assumes inv: "sm_inv n {} X sm" and cb: "sm_callback_ok rcb" "sm_callback_ok tcb"
    and r: "sm_tick ra rcb tcb (sm, env) = (sm', env')"
  shows "sm_inv n {} X sm'" and "tw_current_tick (sm_wheel sm') = tw_current_tick (sm_wheel sm) + 1"
    and "sm_heartbeat_timeout_ticks sm' = sm_heartbeat_timeout_ticks sm"
proof -
  obtain xs w where t: "tick_collect (sm_wheel sm) = (xs, w)" by (cases "tick_collect (sm_wheel sm)")
  obtain w1 sm1 env1 where f: "fire (wheel_callback rcb tcb) xs (w, sm, env) = (w1, sm1, env1)"
    by (cases "fire (wheel_callback rcb tcb) xs (w, sm, env)")
  note fi = sm_fire_ok[OF inv cb t f] and eq = sm_tick_eq[OF t f refl r]
  have "sm_inv n {} X ((sm1\<lparr>sm_wheel := w1\<rparr>)\<lparr>sm_wheel := w1\<lparr>tw_current_tick := tw_current_tick w1 + 1\<rparr>\<rparr>)"
    using sm_invD(1)[OF fi(1)] by (intro sm_inv_wheel[OF fi(1)]) (simp_all add: tw_inv_clock timers_clock)
  then show "sm_inv n {} X sm'" by (simp add: eq(5))
  show "tw_current_tick (sm_wheel sm') = tw_current_tick (sm_wheel sm) + 1" using fi(2) by (simp add: eq(2))
  show "sm_heartbeat_timeout_ticks sm' = sm_heartbeat_timeout_ticks sm" using fi(3) by (simp add: eq(6))
qed

lemma tw_pending_pos:
  assumes "tw_inv n P w" and "x \<in> P"
  shows "x \<noteq> 0"
proof -
  have "0 < unat x" using assms unfolding tw_inv_def tw_ids_def by blast
  then show ?thesis by auto
qed

text \<open>With callbacks that leave the manager alone, an expiry removes its session and nothing else.\<close>

lemma on_timer_expire_quiet:
  assumes inv: "sm_inv n P X sm" and q: "sm_quiet rcb" "sm_quiet tcb"
    and e: "on_timer_expire rcb tcb t (sm, env) = (sm', env')" and "t \<noteq> 0"
  shows "sm_sessions sm' = filter (\<lambda>i. timer_of sm i \<noteq> t) (sm_sessions sm)"
    and "sm_wheel sm' = sm_wheel sm"
    and "\<And>i. i \<in> set (sm_sessions sm') \<Longrightarrow> timer_of sm' i = timer_of sm i"
proof -
  have "sm_sessions sm' = filter (\<lambda>i. timer_of sm i \<noteq> t) (sm_sessions sm) \<and> sm_wheel sm' = sm_wheel sm \<and>
      (\<forall>i \<in> set (sm_sessions sm'). timer_of sm' i = timer_of sm i)"
  proof (cases "sm_timer_to_session sm t")
    case None
    have "timer_of sm i \<noteq> t" if "i \<in> set (sm_sessions sm)" for i
      using sm_invD(6)[OF inv that] None assms(5) by (auto simp: session_ok_def)
    then show ?thesis using e None by (simp add: on_timer_expire_def)
  next
    case (Some i)
    note ti = sm_invD(7-9)[OF inv Some]
    obtain env1 where c1: "call_back rcb i (expire_prepare t i sm, env) = (False, expire_prepare t i sm, env1)"
      using q(1) unfolding sm_quiet_def by blast
    obtain env2 where c2: "call_back tcb i (erase_session i (expire_prepare t i sm), env1) =
        (False, erase_session i (expire_prepare t i sm), env2)"
      using q(2) unfolding sm_quiet_def by blast
    have sm': "sm' = drop_ptr i (upd_session i session_close (erase_session i (expire_prepare t i sm)))"
      using on_timer_expire_eq[OF Some ti(1) c1 c2] e by simp
    have "removeAll i (sm_sessions sm) = filter (\<lambda>j. timer_of sm j \<noteq> t) (sm_sessions sm)"
      unfolding removeAll_filter_not_eq
    proof (rule filter_cong[OF refl])
      fix j assume "j \<in> set (sm_sessions sm)"
      then show "(i \<noteq> j) = (timer_of sm j \<noteq> t)" using sm_timer_unique[OF inv ti(1)] ti(2,3) by metis
    qed
    moreover have ss: "sm_sessions sm' = removeAll i (sm_sessions sm)" "sm_wheel sm' = sm_wheel sm"
      by (simp_all add: sm')
    moreover have "timer_of sm' j = timer_of sm j" if "j \<in> set (sm_sessions sm')" for j
    proof -
      have "j \<noteq> i" using that unfolding ss by simp
      then show ?thesis by (simp add: sm')
    qed
    ultimately show ?thesis by simp
  qed
  then show "sm_sessions sm' = filter (\<lambda>i. timer_of sm i \<noteq> t) (sm_sessions sm)"
    "sm_wheel sm' = sm_wheel sm" "\<And>i. i \<in> set (sm_sessions sm') \<Longrightarrow> timer_of sm' i = timer_of sm i" by blast+
qed

lemma sm_fire_quiet:
  assumes inv: "sm_inv n {} X sm" and q: "sm_quiet rcb" "sm_quiet tcb"
    and t: "tick_collect (sm_wheel sm) = (xs, w)"
    and f: "fire (wheel_callback rcb tcb) xs (w, sm, env) = (w1, sm1, env1)"
  shows "sm_sessions sm1 = filter (\<lambda>i. timer_of sm i \<notin> set xs) (sm_sessions sm)"
    and "timers w1 = timers w"
    and "\<And>i. i \<in> set (sm_sessions sm1) \<Longrightarrow> timer_of sm1 i = timer_of sm i"
proof -
  note tc = tick_collect_ok[OF sm_invD(1)[OF inv] t]
  note cb = quiet_callback_ok[OF q(1)] quiet_callback_ok[OF q(2)]
  define J where "J ys v e \<longleftrightarrow> (\<exists>don. don @ ys = xs \<and> distinct ys \<and> sm_inv n (set ys) X ((fst e)\<lparr>sm_wheel := v\<rparr>) \<and>
      timers v = timers w \<and> sm_sessions (fst e) = filter (\<lambda>i. timer_of sm i \<notin> set don) (sm_sessions sm) \<and>
      (\<forall>i \<in> set (sm_sessions (fst e)). timer_of (fst e) i = timer_of sm i))"
    for ys v and e :: "SessionManager \<times> 'a"
  have "J [] (fst (fire (wheel_callback rcb tcb) xs (w, sm, env))) (snd (fire (wheel_callback rcb tcb) xs (w, sm, env)))"
  proof (rule fire_rule)
    show "J xs w (sm, env)" using tc(1) wheel_due_inv[OF inv t] by (auto simp: J_def)
    fix x ys v e v' e'
    assume "J (x # ys) v e" and c: "wheel_callback rcb tcb x (v, e) = (v', e')"
    then obtain don where j: "don @ x # ys = xs" "distinct (x # ys)" "timers v = timers w"
        "sm_sessions (fst e) = filter (\<lambda>i. timer_of sm i \<notin> set don) (sm_sessions sm)"
        "\<forall>i \<in> set (sm_sessions (fst e)). timer_of (fst e) i = timer_of sm i"
      and i: "sm_inv n (set (x # ys)) X ((fst e)\<lparr>sm_wheel := v\<rparr>)"
      unfolding J_def by blast
    let ?s = "(fst e)\<lparr>sm_wheel := v\<rparr>"
    obtain s' env' where o: "on_timer_expire rcb tcb x (?s, snd e) = (s', env')" "sm_inv n (set (x # ys)) X s'"
        "sm_timer_to_session s' x = None"
      using on_timer_expire_ok[OF i cb list.set_intros(1)] by blast
    have "x \<noteq> 0" by (rule tw_pending_pos[OF sm_invD(1)[OF i]]) simp
    note qu = on_timer_expire_quiet[OF i q o(1) this]
    have e: "v' = sm_wheel s'" "fst e' = s'" using wheel_callback_eq[OF c] o(1) by simp_all
    let ?v = "v'\<lparr>tw_heap := (tw_heap v')(x := None), tw_free_ids := tw_free_ids v' @ [x]\<rparr>"
    have "sm_inv n (set (x # ys) - {x}) X (s'\<lparr>sm_wheel := ?v\<rparr>)"
      by (rule release_inv[OF o(2) _ o(3)]) (simp_all add: e)
    moreover have "set (x # ys) - {x} = set ys" using j(2) by auto
    moreover have "e_id (the (tw_heap v x)) = x" using tw_heap_pending[OF sm_invD(1)[OF i], of x] by auto
    moreover have "timers ?v = timers v'"
      by (rule tw_release(2)[OF sm_invD(1)[OF o(2), folded e(1)] _ refl]) simp
    moreover have "sm_sessions s' = filter (\<lambda>i. timer_of sm i \<notin> set (don @ [x])) (sm_sessions sm)"
    proof -
      have "sm_sessions s' = filter (\<lambda>i. timer_of sm i \<noteq> x) (sm_sessions (fst e))"
        unfolding qu(1) by (simp, rule filter_cong[OF refl]) (simp add: j(5))
      also have "\<dots> = filter (\<lambda>i. timer_of sm i \<notin> set (don @ [x])) (sm_sessions sm)"
        unfolding j(4) filter_filter by (rule filter_cong[OF refl]) auto
      finally show ?thesis .
    qed
    moreover have "\<forall>i \<in> set (sm_sessions s'). timer_of s' i = timer_of sm i"
    proof
      fix i assume i: "i \<in> set (sm_sessions s')"
      then have "i \<in> set (sm_sessions (fst e))" unfolding qu(1) by simp
      then show "timer_of s' i = timer_of sm i" using qu(3)[OF i] j(5) by simp
    qed
    moreover have "(don @ [x]) @ ys = xs" "distinct ys" "timers v' = timers w"
      using j(1-3) qu(2) by (simp_all add: e)
    ultimately show "e_id (the (tw_heap v x)) = x \<and> J ys ?v e'"
      unfolding J_def e(2) by (intro conjI exI[of _ "don @ [x]"]) simp_all
  qed
  then show "sm_sessions sm1 = filter (\<lambda>i. timer_of sm i \<notin> set xs) (sm_sessions sm)"
    "timers w1 = timers w" "\<And>i. i \<in> set (sm_sessions sm1) \<Longrightarrow> timer_of sm1 i = timer_of sm i"
    by (auto simp: J_def f)
qed

lemma sm_tick_quiet:
  assumes inv: "sm_inv n {} X sm" and q: "sm_quiet rcb" "sm_quiet tcb"
    and r: "sm_tick ra rcb tcb (sm, env) = (sm', env')"
  shows "sm_sessions sm' =
      filter (\<lambda>i. timers (sm_wheel sm) (timer_of sm i) \<noteq> Some (tw_current_tick (sm_wheel sm))) (sm_sessions sm)"
    and "\<And>i. i \<in> set (sm_sessions sm') \<Longrightarrow> timer_of sm' i = timer_of sm i"
    and "\<And>i. i \<in> set (sm_sessions sm') \<Longrightarrow> timers (sm_wheel sm') (timer_of sm' i) = timers (sm_wheel sm) (timer_of sm i)"
proof -
  obtain xs w where t: "tick_collect (sm_wheel sm) = (xs, w)" by (cases "tick_collect (sm_wheel sm)")
  obtain w1 sm1 env1 where f: "fire (wheel_callback rcb tcb) xs (w, sm, env) = (w1, sm1, env1)"
    by (cases "fire (wheel_callback rcb tcb) xs (w, sm, env)")
  note tc = tick_collect_ok[OF sm_invD(1)[OF inv] t]
  note fi = sm_fire_quiet[OF inv q t f] and eq = sm_tick_eq[OF t f refl r]
  show ss: "sm_sessions sm' =
      filter (\<lambda>i. timers (sm_wheel sm) (timer_of sm i) \<noteq> Some (tw_current_tick (sm_wheel sm))) (sm_sessions sm)"
    unfolding eq(3) fi(1) by (rule filter_cong[OF refl]) (simp only: tc(2) mem_Collect_eq)
  show tm: "timer_of sm' i = timer_of sm i" if "i \<in> set (sm_sessions sm')" for i
    unfolding eq(4) by (rule fi(3)) (use that in \<open>simp only: eq(3)\<close>)
  show "timers (sm_wheel sm') (timer_of sm' i) = timers (sm_wheel sm) (timer_of sm i)"
    if "i \<in> set (sm_sessions sm')" for i
  proof -
    have "timer_of sm i \<notin> set xs" using that unfolding eq(3) fi(1) by simp
    then show ?thesis unfolding tm[OF that] eq(2) timers_clock fi(2) tc(4) by simp
  qed
qed

section \<open>Properties\<close>

lemma idle_session:
  assumes inv: "sm_inv n {} X sm" and q: "sm_quiet rcb" "sm_quiet tcb" and i: "i \<in> set (sm_sessions sm)"
    and d: "timers (sm_wheel sm) (timer_of sm i) = Some d"
    and early: "\<forall>k < m. tw_current_tick (sm_wheel sm) + of_nat k \<noteq> d"
    and r: "(sm_tick ra rcb tcb ^^ m) (sm, env) = (sm', env')"
  shows "sm_inv n {} X sm' \<and> i \<in> set (sm_sessions sm') \<and> timer_of sm' i = timer_of sm i \<and>
    timers (sm_wheel sm') (timer_of sm' i) = Some d \<and>
    tw_current_tick (sm_wheel sm') = tw_current_tick (sm_wheel sm) + of_nat m \<and>
    sm_heartbeat_timeout_ticks sm' = sm_heartbeat_timeout_ticks sm"
  using early r
proof (induction m arbitrary: sm' env')
  case 0
  then show ?case using inv i d by simp
next
  case (Suc m)
  obtain sm1 env1 where r1: "(sm_tick ra rcb tcb ^^ m) (sm, env) = (sm1, env1)"
    by (cases "(sm_tick ra rcb tcb ^^ m) (sm, env)")
  have IH: "sm_inv n {} X sm1" "i \<in> set (sm_sessions sm1)" "timer_of sm1 i = timer_of sm i"
      "timers (sm_wheel sm1) (timer_of sm1 i) = Some d"
      "tw_current_tick (sm_wheel sm1) = tw_current_tick (sm_wheel sm) + of_nat m"
      "sm_heartbeat_timeout_ticks sm1 = sm_heartbeat_timeout_ticks sm"
    using Suc.IH[OF _ r1] Suc.prems(1) by auto
  have st: "sm_tick ra rcb tcb (sm1, env1) = (sm', env')" using Suc.prems(2) r1 by simp
  note tq = sm_tick_quiet[OF IH(1) q st]
  note tk = sm_tick_ok[OF IH(1) quiet_callback_ok[OF q(1)] quiet_callback_ok[OF q(2)] st]
  have "tw_current_tick (sm_wheel sm1) \<noteq> d" using Suc.prems(1) IH(5) by simp
  then have i': "i \<in> set (sm_sessions sm')" using IH(2,4) unfolding tq(1) by simp
  then show ?case using tk tq(2,3)[OF i'] IH(3-6) by simp
qed

lemma of_nat_u32_neq:
  assumes "k < unat (t :: u32)"
  shows "c + of_nat k \<noteq> c + (ucast t :: u64)"
proof
  assume "c + of_nat k = c + (ucast t :: u64)"
  then have "unat (of_nat k :: u64) = unat (ucast t :: u64)" by simp
  moreover have "unat t < 2 ^ 64" using unat_lt2p[of t] by simp
  ultimately show False using assms by (simp add: unat_of_nat_small unat_ucast_up)
qed

text \<open>A session whose timer was set to the heartbeat timeout just now.\<close>

lemma idle_session_life:
  assumes inv: "sm_inv n {} X sm" and q: "sm_quiet rcb" "sm_quiet tcb" and i: "i \<in> set (sm_sessions sm)"
    and d: "timers (sm_wheel sm) (timer_of sm i) = Some (tw_current_tick (sm_wheel sm) + ucast (hb :: u32))"
  shows "m \<le> unat hb \<Longrightarrow> i \<in> set (sm_sessions (fst ((sm_tick ra rcb tcb ^^ m) (sm, env))))"
    and "i \<notin> set (sm_sessions (fst ((sm_tick ra rcb tcb ^^ Suc (unat hb)) (sm, env))))"
proof -
  have early: "\<forall>k < m. tw_current_tick (sm_wheel sm) + of_nat k \<noteq> tw_current_tick (sm_wheel sm) + ucast hb"
    if "m \<le> unat hb" for m
    using that of_nat_u32_neq[where t = hb] by simp
  show "i \<in> set (sm_sessions (fst ((sm_tick ra rcb tcb ^^ m) (sm, env))))" if "m \<le> unat hb"
    using idle_session[OF inv q i d early[OF that]] by (metis prod.collapse)
  obtain sm1 env1 where r1: "(sm_tick ra rcb tcb ^^ unat hb) (sm, env) = (sm1, env1)"
    by (cases "(sm_tick ra rcb tcb ^^ unat hb) (sm, env)")
  note l = idle_session[OF inv q i d early[OF order.refl] r1]
  obtain sm2 env2 where r2: "sm_tick ra rcb tcb (sm1, env1) = (sm2, env2)"
    by (cases "sm_tick ra rcb tcb (sm1, env1)")
  have "of_nat (unat hb) = (ucast hb :: u64)" by (simp add: unsigned_ucast_eq)
  then have "timers (sm_wheel sm1) (timer_of sm1 i) = Some (tw_current_tick (sm_wheel sm1))" using l by auto
  then have "i \<notin> set (sm_sessions sm2)"
    using sm_tick_quiet(1)[OF _ q r2, of n X] l by simp
  then show "i \<notin> set (sm_sessions (fst ((sm_tick ra rcb tcb ^^ Suc (unat hb)) (sm, env))))"
    using r1 r2 by simp
qed

text \<open>
  C14: A session that is created and then touched within its heartbeat timeout of \<open>t\<close> ticks
  stays in the manager for exactly \<open>t\<close> further ticks, and the next tick removes it; it is
  not removed in between, whatever happens to the other sessions.
\<close>

theorem idle_session_times_out:
  assumes "sm_inv (Suc n) {} {} sm" and "create_session pa ba sm = (Inr i, sm1)"
    and "0 < sm_heartbeat_timeout_ticks sm" and "sm_quiet rcb" and "sm_quiet tcb"
    and "k \<le> unat (sm_heartbeat_timeout_ticks sm)"
    and "(sm_tick ra rcb tcb ^^ k) (sm1, env) = (sm2, env2)" and "touch_session i sm2 = (r, sm3)"
    and "m \<le> Suc (unat (sm_heartbeat_timeout_ticks sm))"
  shows "i \<in> set (sm_sessions (fst ((sm_tick ra rcb tcb ^^ m) (sm3, env2)))) \<longleftrightarrow>
    m \<le> unat (sm_heartbeat_timeout_ticks sm)"
proof -
  let ?hb = "sm_heartbeat_timeout_ticks sm"
  note cr = create_session_ok[OF assms(1,2), unfolded sum.case]
  have c: "sm_inv n {} {} sm1" "i \<in> set (sm_sessions sm1)" "timer_of sm1 i \<noteq> 0"
      "timers (sm_wheel sm1) (timer_of sm1 i) = Some (tw_current_tick (sm_wheel sm1) + ucast ?hb)"
    using cr assms(3) by auto
  have "\<forall>j < k. tw_current_tick (sm_wheel sm1) + of_nat j \<noteq> tw_current_tick (sm_wheel sm1) + ucast ?hb"
    using assms(6) of_nat_u32_neq[where t = ?hb] by simp
  note l = idle_session[OF c(1) assms(4,5) c(2,4) this assms(7)]
  have hb: "sm_heartbeat_timeout_ticks sm2 = ?hb" using l cr by simp
  note t = touch_session_ok[OF conjunct1[OF l] assms(8)]
  have s3: "sm_inv n {} {} sm3" "i \<in> set (sm_sessions sm3)"
      "timers (sm_wheel sm3) (timer_of sm3 i) = Some (tw_current_tick (sm_wheel sm3) + ucast ?hb)"
    using t l c(3) assms(3) hb by auto
  note life = idle_session_life[OF s3(1) assms(4,5) s3(2,3), where ra = ra and env = env2]
  show ?thesis
  proof (cases "m \<le> unat ?hb")
    case True
    then show ?thesis using life(1) by simp
  next
    case False
    then have "m = Suc (unat ?hb)" using assms(9) by simp
    then show ?thesis using life(2) by simp
  qed
qed

text \<open>A manager with a wheel of four slots, no pool slots and a heartbeat timeout of two ticks.\<close>

definition empty_pool :: SlabAllocator where
  "empty_pool = \<lparr>slab_chunks = [], slab_free_list = 0, slab_slot_size = 512, slab_total_count = 0,
     slab_free_count = 0, slab_config = \<lparr>auto_grow = False, grow_chunk_size = 0, max_total_count = 0\<rparr>,
     slab_initial_count = 1, slab_grow_count = 0, slab_peak_allocated = 0, slab_double_free_count = 0,
     slab_next = (\<lambda>p. 0), slab_magic = (\<lambda>p. 0)\<rparr>"

lemma SessionManager_new_inv:
  assumes "SessionManager_new c hb slots rc mq pool = Inr sm" and "ucast hb < tw_num_slots (sm_wheel sm)"
    and "n < 2 ^ 64 - 1"
  shows "sm_inv n {} X sm"
proof (rule sm_invI)
  obtain w where w: "TimingWheel_new slots = Inr w"
      and sm: "sm_wheel sm = w" "sm_sessions sm = []" "sm_heartbeat_timeout_ticks sm = hb" "sm_next_id sm = 1"
        "sm_timer_to_session sm = (\<lambda>t. None)"
    using assms(1) by (auto simp: SessionManager_new_def split: sum.splits)
  show "tw_inv n {} (sm_wheel sm)" unfolding sm by (rule TimingWheel_new_inv[OF w assms(3)])
  show "ucast (sm_heartbeat_timeout_ticks sm) < tw_num_slots (sm_wheel sm)" using assms(2) by (simp add: sm)
  fix i assume "i \<in> set (sm_sessions sm)"
  then show "session_ok {} X sm i" by (simp add: sm)
next
  fix t i assume "sm_timer_to_session sm t = Some i"
  then show "i \<in> set (sm_sessions sm) \<and> timer_of sm i = t \<and> t \<noteq> 0"
    using assms(1) by (auto simp: SessionManager_new_def split: sum.splits)
qed (use assms in \<open>auto simp: SessionManager_new_def split: sum.splits\<close>)

lemma small_manager:
  obtains sm where "SessionManager_new 0 2 4 64 8 empty_pool = Inr sm" and "sm_inv (Suc 0) {} {} sm"
    and "sm_heartbeat_timeout_ticks sm = 2" and "sm_recv_buf_capacity sm = 64" and "sm_pool sm = empty_pool"
proof -
  obtain w where w: "TimingWheel_new 4 = Inr w" "tw_num_slots w = 4" by (rule small_wheel)
  obtain sm where sm: "SessionManager_new 0 2 4 64 8 empty_pool = Inr sm" "sm_wheel sm = w"
      "sm_heartbeat_timeout_ticks sm = 2" "sm_recv_buf_capacity sm = 64" "sm_pool sm = empty_pool"
    by (simp add: SessionManager_new_def w(1))
  show thesis by (rule that[OF sm(1) SessionManager_new_inv[OF sm(1)]]) (simp_all add: sm w)
qed

lemma small_manager_create:
  assumes "sm_pool sm = empty_pool" and "sm_recv_buf_capacity sm = 64" and "sm_inv (Suc n) {} {} sm"
  obtains i sm' where "create_session (\<lambda>a b. None) zero_alloc sm = (Inr i, sm')"
proof -
  have p2: "next_power_of_2 64 = 64" by code_simp
  then obtain rb where rb: "RingBuffer_new zero_alloc 64 = Inr rb"
    by (simp add: RingBuffer_new_def Let_def zero_alloc_def)
  obtain x w where "schedule (sm_heartbeat_timeout_ticks sm) (sm_wheel sm) = (Inr x, w)"
    using schedule_ok[OF sm_invD(1)[OF assms(3)] sm_invD(3)[OF assms(3)]] by blast
  then show thesis using rb assms(1,2)
    by (intro that[of "sm_next_id sm" "snd (create_session (\<lambda>a b. None) zero_alloc sm)"])
      (simp add: create_session_def construct_session_def slab_allocate_slot_def empty_pool_def Let_def)
qed

theorem idle_session_times_out_witness:
  "\<exists>sm i sm1 sm2 r sm3. SessionManager_new 0 2 4 64 8 empty_pool = Inr sm \<and>
     create_session (\<lambda>a b. None) zero_alloc sm = (Inr i, sm1) \<and>
     sm_tick zero_realloc None None (sm1, ()) = (sm2, ()) \<and> touch_session i sm2 = (r, sm3) \<and>
     i \<notin> set (sm_sessions (fst ((sm_tick zero_realloc None None ^^ 3) (sm3, ()))))"
proof -
  obtain sm where sm: "SessionManager_new 0 2 4 64 8 empty_pool = Inr sm" "sm_inv (Suc 0) {} {} sm"
      "sm_heartbeat_timeout_ticks sm = 2" "sm_recv_buf_capacity sm = 64" "sm_pool sm = empty_pool"
    by (rule small_manager)
  obtain i sm1 where c: "create_session (\<lambda>a b. None) zero_alloc sm = (Inr i, sm1)"
    using small_manager_create[OF sm(5,4,2)] .
  obtain sm2 where t: "sm_tick zero_realloc None None (sm1, ()) = (sm2, ())"
    by (cases "sm_tick zero_realloc None None (sm1, ())") simp
  obtain r sm3 where u: "touch_session i sm2 = (r, sm3)" by (cases "touch_session i sm2")
  have q: "sm_quiet (None :: unit sm_callback)" by (simp add: sm_quiet_def call_back_def)
  have "i \<in> set (sm_sessions (fst ((sm_tick zero_realloc None None ^^ 3) (sm3, ())))) \<longleftrightarrow>
      3 \<le> unat (sm_heartbeat_timeout_ticks sm)"
    by (rule idle_session_times_out[OF sm(2) c _ q q, of 1 zero_realloc "()" sm2 "()" r])
      (simp_all add: sm(3) t u)
  then have "i \<notin> set (sm_sessions (fst ((sm_tick zero_realloc None None ^^ 3) (sm3, ()))))" by (simp add: sm(3))
  then show ?thesis using sm(1) c t u by blast
qed

text \<open>Sequences of the manager's operations; a result or an exception is ignored by the caller.\<close>

datatype sm_op = Sm_create | Sm_remove u64 | Sm_touch u64 | Sm_tick

fun sm_apply ::
  "(u64 \<Rightarrow> u64 \<Rightarrow> u64 option) \<Rightarrow> (u64 \<Rightarrow> u64 \<Rightarrow> bytes option) \<Rightarrow> (bytes option \<Rightarrow> u64 \<Rightarrow> bytes option) \<Rightarrow>
   'e sm_callback \<Rightarrow> 'e sm_callback \<Rightarrow> sm_op \<Rightarrow> SessionManager \<times> 'e \<Rightarrow> SessionManager \<times> 'e" where
  "sm_apply pa ba ra rcb tcb Sm_create (sm, env) = (snd (create_session pa ba sm), env)"
| "sm_apply pa ba ra rcb tcb (Sm_remove i) (sm, env) = snd (remove_session rcb i (sm, env))"
| "sm_apply pa ba ra rcb tcb (Sm_touch i) (sm, env) = (snd (touch_session i sm), env)"
| "sm_apply pa ba ra rcb tcb Sm_tick (sm, env) = sm_tick ra rcb tcb (sm, env)"

lemma sm_apply_inv:
  assumes inv: "sm_inv (Suc n) {} {} sm" and cb: "sm_callback_ok rcb" "sm_callback_ok tcb"
  shows "sm_inv n {} {} (fst (sm_apply pa ba ra rcb tcb op (sm, env))) \<and>
    sm_heartbeat_timeout_ticks (fst (sm_apply pa ba ra rcb tcb op (sm, env))) = sm_heartbeat_timeout_ticks sm"
proof -
  have inv': "sm_inv n {} {} sm" using inv sm_inv_mono[of n 1] by simp
  show ?thesis
  proof (cases op)
    case Sm_create
    then show ?thesis using create_session_ok[OF inv, of pa ba]
      by (cases "create_session pa ba sm") (auto split: sum.splits)
  next
    case (Sm_remove i)
    obtain sm' env' where "remove_session rcb i (sm, env) = (False, sm', env')" "sm_inv n {} {} sm'"
        "sm_heartbeat_timeout_ticks sm' = sm_heartbeat_timeout_ticks sm"
      using remove_session_ok[OF inv' cb(1)] by blast
    then show ?thesis using Sm_remove by simp
  next
    case (Sm_touch i)
    then show ?thesis using touch_session_ok[OF inv', of i] by (cases "touch_session i sm") auto
  next
    case Sm_tick
    then show ?thesis using sm_tick_ok(1,3)[OF inv' cb] by (cases "sm_tick ra rcb tcb (sm, env)") simp
  qed
qed

lemma sm_run_inv:
  assumes "sm_inv (n + length ops) {} {} sm" and "sm_callback_ok rcb" "sm_callback_ok tcb"
  shows "sm_inv n {} {} (fst (fold (sm_apply pa ba ra rcb tcb) ops (sm, env))) \<and>
    sm_heartbeat_timeout_ticks (fst (fold (sm_apply pa ba ra rcb tcb) ops (sm, env))) = sm_heartbeat_timeout_ticks sm"
  using assms(1)
proof (induction ops arbitrary: sm env)
  case (Cons op ops)
  obtain sm' env' where a: "sm_apply pa ba ra rcb tcb op (sm, env) = (sm', env')"
    by (cases "sm_apply pa ba ra rcb tcb op (sm, env)")
  have "sm_inv (n + length ops) {} {} sm'" "sm_heartbeat_timeout_ticks sm' = sm_heartbeat_timeout_ticks sm"
    using sm_apply_inv[OF _ assms(2,3), of "n + length ops" sm pa ba ra op env] Cons.prems by (simp_all add: a)
  then show ?case using Cons.IH[of sm' env'] by (simp add: a)
qed simp

text \<open>
  C15: After any sequence of creations, removals, touches and ticks, with callbacks that may
  themselves remove and touch sessions: each session of the table is allocated and has a
  heartbeat timer of its own that is scheduled and leads back to it, and no timer leads to a
  session that is gone.
\<close>

theorem session_manager_consistent:
  assumes "SessionManager_new c hb slots rc mq pool = Inr sm0" and "ucast hb < tw_num_slots (sm_wheel sm0)"
    and "0 < hb" and "length ops < 2 ^ 64 - 1" and "sm_callback_ok rcb" and "sm_callback_ok tcb"
    and "fold (sm_apply pa ba ra rcb tcb) ops (sm0, env) = (sm, env')"
  shows "distinct (sm_sessions sm) \<and>
    (\<forall>i \<in> set (sm_sessions sm). sm_store sm i \<noteq> None \<and>
       sm_timer_to_session sm (timer_of sm i) = Some i \<and> timers (sm_wheel sm) (timer_of sm i) \<noteq> None) \<and>
    (\<forall>t i. sm_timer_to_session sm t = Some i \<longrightarrow> i \<in> set (sm_sessions sm) \<and> timer_of sm i = t)"
proof -
  have "sm_inv (0 + length ops) {} {} sm0" using SessionManager_new_inv[OF assms(1,2)] assms(4) by simp
  from sm_run_inv[OF this assms(5,6), of pa ba ra env]
  have inv: "sm_inv 0 {} {} sm" and hb: "sm_heartbeat_timeout_ticks sm = sm_heartbeat_timeout_ticks sm0"
    by (simp_all add: assms(7))
  have "sm_heartbeat_timeout_ticks sm0 = hb" using assms(1) by (auto simp: SessionManager_new_def split: sum.splits)
  then have "sm_heartbeat_timeout_ticks sm \<noteq> 0" using hb assms(3) by auto
  then have "sm_store sm i \<noteq> None \<and> sm_timer_to_session sm (timer_of sm i) = Some i \<and>
      timers (sm_wheel sm) (timer_of sm i) \<noteq> None" if "i \<in> set (sm_sessions sm)" for i
    using sm_invD(6)[OF inv that] by (auto simp: session_ok_def)
  then show ?thesis using sm_invD(2,7,8)[OF inv] by blast
qed

theorem session_manager_consistent_witness:
  "\<exists>sm0. SessionManager_new 0 2 4 64 8 empty_pool = Inr sm0 \<and>
     distinct (sm_sessions (fst (fold (sm_apply (\<lambda>a b. None) zero_alloc zero_realloc None None)
       [Sm_create, Sm_create, Sm_touch 1, Sm_tick, Sm_remove 2] (sm0, ()))))"
proof -
  obtain sm where sm: "SessionManager_new 0 2 4 64 8 empty_pool = Inr sm" "sm_inv (Suc 0) {} {} sm"
      "sm_heartbeat_timeout_ticks sm = 2"
    by (rule small_manager)
  have cb: "sm_callback_ok (None :: unit sm_callback)"
    by (rule quiet_callback_ok) (simp add: sm_quiet_def call_back_def)
  let ?ops = "[Sm_create, Sm_create, Sm_touch 1, Sm_tick, Sm_remove 2]"
  obtain sm' where f: "fold (sm_apply (\<lambda>a b. None) zero_alloc zero_realloc None None) ?ops (sm, ()) = (sm', ())"
    by (cases "fold (sm_apply (\<lambda>a b. None) zero_alloc zero_realloc None None) ?ops (sm, ())") simp
  have hb: "ucast (2 :: u32) < tw_num_slots (sm_wheel sm)" using sm_invD(3)[OF sm(2)] by (simp add: sm(3))
  have "length ?ops < 2 ^ 64 - 1" by simp
  from session_manager_consistent[OF sm(1) hb _ this cb cb f] show ?thesis using sm(1) f by auto
qed

end
