(* ===== verification/Spsc_Mesh.thy ===== *)
theory Spsc_Mesh
  imports Spsc_Queue
begin

text \<open>
  \<open>apex_core/src/spsc_mesh.cpp\<close> and \<open>cross_core_dispatcher.cpp\<close>: one single-producer
  single-consumer queue for every ordered pair of cores, drained by the destination core in a
  rotating order and dispatched by operation code. Handlers act on an environment that is a
  parameter; \<open>run_task\<close> and \<open>free_task\<close> stand for calling and deleting the closure behind a
  pointer.
\<close>

definition op_Noop :: u16 where "op_Noop = 0"
definition op_Shutdown :: u16 where "op_Shutdown = 1"
definition op_LegacyCrossCoreFn :: u16 where "op_LegacyCrossCoreFn = 2"
definition op_Custom :: u16 where "op_Custom = 3"

record CoreMessage =
  cm_op :: u16
  cm_source_core :: u32
  cm_data :: u64

definition CoreMessage_init :: CoreMessage where
  "CoreMessage_init = \<lparr>cm_op = op_Noop, cm_source_core = 0, cm_data = 0\<rparr>"

text \<open>The table of handlers by operation code.\<close>

type_synonym 'e handler = "u32 \<Rightarrow> u32 \<Rightarrow> u64 \<Rightarrow> 'e \<Rightarrow> 'e"

type_synonym 'e CrossCoreDispatcher = "u16 \<Rightarrow> 'e handler option"

definition cc_register_handler :: "u16 \<Rightarrow> 'e handler \<Rightarrow> 'e CrossCoreDispatcher \<Rightarrow> 'e CrossCoreDispatcher" where
  "cc_register_handler op h handlers = handlers(op \<mapsto> h)"

definition cc_dispatch :: "u32 \<Rightarrow> u32 \<Rightarrow> u16 \<Rightarrow> u64 \<Rightarrow> 'e CrossCoreDispatcher \<Rightarrow> 'e \<Rightarrow> 'e" where
  "cc_dispatch core_id source_core op data handlers e =
     (case handlers op of Some h \<Rightarrow> h core_id source_core data e | None \<Rightarrow> e)"

definition cc_has_handler :: "u16 \<Rightarrow> 'e CrossCoreDispatcher \<Rightarrow> bool" where
  "cc_has_handler op handlers \<longleftrightarrow> handlers op \<noteq> None"

record SpscMesh =
  mesh_num_cores :: u32
  mesh_queues :: "CoreMessage SpscQueue option list"
  mesh_drain_rotate :: "u32 list"

definition mesh_index :: "u32 \<Rightarrow> u32 \<Rightarrow> u32 \<Rightarrow> nat" where
  "mesh_index num_cores src dst = unat src * unat num_cores + unat dst"

definition SpscMesh_new :: "u32 \<Rightarrow> u64 \<Rightarrow> cpp_exception + SpscMesh" where
  "SpscMesh_new num_cores queue_capacity =
     (case SpscQueue_new CoreMessage_init queue_capacity of
        Inl e \<Rightarrow>
          (if 1 < num_cores then Inl e
           else Inr \<lparr>mesh_num_cores = num_cores, mesh_queues = replicate (unat num_cores * unat num_cores) None,
                     mesh_drain_rotate = replicate (unat num_cores) 0\<rparr>)
      | Inr q \<Rightarrow>
          Inr \<lparr>mesh_num_cores = num_cores,
               mesh_queues = map (\<lambda>i. if i div unat num_cores = i mod unat num_cores then None else Some q)
                 [0..<unat num_cores * unat num_cores],
               mesh_drain_rotate = replicate (unat num_cores) 0\<rparr>)"

definition mesh_queue :: "SpscMesh \<Rightarrow> u32 \<Rightarrow> u32 \<Rightarrow> CoreMessage SpscQueue" where
  "mesh_queue m src dst = the (mesh_queues m ! mesh_index (mesh_num_cores m) src dst)"

definition set_queue :: "u32 \<Rightarrow> u32 \<Rightarrow> CoreMessage SpscQueue \<Rightarrow> SpscMesh \<Rightarrow> SpscMesh" where
  "set_queue src dst q m =
     m\<lparr>mesh_queues := (mesh_queues m)[mesh_index (mesh_num_cores m) src dst := Some q]\<rparr>"

text \<open>The inner loop: up to \<open>n\<close> more messages of one queue, each handed to \<open>f\<close>.\<close>

primrec drain_loop ::
  "(CoreMessage \<Rightarrow> 'e \<Rightarrow> 'e) \<Rightarrow> nat \<Rightarrow> CoreMessage SpscQueue \<Rightarrow> 'e \<Rightarrow> nat \<times> CoreMessage SpscQueue \<times> 'e" where
  "drain_loop f 0 q e = (0, q, e)"
| "drain_loop f (Suc n) q e =
     (case try_dequeue q of
        (None, q) \<Rightarrow> (0, q, e)
      | (Some msg, q) \<Rightarrow> (case drain_loop f n q (f msg e) of (k, q, e) \<Rightarrow> (Suc k, q, e)))"

text \<open>The outer loop over the sources still to visit.\<close>

primrec drain_sources ::
  "(CoreMessage \<Rightarrow> 'e \<Rightarrow> 'e) \<Rightarrow> u32 \<Rightarrow> nat \<Rightarrow> u32 list \<Rightarrow> nat \<Rightarrow> SpscMesh \<Rightarrow> 'e \<Rightarrow> nat \<times> SpscMesh \<times> 'e" where
  "drain_sources f dst_core batch_limit [] tot m e = (tot, m, e)"
| "drain_sources f dst_core batch_limit (src # srcs) tot m e =
     (if src = dst_core then drain_sources f dst_core batch_limit srcs tot m e
      else if batch_limit \<le> tot then (tot, m, e)
      else case drain_loop f (batch_limit - tot) (mesh_queue m src dst_core) e of
             (k, q, e) \<Rightarrow>
               drain_sources f dst_core batch_limit srcs (tot + k)
                 (set_queue src dst_core (notify_producer_if_waiting q) m) e)"

text \<open>The visiting order from a start index; the index arithmetic is that of \<open>uint32_t\<close>.\<close>

definition visit_order :: "u32 \<Rightarrow> u32 \<Rightarrow> u32 list" where
  "visit_order num_cores start = map (\<lambda>offset. (start + of_nat offset) mod num_cores) [0..<unat num_cores]"

definition drain_all_for ::
  "u32 \<Rightarrow> (u32 \<Rightarrow> CoreMessage \<Rightarrow> 'e \<Rightarrow> 'e) option \<Rightarrow> u64 \<Rightarrow> SpscMesh \<Rightarrow> 'e \<Rightarrow> nat \<times> SpscMesh \<times> 'e" where
  "drain_all_for dst_core dispatch batch_limit m e =
     (let start = mesh_drain_rotate m ! unat dst_core;
          f = (case dispatch of None \<Rightarrow> (\<lambda>msg e. e) | Some d \<Rightarrow> d dst_core);
          (tot, m, e) = drain_sources f dst_core (unat batch_limit) (visit_order (mesh_num_cores m) start) 0 m e;
          m = m\<lparr>mesh_drain_rotate := (mesh_drain_rotate m)[unat dst_core := (start + 1) mod mesh_num_cores m]\<rparr>
      in (tot, m, e))"

text \<open>The dispatch of the overload that takes a dispatcher and a legacy handler.\<close>

definition unified_dispatch ::
  "(u64 \<Rightarrow> 'e \<Rightarrow> 'e) \<Rightarrow> (u64 \<Rightarrow> 'e \<Rightarrow> 'e) \<Rightarrow> 'e CrossCoreDispatcher \<Rightarrow> (u32 \<Rightarrow> CoreMessage \<Rightarrow> 'e \<Rightarrow> 'e) option \<Rightarrow>
   u32 \<Rightarrow> CoreMessage \<Rightarrow> 'e \<Rightarrow> 'e" where
  "unified_dispatch run_task free_task dispatcher legacy_handler core_id msg e =
     (if cm_op msg = op_LegacyCrossCoreFn
      then (if cm_data msg \<noteq> 0 then free_task (cm_data msg) (run_task (cm_data msg) e) else e)
      else if cc_has_handler (cm_op msg) dispatcher
      then cc_dispatch core_id (cm_source_core msg) (cm_op msg) (cm_data msg) dispatcher e
      else case legacy_handler of Some h \<Rightarrow> h core_id msg e | None \<Rightarrow> e)"

definition drain_all_for_dispatcher ::
  "(u64 \<Rightarrow> 'e \<Rightarrow> 'e) \<Rightarrow> (u64 \<Rightarrow> 'e \<Rightarrow> 'e) \<Rightarrow> u32 \<Rightarrow> 'e CrossCoreDispatcher \<Rightarrow> (u32 \<Rightarrow> CoreMessage \<Rightarrow> 'e \<Rightarrow> 'e) option \<Rightarrow>
   u64 \<Rightarrow> SpscMesh \<Rightarrow> 'e \<Rightarrow> nat \<times> SpscMesh \<times> 'e" where
  "drain_all_for_dispatcher run_task free_task dst_core dispatcher legacy_handler batch_limit m e =
     drain_all_for dst_core (Some (unified_dispatch run_task free_task dispatcher legacy_handler)) batch_limit m e"

text \<open>
  Shutdown empties a queue completely: the loop ends because every message taken brings the tail
  closer to the published index. The result is the closures to delete, in order.
\<close>

function shutdown_queue :: "CoreMessage SpscQueue \<Rightarrow> u64 list \<times> CoreMessage SpscQueue" where
  "shutdown_queue q =
     (case try_dequeue q of
        (None, q') \<Rightarrow> ([], q')
      | (Some msg, q') \<Rightarrow>
          (case shutdown_queue q' of (freed, q'') \<Rightarrow>
             (if cm_op msg = op_LegacyCrossCoreFn then cm_data msg # freed else freed, q'')))"
  by pat_completeness auto

lemma try_dequeue_decreases:
  assumes "try_dequeue q = (Some msg, q')"
  shows "unat (sq_published q') - unat (sq_tail q') < unat (sq_published q) - unat (sq_tail q)"
proof -
  have lt: "sq_tail q < sq_published q" and q': "sq_tail q' = sq_tail q + 1" "sq_published q' = sq_published q"
    using assms by (auto simp: try_dequeue_def Let_def split: if_splits)
  have "unat (sq_tail q + 1) = unat (sq_tail q) + 1"
    using lt unat_u64_less[of "sq_published q"] by (simp add: unat_add_small word_less_nat_alt)
  then show ?thesis using lt by (simp add: q' word_less_nat_alt)
qed

termination shutdown_queue
  by (relation "measure (\<lambda>q. unat (sq_published q) - unat (sq_tail q))")
    (auto dest!: try_dequeue_decreases[OF sym])

declare shutdown_queue.simps [simp del]

definition mesh_pairs :: "u32 \<Rightarrow> (u32 \<times> u32) list" where
  "mesh_pairs num_cores =
     concat (map (\<lambda>src. map (Pair (of_nat src)) (map of_nat [0..<unat num_cores])) [0..<unat num_cores])"

primrec shutdown_pairs :: "(u32 \<times> u32) list \<Rightarrow> SpscMesh \<Rightarrow> u64 list \<times> SpscMesh" where
  "shutdown_pairs [] m = ([], m)"
| "shutdown_pairs (p # ps) m =
     (if fst p = snd p then shutdown_pairs ps m
      else let q = cancel_waiting_producer (mesh_queue m (fst p) (snd p));
               (freed, q) = shutdown_queue q;
               (freed', m) = shutdown_pairs ps (set_queue (fst p) (snd p) q m)
           in (freed @ freed', m))"

definition mesh_shutdown :: "SpscMesh \<Rightarrow> u64 list \<times> SpscMesh" where
  "mesh_shutdown m = shutdown_pairs (mesh_pairs (mesh_num_cores m)) m"

section \<open>Invariant\<close>

definition core_ok :: "SpscMesh \<Rightarrow> u32 \<Rightarrow> bool" where
  "core_ok m c \<longleftrightarrow> unat c < unat (mesh_num_cores m)"

definition mesh_inv :: "SpscMesh \<Rightarrow> bool" where
  "mesh_inv m \<longleftrightarrow>
     unat (mesh_num_cores m) < 2 ^ 31 \<and>
     length (mesh_queues m) = unat (mesh_num_cores m) * unat (mesh_num_cores m) \<and>
     length (mesh_drain_rotate m) = unat (mesh_num_cores m) \<and>
     (\<forall>c < unat (mesh_num_cores m). core_ok m (mesh_drain_rotate m ! c)) \<and>
     (\<forall>a b. core_ok m a \<and> core_ok m b \<and> a \<noteq> b \<longrightarrow> sq_inv 1 (mesh_queue m a b))"

lemma div_mod_pair:
  assumes "a * n + b = a' * n + b'" and "b < n" and "b' < (n :: nat)"
  shows "a = a' \<and> b = b'"
proof
  have "(a * n + b) div n = a" "(a' * n + b') div n = a'" using assms(2,3) by simp_all
  then show "a = a'" using assms(1) by simp
  then show "b = b'" using assms(1) by simp
qed

lemma mesh_index_inj:
  "core_ok m b \<Longrightarrow> core_ok m d \<Longrightarrow>
   mesh_index (mesh_num_cores m) a b = mesh_index (mesh_num_cores m) c d \<longleftrightarrow> a = c \<and> b = d"
  unfolding mesh_index_def core_ok_def using div_mod_pair by (metis word_unat_eq_iff)

lemma mesh_index_less:
  assumes "core_ok m a" and "core_ok m b" and "mesh_inv m"
  shows "mesh_index (mesh_num_cores m) a b < length (mesh_queues m)"
proof -
  let ?n = "unat (mesh_num_cores m)"
  have "unat a * ?n + unat b < unat a * ?n + ?n" using assms(2) by (simp add: core_ok_def)
  also have "\<dots> = Suc (unat a) * ?n" by simp
  also have "\<dots> \<le> ?n * ?n" using assms(1) unfolding core_ok_def by (intro mult_right_mono) simp_all
  finally show ?thesis using assms(3) by (simp add: mesh_index_def mesh_inv_def)
qed

lemma set_queue_fields [simp]:
  "mesh_num_cores (set_queue a b q m) = mesh_num_cores m"
  "mesh_drain_rotate (set_queue a b q m) = mesh_drain_rotate m"
  "core_ok (set_queue a b q m) c = core_ok m c"
  by (simp_all add: set_queue_def core_ok_def)

lemma mesh_queue_set:
  assumes "mesh_inv m" and "core_ok m a" and "core_ok m b" and "core_ok m c" and "core_ok m d"
  shows "mesh_queue (set_queue a b q m) c d = (if c = a \<and> d = b then q else mesh_queue m c d)"
  using mesh_index_less[OF assms(2,3,1)] mesh_index_inj[OF assms(3,5), of a c]
  by (auto simp: mesh_queue_def set_queue_def nth_list_update)

lemma set_queue_inv:
  assumes "mesh_inv m" and "core_ok m a" and "core_ok m b" and "sq_inv 1 q"
  shows "mesh_inv (set_queue a b q m)"
proof -
  have "sq_inv 1 (mesh_queue (set_queue a b q m) c d)" if "core_ok m c" "core_ok m d" "c \<noteq> d" for c d
    using that assms mesh_queue_set[OF assms(1-3) that(1,2)] unfolding mesh_inv_def by auto
  then show ?thesis using assms(1) unfolding mesh_inv_def by (simp add: set_queue_def core_ok_def)
qed

lemma sq_inv_dequeue:
  assumes "sq_inv 1 q"
  shows "sq_items q = [] \<Longrightarrow> try_dequeue q = (None, q)"
    and "sq_items q = x # xs \<Longrightarrow> \<exists>q'. try_dequeue q = (Some x, q') \<and> sq_inv 1 q' \<and> sq_items q' = xs"
proof -
  have inv: "sq_inv (Suc 0) q" using assms by simp
  show "sq_items q = [] \<Longrightarrow> try_dequeue q = (None, q)" by (rule spsc.deq_empty[OF inv])
  assume i: "sq_items q = x # xs"
  obtain r q' where d: "try_dequeue q = (r, q')" by (cases "try_dequeue q")
  note it = spsc.deq_item[OF inv i d]
  have "sq_head q' = sq_head q" using d by (auto simp: try_dequeue_def Let_def split: if_splits)
  then have "sq_inv 1 q'" using it assms by (simp add: sq_inv_def)
  then show "\<exists>q'. try_dequeue q = (Some x, q') \<and> sq_inv 1 q' \<and> sq_items q' = xs" using it d by blast
qed

lemma drain_loop_ok:
  "sq_inv 1 q \<Longrightarrow> \<exists>q'. drain_loop f n q e = (length (take n (sq_items q)), q', fold f (take n (sq_items q)) e) \<and>
     sq_inv 1 q' \<and> sq_items q' = drop n (sq_items q)"
proof (induction n arbitrary: q e)
  case (Suc n)
  show ?case
  proof (cases "sq_items q")
    case Nil
    then show ?thesis using sq_inv_dequeue(1)[OF Suc.prems] Suc.prems by simp
  next
    case (Cons x xs)
    obtain q1 where q1: "try_dequeue q = (Some x, q1)" "sq_inv 1 q1" "sq_items q1 = xs"
      using sq_inv_dequeue(2)[OF Suc.prems Cons] by blast
    obtain q' where "drain_loop f n q1 (f x e) = (length (take n xs), q', fold f (take n xs) (f x e))"
        "sq_inv 1 q'" "sq_items q' = drop n xs"
      using Suc.IH[OF q1(2), of "f x e"] q1(3) by auto
    then show ?thesis by (simp add: Cons q1(1))
  qed
qed simp

lemma waiting_fields:
  "sq_inv n (notify_producer_if_waiting q) = sq_inv n q" "sq_items (notify_producer_if_waiting q) = sq_items q"
  "sq_inv n (cancel_waiting_producer q) = sq_inv n q" "sq_items (cancel_waiting_producer q) = sq_items q"
  by (simp_all add: notify_producer_if_waiting_def cancel_waiting_producer_def Let_def sq_inv_def sq_shape_def sq_items_def)

section \<open>Draining\<close>

text \<open>
  What draining the queues of \<open>dst\<close> from the sources \<open>srcs\<close> does: \<open>tk src\<close> are the
  messages taken from a source.
\<close>

definition drained ::
  "(CoreMessage \<Rightarrow> 'e \<Rightarrow> 'e) \<Rightarrow> u32 \<Rightarrow> nat \<Rightarrow> u32 list \<Rightarrow> (u32 \<Rightarrow> CoreMessage list) \<Rightarrow> SpscMesh \<Rightarrow> 'e \<Rightarrow> SpscMesh \<Rightarrow> 'e \<Rightarrow> bool" where
  "drained f dst room srcs tk m e m' e' \<longleftrightarrow>
     mesh_inv m' \<and> mesh_num_cores m' = mesh_num_cores m \<and> mesh_drain_rotate m' = mesh_drain_rotate m \<and>
     e' = fold f (concat (map tk srcs)) e \<and> length (concat (map tk srcs)) \<le> room \<and>
     (\<forall>src \<in> set srcs. src \<noteq> dst \<longrightarrow> sq_items (mesh_queue m src dst) = tk src @ sq_items (mesh_queue m' src dst) \<and>
        (length (concat (map tk srcs)) < room \<longrightarrow> sq_items (mesh_queue m' src dst) = [])) \<and>
     (\<forall>a b. core_ok m a \<and> core_ok m b \<and> a \<noteq> b \<and> \<not> (b = dst \<and> a \<in> set srcs) \<longrightarrow> mesh_queue m' a b = mesh_queue m a b)"

lemma drainedD:
  assumes "drained f dst room srcs tk m e m' e'"
  shows "mesh_inv m'" "mesh_num_cores m' = mesh_num_cores m" "mesh_drain_rotate m' = mesh_drain_rotate m"
    "e' = fold f (concat (map tk srcs)) e" "length (concat (map tk srcs)) \<le> room"
    "src \<in> set srcs \<Longrightarrow> src \<noteq> dst \<Longrightarrow> sq_items (mesh_queue m src dst) = tk src @ sq_items (mesh_queue m' src dst)"
    "src \<in> set srcs \<Longrightarrow> src \<noteq> dst \<Longrightarrow> length (concat (map tk srcs)) < room \<Longrightarrow> sq_items (mesh_queue m' src dst) = []"
    "core_ok m a \<Longrightarrow> core_ok m b \<Longrightarrow> a \<noteq> b \<Longrightarrow> \<not> (b = dst \<and> a \<in> set srcs) \<Longrightarrow> mesh_queue m' a b = mesh_queue m a b"
  using assms unfolding drained_def by blast+

lemma drainedI:
  assumes "mesh_inv m'" and "mesh_num_cores m' = mesh_num_cores m" and "mesh_drain_rotate m' = mesh_drain_rotate m"
    and "e' = fold f (concat (map tk srcs)) e" and "length (concat (map tk srcs)) \<le> room"
    and "\<And>src. src \<in> set srcs \<Longrightarrow> src \<noteq> dst \<Longrightarrow>
        sq_items (mesh_queue m src dst) = tk src @ sq_items (mesh_queue m' src dst) \<and>
        (length (concat (map tk srcs)) < room \<longrightarrow> sq_items (mesh_queue m' src dst) = [])"
    and "\<And>a b. core_ok m a \<Longrightarrow> core_ok m b \<Longrightarrow> a \<noteq> b \<Longrightarrow> \<not> (b = dst \<and> a \<in> set srcs) \<Longrightarrow>
        mesh_queue m' a b = mesh_queue m a b"
  shows "drained f dst room srcs tk m e m' e'"
  using assms unfolding drained_def by blast

lemma concat_map_Nil [simp]: "concat (map (\<lambda>x. []) xs) = []"
  by (induction xs) simp_all

lemma drain_sources_ok:
  assumes "mesh_inv m" and "core_ok m dst" and "\<forall>src \<in> set srcs. core_ok m src" and "distinct srcs" and "tot \<le> limit"
  shows "\<exists>tk m' e'. drain_sources f dst limit srcs tot m e = (tot + length (concat (map tk srcs)), m', e') \<and>
     drained f dst (limit - tot) srcs tk m e m' e' \<and> tk dst = [] \<and> (\<forall>src. src \<notin> set srcs \<longrightarrow> tk src = []) \<and>
     (srcs \<noteq> [] \<and> hd srcs \<noteq> dst \<longrightarrow> tk (hd srcs) = take (limit - tot) (sq_items (mesh_queue m (hd srcs) dst)))"
  using assms
proof (induction srcs arbitrary: m e tot)
  case Nil
  then show ?case by (intro exI[of _ "\<lambda>x. []"]) (auto simp: drained_def)
next
  case (Cons src srcs)
  show ?case
  proof (cases "src = dst")
    case True
    obtain tk m' e' where IH: "drain_sources f dst limit srcs tot m e = (tot + length (concat (map tk srcs)), m', e')"
        "drained f dst (limit - tot) srcs tk m e m' e'" "tk dst = []" "\<forall>src. src \<notin> set srcs \<longrightarrow> tk src = []"
      using Cons.IH[of m tot e] Cons.prems by auto
    then show ?thesis using True by (intro exI[of _ tk] exI[of _ m'] exI[of _ e']) (auto simp: drained_def)
  next
    case False
    show ?thesis
    proof (cases "limit \<le> tot")
      case True
      then have "tot = limit" using Cons.prems(5) by simp
      then have "drained f dst (limit - tot) (src # srcs) (\<lambda>x. []) m e m e"
        using Cons.prems(1) unfolding drained_def by simp
      then show ?thesis using False \<open>tot = limit\<close>
        by (intro exI[of _ "\<lambda>x. []"] exI[of _ m] exI[of _ e]) simp
    next
      case lt: False
      let ?q = "mesh_queue m src dst" and ?r = "limit - tot"
      have src: "core_ok m src" "src \<notin> set srcs" using Cons.prems by simp_all
      have "sq_inv 1 ?q" using Cons.prems(1,2) src False unfolding mesh_inv_def by blast
      then obtain q' where q': "drain_loop f ?r ?q e = (length (take ?r (sq_items ?q)), q', fold f (take ?r (sq_items ?q)) e)"
          "sq_inv 1 q'" "sq_items q' = drop ?r (sq_items ?q)"
        using drain_loop_ok[of ?q f ?r e] by blast
      define m1 where "m1 = set_queue src dst (notify_producer_if_waiting q') m"
      have inv1: "mesh_inv m1" unfolding m1_def
        using q'(2) by (intro set_queue_inv Cons.prems(1,2) src) (simp add: waiting_fields)
      have mq: "mesh_queue m1 a b = (if a = src \<and> b = dst then notify_producer_if_waiting q' else mesh_queue m a b)"
        if "core_ok m a" "core_ok m b" for a b
        unfolding m1_def using mesh_queue_set[OF Cons.prems(1) src(1) Cons.prems(2) that] by simp
      have m1: "core_ok m1 c = core_ok m c" "mesh_num_cores m1 = mesh_num_cores m"
          "mesh_drain_rotate m1 = mesh_drain_rotate m" for c
        by (simp_all add: m1_def)
      let ?t = "take ?r (sq_items ?q)" let ?tot = "tot + length ?t" let ?e = "fold f ?t e"
      have pre: "core_ok m1 dst" "\<forall>s \<in> set srcs. core_ok m1 s" "distinct srcs" "?tot \<le> limit"
        using Cons.prems lt by (simp_all add: m1)
      obtain tk m' e' where IH: "drain_sources f dst limit srcs ?tot m1 ?e = (?tot + length (concat (map tk srcs)), m', e')"
          "drained f dst (limit - ?tot) srcs tk m1 ?e m' e'" "tk dst = []" "\<forall>src. src \<notin> set srcs \<longrightarrow> tk src = []"
        using Cons.IH[OF inv1 pre, of ?e] by blast
      define tk' where "tk' = tk(src := ?t)"
      have c: "concat (map tk' (src # srcs)) = ?t @ concat (map tk srcs)"
        using src(2) by (simp add: tk'_def)
      have run: "drain_sources f dst limit (src # srcs) tot m e = (tot + length (concat (map tk' (src # srcs))), m', e')"
        using False lt IH(1) unfolding c by (simp add: q'(1) m1_def)
      note D = drainedD[OF IH(2)]
      have other: "mesh_queue m' a b = mesh_queue m a b"
        if "core_ok m a" "core_ok m b" "a \<noteq> b" "\<not> (b = dst \<and> a \<in> set (src # srcs))" for a b
      proof -
        have "\<not> (b = dst \<and> a \<in> set srcs)" "\<not> (a = src \<and> b = dst)" using that(4) by auto
        then show ?thesis using D(8)[of a b] that(1-3) mq[OF that(1,2)] m1(1) by auto
      qed
      have here: "mesh_queue m' src dst = notify_producer_if_waiting q'"
        using D(8)[of src dst] src False Cons.prems(2) mq[OF src(1) Cons.prems(2)] m1(1) by simp
      have rest: "sq_items (mesh_queue m s dst) = tk' s @ sq_items (mesh_queue m' s dst) \<and>
          (length (concat (map tk' (src # srcs))) < ?r \<longrightarrow> sq_items (mesh_queue m' s dst) = [])"
        if s: "s \<in> set (src # srcs)" "s \<noteq> dst" for s
      proof (cases "s = src")
        case True
        have "length ?t + length (concat (map tk srcs)) < ?r \<Longrightarrow> drop ?r (sq_items ?q) = []" by auto
        then show ?thesis unfolding c True by (simp add: here waiting_fields q'(3) tk'_def)
      next
        case sn: False
        then have s': "s \<in> set srcs" "core_ok m s" using s Cons.prems(3) by simp_all
        have "length (concat (map tk srcs)) < limit - ?tot" if "length (?t @ concat (map tk srcs)) < ?r"
          using that by simp
        then show ?thesis using sn mq[OF s'(2) Cons.prems(2)] D(6,7)[OF s'(1) s(2)] unfolding c by (simp add: tk'_def)
      qed
      have len: "length (concat (map tk' (src # srcs))) \<le> ?r" using D(5) unfolding c by simp
      have "drained f dst ?r (src # srcs) tk' m e m' e'"
      proof (rule drainedI)
        show "e' = fold f (concat (map tk' (src # srcs))) e" unfolding c D(4) by simp
        show "mesh_inv m'" "mesh_num_cores m' = mesh_num_cores m" "mesh_drain_rotate m' = mesh_drain_rotate m"
          using D(1-3) m1(2,3) by simp_all
      qed (fact len rest other)+
      moreover have "tk' dst = []" "\<forall>s. s \<notin> set (src # srcs) \<longrightarrow> tk' s = []" "tk' src = ?t"
        using IH(3,4) False by (simp_all add: tk'_def)
      ultimately show ?thesis
        using run by (intro exI[of _ tk'] exI[of _ m'] exI[of _ e'] conjI) simp_all
    qed
  qed
qed

text \<open>The visiting order goes once around all cores, starting at the start index.\<close>

lemma add_mod_wrap: "s < n \<Longrightarrow> i < n \<Longrightarrow> (s + i) mod n = (if s + i < n then s + i else s + i - (n :: nat))"
  by (cases "s + i < n") (simp_all add: le_mod_geq)

lemma visit_order_nth:
  fixes n start :: u32
  assumes "unat n < 2 ^ 31" and "unat start < unat n" and "i < unat n"
  shows "unat ((start + of_nat i) mod n) = (unat start + i) mod unat n"
proof -
  have i: "unat (of_nat i :: u32) = i" using assms by (intro unat_of_nat_small) simp
  have "unat (start + of_nat i) = unat start + i"
    using assms i by (subst unat_add_small) simp_all
  then show ?thesis by (simp add: unat_mod)
qed

lemma visit_order_props:
  assumes "unat n < 2 ^ 31" and "unat start < unat n"
  shows "distinct (visit_order n start)" and "set (visit_order n start) = {c. unat c < unat n}"
    and "visit_order n start \<noteq> []" and "hd (visit_order n start) = start"
proof -
  let ?f = "\<lambda>i. (start + of_nat i) mod n"
  have inj: "inj_on ?f (set [0..<unat n])"
  proof (rule inj_onI)
    fix i j assume ij: "i \<in> set [0..<unat n]" "j \<in> set [0..<unat n]" and "?f i = ?f j"
    then have "(unat start + i) mod unat n = (unat start + j) mod unat n"
      using visit_order_nth[OF assms, of i] visit_order_nth[OF assms, of j] by simp
    then show "i = j"
      using ij assms(2) by (simp add: add_mod_wrap split: if_splits)
  qed
  show "distinct (visit_order n start)" using inj by (simp add: visit_order_def distinct_map)
  have sub: "set (visit_order n start) \<subseteq> {c. unat c < unat n}"
    using visit_order_nth[OF assms] assms(2) by (auto simp: visit_order_def)
  have "card (set (visit_order n start)) = unat n"
    using card_image[OF inj] by (simp add: visit_order_def)
  moreover have "card {c :: u32. unat c < unat n} \<le> unat n"
  proof -
    have "unat ` {c :: u32. unat c < unat n} \<subseteq> {..<unat n}" by auto
    then have "card (unat ` {c :: u32. unat c < unat n}) \<le> unat n" using card_mono[OF finite_lessThan] by fastforce
    then show ?thesis by (simp add: card_image inj_on_def word_unat_eq_iff)
  qed
  ultimately show "set (visit_order n start) = {c. unat c < unat n}"
    using card_subset_eq[OF _ sub] card_mono[OF _ sub] by (simp add: finite_subset[OF subset_UNIV])
  show "visit_order n start \<noteq> []" using assms(2) by (simp add: visit_order_def)
  have "unat ((start + of_nat 0) mod n) = unat start" using visit_order_nth[OF assms, of 0] assms(2) by simp
  then show "hd (visit_order n start) = start"
    using assms(2) by (simp add: visit_order_def hd_map word_unat_eq_iff)
qed

text \<open>
  Draining the queues of a core dispatches at most the batch limit of messages; from each
  source it takes the oldest ones and leaves the rest in order, none is lost or duplicated, and a
  source is left non-empty only when the limit was reached. Queues of other cores are untouched.
  The source at the rotating start index is served first and as far as the limit goes, and the
  index moves on by one, so no source waits longer than one round of drains.
\<close>

theorem drain_all_for_fair:
  assumes "mesh_inv m" and "core_ok m dst" and "drain_all_for dst (Some disp) limit m e = (tot, m', e')"
    and "start = mesh_drain_rotate m ! unat dst"
  shows "\<exists>tk. e' = fold (disp dst) (concat (map tk (visit_order (mesh_num_cores m) start))) e \<and>
    tot = length (concat (map tk (visit_order (mesh_num_cores m) start))) \<and> tot \<le> unat limit \<and>
    (\<forall>src. core_ok m src \<and> src \<noteq> dst \<longrightarrow>
       sq_items (mesh_queue m src dst) = tk src @ sq_items (mesh_queue m' src dst) \<and>
       (tot < unat limit \<longrightarrow> sq_items (mesh_queue m' src dst) = [])) \<and>
    (\<forall>a b. core_ok m a \<and> core_ok m b \<and> a \<noteq> b \<and> b \<noteq> dst \<longrightarrow> mesh_queue m' a b = mesh_queue m a b) \<and>
    (start \<noteq> dst \<longrightarrow> tk start = take (unat limit) (sq_items (mesh_queue m start dst))) \<and>
    tk dst = [] \<and>
    mesh_drain_rotate m' = (mesh_drain_rotate m)[unat dst := (start + 1) mod mesh_num_cores m] \<and> mesh_inv m'"
proof -
  let ?n = "mesh_num_cores m" let ?srcs = "visit_order ?n start"
  have n: "unat ?n < 2 ^ 31" using assms(1) by (simp add: mesh_inv_def)
  have st: "unat start < unat ?n" using assms(1,2,4) by (simp add: mesh_inv_def core_ok_def)
  note vo = visit_order_props[OF n st]
  have "\<forall>src \<in> set ?srcs. core_ok m src" by (simp add: vo(2) core_ok_def)
  from drain_sources_ok[OF assms(1,2) this vo(1), of 0 "unat limit" "disp dst" e]
  obtain tk m1 e1 where r0: "drain_sources (disp dst) dst (unat limit) ?srcs 0 m e = (0 + length (concat (map tk ?srcs)), m1, e1)"
      "drained (disp dst) dst (unat limit - 0) ?srcs tk m e m1 e1"
      "?srcs \<noteq> [] \<and> hd ?srcs \<noteq> dst \<longrightarrow> tk (hd ?srcs) = take (unat limit - 0) (sq_items (mesh_queue m (hd ?srcs) dst))"
      "tk dst = []"
    by blast
  have r: "drain_sources (disp dst) dst (unat limit) ?srcs 0 m e = (length (concat (map tk ?srcs)), m1, e1)"
      "drained (disp dst) dst (unat limit) ?srcs tk m e m1 e1"
      "start \<noteq> dst \<longrightarrow> tk start = take (unat limit) (sq_items (mesh_queue m start dst))"
    using r0 vo(3) unfolding vo(4) by simp_all
  have eq: "tot = length (concat (map tk ?srcs))" "e' = e1"
      "m' = m1\<lparr>mesh_drain_rotate := (mesh_drain_rotate m)[unat dst := (start + 1) mod ?n]\<rparr>"
    using assms(3) r(1,2) unfolding drain_all_for_def assms(4)[symmetric] by (simp_all add: Let_def drained_def)
  have mq: "mesh_queue m' a b = mesh_queue m1 a b" "core_ok m' c = core_ok m1 c" for a b c
    by (simp_all add: eq(3) mesh_queue_def core_ok_def)
  have rot: "core_ok m1 ((start + 1) mod ?n)"
    using r(2) st unfolding drained_def core_ok_def by (simp add: unat_mod)
  have nr: "mesh_num_cores m1 = ?n" "mesh_drain_rotate m1 = mesh_drain_rotate m" "mesh_inv m1"
    using r(2) by (simp_all add: drained_def)
  have "core_ok m1 (mesh_drain_rotate m' ! c)" if "c < unat ?n" for c
    using nr rot that unfolding mesh_inv_def by (cases "c = unat dst") (simp_all add: eq(3))
  then have "mesh_inv m'"
    using nr unfolding mesh_inv_def mq by (simp add: eq(3))
  moreover have "\<forall>src. core_ok m src \<and> src \<noteq> dst \<longrightarrow>
       sq_items (mesh_queue m src dst) = tk src @ sq_items (mesh_queue m' src dst) \<and>
       (tot < unat limit \<longrightarrow> sq_items (mesh_queue m' src dst) = [])"
    using r(2) unfolding drained_def mq by (simp add: vo(2) core_ok_def eq(1))
  moreover have "\<forall>a b. core_ok m a \<and> core_ok m b \<and> a \<noteq> b \<and> b \<noteq> dst \<longrightarrow> mesh_queue m' a b = mesh_queue m a b"
    using r(2) unfolding drained_def mq by blast
  ultimately show ?thesis
  proof (intro exI[of _ tk] conjI)
    show "e' = fold (disp dst) (concat (map tk ?srcs)) e" "tot \<le> unat limit"
      using r(2) unfolding drained_def eq by blast+
    show "mesh_drain_rotate m' = (mesh_drain_rotate m)[unat dst := (start + 1) mod ?n]" by (simp add: eq(3))
  qed (use eq(1) r(3) r0(4) in blast)+
qed


lemma SpscMesh_new_inv:
  assumes "SpscMesh_new n cap = Inr m" and "unat n < 2 ^ 31"
  shows "mesh_inv m" and "mesh_num_cores m = n" and "mesh_drain_rotate m = replicate (unat n) 0"
    and "core_ok m a \<Longrightarrow> core_ok m b \<Longrightarrow> a \<noteq> b \<Longrightarrow> k < 2 ^ 64 \<Longrightarrow>
      sq_inv k (mesh_queue m a b) \<and> sq_items (mesh_queue m a b) = [] \<and> cap \<le> sq_capacity (mesh_queue m a b)"
proof -
  show nc: "mesh_num_cores m = n" using assms(1) by (auto simp: SpscMesh_new_def split: sum.splits if_splits)
  show new: "sq_inv k (mesh_queue m a b) \<and> sq_items (mesh_queue m a b) = [] \<and> cap \<le> sq_capacity (mesh_queue m a b)"
    if ok: "core_ok m a" "core_ok m b" "a \<noteq> b" "k < 2 ^ 64" for a b k
  proof -
    have ab: "unat a < unat n" "unat b < unat n" using ok nc by (simp_all add: core_ok_def)
    have "unat a \<noteq> unat b" using ok(3) by (simp add: word_unat_eq_iff)
    then have "1 < unat n" using ab by linarith
    then have "1 < n" by (simp add: word_less_nat_alt)
    then obtain q where q: "SpscQueue_new CoreMessage_init cap = Inr q"
      and m: "mesh_queues m = map (\<lambda>i. if i div unat n = i mod unat n then None else Some q) [0..<unat n * unat n]"
      using assms(1) by (auto simp: SpscMesh_new_def split: sum.splits)
    have i: "unat a * unat n + unat b < unat n * unat n"
    proof -
      have "unat a * unat n + unat b < Suc (unat a) * unat n" using ab(2) by simp
      also have "\<dots> \<le> unat n * unat n" using ab(1) by (intro mult_right_mono) simp_all
      finally show ?thesis .
    qed
    have "(unat a * unat n + unat b) div unat n = unat a" "(unat a * unat n + unat b) mod unat n = unat b"
      using ab by simp_all
    then have "mesh_queue m a b = q"
      using i \<open>unat a \<noteq> unat b\<close> by (simp add: mesh_queue_def mesh_index_def nc m)
    then show ?thesis using SpscQueue_new_inv[OF q] ok(4) by (simp add: sq_inv_def)
  qed
  show rot: "mesh_drain_rotate m = replicate (unat n) 0"
    using assms(1) by (auto simp: SpscMesh_new_def split: sum.splits if_splits)
  have "length (mesh_queues m) = unat n * unat n"
    using assms(1) by (auto simp: SpscMesh_new_def split: sum.splits if_splits)
  moreover have "sq_inv 1 (mesh_queue m a b)" if "core_ok m a" "core_ok m b" "a \<noteq> b" for a b
    using new[OF that, of 1] by simp
  ultimately show "mesh_inv m" using assms(2) nc rot unfolding mesh_inv_def by (auto simp: core_ok_def)
qed

text \<open>A mesh of two cores with one closure on its way from core 0 to core 1.\<close>

definition task_msg :: CoreMessage where
  "task_msg = \<lparr>cm_op = op_LegacyCrossCoreFn, cm_source_core = 0, cm_data = 77\<rparr>"

definition two_cores :: SpscMesh where
  "two_cores = (case SpscMesh_new 2 4 of Inr m \<Rightarrow> set_queue 0 1 (snd (try_enqueue task_msg (mesh_queue m 0 1))) m)"

lemma replicate_2: "replicate 2 x = [x, x]"
  by (simp add: numeral_2_eq_2)

lemma two_cores:
  "mesh_inv two_cores" "mesh_num_cores two_cores = 2" "mesh_drain_rotate two_cores = [0, 0]"
  "core_ok two_cores c = (c = 0 \<or> c = 1)"
  "sq_items (mesh_queue two_cores 0 1) = [task_msg]" "sq_items (mesh_queue two_cores 1 0) = []"
proof -
  have "next_power_of_2 4 = 4" by code_simp
  then obtain m where m: "SpscMesh_new 2 4 = Inr m" by (simp add: SpscMesh_new_def SpscQueue_new_def)
  note new = SpscMesh_new_inv[OF m]
  have core: "core_ok m c = (c = 0 \<or> c = 1)" for c
    using new(2) by (simp add: core_ok_def word_unat_eq_iff) linarith
  obtain ok q where e: "try_enqueue task_msg (mesh_queue m 0 1) = (ok, q)" by (cases "try_enqueue task_msg (mesh_queue m 0 1)")
  have q0: "sq_inv 2 (mesh_queue m 0 1)" "sq_items (mesh_queue m 0 1) = []" "4 \<le> unat (sq_capacity (mesh_queue m 0 1))"
    using new(4)[of 0 1 2] by (simp_all add: core word_le_nat_alt)
  then have "sq_inv (Suc 1) (mesh_queue m 0 1)" by (simp add: numeral_2_eq_2)
  then have q: "sq_inv 1 q \<and> sq_items q = [task_msg]"
    using try_enqueue_room[of 1 "mesh_queue m 0 1" task_msg ok q] e q0(2,3) by simp
  have two: "two_cores = set_queue 0 1 q m" by (simp add: two_cores_def m e)
  show "mesh_inv two_cores" unfolding two using new(1) q by (intro set_queue_inv) (simp_all add: core)
  show "mesh_num_cores two_cores = 2" "mesh_drain_rotate two_cores = [0, 0]"
      "core_ok two_cores c = (c = 0 \<or> c = 1)"
    using new(2,3) by (simp_all add: two core replicate_2)
  show "sq_items (mesh_queue two_cores 0 1) = [task_msg]"
    using mesh_queue_set[of m 0 1 0 1 q] new(1) q by (simp add: two core)
  show "sq_items (mesh_queue two_cores 1 0) = []"
    using mesh_queue_set[of m 0 1 1 0 q] new(1) new(4)[of 1 0 0] by (simp add: two core)
qed

theorem drain_all_for_fair_witness:
  "\<exists>tot m' e'. drain_all_for 1 (Some (\<lambda>core msg log. log @ [msg])) 8 two_cores [] = (tot, m', e') \<and>
     e' = [task_msg] \<and> tot = 1 \<and> sq_items (mesh_queue m' 0 1) = [] \<and> mesh_drain_rotate m' = [0, 1]"
proof -
  obtain tot m' e' where run: "drain_all_for 1 (Some (\<lambda>core msg log. log @ [msg])) 8 two_cores [] = (tot, m', e')"
    by (cases "drain_all_for 1 (Some (\<lambda>core msg log. log @ [msg])) 8 two_cores []")
  have "core_ok two_cores 1" by (simp add: two_cores)
  moreover have "0 = mesh_drain_rotate two_cores ! unat (1 :: u32)" by (simp add: two_cores)
  ultimately obtain tk :: "u32 \<Rightarrow> CoreMessage list" where
      tk: "e' = fold (\<lambda>msg log. log @ [msg]) (concat (map tk (visit_order (mesh_num_cores two_cores) 0))) []"
      "tot = length (concat (map tk (visit_order (mesh_num_cores two_cores) 0)))"
      "\<forall>src. core_ok two_cores src \<and> src \<noteq> 1 \<longrightarrow>
         sq_items (mesh_queue two_cores src 1) = tk src @ sq_items (mesh_queue m' src 1) \<and>
         (tot < unat (8 :: u64) \<longrightarrow> sq_items (mesh_queue m' src 1) = [])"
      "(0 :: u32) \<noteq> 1 \<longrightarrow> tk 0 = take (unat (8 :: u64)) (sq_items (mesh_queue two_cores 0 1))" "tk 1 = []"
      "mesh_drain_rotate m' = (mesh_drain_rotate two_cores)[unat (1 :: u32) := (0 + 1) mod mesh_num_cores two_cores]"
    using drain_all_for_fair[OF two_cores(1) _ run, of 0] by blast
  have "visit_order 2 0 = [0, 1]" by (simp add: visit_order_def upt_rec)
  then have "e' = [task_msg]" "tot = 1" "mesh_drain_rotate m' = [0, 1]"
    using tk(1,2,4-6) by (simp_all add: two_cores)
  moreover have "sq_items (mesh_queue m' 0 1) = []" using tk(3) \<open>tot = 1\<close> by (simp add: two_cores)
  ultimately show ?thesis using run by simp
qed

section \<open>Shutdown\<close>

definition task_ptrs :: "CoreMessage list \<Rightarrow> u64 list" where
  "task_ptrs msgs = map cm_data (filter (\<lambda>m. cm_op m = op_LegacyCrossCoreFn) msgs)"

lemma shutdown_queue_ok:
  "sq_inv 1 q \<Longrightarrow> \<exists>q'. shutdown_queue q = (task_ptrs (sq_items q), q') \<and> sq_inv 1 q' \<and> sq_items q' = [] \<and>
     sq_producer_waiting q' = sq_producer_waiting q"
proof (induction "sq_items q" arbitrary: q)
  case Nil
  then show ?case using sq_inv_dequeue(1)[OF Nil.prems]
    by (subst shutdown_queue.simps) (simp add: task_ptrs_def)
next
  case (Cons x xs)
  obtain q1 where q1: "try_dequeue q = (Some x, q1)" "sq_inv 1 q1" "sq_items q1 = xs"
    using sq_inv_dequeue(2)[OF Cons.prems Cons.hyps(2)[symmetric]] by blast
  have w: "sq_producer_waiting q1 = sq_producer_waiting q"
    using q1(1) by (auto simp: try_dequeue_def Let_def split: if_splits)
  obtain q' where "shutdown_queue q1 = (task_ptrs xs, q')" "sq_inv 1 q'" "sq_items q' = []"
      "sq_producer_waiting q' = sq_producer_waiting q1"
    using Cons.hyps(1)[OF q1(3)[symmetric] q1(2)] q1(3) by auto
  then show ?case using w Cons.hyps(2)[symmetric]
    by (subst shutdown_queue.simps) (simp add: q1(1) task_ptrs_def)
qed

lemma shutdown_pairs_ok:
  assumes "mesh_inv m" and "\<forall>(a, b) \<in> set ps. core_ok m a \<and> core_ok m b" and "distinct ps"
    and "shutdown_pairs ps m = (freed, m')"
  shows "mesh_inv m' \<and> mesh_num_cores m' = mesh_num_cores m \<and>
    freed = concat (map (\<lambda>(a, b). task_ptrs (sq_items (mesh_queue m a b))) (filter (\<lambda>(a, b). a \<noteq> b) ps)) \<and>
    (\<forall>a b. core_ok m a \<and> core_ok m b \<and> a \<noteq> b \<longrightarrow>
       (if (a, b) \<in> set ps then sq_items (mesh_queue m' a b) = [] \<and> \<not> sq_producer_waiting (mesh_queue m' a b)
        else mesh_queue m' a b = mesh_queue m a b))"
  using assms
proof (induction ps arbitrary: m freed)
  case (Cons p ps)
  obtain src dst where p: "p = (src, dst)" by (cases p)
  show ?case
  proof (cases "src = dst")
    case True
    then have "shutdown_pairs ps m = (freed, m')" using Cons.prems(4) by (simp add: p)
    with Cons.IH[OF Cons.prems(1) _ _ this] Cons.prems(2,3) show ?thesis using True by (auto simp: p)
  next
    case False
    have ok: "core_ok m src" "core_ok m dst" "(src, dst) \<notin> set ps" using Cons.prems(2,3) by (auto simp: p)
    let ?q = "cancel_waiting_producer (mesh_queue m src dst)"
    have "sq_inv 1 ?q" using Cons.prems(1) ok False unfolding mesh_inv_def waiting_fields by blast
    then obtain q' where q': "shutdown_queue ?q = (task_ptrs (sq_items ?q), q')" "sq_inv 1 q'" "sq_items q' = []"
        "sq_producer_waiting q' = sq_producer_waiting ?q"
      using shutdown_queue_ok[of ?q] by blast
    define m1 where "m1 = set_queue src dst q' m"
    have m1: "mesh_inv m1" "core_ok m1 c = core_ok m c" "mesh_num_cores m1 = mesh_num_cores m" for c
      unfolding m1_def using set_queue_inv[OF Cons.prems(1) ok(1,2) q'(2)] by simp_all
    have mq: "mesh_queue m1 a b = (if a = src \<and> b = dst then q' else mesh_queue m a b)"
      if "core_ok m a" "core_ok m b" for a b
      unfolding m1_def using mesh_queue_set[OF Cons.prems(1) ok(1,2) that] by simp
    obtain freed1 where run: "shutdown_pairs ps m1 = (freed1, m')"
      and freed: "freed = task_ptrs (sq_items (mesh_queue m src dst)) @ freed1"
      using Cons.prems(4) False by (simp add: p q'(1) waiting_fields m1_def split: prod.splits)
    have pre: "\<forall>(a, b) \<in> set ps. core_ok m1 a \<and> core_ok m1 b" "distinct ps" using Cons.prems(2,3) m1(2) by auto
    note IH = Cons.IH[OF m1(1) pre run]
    have same: "concat (map (\<lambda>(a, b). task_ptrs (sq_items (mesh_queue m1 a b))) (filter (\<lambda>(a, b). a \<noteq> b) ps)) =
        concat (map (\<lambda>(a, b). task_ptrs (sq_items (mesh_queue m a b))) (filter (\<lambda>(a, b). a \<noteq> b) ps))"
      using Cons.prems(2) ok(3) mq by (intro arg_cong[where f = concat] map_cong) auto
    have nw: "\<not> sq_producer_waiting q'"
      unfolding q'(4) by (simp add: cancel_waiting_producer_def Let_def)
    show ?thesis
    proof (intro conjI allI impI)
      fix a b assume ab: "core_ok m a \<and> core_ok m b \<and> a \<noteq> b"
      have "if (a, b) \<in> set ps then sq_items (mesh_queue m' a b) = [] \<and> \<not> sq_producer_waiting (mesh_queue m' a b)
          else mesh_queue m' a b = mesh_queue m1 a b"
        using IH ab m1(2) by blast
      then show "if (a, b) \<in> set (p # ps) then sq_items (mesh_queue m' a b) = [] \<and> \<not> sq_producer_waiting (mesh_queue m' a b)
          else mesh_queue m' a b = mesh_queue m a b"
        using mq[of a b] ab q'(3) nw by (auto simp: p split: if_splits)
    qed (use IH m1(3) same freed False in \<open>simp_all add: p\<close>)
  qed
qed simp

lemma mesh_pairs_props:
  "distinct (mesh_pairs n)" "(a, b) \<in> set (mesh_pairs n) \<longleftrightarrow> unat a < unat n \<and> unat b < unat n"
proof -
  let ?r = "map (of_nat :: nat \<Rightarrow> u32) [0..<unat n]"
  have small: "unat (of_nat i :: u32) = i" if "i < unat n" for i
    using that unat_lt2p[of n] by (intro unat_of_nat_small) simp
  have prod: "mesh_pairs n = List.product ?r ?r"
    by (simp add: mesh_pairs_def product_concat_map comp_def)
  have "inj_on (of_nat :: nat \<Rightarrow> u32) {0..<unat n}"
    using small by (intro inj_onI) (metis atLeastLessThan_iff)
  then show "distinct (mesh_pairs n)" unfolding prod by (intro distinct_product) (simp_all add: distinct_map)
  have "c \<in> set ?r \<longleftrightarrow> unat c < unat n" for c :: u32
    using small by (auto intro!: image_eqI[of c _ "unat c"])
  then show "(a, b) \<in> set (mesh_pairs n) \<longleftrightarrow> unat a < unat n \<and> unat b < unat n" unfolding prod by simp
qed

text \<open>
  Shutting the mesh down empties every queue, leaves no producer waiting, and deletes each
  closure still queued exactly once, source by source in the order the messages were sent.
\<close>

theorem mesh_shutdown_frees_all:
  assumes "mesh_inv m" and "mesh_shutdown m = (freed, m')"
  shows "freed = concat (map (\<lambda>(a, b). task_ptrs (sq_items (mesh_queue m a b)))
      (filter (\<lambda>(a, b). a \<noteq> b) (mesh_pairs (mesh_num_cores m)))) \<and>
    (\<forall>a b. core_ok m a \<and> core_ok m b \<and> a \<noteq> b \<longrightarrow>
       sq_items (mesh_queue m' a b) = [] \<and> \<not> sq_producer_waiting (mesh_queue m' a b)) \<and> mesh_inv m'"
proof -
  have "\<forall>(a, b) \<in> set (mesh_pairs (mesh_num_cores m)). core_ok m a \<and> core_ok m b"
    by (auto simp: mesh_pairs_props core_ok_def)
  from shutdown_pairs_ok[OF assms(1) this mesh_pairs_props(1) assms(2)[unfolded mesh_shutdown_def]]
  show ?thesis by (auto simp: mesh_pairs_props core_ok_def)
qed

theorem mesh_shutdown_frees_all_witness:
  "\<exists>m'. mesh_shutdown two_cores = ([77], m') \<and> sq_items (mesh_queue m' 0 1) = []"
proof -
  obtain freed m' where run: "mesh_shutdown two_cores = (freed, m')" by (cases "mesh_shutdown two_cores")
  have "mesh_pairs 2 = [(0, 0), (0, 1), (1, 0), (1, 1)]" by (simp add: mesh_pairs_def upt_rec)
  then show ?thesis
    using mesh_shutdown_frees_all[OF two_cores(1) run] run
    by (simp add: two_cores task_ptrs_def task_msg_def)
qed

end
