(* ===== verification/Circuit_Breaker.thy ===== *)
theory Circuit_Breaker
  imports Prelude
begin

text \<open>
  \<open>apex_shared/lib/adapters/common\<close>: the circuit breaker around the calls of an adapter. Time
  is the count of the steady clock. The guarded coroutine acts on an environment; it returns a
  result, or throws (\<open>None\<close>), in which case neither \<open>on_success\<close> nor \<open>on_failure\<close> runs.
\<close>

record CircuitBreakerConfig =
  cfg_failure_threshold :: u32
  cfg_open_duration :: int
  cfg_half_open_max_calls :: u32

datatype CircuitState = CLOSED | OPEN | HALF_OPEN

record CircuitBreaker =
  cb_config :: CircuitBreakerConfig
  cb_state :: CircuitState
  cb_failure_count :: u32
  cb_half_open_calls :: u32
  cb_half_open_successes :: u32
  cb_open_since :: int

definition CircuitBreaker_new :: "CircuitBreakerConfig \<Rightarrow> CircuitBreaker" where
  "CircuitBreaker_new config = \<lparr>cb_config = config, cb_state = CLOSED, cb_failure_count = 0,
     cb_half_open_calls = 0, cb_half_open_successes = 0, cb_open_since = 0\<rparr>"

definition cb_reset :: "CircuitBreaker \<Rightarrow> CircuitBreaker" where
  "cb_reset cb = cb\<lparr>cb_state := CLOSED, cb_failure_count := 0, cb_half_open_calls := 0, cb_half_open_successes := 0\<rparr>"

definition should_allow :: "int \<Rightarrow> CircuitBreaker \<Rightarrow> bool \<times> CircuitBreaker" where
  "should_allow now cb =
     (case cb_state cb of
        CLOSED \<Rightarrow> (True, cb)
      | OPEN \<Rightarrow>
          (let elapsed = now - cb_open_since cb in
           if cfg_open_duration (cb_config cb) \<le> elapsed
           then (True, cb\<lparr>cb_state := HALF_OPEN, cb_half_open_calls := 1, cb_half_open_successes := 0\<rparr>)
           else (False, cb))
      | HALF_OPEN \<Rightarrow>
          (if cfg_half_open_max_calls (cb_config cb) \<le> cb_half_open_calls cb then (False, cb)
           else (True, cb\<lparr>cb_half_open_calls := cb_half_open_calls cb + 1\<rparr>)))"

definition on_success :: "CircuitBreaker \<Rightarrow> CircuitBreaker" where
  "on_success cb =
     (case cb_state cb of
        HALF_OPEN \<Rightarrow>
          (let cb = cb\<lparr>cb_half_open_successes := cb_half_open_successes cb + 1\<rparr> in
           if cfg_half_open_max_calls (cb_config cb) \<le> cb_half_open_successes cb
           then cb\<lparr>cb_state := CLOSED, cb_failure_count := 0, cb_half_open_successes := 0\<rparr>
           else cb)
      | CLOSED \<Rightarrow> cb\<lparr>cb_failure_count := 0\<rparr>
      | OPEN \<Rightarrow> cb)"

definition on_failure :: "int \<Rightarrow> CircuitBreaker \<Rightarrow> CircuitBreaker" where
  "on_failure now cb =
     (case cb_state cb of
        CLOSED \<Rightarrow>
          (let cb = cb\<lparr>cb_failure_count := cb_failure_count cb + 1\<rparr> in
           if cfg_failure_threshold (cb_config cb) \<le> cb_failure_count cb
           then cb\<lparr>cb_state := OPEN, cb_open_since := now\<rparr>
           else cb)
      | HALF_OPEN \<Rightarrow> cb\<lparr>cb_state := OPEN, cb_open_since := now\<rparr>
      | OPEN \<Rightarrow> cb)"

text \<open>\<open>call\<close>: entered at time \<open>now\<close>, its coroutine completes at time \<open>later\<close>.\<close>

definition cb_call ::
  "int \<Rightarrow> int \<Rightarrow> ('e \<Rightarrow> 'a result option \<times> 'e) \<Rightarrow> CircuitBreaker \<Rightarrow> 'e \<Rightarrow> 'a result option \<times> CircuitBreaker \<times> 'e" where
  "cb_call now later fn cb e =
     (case should_allow now cb of
        (False, cb) \<Rightarrow> (Some (Inl CircuitOpen), cb, e)
      | (True, cb) \<Rightarrow>
          (case fn e of
             (None, e) \<Rightarrow> (None, cb, e)
           | (Some (Inr v), e) \<Rightarrow> (Some (Inr v), on_success cb, e)
           | (Some (Inl err), e) \<Rightarrow> (Some (Inl err), on_failure later cb, e)))"

text \<open>
  Calls in flight together: a call is entered or rejected, and one of the calls in flight
  completes or is abandoned by an exception. \<open>bs_running\<close> counts the calls in flight,
  \<open>bs_probes\<close> those entered since the breaker last became half open.
\<close>

record breaker_sys =
  bs_cb :: CircuitBreaker
  bs_running :: nat
  bs_probes :: nat

inductive breaker_step :: "breaker_sys \<Rightarrow> breaker_sys \<Rightarrow> bool" where
  enter: "should_allow now (bs_cb s) = (True, cb) \<Longrightarrow>
    breaker_step s (s\<lparr>bs_cb := cb, bs_running := bs_running s + 1,
      bs_probes := (if cb_state (bs_cb s) = OPEN then 1 else bs_probes s + 1)\<rparr>)"
| reject: "should_allow now (bs_cb s) = (False, cb) \<Longrightarrow> breaker_step s (s\<lparr>bs_cb := cb\<rparr>)"
| success: "bs_running s = Suc n \<Longrightarrow> breaker_step s (s\<lparr>bs_cb := on_success (bs_cb s), bs_running := n\<rparr>)"
| failure: "bs_running s = Suc n \<Longrightarrow> breaker_step s (s\<lparr>bs_cb := on_failure now (bs_cb s), bs_running := n\<rparr>)"
| abandon: "bs_running s = Suc n \<Longrightarrow> breaker_step s (s\<lparr>bs_running := n\<rparr>)"

inductive breaker_reachable :: "CircuitBreakerConfig \<Rightarrow> breaker_sys \<Rightarrow> bool" for config where
  init: "breaker_reachable config \<lparr>bs_cb = CircuitBreaker_new config, bs_running = 0, bs_probes = 0\<rparr>"
| step: "breaker_reachable config s \<Longrightarrow> breaker_step s s' \<Longrightarrow> breaker_reachable config s'"

section \<open>Invariant\<close>

lemma unat_suc_u32: "x < (y :: u32) \<Longrightarrow> unat (x + 1) = unat x + 1"
  using unat_lt2p[of y] by (subst unat_add_small) (simp_all add: word_less_nat_alt)

definition cb_inv :: "CircuitBreakerConfig \<Rightarrow> breaker_sys \<Rightarrow> bool" where
  "cb_inv config s \<longleftrightarrow> cb_config (bs_cb s) = config \<and>
     (case cb_state (bs_cb s) of
        CLOSED \<Rightarrow> unat (cb_failure_count (bs_cb s)) < max 1 (unat (cfg_failure_threshold config))
      | OPEN \<Rightarrow> True
      | HALF_OPEN \<Rightarrow>
          bs_probes s = unat (cb_half_open_calls (bs_cb s)) \<and>
          bs_probes s \<le> max 1 (unat (cfg_half_open_max_calls config)) \<and>
          unat (cb_half_open_successes (bs_cb s)) < max 1 (unat (cfg_half_open_max_calls config)))"

lemmas cb_defs = should_allow_def on_success_def on_failure_def

lemma word_suc_le:
  fixes x n :: u32
  assumes "unat x < max 1 (unat n)"
  shows "n \<le> x + 1 \<longleftrightarrow> unat x + 1 = max 1 (unat n)" and "\<not> n \<le> x + 1 \<Longrightarrow> unat (x + 1) = unat x + 1"
proof -
  have "n \<le> x + 1 \<longleftrightarrow> unat x + 1 = max 1 (unat n)" if "n \<noteq> 0"
  proof -
    have pos: "1 \<le> unat n" using that by (simp add: Suc_leI unat_gt_0)
    then have "x < n" using assms by (simp add: word_less_nat_alt)
    from unat_suc_u32[OF this] show ?thesis using pos assms by (auto simp: word_le_nat_alt)
  qed
  moreover have "unat x + 1 = max 1 (unat n)" if "n = 0" using assms that by simp
  ultimately show iff: "n \<le> x + 1 \<longleftrightarrow> unat x + 1 = max 1 (unat n)" by (cases "n = 0") simp_all
  assume "\<not> n \<le> x + 1"
  then have "n \<noteq> 0" by auto
  then have "x < n" using assms by (auto simp: word_less_nat_alt max_def Suc_leI unat_gt_0 split: if_splits)
  then show "unat (x + 1) = unat x + 1" by (rule unat_suc_u32)
qed

lemma breaker_step_inv: "breaker_step s s' \<Longrightarrow> cb_inv config s \<Longrightarrow> cb_inv config s'"
proof (induction rule: breaker_step.induct)
  case (enter now s cb)
  then show ?case
    by (auto simp: cb_defs cb_inv_def Let_def unat_suc_u32 word_less_nat_alt not_le split: CircuitState.splits if_splits)
next
  case (reject now s cb)
  then show ?case by (auto simp: cb_defs cb_inv_def Let_def split: CircuitState.splits if_splits)
next
  case (success s n)
  then show ?case
    using word_suc_le[of "cb_half_open_successes (bs_cb s)" "cfg_half_open_max_calls config"]
    by (auto simp: cb_defs cb_inv_def Let_def split: CircuitState.splits)
next
  case (failure s n now)
  then show ?case
    using word_suc_le[of "cb_failure_count (bs_cb s)" "cfg_failure_threshold config"]
    by (auto simp: cb_defs cb_inv_def Let_def split: CircuitState.splits)
qed (auto simp: cb_inv_def split: CircuitState.splits)

lemma breaker_reachable_inv: "breaker_reachable config s \<Longrightarrow> cb_inv config s"
proof (induction rule: breaker_reachable.induct)
  case init
  then show ?case by (simp add: cb_inv_def CircuitBreaker_new_def)
qed (rule breaker_step_inv)

section \<open>A full cycle\<close>

text \<open>Calls one after the other, each at one instant.\<close>

fun run_calls :: "(int \<times> ('e \<Rightarrow> 'a result option \<times> 'e)) list \<Rightarrow> CircuitBreaker \<Rightarrow> 'e \<Rightarrow> 'a result option list \<times> CircuitBreaker \<times> 'e" where
  "run_calls [] cb e = ([], cb, e)"
| "run_calls ((now, fn) # calls) cb e =
     (let (r, cb, e) = cb_call now now fn cb e;
          (rs, cb, e) = run_calls calls cb e
      in (r # rs, cb, e))"

definition failing :: "('e \<Rightarrow> 'a result option \<times> 'e) \<Rightarrow> bool" where
  "failing fn \<longleftrightarrow> (\<forall>e. \<exists>err e'. fn e = (Some (Inl err), e'))"

definition succeeding :: "('e \<Rightarrow> 'a result option \<times> 'e) \<Rightarrow> bool" where
  "succeeding fn \<longleftrightarrow> (\<forall>e. \<exists>v e'. fn e = (Some (Inr v), e'))"

lemma failures_trip:
  assumes "cb_state cb = CLOSED" and "\<forall>(t, fn) \<in> set calls. failing fn" and "calls \<noteq> []"
    and "unat (cb_failure_count cb) + length calls = max 1 (unat (cfg_failure_threshold (cb_config cb)))"
    and "run_calls calls cb e = (rs, cb', e')"
  shows "cb_state cb' = OPEN \<and> cb_open_since cb' = fst (last calls) \<and> cb_config cb' = cb_config cb"
  using assms
proof (induction calls arbitrary: cb e rs)
  case (Cons call calls)
  obtain t fn where call: "call = (t, fn)" by (cases call)
  have "failing fn" using Cons.prems(2) by (simp add: call)
  then obtain err e1 where fn: "fn e = (Some (Inl err), e1)" unfolding failing_def by blast
  let ?n = "cfg_failure_threshold (cb_config cb)" and ?k = "cb_failure_count cb"
  have r: "cb_call t t fn cb e = (Some (Inl err), on_failure t cb, e1)"
    using Cons.prems(1) fn by (simp add: cb_call_def should_allow_def)
  obtain rs' where run: "run_calls calls (on_failure t cb) e1 = (rs', cb', e')"
    using Cons.prems(5) by (auto simp: call r split: prod.splits)
  have len: "unat ?k + length (call # calls) = max 1 (unat ?n)" using Cons.prems(4) .
  then have lt: "unat ?k < max 1 (unat ?n)" by simp
  show ?case
  proof (cases calls)
    case Nil
    then have "?n \<le> ?k + 1" using word_suc_le(1)[OF lt] len by simp
    then show ?thesis using run Nil Cons.prems(1) by (auto simp: call on_failure_def)
  next
    case (Cons call' calls')
    then have "\<not> ?n \<le> ?k + 1" using word_suc_le(1)[OF lt] len by simp
    then have f: "on_failure t cb = cb\<lparr>cb_failure_count := ?k + 1\<rparr>" "unat (?k + 1) = unat ?k + 1"
      using Cons.prems(1) word_suc_le(2)[OF lt] by (simp_all add: on_failure_def)
    have "cb_state cb' = OPEN \<and> cb_open_since cb' = fst (last calls) \<and> cb_config cb' = cb_config (on_failure t cb)"
      using Cons.prems(1,2) Cons len by (intro Cons.IH[OF _ _ _ _ run]) (simp_all add: f)
    then show ?thesis using Cons by (simp add: f(1))
  qed
qed simp

lemma open_rejects:
  assumes "cb_state cb = OPEN" and "\<forall>(t, fn) \<in> set calls. t < cb_open_since cb + cfg_open_duration (cb_config cb)"
  shows "run_calls calls cb e = (replicate (length calls) (Some (Inl CircuitOpen)), cb, e)"
  using assms
proof (induction calls)
  case (Cons call calls)
  then show ?case by (cases call) (simp add: cb_call_def should_allow_def)
qed simp

lemma successes_close:
  assumes "cb_state cb = HALF_OPEN" and "\<forall>(t, fn) \<in> set calls. succeeding fn" and "calls \<noteq> []"
    and "cb_half_open_calls cb = cb_half_open_successes cb"
    and "unat (cb_half_open_successes cb) + length calls = unat (cfg_half_open_max_calls (cb_config cb))"
    and "run_calls calls cb e = (rs, cb', e')"
  shows "cb_state cb' = CLOSED \<and> cb_failure_count cb' = 0 \<and> list_all (\<lambda>r. \<exists>v. r = Some (Inr v)) rs"
  using assms
proof (induction calls arbitrary: cb e rs)
  case (Cons call calls)
  obtain t fn where call: "call = (t, fn)" by (cases call)
  have "succeeding fn" using Cons.prems(2) by (simp add: call)
  then obtain v e1 where fn: "fn e = (Some (Inr v), e1)" unfolding succeeding_def by blast
  let ?n = "cfg_half_open_max_calls (cb_config cb)" and ?k = "cb_half_open_successes cb"
  have lt: "?k < ?n" using Cons.prems(5) by (simp add: word_less_nat_alt)
  then have k1: "unat (?k + 1) = unat ?k + 1" by (rule unat_suc_u32)
  let ?cb = "on_success (cb\<lparr>cb_half_open_calls := ?k + 1\<rparr>)"
  have r: "cb_call t t fn cb e = (Some (Inr v), ?cb, e1)"
    using Cons.prems(1,4) fn lt by (simp add: cb_call_def should_allow_def not_le)
  obtain rs' where run: "run_calls calls ?cb e1 = (rs', cb', e')" and rs: "rs = Some (Inr v) # rs'"
    using Cons.prems(6) by (auto simp: call r split: prod.splits)
  show ?case
  proof (cases calls)
    case Nil
    then have "?n \<le> ?k + 1" using Cons.prems(5) k1 by (simp add: word_le_nat_alt)
    then show ?thesis using run rs Nil Cons.prems(1) by (auto simp: on_success_def)
  next
    case (Cons call' calls')
    then have "\<not> ?n \<le> ?k + 1" using Cons.prems(5) k1 by (simp add: word_le_nat_alt)
    then have f: "?cb = cb\<lparr>cb_half_open_calls := ?k + 1, cb_half_open_successes := ?k + 1\<rparr>"
      using Cons.prems(1) by (simp add: on_success_def)
    have "cb_state cb' = CLOSED \<and> cb_failure_count cb' = 0 \<and> list_all (\<lambda>r. \<exists>v. r = Some (Inr v)) rs'"
      using Cons.prems(1,2,5) Cons k1 by (intro Cons.IH[OF _ _ _ _ _ run]) (simp_all add: f)
    then show ?thesis by (simp add: rs)
  qed
qed simp

text \<open>An open breaker lets the first call after the open period through as a probe.\<close>

lemma probes_close:
  assumes "cb_state cb = OPEN" and "\<forall>(t, fn) \<in> set calls. succeeding fn"
    and "cb_open_since cb + cfg_open_duration (cb_config cb) \<le> fst (hd calls)"
    and "length calls = max 1 (unat (cfg_half_open_max_calls (cb_config cb)))"
    and "run_calls calls cb e = (rs, cb', e')"
  shows "cb_state cb' = CLOSED \<and> cb_failure_count cb' = 0 \<and> list_all (\<lambda>r. \<exists>v. r = Some (Inr v)) rs"
proof -
  obtain t fn more where calls: "calls = (t, fn) # more" using assms(4) by (cases calls) auto
  have "succeeding fn" using assms(2) by (simp add: calls)
  then obtain v e1 where fn: "fn e = (Some (Inr v), e1)" unfolding succeeding_def by blast
  let ?h = "cb\<lparr>cb_state := HALF_OPEN, cb_half_open_calls := 1, cb_half_open_successes := 0\<rparr>"
  have r: "cb_call t t fn cb e = (Some (Inr v), on_success ?h, e1)"
    using assms(1,3) fn by (simp add: cb_call_def should_allow_def calls)
  obtain rs' where run: "run_calls more (on_success ?h) e1 = (rs', cb', e')" and rs: "rs = Some (Inr v) # rs'"
    using assms(5) by (auto simp: calls r split: prod.splits)
  let ?n = "cfg_half_open_max_calls (cb_config cb)"
  have n: "Suc (length more) = max 1 (unat ?n)" using assms(4) by (simp add: calls)
  have w: "?n \<le> 1 \<longleftrightarrow> 1 = max 1 (unat ?n)" using word_suc_le(1)[of 0 ?n] by simp
  show ?thesis
  proof (cases more)
    case Nil
    then show ?thesis using run rs w n by (auto simp: on_success_def)
  next
    case (Cons call' more')
    then have "\<not> ?n \<le> 1" using w n by simp
    then have h: "on_success ?h = cb\<lparr>cb_state := HALF_OPEN, cb_half_open_calls := 1, cb_half_open_successes := 1\<rparr>"
      by (simp add: on_success_def)
    have "cb_state cb' = CLOSED \<and> cb_failure_count cb' = 0 \<and> list_all (\<lambda>r. \<exists>v. r = Some (Inr v)) rs'"
      using assms(2) Cons n by (intro successes_close[OF _ _ _ _ _ run]) (auto simp: h calls max_def split: if_splits)
    then show ?thesis by (simp add: rs)
  qed
qed

text \<open>
  C36: A closed breaker trips exactly when the configured number of calls in a row have failed.
  While open it rejects every call for the configured time without running it, and then it lets
  the configured number of probes through; when they all succeed it is closed again with a clean
  count. In every interleaving of calls in flight, no more probes are let through in one half-open
  period than configured.
\<close>

theorem circuit_breaker_cycle:
  assumes "cb_state cb = CLOSED" and "cb_failure_count cb = 0"
    and "\<forall>(t, fn) \<in> set fails. failing fn" and "length fails = max 1 (unat (cfg_failure_threshold (cb_config cb)))"
    and "\<forall>(t, fn) \<in> set early. t < fst (last fails) + cfg_open_duration (cb_config cb)"
    and "\<forall>(t, fn) \<in> set probes. succeeding fn" and "length probes = max 1 (unat (cfg_half_open_max_calls (cb_config cb)))"
    and "fst (last fails) + cfg_open_duration (cb_config cb) \<le> fst (hd probes)"
    and "run_calls fails cb e = (rs, cb1, e1)" and "run_calls early cb1 e1 = (rs2, cb2, e2)"
    and "run_calls probes cb2 e2 = (rs3, cb3, e3)"
  shows "cb_state cb1 = OPEN \<and>
    rs2 = replicate (length early) (Some (Inl CircuitOpen)) \<and> e2 = e1 \<and> cb2 = cb1 \<and>
    list_all (\<lambda>r. \<exists>v. r = Some (Inr v)) rs3 \<and> cb_state cb3 = CLOSED \<and> cb_failure_count cb3 = 0 \<and>
    (\<forall>s. breaker_reachable (cb_config cb) s \<and> cb_state (bs_cb s) = HALF_OPEN \<longrightarrow>
       bs_probes s \<le> max 1 (unat (cfg_half_open_max_calls (cb_config cb))))"
proof -
  have "fails \<noteq> []" using assms(4) by auto
  then have o: "cb_state cb1 = OPEN \<and> cb_open_since cb1 = fst (last fails) \<and> cb_config cb1 = cb_config cb"
    using failures_trip[OF assms(1,3) _ _ assms(9)] assms(2,4) by simp
  then have r: "rs2 = replicate (length early) (Some (Inl CircuitOpen))" "cb2 = cb1" "e2 = e1"
    using open_rejects[of cb1 early e1] assms(5,10) by simp_all
  have "cb_state cb3 = CLOSED \<and> cb_failure_count cb3 = 0 \<and> list_all (\<lambda>r. \<exists>v. r = Some (Inr v)) rs3"
    using probes_close[OF _ assms(6) _ _ assms(11)] o assms(7,8) r(2) by simp
  moreover have "bs_probes s \<le> max 1 (unat (cfg_half_open_max_calls (cb_config cb)))"
    if "breaker_reachable (cb_config cb) s" "cb_state (bs_cb s) = HALF_OPEN" for s
    using breaker_reachable_inv[OF that(1)] that(2) by (simp add: cb_inv_def)
  ultimately show ?thesis using o r by blast
qed

theorem circuit_breaker_cycle_witness:
  "let cb = CircuitBreaker_new \<lparr>cfg_failure_threshold = 2, cfg_open_duration = 100, cfg_half_open_max_calls = 1\<rparr>;
       bad = (\<lambda>e :: nat. (Some (Inl AdapterError) :: unit result option, e + 1)); good = (\<lambda>e. (Some (Inr ()), e + 1));
       (rs, cb, e) = run_calls [(5, bad), (10, bad)] cb 0;
       (rs2, cb, e) = run_calls [(50, good)] cb e;
       (rs3, cb, e) = run_calls [(110, good)] cb e
   in rs2 = [Some (Inl CircuitOpen)] \<and> cb_state cb = CLOSED \<and> e = 3"
proof -
  let ?cb = "CircuitBreaker_new \<lparr>cfg_failure_threshold = 2, cfg_open_duration = 100, cfg_half_open_max_calls = 1\<rparr>"
  let ?bad = "\<lambda>e :: nat. (Some (Inl AdapterError) :: unit result option, e + 1)"
    and ?good = "\<lambda>e :: nat. (Some (Inr ()) :: unit result option, e + 1)"
  obtain rs cb1 e1 where r1: "run_calls [(5, ?bad), (10, ?bad)] ?cb 0 = (rs, cb1, e1)"
    by (cases "run_calls [(5, ?bad), (10, ?bad)] ?cb 0") auto
  obtain rs2 cb2 e2 where r2: "run_calls [(50, ?good)] cb1 e1 = (rs2, cb2, e2)"
    by (cases "run_calls [(50, ?good)] cb1 e1") auto
  obtain rs3 cb3 e3 where r3: "run_calls [(110, ?good)] cb2 e2 = (rs3, cb3, e3)"
    by (cases "run_calls [(110, ?good)] cb2 e2") auto
  have "e1 = 2" using r1 by (auto simp: cb_call_def should_allow_def CircuitBreaker_new_def on_failure_def Let_def word_le_nat_alt)
  moreover have "cb_state cb2 = OPEN \<Longrightarrow> cb_open_since cb2 + 100 \<le> 110 \<Longrightarrow> cfg_open_duration (cb_config cb2) = 100 \<Longrightarrow> e3 = e2 + 1"
    using r3 by (auto simp: cb_call_def should_allow_def)
  moreover have "cb_open_since cb1 = 10" "cfg_open_duration (cb_config cb1) = 100"
    using r1 by (auto simp: cb_call_def should_allow_def CircuitBreaker_new_def on_failure_def Let_def word_le_nat_alt)
  moreover have "cb_state cb1 = OPEN \<and> rs2 = [Some (Inl CircuitOpen)] \<and> e2 = e1 \<and> cb2 = cb1 \<and> cb_state cb3 = CLOSED"
    using circuit_breaker_cycle[OF _ _ _ _ _ _ _ _ r1 r2 r3]
    by (simp add: failing_def succeeding_def CircuitBreaker_new_def)
  ultimately have "rs2 = [Some (Inl CircuitOpen)] \<and> cb_state cb3 = CLOSED \<and> e3 = 3" by simp
  then show ?thesis by (simp only: Let_def r1 r2 r3 prod.case)
qed

text \<open>
  A probe abandoned by an exception is never accounted for: with it outstanding no call is ever
  admitted again, at any time, unless the breaker is reset by hand.
\<close>

lemma abandoned_probe_wedges:
  assumes "cb_state cb = OPEN" and "cfg_half_open_max_calls (cb_config cb) = 1"
    and "cb_open_since cb + cfg_open_duration (cb_config cb) \<le> now" and "fn e = (None, e1)"
    and "cb_call now later fn cb e = (r, cb', e')"
  shows "r = None \<and> cb_state cb' = HALF_OPEN \<and> should_allow t cb' = (False, cb')"
  using assms by (simp add: cb_call_def should_allow_def) auto

end
