(* ===== verification/Pending_Requests.thy ===== *)
theory Pending_Requests
  imports Prelude "HOL-Library.AList"
begin

text \<open>
  \<open>apex_services/gateway/src/pending_requests.cpp\<close>: the requests of one core that wait for a
  response, by correlation identifier. The order of the association list stands for the order
  in which the hash map is iterated; no statement depends on it. Time is in nanoseconds and
  the timeout in milliseconds, as in the source.
\<close>

record PendingEntry =
  pe_session_id :: u64
  pe_original_msg_id :: u32
  pe_deadline :: int

record PendingRequestsMap =
  pm_map :: "(u64 \<times> PendingEntry) list"
  pm_max_entries :: u64
  pm_timeout :: int

definition PendingRequestsMap_new :: "u64 \<Rightarrow> int \<Rightarrow> PendingRequestsMap" where
  "PendingRequestsMap_new max_entries timeout = \<lparr>pm_map = [], pm_max_entries = max_entries, pm_timeout = timeout\<rparr>"

definition pm_insert :: "int \<Rightarrow> u64 \<Rightarrow> u64 \<Rightarrow> u32 \<Rightarrow> PendingRequestsMap \<Rightarrow> unit result \<times> PendingRequestsMap" where
  "pm_insert now corr_id session_id original_msg_id m =
     (if unat (pm_max_entries m) \<le> length (pm_map m) then (Inl ServiceError, m)
      else (Inr (),
            case map_of (pm_map m) corr_id of
              Some en \<Rightarrow> m
            | None \<Rightarrow> m\<lparr>pm_map := (corr_id, \<lparr>pe_session_id = session_id, pe_original_msg_id = original_msg_id,
                                              pe_deadline = now + pm_timeout m * 1000000\<rparr>) # pm_map m\<rparr>))"

definition pm_extract :: "u64 \<Rightarrow> PendingRequestsMap \<Rightarrow> PendingEntry option \<times> PendingRequestsMap" where
  "pm_extract corr_id m =
     (case map_of (pm_map m) corr_id of
        None \<Rightarrow> (None, m)
      | Some entry \<Rightarrow> (Some entry, m\<lparr>pm_map := AList.delete corr_id (pm_map m)\<rparr>))"

text \<open>The loop of \<open>sweep_expired\<close>: what stays, and the callback run on what goes.\<close>

fun sweep_loop ::
  "int \<Rightarrow> (u64 \<Rightarrow> PendingEntry \<Rightarrow> 'e \<Rightarrow> 'e) option \<Rightarrow> (u64 \<times> PendingEntry) list \<Rightarrow> 'e \<Rightarrow> (u64 \<times> PendingEntry) list \<times> 'e" where
  "sweep_loop now callback [] e = ([], e)"
| "sweep_loop now callback ((corr_id, entry) # rest) e =
     (if pe_deadline entry \<le> now
      then sweep_loop now callback rest (case callback of Some cb \<Rightarrow> cb corr_id entry e | None \<Rightarrow> e)
      else let (rest, e) = sweep_loop now callback rest e in ((corr_id, entry) # rest, e))"

definition sweep_expired ::
  "int \<Rightarrow> (u64 \<Rightarrow> PendingEntry \<Rightarrow> 'e \<Rightarrow> 'e) option \<Rightarrow> PendingRequestsMap \<Rightarrow> 'e \<Rightarrow> PendingRequestsMap \<times> 'e" where
  "sweep_expired now callback m e =
     (let (kept, e) = sweep_loop now callback (pm_map m) e in (m\<lparr>pm_map := kept\<rparr>, e))"

definition pm_size :: "PendingRequestsMap \<Rightarrow> nat" where
  "pm_size m = length (pm_map m)"

section \<open>What the operations do\<close>

definition expired :: "int \<Rightarrow> u64 \<times> PendingEntry \<Rightarrow> bool" where
  "expired now p \<longleftrightarrow> pe_deadline (snd p) \<le> now"

lemma sweep_loop_conv:
  "sweep_loop now (Some cb) ps e =
     (filter (\<lambda>p. \<not> expired now p) ps, fold (\<lambda>(c, en). cb c en) (filter (expired now) ps) e)"
  by (induction ps arbitrary: e) (auto simp: expired_def)

lemma sweep_expired_conv:
  "sweep_expired now (Some cb) m e =
     (m\<lparr>pm_map := filter (\<lambda>p. \<not> expired now p) (pm_map m)\<rparr>, fold (\<lambda>(c, en). cb c en) (filter (expired now) (pm_map m)) e)"
  by (simp add: sweep_expired_def sweep_loop_conv)

definition pm_inv :: "PendingRequestsMap \<Rightarrow> bool" where
  "pm_inv m \<longleftrightarrow> distinct (map fst (pm_map m)) \<and> length (pm_map m) \<le> unat (pm_max_entries m)"

lemma pm_inv_new: "pm_inv (PendingRequestsMap_new n t)"
  by (simp add: pm_inv_def PendingRequestsMap_new_def)

lemma pm_inv_insert: "pm_inv m \<Longrightarrow> pm_inv (snd (pm_insert now c s i m))"
  by (auto simp: pm_inv_def pm_insert_def map_of_eq_None_iff split: option.split)

lemma pm_inv_extract: "pm_inv m \<Longrightarrow> pm_inv (snd (pm_extract c m))"
  by (auto simp: pm_inv_def pm_extract_def distinct_delete intro: order_trans[OF length_delete_le] split: option.split)

lemma pm_inv_sweep: "pm_inv m \<Longrightarrow> pm_inv (fst (sweep_expired now (Some cb) m e))"
  by (auto simp: pm_inv_def sweep_expired_conv distinct_map_filter intro: order_trans[OF length_filter_le])

text \<open>
  A request is in the table from its insertion until it is extracted or its time has come,
  whatever happens to the others.
\<close>

lemma pm_insert_lookup:
  assumes "pm_insert now c s i m = (r, m')" "map_of (pm_map m) c = None"
  shows "map_of (pm_map m') = (map_of (pm_map m))
    (c := (if r = Inr () then Some \<lparr>pe_session_id = s, pe_original_msg_id = i, pe_deadline = now + pm_timeout m * 1000000\<rparr> else None))"
  using assms by (auto simp: pm_insert_def split: if_splits)

lemma pm_extract_lookup:
  assumes "pm_extract c m = (r, m')"
  shows "r = map_of (pm_map m) c" "map_of (pm_map m') = (map_of (pm_map m))(c := None)"
  using assms by (auto simp: pm_extract_def delete_conv' split: option.splits)

lemma map_of_filter_distinct:
  "distinct (map fst ps) \<Longrightarrow> map_of (filter P ps) k = (case map_of ps k of Some v \<Rightarrow> if P (k, v) then Some v else None | None \<Rightarrow> None)"
  by (induction ps) (auto simp: map_of_eq_None_iff image_iff split: option.split)

lemma pm_sweep_lookup:
  assumes "pm_inv m"
  shows "map_of (pm_map (fst (sweep_expired now (Some cb) m e))) c =
    (case map_of (pm_map m) c of Some en \<Rightarrow> if now < pe_deadline en then Some en else None | None \<Rightarrow> None)"
  using assms by (auto simp: sweep_expired_conv pm_inv_def map_of_filter_distinct expired_def split: option.split)

end
