(* ===== verification/Channel_Session_Map.thy ===== *)
theory Channel_Session_Map
  imports Prelude "HOL-Library.AList"
begin

text \<open>
  \<open>apex_services/gateway/src/channel_session_map.cpp\<close>: the subscriptions of the sessions of one
  core, from channels to sessions and back. A set of channels is a list without duplicates.
\<close>

record ChannelSessionMap =
  cs_max_subscriptions_per_session :: u32
  cs_channel_to_sessions :: "(string \<times> u64 list) list"
  cs_session_to_channels :: "(u64 \<times> string list) list"

definition ChannelSessionMap_new :: "u32 \<Rightarrow> ChannelSessionMap" where
  "ChannelSessionMap_new n =
     \<lparr>cs_max_subscriptions_per_session = n, cs_channel_to_sessions = [], cs_session_to_channels = []\<rparr>"

text \<open>The subscript operator of a map with lists for values.\<close>

definition at :: "('k \<times> 'v list) list \<Rightarrow> 'k \<Rightarrow> 'v list" where
  "at al k = (case map_of al k of Some vs \<Rightarrow> vs | None \<Rightarrow> [])"

definition csm_subscribe :: "string \<Rightarrow> u64 \<Rightarrow> ChannelSessionMap \<Rightarrow> unit result \<times> ChannelSessionMap" where
  "csm_subscribe channel session_id m =
     (let channels = at (cs_session_to_channels m) session_id;
          m = m\<lparr>cs_session_to_channels := AList.update session_id channels (cs_session_to_channels m)\<rparr>
      in if 0 < cs_max_subscriptions_per_session m \<and> unat (cs_max_subscriptions_per_session m) \<le> length channels \<and>
            channel \<notin> set channels
         then (Inl ServiceError, m)
         else let sessions = at (cs_channel_to_sessions m) channel;
                  sessions = (if session_id \<in> set sessions then sessions else sessions @ [session_id]);
                  m = m\<lparr>cs_channel_to_sessions := AList.update channel sessions (cs_channel_to_sessions m)\<rparr>;
                  m = m\<lparr>cs_session_to_channels := AList.update session_id (List.insert channel channels) (cs_session_to_channels m)\<rparr>
              in (Inr (), m))"

text \<open>
  Taking a value out of the list of a key, and the key when nothing is left: what
  \<open>unsubscribe\<close> does to either map.
\<close>

definition erase_value :: "'k \<Rightarrow> 'v \<Rightarrow> ('k \<times> 'v list) list \<Rightarrow> ('k \<times> 'v list) list" where
  "erase_value k v al =
     (case map_of al k of
        None \<Rightarrow> al
      | Some vs \<Rightarrow> let vs = removeAll v vs in if vs = [] then AList.delete k al else AList.update k vs al)"

definition csm_unsubscribe :: "string \<Rightarrow> u64 \<Rightarrow> ChannelSessionMap \<Rightarrow> ChannelSessionMap" where
  "csm_unsubscribe channel session_id m =
     m\<lparr>cs_channel_to_sessions := erase_value channel session_id (cs_channel_to_sessions m),
       cs_session_to_channels := erase_value session_id channel (cs_session_to_channels m)\<rparr>"

definition csm_unsubscribe_all :: "u64 \<Rightarrow> ChannelSessionMap \<Rightarrow> ChannelSessionMap" where
  "csm_unsubscribe_all session_id m =
     (case map_of (cs_session_to_channels m) session_id of
        None \<Rightarrow> m
      | Some channels \<Rightarrow>
          m\<lparr>cs_channel_to_sessions := fold (\<lambda>channel. erase_value channel session_id) channels (cs_channel_to_sessions m),
            cs_session_to_channels := AList.delete session_id (cs_session_to_channels m)\<rparr>)"

definition get_subscribers :: "string \<Rightarrow> ChannelSessionMap \<Rightarrow> u64 list option" where
  "get_subscribers channel m = map_of (cs_channel_to_sessions m) channel"

definition subscribed_channels :: "ChannelSessionMap \<Rightarrow> string list" where
  "subscribed_channels m = map fst (cs_channel_to_sessions m)"

definition total_subscriptions :: "ChannelSessionMap \<Rightarrow> nat" where
  "total_subscriptions m = sum_list (map (\<lambda>(channel, sessions). length sessions) (cs_channel_to_sessions m))"

section \<open>Multimaps as association lists\<close>

definition mm_inv :: "('k \<times> 'v list) list \<Rightarrow> bool" where
  "mm_inv al \<longleftrightarrow> distinct (map fst al) \<and> (\<forall>k vs. map_of al k = Some vs \<longrightarrow> vs \<noteq> [] \<and> distinct vs)"

lemma mm_inv_at: "mm_inv al \<Longrightarrow> distinct (at al k)"
  by (auto simp: mm_inv_def at_def split: option.split)

lemma mm_inv_lookup: "mm_inv al \<Longrightarrow> map_of al k = (if at al k = [] then None else Some (at al k))"
  by (auto simp: mm_inv_def at_def split: option.split)

lemma at_update [simp]: "at (AList.update k vs al) j = (if j = k then vs else at al j)"
  by (simp add: at_def update_conv')

lemma at_delete [simp]: "at (AList.delete k al) j = (if j = k then [] else at al j)"
  by (simp add: at_def delete_conv')

lemma at_erase [simp]: "at (erase_value k v al) j = (if j = k then removeAll v (at al k) else at al j)"
  by (auto simp: erase_value_def Let_def at_def update_conv' delete_conv' split: option.split)

lemma at_fold_erase:
  "at (fold (\<lambda>k. erase_value k v) ks al) j = (if j \<in> set ks then removeAll v (at al j) else at al j)"
  by (induction ks arbitrary: al) auto

lemma mm_inv_update: "mm_inv al \<Longrightarrow> vs \<noteq> [] \<Longrightarrow> distinct vs \<Longrightarrow> mm_inv (AList.update k vs al)"
  by (auto simp: mm_inv_def distinct_update update_conv')

lemma mm_inv_delete: "mm_inv al \<Longrightarrow> mm_inv (AList.delete k al)"
  by (auto simp: mm_inv_def distinct_delete delete_conv')

lemma mm_inv_erase: "mm_inv al \<Longrightarrow> mm_inv (erase_value k v al)"
  using mm_inv_at[of al k]
  by (auto simp: erase_value_def Let_def at_def intro!: mm_inv_update mm_inv_delete distinct_removeAll split: option.split)

lemma mm_inv_fold_erase: "mm_inv al \<Longrightarrow> mm_inv (fold (\<lambda>k. erase_value k v) ks al)"
  by (induction ks arbitrary: al) (auto intro: mm_inv_erase)

lemma mm_card:
  assumes "mm_inv al"
  shows "sum_list (map (\<lambda>(k, vs). length vs) al) = card {(k, v). v \<in> set (at al k)}"
proof -
  have dist: "distinct (map fst al)" using assms by (simp add: mm_inv_def)
  have "k \<in> fst ` set al" if "v \<in> set (at al k)" for k v
    using that map_of_eq_None_iff[of al k] by (cases "map_of al k") (auto simp: at_def)
  then have "{(k, v). v \<in> set (at al k)} = Sigma (fst ` set al) (\<lambda>k. set (at al k))" by auto
  then have "card {(k, v). v \<in> set (at al k)} = (\<Sum>k \<in> fst ` set al. card (set (at al k)))" by simp
  also have "\<dots> = (\<Sum>k \<leftarrow> map fst al. card (set (at al k)))"
    using sum.distinct_set_conv_list[OF dist, of "\<lambda>k. card (set (at al k))"] by simp
  also have "\<dots> = sum_list (map (\<lambda>(k, vs). length vs) al)"
    unfolding map_map
  proof (intro arg_cong[of _ _ sum_list] map_cong refl)
    fix p assume "p \<in> set al"
    then have "map_of al (fst p) = Some (snd p)" using dist by (metis map_of_eq_Some_iff surjective_pairing)
    then have "at al (fst p) = snd p" by (simp add: at_def)
    then show "((\<lambda>k. card (set (at al k))) \<circ> fst) p = (\<lambda>(k, vs). length vs) p"
      using mm_inv_at[OF assms, of "fst p"] by (simp add: distinct_card case_prod_unfold)
  qed
  finally show ?thesis by simp
qed

section \<open>The two maps are one relation\<close>

definition csm_rel :: "ChannelSessionMap \<Rightarrow> (string \<times> u64) set" where
  "csm_rel m = {(channel, s). s \<in> set (at (cs_channel_to_sessions m) channel)}"

definition csm_inv :: "ChannelSessionMap \<Rightarrow> bool" where
  "csm_inv m \<longleftrightarrow> mm_inv (cs_channel_to_sessions m) \<and> mm_inv (cs_session_to_channels m) \<and>
     (\<forall>channel s. channel \<in> set (at (cs_session_to_channels m) s) \<longleftrightarrow> (channel, s) \<in> csm_rel m) \<and>
     (0 < cs_max_subscriptions_per_session m \<longrightarrow>
        (\<forall>s. length (at (cs_session_to_channels m) s) \<le> unat (cs_max_subscriptions_per_session m)))"

datatype csm_op = Op_subscribe string u64 | Op_unsubscribe string u64 | Op_unsubscribe_all u64 | Op_subscribers string | Op_total

datatype csm_out = Out_unit | Out_result "unit result" | Out_sessions "u64 set option" | Out_count nat

fun csm_step :: "csm_op \<Rightarrow> ChannelSessionMap \<Rightarrow> csm_out \<times> ChannelSessionMap" where
  "csm_step (Op_subscribe channel s) m = (let (r, m) = csm_subscribe channel s m in (Out_result r, m))"
| "csm_step (Op_unsubscribe channel s) m = (Out_unit, csm_unsubscribe channel s m)"
| "csm_step (Op_unsubscribe_all s) m = (Out_unit, csm_unsubscribe_all s m)"
| "csm_step (Op_subscribers channel) m = (Out_sessions (map_option set (get_subscribers channel m)), m)"
| "csm_step Op_total m = (Out_count (total_subscriptions m), m)"

text \<open>The specification: a relation, and the limit on the channels of a session.\<close>

fun rel_step :: "csm_op \<Rightarrow> u32 \<times> (string \<times> u64) set \<Rightarrow> csm_out \<times> u32 \<times> (string \<times> u64) set" where
  "rel_step (Op_subscribe channel s) (n, R) =
     (if 0 < n \<and> (channel, s) \<notin> R \<and> unat n \<le> card {c. (c, s) \<in> R} then (Out_result (Inl ServiceError), n, R)
      else (Out_result (Inr ()), n, insert (channel, s) R))"
| "rel_step (Op_unsubscribe channel s) (n, R) = (Out_unit, n, R - {(channel, s)})"
| "rel_step (Op_unsubscribe_all s) (n, R) = (Out_unit, n, {(c, t) \<in> R. t \<noteq> s})"
| "rel_step (Op_subscribers channel) (n, R) =
     (Out_sessions (if \<exists>s. (channel, s) \<in> R then Some {s. (channel, s) \<in> R} else None), n, R)"
| "rel_step Op_total (n, R) = (Out_count (card R), n, R)"

definition csm_abs :: "ChannelSessionMap \<Rightarrow> u32 \<times> (string \<times> u64) set" where
  "csm_abs m = (cs_max_subscriptions_per_session m, csm_rel m)"

lemma csm_channels:
  assumes "csm_inv m"
  shows "set (at (cs_session_to_channels m) s) = {c. (c, s) \<in> csm_rel m}"
    "length (at (cs_session_to_channels m) s) = card {c. (c, s) \<in> csm_rel m}"
proof -
  show eq: "set (at (cs_session_to_channels m) s) = {c. (c, s) \<in> csm_rel m}"
    using assms by (auto simp: csm_inv_def)
  have "distinct (at (cs_session_to_channels m) s)" using assms mm_inv_at[of "cs_session_to_channels m" s] by (simp add: csm_inv_def)
  then show "length (at (cs_session_to_channels m) s) = card {c. (c, s) \<in> csm_rel m}"
    using distinct_card eq by metis
qed

lemma csm_subscribe_correct:
  assumes "csm_inv m" "csm_subscribe channel s m = (r, m')"
  shows "csm_inv m' \<and> rel_step (Op_subscribe channel s) (csm_abs m) = (Out_result r, csm_abs m')"
proof (cases "0 < cs_max_subscriptions_per_session m \<and>
    unat (cs_max_subscriptions_per_session m) \<le> length (at (cs_session_to_channels m) s) \<and> channel \<notin> set (at (cs_session_to_channels m) s)")
  case True
  then have pos: "0 < unat (cs_max_subscriptions_per_session m)" by (simp add: word_less_nat_alt)
  then have ne: "at (cs_session_to_channels m) s \<noteq> []" using True by auto
  have m': "r = Inl ServiceError" "cs_max_subscriptions_per_session m' = cs_max_subscriptions_per_session m"
    "cs_channel_to_sessions m' = cs_channel_to_sessions m"
    "cs_session_to_channels m' = AList.update s (at (cs_session_to_channels m) s) (cs_session_to_channels m)"
    using assms(2) True by (auto simp: csm_subscribe_def Let_def split: if_splits)
  have at: "at (cs_session_to_channels m') t = at (cs_session_to_channels m) t" for t by (simp add: m')
  have rel: "csm_rel m' = csm_rel m" by (simp add: csm_rel_def m')
  have "mm_inv (cs_session_to_channels m')"
    unfolding m' using assms(1) ne mm_inv_at[of "cs_session_to_channels m" s] by (intro mm_inv_update) (auto simp: csm_inv_def)
  then have "csm_inv m'" using assms(1) unfolding csm_inv_def at rel m'(2,3) by simp
  moreover have "rel_step (Op_subscribe channel s) (csm_abs m) = (Out_result r, csm_abs m')"
    using True csm_channels[OF assms(1), of s] by (simp add: csm_abs_def rel m')
  ultimately show ?thesis ..
next
  case False
  let ?cs = "at (cs_session_to_channels m) s" and ?ss = "at (cs_channel_to_sessions m) channel"
  have m': "r = Inr ()" "cs_max_subscriptions_per_session m' = cs_max_subscriptions_per_session m"
    "cs_channel_to_sessions m' = AList.update channel (if s \<in> set ?ss then ?ss else ?ss @ [s]) (cs_channel_to_sessions m)"
    "cs_session_to_channels m' = AList.update s (List.insert channel ?cs) (AList.update s ?cs (cs_session_to_channels m))"
    using assms(2) False by (auto simp: csm_subscribe_def Let_def split: if_splits)
  have rel: "csm_rel m' = insert (channel, s) (csm_rel m)" by (auto simp: csm_rel_def m' split: if_splits)
  have chans: "set (at (cs_session_to_channels m') t) = {c. (c, t) \<in> csm_rel m'}" for t
    using csm_channels(1)[OF assms(1)] by (auto simp: m' rel)
  have dist: "distinct ?cs" "distinct ?ss"
    using assms(1) mm_inv_at[of "cs_session_to_channels m" s] mm_inv_at[of "cs_channel_to_sessions m" channel] by (simp_all add: csm_inv_def)
  have c1: "mm_inv (cs_channel_to_sessions m')"
    unfolding m' using assms(1) dist by (intro mm_inv_update) (auto simp: csm_inv_def)
  have "List.insert channel ?cs \<noteq> []" by (cases ?cs) (auto simp: List.insert_def)
  then have c2: "mm_inv (cs_session_to_channels m')"
    using assms(1) dist unfolding m' update_Some_unfold
    by (auto simp: csm_inv_def mm_inv_def distinct_update update_conv' split: if_splits)
  have len: "0 < cs_max_subscriptions_per_session m' \<Longrightarrow> length (at (cs_session_to_channels m') t) \<le> unat (cs_max_subscriptions_per_session m')" for t
    using assms(1) False by (auto simp: m' csm_inv_def List.insert_def)
  have "csm_inv m'" unfolding csm_inv_def using c1 c2 chans len by blast
  moreover have "rel_step (Op_subscribe channel s) (csm_abs m) = (Out_result r, csm_abs m')"
    using False csm_channels[OF assms(1), of s] by (auto simp: csm_abs_def rel m')
  ultimately show ?thesis ..
qed

lemma csm_unsubscribe_correct:
  assumes "csm_inv m"
  shows "csm_inv (csm_unsubscribe channel s m) \<and> csm_rel (csm_unsubscribe channel s m) = csm_rel m - {(channel, s)}"
proof -
  have rel: "csm_rel (csm_unsubscribe channel s m) = csm_rel m - {(channel, s)}"
    by (auto simp: csm_rel_def csm_unsubscribe_def split: if_splits)
  have "csm_inv (csm_unsubscribe channel s m)"
    unfolding csm_inv_def rel using assms
    by (auto simp: csm_inv_def csm_unsubscribe_def mm_inv_erase removeAll_filter_not_eq intro: order_trans[OF length_filter_le])
  with rel show ?thesis by simp
qed

lemma csm_unsubscribe_all_correct:
  assumes "csm_inv m"
  shows "csm_inv (csm_unsubscribe_all s m) \<and> csm_rel (csm_unsubscribe_all s m) = {(c, t) \<in> csm_rel m. t \<noteq> s}"
proof (cases "map_of (cs_session_to_channels m) s")
  case None
  then have "at (cs_session_to_channels m) s = []" by (simp add: at_def)
  then have "\<forall>c. (c, s) \<notin> csm_rel m" using csm_channels(1)[OF assms, of s] by auto
  then show ?thesis using None assms by (auto simp: csm_unsubscribe_all_def)
next
  case (Some cs)
  then have cs: "set cs = {c. (c, s) \<in> csm_rel m}" using csm_channels(1)[OF assms, of s] by (simp add: at_def)
  have rel: "csm_rel (csm_unsubscribe_all s m) = {(c, t) \<in> csm_rel m. t \<noteq> s}"
    using cs by (auto simp: csm_rel_def csm_unsubscribe_all_def Some at_fold_erase split: if_splits)
  have "csm_inv (csm_unsubscribe_all s m)"
    unfolding csm_inv_def rel using assms
    by (auto simp: csm_inv_def csm_unsubscribe_all_def Some mm_inv_fold_erase mm_inv_delete)
  with rel show ?thesis by simp
qed

lemma csm_step_refines:
  assumes "csm_inv m"
  shows "csm_inv (snd (csm_step op m)) \<and> rel_step op (csm_abs m) = (fst (csm_step op m), csm_abs (snd (csm_step op m)))"
proof (cases op)
  case (Op_subscribe channel s)
  then show ?thesis using csm_subscribe_correct[OF assms] by (auto split: prod.split)
next
  case (Op_unsubscribe channel s)
  then show ?thesis using csm_unsubscribe_correct[OF assms, of channel s] by (simp add: csm_abs_def csm_unsubscribe_def)
next
  case (Op_unsubscribe_all s)
  have "cs_max_subscriptions_per_session (csm_unsubscribe_all s m) = cs_max_subscriptions_per_session m"
    by (simp add: csm_unsubscribe_all_def split: option.split)
  then show ?thesis using Op_unsubscribe_all csm_unsubscribe_all_correct[OF assms, of s] by (simp add: csm_abs_def)
next
  case (Op_subscribers channel)
  have "map_option set (get_subscribers channel m) = (if \<exists>s. (channel, s) \<in> csm_rel m then Some {s. (channel, s) \<in> csm_rel m} else None)"
    using assms mm_inv_lookup[of "cs_channel_to_sessions m" channel]
    by (auto simp: get_subscribers_def csm_rel_def csm_inv_def)
  then show ?thesis using Op_subscribers assms by (simp add: csm_abs_def)
next
  case Op_total
  have "total_subscriptions m = card (csm_rel m)"
    unfolding total_subscriptions_def csm_rel_def using assms by (intro mm_card) (simp add: csm_inv_def)
  then show ?thesis using Op_total assms by (simp add: csm_abs_def)
qed

interpretation channels: refinement csm_step rel_step "\<lambda>n. csm_inv" csm_abs
  by unfold_locales (simp_all add: csm_step_refines)

lemma csm_inv_new: "csm_inv (ChannelSessionMap_new n)" and csm_abs_new: "csm_abs (ChannelSessionMap_new n) = (n, {})"
  by (simp_all add: csm_inv_def csm_abs_def csm_rel_def ChannelSessionMap_new_def mm_inv_def at_def)

text \<open>
  C31: After any sequence of subscriptions, unsubscriptions and closed sessions the two maps of a
  new channel map answer every query as one relation between channels and sessions does: the
  subscribers of a channel are the sessions that subscribed and neither unsubscribed nor closed
  since, a session never has more channels than the limit, and no empty entry is left behind.
\<close>

theorem channel_map_is_relation:
  "run rel_step ops (n, {}) = (fst (run csm_step ops (ChannelSessionMap_new n)), csm_abs (snd (run csm_step ops (ChannelSessionMap_new n)))) \<and>
   csm_inv (snd (run csm_step ops (ChannelSessionMap_new n)))"
  using channels.run_abs[OF csm_inv_new] channels.run_inv[OF csm_inv_new] by (simp add: csm_abs_new)

end
