(* ===== verification/Decimal.thy ===== *)
theory Decimal
  imports Prelude
begin

text \<open>Decimal numbers as strings: what \<open>std::to_string\<close> and \<open>std::format\<close> make of unsigned integers.\<close>

fun nat_str :: "nat \<Rightarrow> string" where
  "nat_str n = (if n < 10 then [char_of (48 + n)] else nat_str (n div 10) @ [char_of (48 + n mod 10)])"

declare nat_str.simps [simp del]

definition str_nat :: "string \<Rightarrow> nat" where
  "str_nat s = foldl (\<lambda>acc c. 10 * acc + (of_char c - 48)) 0 s"

lemma str_nat_snoc: "str_nat (s @ [c]) = 10 * str_nat s + (of_char c - 48)"
  by (simp add: str_nat_def)

lemma digit_char: "d < 10 \<Longrightarrow> of_char (char_of (48 + d) :: char) = (48 + d :: nat)"
  by (simp add: of_char_of)

lemma str_nat_str [simp]: "str_nat (nat_str n) = n"
proof (induction n rule: nat_str.induct)
  case (1 n)
  show ?case
  proof (cases "n < 10")
    case True
    then have "nat_str n = [] @ [char_of (48 + n)]" by (simp add: nat_str.simps)
    then show ?thesis using digit_char[OF True] by (simp only: str_nat_snoc) (simp add: str_nat_def)
  next
    case False
    then have "nat_str n = nat_str (n div 10) @ [char_of (48 + n mod 10)]" by (subst nat_str.simps) simp
    then show ?thesis using 1 False digit_char[of "n mod 10"] by (simp only: str_nat_snoc) simp
  qed
qed

lemma nat_str_inj: "nat_str m = nat_str n \<longleftrightarrow> m = n"
  by (metis str_nat_str)

lemma nat_str_digits: "c \<in> set (nat_str n) \<Longrightarrow> 48 \<le> (of_char c :: nat) \<and> of_char c < (58 :: nat)"
proof (induction n rule: nat_str.induct)
  case (1 n)
  show ?case
  proof (cases "n < 10")
    case True
    then show ?thesis using 1(2) digit_char[OF True] by (simp add: nat_str.simps)
  next
    case False
    then have "nat_str n = nat_str (n div 10) @ [char_of (48 + n mod 10)]" by (subst nat_str.simps) simp
    then show ?thesis using 1 False digit_char[of "n mod 10"] by auto
  qed
qed

lemma colon_not_digit: "CHR '':'' \<notin> set (nat_str n)"
  using nat_str_digits[of "CHR '':''" n] by auto

text \<open>A colon ends a number.\<close>

lemma nat_str_colon:
  assumes "nat_str m @ CHR '':'' # xs = nat_str n @ CHR '':'' # ys"
  shows "m = n \<and> xs = ys"
proof -
  let ?p = "\<lambda>c. c \<noteq> CHR '':''"
  have tw: "takeWhile ?p (nat_str k @ CHR '':'' # zs) = nat_str k" for k zs
    using colon_not_digit[of k] by (subst takeWhile_append2) auto
  have "nat_str m = nat_str n" using arg_cong[OF assms, of "takeWhile ?p"] unfolding tw .
  then show ?thesis using assms by (simp add: nat_str_inj)
qed

section \<open>Parsing (std::from\_chars)\<close>

definition is_digit :: "char \<Rightarrow> bool" where
  "is_digit c \<longleftrightarrow> 48 \<le> (of_char c :: nat) \<and> of_char c < (58 :: nat)"

text \<open>
  \<open>std::from_chars\<close> for an unsigned 64-bit integer: the longest prefix of digits, an error if
  there is none or its value does not fit. What follows the digits is left alone.
\<close>

definition from_chars_u64 :: "string \<Rightarrow> u64 option" where
  "from_chars_u64 s =
     (let ds = takeWhile is_digit s in
      if ds = [] then None else if 2 ^ 64 \<le> str_nat ds then None else Some (of_nat (str_nat ds)))"

lemma nat_str_nonempty: "nat_str n \<noteq> []"
  by (subst nat_str.simps) simp

lemma from_chars_nat_str:
  assumes "rest = [] \<or> \<not> is_digit (hd rest)"
  shows "from_chars_u64 (nat_str (unat (w :: u64)) @ rest) = Some w"
proof -
  have "\<forall>c \<in> set (nat_str (unat w)). is_digit c" using nat_str_digits by (auto simp: is_digit_def)
  moreover have "takeWhile is_digit rest = []" using assms by (cases rest) auto
  ultimately have "takeWhile is_digit (nat_str (unat w) @ rest) = nat_str (unat w)" by (simp add: takeWhile_append2)
  moreover have "\<not> 2 ^ 64 \<le> unat w" using unat_lt2p[of w] by simp
  ultimately show ?thesis unfolding from_chars_u64_def Let_def by (simp only: nat_str_nonempty str_nat_str if_False) simp
qed

end
