(* ===== verification/Route_Table.thy ===== *)
theory Route_Table
  imports Prelude "HOL-Library.Multiset"
begin

text \<open>
  \<open>apex_services/gateway/src/route_table.cpp\<close>: from ranges of message identifiers to Kafka
  topics. \<open>std::ranges::sort\<close> is \<open>sort_key\<close>, which keeps the order of equal keys as the
  source need not; \<open>any_sort_same\<close> shows that it makes no difference. \<open>lower_bound\<close> is the
  halving loop of the standard library.
\<close>

record RouteEntry =
  re_range_begin :: u32
  re_range_end :: u32
  re_kafka_topic :: string

record RouteTable =
  rtab_entries :: "RouteEntry list"

fun validate_from :: "RouteEntry \<Rightarrow> RouteEntry list \<Rightarrow> unit result" where
  "validate_from prev [] = Inr ()"
| "validate_from prev (r # rs) =
     (if re_range_begin r \<le> re_range_end prev then Inl ServiceError else validate_from r rs)"

definition validate :: "RouteTable \<Rightarrow> unit result" where
  "validate t = (case rtab_entries t of [] \<Rightarrow> Inr () | r # rs \<Rightarrow> validate_from r rs)"

definition route_table_build :: "RouteEntry list \<Rightarrow> RouteTable result" where
  "route_table_build routes =
     (if \<exists>r \<in> set routes. re_range_end r < re_range_begin r then Inl ServiceError
      else let table = \<lparr>rtab_entries = sort_key re_range_end routes\<rparr>
           in case validate table of Inl e \<Rightarrow> Inl e | Inr u \<Rightarrow> Inr table)"

text \<open>\<open>std::ranges::lower_bound\<close>: the first of the \<open>len\<close> places from \<open>first\<close> on with a key that is not below.\<close>

function lower_bound :: "('a \<Rightarrow> u32) \<Rightarrow> 'a list \<Rightarrow> u32 \<Rightarrow> nat \<Rightarrow> nat \<Rightarrow> nat" where
  "lower_bound proj xs v first len =
     (if len = 0 then first
      else let half = len div 2; middle = first + half
           in if proj (xs ! middle) < v then lower_bound proj xs v (middle + 1) (len - half - 1)
              else lower_bound proj xs v first half)"
  by pat_completeness auto
termination by (relation "measure (\<lambda>(_, _, _, _, len). len)") auto

declare lower_bound.simps [simp del]

definition resolve :: "u32 \<Rightarrow> RouteTable \<Rightarrow> string option" where
  "resolve msg_id t =
     (let es = rtab_entries t; i = lower_bound re_range_end es msg_id 0 (length es)
      in if i < length es \<and> re_range_begin (es ! i) \<le> msg_id \<and> msg_id \<le> re_range_end (es ! i)
         then Some (re_kafka_topic (es ! i)) else None)"

definition route_table_size :: "RouteTable \<Rightarrow> nat" where
  "route_table_size t = length (rtab_entries t)"

section \<open>Binary search\<close>

lemma lower_bound_correct:
  assumes "sorted (map proj xs)" "first + len \<le> length xs"
    "\<And>j. j < first \<Longrightarrow> proj (xs ! j) < v" "\<And>j. first + len \<le> j \<Longrightarrow> j < length xs \<Longrightarrow> v \<le> proj (xs ! j)"
  shows "(\<forall>j < lower_bound proj xs v first len. proj (xs ! j) < v) \<and>
    (\<forall>j. lower_bound proj xs v first len \<le> j \<and> j < length xs \<longrightarrow> v \<le> proj (xs ! j))"
  using assms(2-4)
proof (induction len arbitrary: first rule: less_induct)
  case (less len)
  have mono: "i \<le> j \<Longrightarrow> j < length xs \<Longrightarrow> proj (xs ! i) \<le> proj (xs ! j)" for i j
    using assms(1) by (auto simp: sorted_iff_nth_mono)
  show ?case
  proof (cases "len = 0")
    case True
    then show ?thesis using less.prems by (simp add: lower_bound.simps)
  next
    case False
    let ?m = "first + len div 2"
    have m: "?m < length xs" using False less.prems(1) by linarith
    show ?thesis
    proof (cases "proj (xs ! ?m) < v")
      case True
      have lo: "proj (xs ! j) < v" if "j < ?m + 1" for j
        using le_less_trans[OF mono[OF _ m] True] that by simp
      have hi: "v \<le> proj (xs ! j)" if "?m + 1 + (len - len div 2 - 1) \<le> j" "j < length xs" for j
        using less.prems(3)[of j] that False by simp
      have "lower_bound proj xs v first len = lower_bound proj xs v (?m + 1) (len - len div 2 - 1)"
        using False True by (subst lower_bound.simps) (simp add: Let_def)
      moreover have "len - len div 2 - 1 < len" "?m + 1 + (len - len div 2 - 1) \<le> length xs"
        using False less.prems(1) by linarith+
      ultimately show ?thesis using less.IH[OF _ _ lo hi] by metis
    next
      case lt: False
      have hi: "v \<le> proj (xs ! j)" if "first + len div 2 \<le> j" "j < length xs" for j
        using order_trans[OF _ mono[of ?m]] lt that by (simp add: not_less)
      have "lower_bound proj xs v first len = lower_bound proj xs v first (len div 2)"
        using False lt by (subst lower_bound.simps) (simp add: Let_def)
      moreover have "len div 2 < len" "first + len div 2 \<le> length xs" using False m by linarith+
      ultimately show ?thesis using less.IH[OF _ _ less.prems(2) hi] by metis
    qed
  qed
qed

section \<open>Tables that pass the validation\<close>

definition nonempty :: "RouteEntry \<Rightarrow> bool" where
  "nonempty r \<longleftrightarrow> re_range_begin r \<le> re_range_end r"

definition covers :: "RouteEntry \<Rightarrow> u32 \<Rightarrow> bool" where
  "covers r m \<longleftrightarrow> re_range_begin r \<le> m \<and> m \<le> re_range_end r"

definition before :: "RouteEntry \<Rightarrow> RouteEntry \<Rightarrow> bool" where
  "before r s \<longleftrightarrow> re_range_end r < re_range_begin s"

lemma validate_from_sorted:
  assumes "\<forall>r \<in> set (p # rs). nonempty r"
  shows "validate_from p rs = Inr () \<longleftrightarrow> sorted_wrt before (p # rs)"
  using assms
proof (induction rs arbitrary: p)
  case (Cons r rs)
  have "before p r \<Longrightarrow> sorted_wrt before (r # rs) \<Longrightarrow> \<forall>s \<in> set rs. before p s"
    using Cons.prems by (auto simp: before_def nonempty_def intro: less_trans order_less_le_trans)
  moreover have "validate_from p (r # rs) = Inr () \<longleftrightarrow> before p r \<and> validate_from r rs = Inr ()"
    by (auto simp: before_def not_le)
  ultimately show ?case using Cons.IH[of r] Cons.prems by auto
qed simp

lemma validate_sorted:
  "\<forall>r \<in> set (rtab_entries t). nonempty r \<Longrightarrow> validate t = Inr () \<longleftrightarrow> sorted_wrt before (rtab_entries t)"
  using validate_from_sorted by (cases "rtab_entries t") (auto simp: validate_def)

text \<open>Ranges that do not overlap: of two entries, one ends before the other begins.\<close>

definition disjoint_routes :: "RouteEntry list \<Rightarrow> bool" where
  "disjoint_routes rs \<longleftrightarrow> sorted_wrt (\<lambda>r s. before r s \<or> before s r) rs"

lemma sorted_wrt_mset:
  assumes "symp R" "mset xs = mset ys"
  shows "sorted_wrt R xs = sorted_wrt R ys"
proof -
  have "sorted_wrt R xs \<Longrightarrow> mset xs = mset ys \<Longrightarrow> sorted_wrt R ys" for xs ys
  proof (induction xs arbitrary: ys)
    case (Cons x xs)
    then obtain as bs where ys: "ys = as @ x # bs" by (metis list.set_intros(1) mset_eq_setD split_list)
    then have m: "mset xs = mset (as @ bs)" using Cons.prems(2) by simp
    then have "sorted_wrt R (as @ bs)" using Cons.IH Cons.prems(1) by auto
    moreover have "\<forall>y \<in> set (as @ bs). R x y \<and> R y x"
      using Cons.prems(1) m assms(1) by (metis mset_eq_setD sorted_wrt.simps(2) sympD)
    ultimately show ?case unfolding ys by (auto simp: sorted_wrt_append)
  qed simp
  then show ?thesis using assms(2) by metis
qed

lemma disjoint_sorted:
  assumes "mset es = mset rs" "sorted (map re_range_end es)" "\<forall>r \<in> set rs. nonempty r"
  shows "sorted_wrt before es \<longleftrightarrow> disjoint_routes rs"
proof -
  have "disjoint_routes rs \<longleftrightarrow> sorted_wrt (\<lambda>r s. before r s \<or> before s r) es"
    unfolding disjoint_routes_def by (rule sorted_wrt_mset) (auto simp: symp_def assms(1))
  moreover have "sorted_wrt (\<lambda>r s. before r s \<or> before s r) es \<Longrightarrow> sorted_wrt before es"
    using assms(2,3) mset_eq_setD[OF assms(1)]
  proof (induction es arbitrary: rs)
    case (Cons e es)
    have "before e s" if "s \<in> set es" for s
    proof -
      have "before e s \<or> before s e" "re_range_end e \<le> re_range_end s" "nonempty e" "nonempty s"
        using Cons.prems that by auto
      then show ?thesis by (auto simp: before_def nonempty_def)
    qed
    then show ?case using Cons.IH[of es] Cons.prems by auto
  qed simp
  moreover have "sorted_wrt before es \<Longrightarrow> sorted_wrt (\<lambda>r s. before r s \<or> before s r) es"
    by (rule sorted_wrt_mono_rel) auto
  ultimately show ?thesis by blast
qed

text \<open>There is only one sorted order of routes that do not overlap.\<close>

lemma any_sort_same:
  assumes "mset es = mset rs" "sorted (map re_range_end es)" "\<forall>r \<in> set rs. nonempty r" "disjoint_routes rs"
  shows "es = sort_key re_range_end rs"
proof -
  have es: "sorted_wrt before es" using disjoint_sorted[OF assms(1-3)] assms(4) by simp
  have "\<forall>r \<in> set es. nonempty r" using assms(3) mset_eq_setD[OF assms(1)] by simp
  with es have "distinct (map re_range_end es)"
  proof (induction es)
    case (Cons e es)
    then show ?case by (force simp: before_def nonempty_def)
  qed simp
  then have inj: "inj_on re_range_end (set es)" and dist: "distinct (map re_range_end (sort_key re_range_end rs))"
    using assms(1) by (simp_all add: distinct_map) (metis distinct_map mset_eq_imp_distinct_iff mset_map mset_sort)
  show ?thesis
    by (rule map_sorted_distinct_set_unique[of re_range_end])
      (use inj dist assms(2) mset_eq_setD[OF assms(1)] \<open>distinct (map re_range_end es)\<close> in auto)
qed

lemma validate_outcome: "validate t = Inr () \<or> validate t = Inl ServiceError"
proof -
  have "validate_from p es = Inr () \<or> validate_from p es = Inl ServiceError" for p es by (induction es arbitrary: p) auto
  then show ?thesis by (simp add: validate_def split: list.split)
qed

lemma route_table_build_conv:
  "route_table_build rs = (if (\<forall>r \<in> set rs. nonempty r) \<and> disjoint_routes rs
     then Inr \<lparr>rtab_entries = sort_key re_range_end rs\<rparr> else Inl ServiceError)"
proof (cases "\<forall>r \<in> set rs. nonempty r")
  case True
  let ?t = "\<lparr>rtab_entries = sort_key re_range_end rs\<rparr>"
  have "validate ?t = Inr () \<longleftrightarrow> disjoint_routes rs"
    using validate_sorted[of ?t] disjoint_sorted[of "sort_key re_range_end rs" rs] True by simp
  moreover have "validate ?t \<noteq> Inr () \<Longrightarrow> validate ?t = Inl ServiceError" using validate_outcome[of ?t] by blast
  moreover have "\<not> (\<exists>r \<in> set rs. re_range_end r < re_range_begin r)" using True by (auto simp: nonempty_def)
  ultimately show ?thesis using True by (auto simp: route_table_build_def Let_def)
next
  case False
  then show ?thesis by (auto simp: route_table_build_def nonempty_def not_le)
qed

text \<open>
  C32: The table is built exactly from nonempty ranges no two of which overlap, and then the
  binary search resolves a message identifier to the topic of the one range it lies in, and to
  none when it lies in no range.
\<close>

theorem route_table_resolves:
  "case route_table_build routes of
     Inl e \<Rightarrow> e = ServiceError \<and> \<not> ((\<forall>r \<in> set routes. nonempty r) \<and> disjoint_routes routes)
   | Inr t \<Rightarrow> (\<forall>r \<in> set routes. nonempty r) \<and> disjoint_routes routes \<and>
       (\<forall>m topic. resolve m t = Some topic \<longleftrightarrow> (\<exists>r \<in> set routes. covers r m \<and> topic = re_kafka_topic r)) \<and>
       (\<forall>m. \<forall>r \<in> set routes. \<forall>s \<in> set routes. covers r m \<and> covers s m \<longrightarrow> r = s)"
proof (cases "(\<forall>r \<in> set routes. nonempty r) \<and> disjoint_routes routes")
  case True
  let ?es = "sort_key re_range_end routes"
  have ord: "sorted_wrt before ?es" using disjoint_sorted[of ?es routes] True by simp
  have lb: "(\<forall>j < lower_bound re_range_end ?es m 0 (length ?es). re_range_end (?es ! j) < m) \<and>
      (\<forall>j. lower_bound re_range_end ?es m 0 (length ?es) \<le> j \<and> j < length ?es \<longrightarrow> m \<le> re_range_end (?es ! j))" for m
    by (rule lower_bound_correct) auto
  have uniq: "i = j" if "i < length ?es" "j < length ?es" "covers (?es ! i) m" "covers (?es ! j) m" for i j m
  proof (rule ccontr)
    assume "i \<noteq> j"
    then have "before (?es ! i) (?es ! j) \<or> before (?es ! j) (?es ! i)"
      using sorted_wrt_nth_less[OF ord] that(1,2) by (meson linorder_neqE_nat)
    then show False using that(3,4) by (auto simp: before_def covers_def)
  qed
  have at: "covers (?es ! i) m \<Longrightarrow> i < length ?es \<Longrightarrow> lower_bound re_range_end ?es m 0 (length ?es) = i" for i m
  proof -
    assume c: "covers (?es ! i) m" and i: "i < length ?es"
    let ?l = "lower_bound re_range_end ?es m 0 (length ?es)"
    have "?l \<le> i" using lb[of m] c i by (metis covers_def leI not_less)
    moreover have "\<not> ?l < i"
    proof
      assume "?l < i"
      then have "before (?es ! ?l) (?es ! i)" using sorted_wrt_nth_less[OF ord] i by blast
      moreover have "m \<le> re_range_end (?es ! ?l)" using lb[of m] \<open>?l < i\<close> i by simp
      ultimately show False using c by (auto simp: before_def covers_def)
    qed
    ultimately show "?l = i" by simp
  qed
  have "resolve m \<lparr>rtab_entries = ?es\<rparr> = Some topic \<longleftrightarrow> (\<exists>i < length ?es. covers (?es ! i) m \<and> topic = re_kafka_topic (?es ! i))" for m topic
    using at[of _ m] by (auto simp: resolve_def Let_def covers_def split: if_split_asm)
  then have "resolve m \<lparr>rtab_entries = ?es\<rparr> = Some topic \<longleftrightarrow> (\<exists>r \<in> set routes. covers r m \<and> topic = re_kafka_topic r)" for m topic
    unfolding set_sort[of re_range_end routes, symmetric] Bex_def in_set_conv_nth by auto
  moreover have "r = s" if "r \<in> set routes" "s \<in> set routes" "covers r m" "covers s m" for r s m
    using that uniq unfolding set_sort[of re_range_end routes, symmetric] in_set_conv_nth by blast
  ultimately show ?thesis unfolding route_table_build_conv if_P[OF True] sum.case using True by blast
next
  case False
  then show ?thesis unfolding route_table_build_conv if_not_P[OF False] sum.case by simp
qed

definition sample_routes :: "RouteEntry list" where
  "sample_routes = [\<lparr>re_range_begin = 2000, re_range_end = 2999, re_kafka_topic = ''chat.requests''\<rparr>,
     \<lparr>re_range_begin = 1000, re_range_end = 1999, re_kafka_topic = ''auth.requests''\<rparr>]"

theorem route_table_resolves_witness:
  "resolve 1000 (projr (route_table_build sample_routes)) = Some ''auth.requests'' \<and>
   resolve 999 (projr (route_table_build sample_routes)) = None"
proof -
  have ok: "(\<forall>r \<in> set sample_routes. nonempty r) \<and> disjoint_routes sample_routes"
    by (simp add: sample_routes_def nonempty_def disjoint_routes_def before_def)
  then have "\<exists>t. route_table_build sample_routes = Inr t" by (simp add: route_table_build_conv)
  then obtain t where t: "route_table_build sample_routes = Inr t" by blast
  have "\<forall>m topic. resolve m t = Some topic \<longleftrightarrow> (\<exists>r \<in> set sample_routes. covers r m \<and> topic = re_kafka_topic r)"
    using route_table_resolves[of sample_routes] by (simp add: t)
  then have "resolve 1000 t = Some ''auth.requests''" "\<nexists>topic. resolve 999 t = Some topic"
    by (simp_all add: sample_routes_def covers_def)
  then show ?thesis by (simp add: t)
qed

end
