(* ===== verification/Kafka_Envelope.thy ===== *)
theory Kafka_Envelope
  imports Wire_Header Allocators
begin

text \<open>
  \<open>apex_shared/lib/protocols/kafka\<close>: the envelope around every message between gateway and
  services: routing header, metadata, an optional reply topic, and the payload. It is built by
  \<open>build_full_envelope\<close> or \<open>EnvelopeBuilder\<close>, and taken apart by \<open>KafkaDispatchBridge\<close>. The
  bytes of a topic are kept as bytes; the clock is a parameter.
\<close>

datatype EnvelopeError = EnvInsufficientData | EnvUnsupportedVersion | EnvTopicTooLong

record RoutingHeader =
  rh_header_version :: u16
  rh_flags :: u16
  rh_msg_id :: u32

definition RoutingHeader_SIZE :: nat where "RoutingHeader_SIZE = 8"
definition RoutingHeader_VERSION :: u16 where "RoutingHeader_VERSION = 1"

record MetadataPrefix =
  mp_meta_version :: u32
  mp_core_id :: u16
  mp_corr_id :: u64
  mp_source_id :: u16
  mp_session_id :: u64
  mp_user_id :: u64
  mp_timestamp :: u64

definition MetadataPrefix_SIZE :: nat where "MetadataPrefix_SIZE = 40"
definition MetadataPrefix_VERSION :: u32 where "MetadataPrefix_VERSION = 2"

definition ENVELOPE_HEADER_SIZE :: nat where
  "ENVELOPE_HEADER_SIZE = RoutingHeader_SIZE + MetadataPrefix_SIZE"

definition HAS_REPLY_TOPIC :: u16 where "HAS_REPLY_TOPIC = 0x0800"
definition DIRECTION_RESPONSE :: u16 where "DIRECTION_RESPONSE = 0x0001"
definition ERROR_BIT :: u16 where "ERROR_BIT = 0x0002"
definition DELIVERY_MASK :: u16 where "DELIVERY_MASK = 0x000C"
definition DELIVERY_UNICAST :: u16 where "DELIVERY_UNICAST = 0x0000"
definition DELIVERY_CHANNEL :: u16 where "DELIVERY_CHANNEL = 0x0004"
definition DELIVERY_BROADCAST :: u16 where "DELIVERY_BROADCAST = 0x0008"

definition hton64 :: "u64 \<Rightarrow> u64" where "hton64 v = bswap 8 v"
definition ntoh64 :: "u64 \<Rightarrow> u64" where "ntoh64 v = hton64 v"

definition RoutingHeader_parse :: "bytes \<Rightarrow> EnvelopeError + RoutingHeader" where
  "RoutingHeader_parse data =
     (if length data < RoutingHeader_SIZE then Inl EnvInsufficientData
      else let header_version = ntoh16 (le_load (subspan data 0 2)) in
      if header_version \<noteq> RoutingHeader_VERSION then Inl EnvUnsupportedVersion
      else Inr \<lparr>rh_header_version = header_version, rh_flags = ntoh16 (le_load (subspan data 2 2)),
                rh_msg_id = ntoh32 (le_load (subspan data 4 4))\<rparr>)"

definition RoutingHeader_serialize_to :: "bytes \<Rightarrow> RoutingHeader \<Rightarrow> bytes" where
  "RoutingHeader_serialize_to out h =
     (let out = memcpy out 0 (le_store 2 (hton16 (rh_header_version h)));
          out = memcpy out 2 (le_store 2 (hton16 (rh_flags h)));
          out = memcpy out 4 (le_store 4 (hton32 (rh_msg_id h)))
      in out)"

definition RoutingHeader_serialize :: "RoutingHeader \<Rightarrow> bytes" where
  "RoutingHeader_serialize h = RoutingHeader_serialize_to (replicate RoutingHeader_SIZE 0) h"

definition MetadataPrefix_parse :: "bytes \<Rightarrow> EnvelopeError + MetadataPrefix" where
  "MetadataPrefix_parse data =
     (if length data < MetadataPrefix_SIZE then Inl EnvInsufficientData
      else let meta_version = ntoh32 (le_load (subspan data 0 4)) in
      if meta_version \<noteq> MetadataPrefix_VERSION then Inl EnvUnsupportedVersion
      else Inr \<lparr>mp_meta_version = meta_version, mp_core_id = ntoh16 (le_load (subspan data 4 2)),
                mp_corr_id = ntoh64 (le_load (subspan data 6 8)), mp_source_id = ntoh16 (le_load (subspan data 14 2)),
                mp_session_id = ntoh64 (le_load (subspan data 16 8)), mp_user_id = ntoh64 (le_load (subspan data 24 8)),
                mp_timestamp = ntoh64 (le_load (subspan data 32 8))\<rparr>)"

definition MetadataPrefix_serialize_to :: "bytes \<Rightarrow> MetadataPrefix \<Rightarrow> bytes" where
  "MetadataPrefix_serialize_to out m =
     (let out = memcpy out 0 (le_store 4 (hton32 (mp_meta_version m)));
          out = memcpy out 4 (le_store 2 (hton16 (mp_core_id m)));
          out = memcpy out 6 (le_store 8 (hton64 (mp_corr_id m)));
          out = memcpy out 14 (le_store 2 (hton16 (mp_source_id m)));
          out = memcpy out 16 (le_store 8 (hton64 (mp_session_id m)));
          out = memcpy out 24 (le_store 8 (hton64 (mp_user_id m)));
          out = memcpy out 32 (le_store 8 (hton64 (mp_timestamp m)))
      in out)"

definition MetadataPrefix_serialize :: "MetadataPrefix \<Rightarrow> bytes" where
  "MetadataPrefix_serialize m = MetadataPrefix_serialize_to (replicate MetadataPrefix_SIZE 0) m"

section \<open>Reply topic and envelope\<close>

definition ReplyTopic_serialize :: "bytes \<Rightarrow> EnvelopeError + bytes" where
  "ReplyTopic_serialize reply_topic =
     (if reply_topic = [] then Inr []
      else if 65535 < length reply_topic then Inl EnvTopicTooLong
      else let len = of_nat (length reply_topic) :: u16;
               buf = replicate (2 + unat len) 0;
               buf = memcpy buf 0 (le_store 2 (hton16 len));
               buf = memcpy buf 2 (take (unat len) reply_topic)
           in Inr buf)"

definition ReplyTopic_parse :: "bytes \<Rightarrow> EnvelopeError + (bytes \<times> nat)" where
  "ReplyTopic_parse data =
     (if length data < 2 then Inl EnvInsufficientData
      else let len = ntoh16 (le_load (subspan data 0 2));
               total' = 2 + unat len
           in if length data < total' then Inl EnvInsufficientData
              else Inr (subspan data 2 (unat len), total'))"

definition build_full_envelope :: "RoutingHeader \<Rightarrow> MetadataPrefix \<Rightarrow> bytes \<Rightarrow> bytes \<Rightarrow> bytes" where
  "build_full_envelope routing metadata reply_topic payload =
     (let rh = (if reply_topic \<noteq> [] then routing\<lparr>rh_flags := rh_flags routing OR HAS_REPLY_TOPIC\<rparr>
                else routing\<lparr>rh_flags := rh_flags routing AND (NOT HAS_REPLY_TOPIC)\<rparr>);
          (rh, reply_bytes) =
            (case ReplyTopic_serialize reply_topic of
               Inr bs \<Rightarrow> (rh, bs)
             | Inl err \<Rightarrow> (rh\<lparr>rh_flags := rh_flags rh AND (NOT HAS_REPLY_TOPIC)\<rparr>, []))
      in RoutingHeader_serialize rh @ MetadataPrefix_serialize metadata @ reply_bytes @ payload)"

definition envelope_payload_offset :: "u16 \<Rightarrow> bytes \<Rightarrow> nat" where
  "envelope_payload_offset flags data =
     (let offset = ENVELOPE_HEADER_SIZE in
      if flags AND HAS_REPLY_TOPIC \<noteq> 0 \<and> offset + 2 \<le> length data
      then case ReplyTopic_parse (drop offset data) of Inr (topic, n) \<Rightarrow> offset + n | Inl err \<Rightarrow> offset
      else offset)"

definition extract_reply_topic :: "u16 \<Rightarrow> bytes \<Rightarrow> bytes" where
  "extract_reply_topic flags data =
     (if flags AND HAS_REPLY_TOPIC = 0 then []
      else if length data < ENVELOPE_HEADER_SIZE + 2 then []
      else case ReplyTopic_parse (drop ENVELOPE_HEADER_SIZE data) of Inr (topic, n) \<Rightarrow> topic | Inl err \<Rightarrow> [])"

section \<open>The builder\<close>

record EnvelopeBuilder =
  eb_msg_id :: u32
  eb_flags :: u16
  eb_core_id :: u16
  eb_corr_id :: u64
  eb_source_id :: u16
  eb_session_id :: u64
  eb_user_id :: u64
  eb_reply_topic :: bytes
  eb_payload :: bytes

definition EnvelopeBuilder_new :: EnvelopeBuilder where
  "EnvelopeBuilder_new = \<lparr>eb_msg_id = 0, eb_flags = 0, eb_core_id = 0, eb_corr_id = 0, eb_source_id = 0,
     eb_session_id = 0, eb_user_id = 0, eb_reply_topic = [], eb_payload = []\<rparr>"

definition eb_routing :: "u32 \<Rightarrow> u16 \<Rightarrow> EnvelopeBuilder \<Rightarrow> EnvelopeBuilder" where
  "eb_routing msg_id flags b = b\<lparr>eb_msg_id := msg_id, eb_flags := flags\<rparr>"

definition eb_metadata :: "u16 \<Rightarrow> u64 \<Rightarrow> u16 \<Rightarrow> u64 \<Rightarrow> u64 \<Rightarrow> EnvelopeBuilder \<Rightarrow> EnvelopeBuilder" where
  "eb_metadata core_id corr_id source_id session_id user_id b =
     b\<lparr>eb_core_id := core_id, eb_corr_id := corr_id, eb_source_id := source_id,
       eb_session_id := session_id, eb_user_id := user_id\<rparr>"

definition eb_set_reply_topic :: "bytes \<Rightarrow> EnvelopeBuilder \<Rightarrow> EnvelopeBuilder" where
  "eb_set_reply_topic topic b = b\<lparr>eb_reply_topic := topic\<rparr>"

definition eb_set_payload :: "bytes \<Rightarrow> EnvelopeBuilder \<Rightarrow> EnvelopeBuilder" where
  "eb_set_payload data b = b\<lparr>eb_payload := data\<rparr>"

definition eb_has_topic :: "EnvelopeBuilder \<Rightarrow> bool" where
  "eb_has_topic b \<longleftrightarrow> eb_reply_topic b \<noteq> [] \<and> length (eb_reply_topic b) \<le> 65535"

definition eb_total_size :: "EnvelopeBuilder \<Rightarrow> nat" where
  "eb_total_size b =
     ENVELOPE_HEADER_SIZE + (if eb_has_topic b then 2 + length (eb_reply_topic b) else 0) + length (eb_payload b)"

definition eb_serialize_into :: "u64 \<Rightarrow> EnvelopeBuilder \<Rightarrow> bytes \<Rightarrow> bytes" where
  "eb_serialize_into now_ms b buf =
     (let rh = \<lparr>rh_header_version = RoutingHeader_VERSION,
                rh_flags = (if eb_has_topic b then eb_flags b OR HAS_REPLY_TOPIC else eb_flags b AND (NOT HAS_REPLY_TOPIC)),
                rh_msg_id = eb_msg_id b\<rparr>;
          mp = \<lparr>mp_meta_version = MetadataPrefix_VERSION, mp_core_id = eb_core_id b, mp_corr_id = eb_corr_id b,
                mp_source_id = eb_source_id b, mp_session_id = eb_session_id b, mp_user_id = eb_user_id b,
                mp_timestamp = now_ms\<rparr>;
          offset = 0;
          buf = memcpy buf offset (RoutingHeader_serialize_to (subspan buf offset RoutingHeader_SIZE) rh);
          offset = offset + RoutingHeader_SIZE;
          buf = memcpy buf offset (MetadataPrefix_serialize_to (subspan buf offset MetadataPrefix_SIZE) mp);
          offset = offset + MetadataPrefix_SIZE;
          (buf, offset) =
            (if eb_has_topic b
             then let len = of_nat (length (eb_reply_topic b)) :: u16;
                      buf = memcpy buf offset (le_store 2 (bswap 2 len));
                      offset = offset + 2;
                      buf = memcpy buf offset (take (unat len) (eb_reply_topic b))
                  in (buf, offset + unat len)
             else (buf, offset))
      in if eb_payload b \<noteq> [] then memcpy buf offset (eb_payload b) else buf)"

definition eb_build :: "u64 \<Rightarrow> EnvelopeBuilder \<Rightarrow> bytes" where
  "eb_build now_ms b = eb_serialize_into now_ms b (replicate (eb_total_size b) 0)"

text \<open>\<open>build_into\<close>: the bytes at the address the allocator returned (what was there before is
  \<open>old\<close>), or the empty span.\<close>

definition eb_build_into :: "u64 \<Rightarrow> (u64 \<Rightarrow> bytes) \<Rightarrow> EnvelopeBuilder \<Rightarrow> BumpAllocator \<Rightarrow> bytes \<times> BumpAllocator" where
  "eb_build_into now_ms old b alloc =
     (case bump_allocate (of_nat (eb_total_size b)) 1 alloc of
        (None, alloc) \<Rightarrow> ([], alloc)
      | (Some mem, alloc) \<Rightarrow> (eb_serialize_into now_ms b (take (eb_total_size b) (old mem)), alloc))"

section \<open>The dispatch bridge\<close>

record KafkaMessageMeta =
  km_meta_version :: u32
  km_core_id :: u16
  km_corr_id :: u64
  km_source_id :: u16
  km_session_id :: u64
  km_user_id :: u64
  km_timestamp :: u64

definition bridge_has_handler :: "(u32 \<rightharpoonup> 'h) option \<Rightarrow> u32 \<Rightarrow> bool" where
  "bridge_has_handler handlers msg_id \<longleftrightarrow> (case handlers of None \<Rightarrow> False | Some m \<Rightarrow> m msg_id \<noteq> None)"

definition bridge_dispatch ::
  "(u32 \<rightharpoonup> (KafkaMessageMeta \<Rightarrow> u32 \<Rightarrow> bytes \<Rightarrow> 'e \<Rightarrow> unit result \<times> 'e)) option \<Rightarrow> bytes \<Rightarrow> 'e \<Rightarrow> unit result \<times> 'e" where
  "bridge_dispatch handlers raw_message e =
     (if length raw_message < ENVELOPE_HEADER_SIZE then (Inl ParseFailed, e)
      else case handlers of None \<Rightarrow> (Inl HandlerNotFound, e) | Some handlers \<Rightarrow>
      (case RoutingHeader_parse raw_message of Inl err \<Rightarrow> (Inl ParseFailed, e) | Inr routing \<Rightarrow>
      (case MetadataPrefix_parse (drop RoutingHeader_SIZE raw_message) of Inl err \<Rightarrow> (Inl ParseFailed, e) | Inr metadata \<Rightarrow>
        let payload_offset = envelope_payload_offset (rh_flags routing) raw_message;
            payload = (if payload_offset < length raw_message then drop payload_offset raw_message else [])
        in case handlers (rh_msg_id routing) of
             None \<Rightarrow> (Inl HandlerNotFound, e)
           | Some h \<Rightarrow>
               h \<lparr>km_meta_version = mp_meta_version metadata, km_core_id = mp_core_id metadata,
                  km_corr_id = mp_corr_id metadata, km_source_id = mp_source_id metadata,
                  km_session_id = mp_session_id metadata, km_user_id = mp_user_id metadata,
                  km_timestamp = mp_timestamp metadata\<rparr> (rh_msg_id routing) payload e)))"

section \<open>The two headers are codecs\<close>

lemma be_get: "8 * n = LENGTH('a) \<Longrightarrow> bswap n (le_load (rev (le_store n v)) :: 'a::len word) = v"
  by (metis bswap_bswap bswap_def)

lemma be_put:
  assumes "length s = n" and "8 * n = LENGTH('a::len)"
  shows "rev (le_store n (bswap n (le_load s :: 'a word))) = s"
  using le_store_load[where 'a = 'a, of s] assms by (simp add: le_store_bswap)

lemmas net_defs = hton16_def hton32_def hton64_def ntoh16_def ntoh32_def ntoh64_def

text \<open>Filling a buffer field by field: what is written so far, and the rest of the buffer.\<close>

lemma memcpy_next:
  "length a = off \<Longrightarrow> off + length s = off' \<Longrightarrow> memcpy (a @ drop off out) off s = (a @ s) @ drop off' out"
  by (auto simp: memcpy_def add.commute)

lemma RoutingHeader_serialize_to_layout:
  assumes "length out = 8"
  shows "RoutingHeader_serialize_to out h =
    rev (le_store 2 (rh_header_version h)) @ rev (le_store 2 (rh_flags h)) @ rev (le_store 4 (rh_msg_id h))"
  using assms by (simp add: RoutingHeader_serialize_to_def net_defs le_store_bswap memcpy_def Let_def)

lemma MetadataPrefix_serialize_to_layout:
  assumes "length out = 40"
  shows "MetadataPrefix_serialize_to out m =
    rev (le_store 4 (mp_meta_version m)) @ rev (le_store 2 (mp_core_id m)) @ rev (le_store 8 (mp_corr_id m)) @
    rev (le_store 2 (mp_source_id m)) @ rev (le_store 8 (mp_session_id m)) @ rev (le_store 8 (mp_user_id m)) @
    rev (le_store 8 (mp_timestamp m))"
proof -
  let ?s0 = "rev (le_store 4 (mp_meta_version m))" and ?s1 = "rev (le_store 2 (mp_core_id m))"
    and ?s2 = "rev (le_store 8 (mp_corr_id m))" and ?s3 = "rev (le_store 2 (mp_source_id m))"
    and ?s4 = "rev (le_store 8 (mp_session_id m))" and ?s5 = "rev (le_store 8 (mp_user_id m))"
    and ?s6 = "rev (le_store 8 (mp_timestamp m))"
  have net: "le_store 4 (hton32 x) = rev (le_store 4 x)" "le_store 2 (hton16 y) = rev (le_store 2 y)"
    "le_store 8 (hton64 z) = rev (le_store 8 z)" for x y z
    by (simp_all add: net_defs le_store_bswap)
  note put = memcpy_next[where out = out]
  have "MetadataPrefix_serialize_to out m =
      memcpy (memcpy (memcpy (memcpy (memcpy (memcpy (memcpy ([] @ drop 0 out) 0 ?s0) 4 ?s1) 6 ?s2) 14 ?s3) 16 ?s4) 24 ?s5) 32 ?s6"
    unfolding MetadataPrefix_serialize_to_def Let_def net by simp
  also have "\<dots> = (((((((?s0) @ ?s1) @ ?s2) @ ?s3) @ ?s4) @ ?s5) @ ?s6) @ drop 40 out"
    by (subst put[of "[]"], simp, simp, (subst put, simp, simp)+, simp)
  finally show ?thesis using assms by simp
qed

lemma length_headers [simp]:
  "length (RoutingHeader_serialize h) = 8" "length (MetadataPrefix_serialize m) = 40"
  by (simp_all add: RoutingHeader_serialize_def MetadataPrefix_serialize_def RoutingHeader_SIZE_def MetadataPrefix_SIZE_def
      RoutingHeader_serialize_to_layout MetadataPrefix_serialize_to_layout)

interpretation routing: header_codec 8 "\<lambda>h. rh_header_version h = RoutingHeader_VERSION" RoutingHeader_serialize RoutingHeader_parse
proof
  fix h rest
  show "length (RoutingHeader_serialize h) = 8" by simp
  assume v: "rh_header_version h = RoutingHeader_VERSION"
  let ?bs = "RoutingHeader_serialize h @ rest"
  have bs: "?bs = rev (le_store 2 (rh_header_version h)) @ rev (le_store 2 (rh_flags h)) @ rev (le_store 4 (rh_msg_id h)) @ rest"
    by (simp add: RoutingHeader_serialize_def RoutingHeader_serialize_to_layout RoutingHeader_SIZE_def)
  have "subspan ?bs 0 2 = rev (le_store 2 (rh_header_version h))" "subspan ?bs 2 2 = rev (le_store 2 (rh_flags h))"
    "subspan ?bs 4 4 = rev (le_store 4 (rh_msg_id h))"
    unfolding bs by (simp_all add: subspan_def)
  then show "RoutingHeader_parse ?bs = Inr h"
    using v by (simp add: RoutingHeader_parse_def RoutingHeader_SIZE_def net_defs be_get Let_def)
next
  fix bs h assume p: "RoutingHeader_parse bs = Inr h"
  then have len: "8 \<le> length bs" by (auto simp: RoutingHeader_parse_def RoutingHeader_SIZE_def split: if_splits)
  have h: "rh_header_version h = RoutingHeader_VERSION" "rh_header_version h = bswap 2 (le_load (subspan bs 0 2))"
    "rh_flags h = bswap 2 (le_load (subspan bs 2 2))" "rh_msg_id h = bswap 4 (le_load (subspan bs 4 4))"
    using p by (auto simp: RoutingHeader_parse_def net_defs Let_def split: if_splits)
  have "RoutingHeader_serialize h = subspan bs 0 2 @ subspan bs 2 2 @ subspan bs 4 4"
    using len by (simp add: RoutingHeader_serialize_def RoutingHeader_SIZE_def RoutingHeader_serialize_to_layout h(2-4)
        be_put subspan_def)
  also have "\<dots> = take (2 + (2 + 4)) bs" by (simp only: take_add subspan_def drop_drop drop_0) simp
  finally show "rh_header_version h = RoutingHeader_VERSION \<and> 8 \<le> length bs \<and> RoutingHeader_serialize h = take 8 bs"
    using h(1) len by simp
qed

interpretation metadata: header_codec 40 "\<lambda>m. mp_meta_version m = MetadataPrefix_VERSION" MetadataPrefix_serialize MetadataPrefix_parse
proof
  fix m rest
  show "length (MetadataPrefix_serialize m) = 40" by simp
  assume v: "mp_meta_version m = MetadataPrefix_VERSION"
  let ?bs = "MetadataPrefix_serialize m @ rest"
  have bs: "?bs = rev (le_store 4 (mp_meta_version m)) @ rev (le_store 2 (mp_core_id m)) @ rev (le_store 8 (mp_corr_id m)) @
      rev (le_store 2 (mp_source_id m)) @ rev (le_store 8 (mp_session_id m)) @ rev (le_store 8 (mp_user_id m)) @
      rev (le_store 8 (mp_timestamp m)) @ rest"
    by (simp add: MetadataPrefix_serialize_def MetadataPrefix_serialize_to_layout MetadataPrefix_SIZE_def)
  have "subspan ?bs 0 4 = rev (le_store 4 (mp_meta_version m))" "subspan ?bs 4 2 = rev (le_store 2 (mp_core_id m))"
    "subspan ?bs 6 8 = rev (le_store 8 (mp_corr_id m))" "subspan ?bs 14 2 = rev (le_store 2 (mp_source_id m))"
    "subspan ?bs 16 8 = rev (le_store 8 (mp_session_id m))" "subspan ?bs 24 8 = rev (le_store 8 (mp_user_id m))"
    "subspan ?bs 32 8 = rev (le_store 8 (mp_timestamp m))"
    unfolding bs by (simp_all add: subspan_def)
  then show "MetadataPrefix_parse ?bs = Inr m"
    using v by (simp add: MetadataPrefix_parse_def MetadataPrefix_SIZE_def net_defs be_get Let_def)
next
  fix bs m assume p: "MetadataPrefix_parse bs = Inr m"
  then have len: "40 \<le> length bs" by (auto simp: MetadataPrefix_parse_def MetadataPrefix_SIZE_def split: if_splits)
  have m: "mp_meta_version m = MetadataPrefix_VERSION" "mp_meta_version m = bswap 4 (le_load (subspan bs 0 4))"
    "mp_core_id m = bswap 2 (le_load (subspan bs 4 2))" "mp_corr_id m = bswap 8 (le_load (subspan bs 6 8))"
    "mp_source_id m = bswap 2 (le_load (subspan bs 14 2))" "mp_session_id m = bswap 8 (le_load (subspan bs 16 8))"
    "mp_user_id m = bswap 8 (le_load (subspan bs 24 8))" "mp_timestamp m = bswap 8 (le_load (subspan bs 32 8))"
    using p by (auto simp: MetadataPrefix_parse_def net_defs Let_def split: if_splits)
  have "MetadataPrefix_serialize m = subspan bs 0 4 @ subspan bs 4 2 @ subspan bs 6 8 @ subspan bs 14 2 @
      subspan bs 16 8 @ subspan bs 24 8 @ subspan bs 32 8"
    using len by (simp add: MetadataPrefix_serialize_def MetadataPrefix_SIZE_def MetadataPrefix_serialize_to_layout m(2-8)
        be_put subspan_def)
  also have "\<dots> = take (4 + (2 + (8 + (2 + (8 + (8 + 8)))))) bs"
    by (simp only: take_add subspan_def drop_drop drop_0) simp
  finally show "mp_meta_version m = MetadataPrefix_VERSION \<and> 40 \<le> length bs \<and> MetadataPrefix_serialize m = take 40 bs"
    using m(1) len by simp
qed

section \<open>Envelopes\<close>

definition topic_ok :: "bytes \<Rightarrow> bool" where
  "topic_ok t \<longleftrightarrow> t \<noteq> [] \<and> length t \<le> 65535"

definition topic_section :: "bytes \<Rightarrow> bytes" where
  "topic_section t = (if topic_ok t then rev (le_store 2 (of_nat (length t) :: u16)) @ t else [])"

definition topic_flags :: "bytes \<Rightarrow> u16 \<Rightarrow> u16" where
  "topic_flags t flags = (if topic_ok t then flags OR HAS_REPLY_TOPIC else flags AND (NOT HAS_REPLY_TOPIC))"

lemma unat_topic_length: "topic_ok t \<Longrightarrow> unat (of_nat (length t) :: u16) = length t"
  unfolding topic_ok_def by (intro unat_of_nat_small) simp

lemma topic_flags_set: "(topic_flags t flags AND HAS_REPLY_TOPIC \<noteq> 0) = topic_ok t"
proof -
  have "(flags OR HAS_REPLY_TOPIC) AND HAS_REPLY_TOPIC = HAS_REPLY_TOPIC"
    by (simp add: bit.conj_disj_distrib2)
  moreover have "(flags AND (NOT HAS_REPLY_TOPIC)) AND HAS_REPLY_TOPIC = 0" by (simp add: and.assoc)
  ultimately show ?thesis by (simp add: topic_flags_def HAS_REPLY_TOPIC_def)
qed

lemma ReplyTopic_serialize_conv:
  "ReplyTopic_serialize t = (if 65535 < length t then Inl EnvTopicTooLong else Inr (topic_section t))"
proof (cases "topic_ok t")
  case True
  then have t: "t \<noteq> []" "\<not> 65535 < length t" by (simp_all add: topic_ok_def)
  show ?thesis using t True unat_topic_length[OF True]
    by (simp add: ReplyTopic_serialize_def topic_section_def Let_def net_defs le_store_bswap memcpy_def)
qed (auto simp: ReplyTopic_serialize_def topic_section_def topic_ok_def)

lemma ReplyTopic_parse_section:
  assumes "topic_ok t"
  shows "ReplyTopic_parse (topic_section t @ rest) = Inr (t, 2 + length t)"
proof -
  let ?n = "of_nat (length t) :: u16"
  have "subspan (topic_section t @ rest) 0 2 = rev (le_store 2 ?n)" using assms by (simp add: topic_section_def subspan_def)
  then have "ntoh16 (le_load (subspan (topic_section t @ rest) 0 2)) = ?n" by (simp add: net_defs be_get)
  then show ?thesis using assms unat_topic_length[OF assms]
    by (simp add: ReplyTopic_parse_def topic_section_def subspan_def Let_def)
qed

lemma build_full_envelope_layout:
  "build_full_envelope r m t p =
     RoutingHeader_serialize (r\<lparr>rh_flags := topic_flags t (rh_flags r)\<rparr>) @ MetadataPrefix_serialize m @ topic_section t @ p"
proof -
  have "(f OR HAS_REPLY_TOPIC) AND (NOT HAS_REPLY_TOPIC) = f AND (NOT HAS_REPLY_TOPIC)" for f
    by (simp add: bit.conj_disj_distrib2)
  then show ?thesis
    by (auto simp: build_full_envelope_def ReplyTopic_serialize_conv topic_flags_def topic_section_def topic_ok_def Let_def)
qed

lemma envelope_payload_offset_layout:
  assumes "length hdr = 48"
  shows "envelope_payload_offset (topic_flags t flags) (hdr @ topic_section t @ p) = 48 + length (topic_section t)"
    and "extract_reply_topic (topic_flags t flags) (hdr @ topic_section t @ p) = (if topic_ok t then t else [])"
proof -
  have s: "topic_ok t \<Longrightarrow> length (topic_section t) = 2 + length t" by (simp add: topic_section_def)
  have n: "\<not> topic_ok t \<Longrightarrow> topic_section t = []" by (simp add: topic_section_def)
  note facts = topic_flags_set ReplyTopic_parse_section ENVELOPE_HEADER_SIZE_def RoutingHeader_SIZE_def MetadataPrefix_SIZE_def assms
  show "envelope_payload_offset (topic_flags t flags) (hdr @ topic_section t @ p) = 48 + length (topic_section t)"
    using s n by (cases "topic_ok t") (simp_all add: envelope_payload_offset_def Let_def facts)
  show "extract_reply_topic (topic_flags t flags) (hdr @ topic_section t @ p) = (if topic_ok t then t else [])"
  proof (cases "topic_ok t")
    case True
    then have "topic_flags t flags AND HAS_REPLY_TOPIC \<noteq> 0" using topic_flags_set[of t flags] by blast
    then show ?thesis using s True by (simp add: extract_reply_topic_def facts(2-))
  next
    case False
    then have "topic_flags t flags AND HAS_REPLY_TOPIC = 0" using topic_flags_set[of t flags] by blast
    then show ?thesis using False by (simp add: extract_reply_topic_def)
  qed
qed

text \<open>The headers the builder's parameters stand for.\<close>

definition builder_routing :: "EnvelopeBuilder \<Rightarrow> RoutingHeader" where
  "builder_routing b = \<lparr>rh_header_version = RoutingHeader_VERSION, rh_flags = eb_flags b, rh_msg_id = eb_msg_id b\<rparr>"

definition builder_metadata :: "u64 \<Rightarrow> EnvelopeBuilder \<Rightarrow> MetadataPrefix" where
  "builder_metadata now_ms b =
     \<lparr>mp_meta_version = MetadataPrefix_VERSION, mp_core_id = eb_core_id b, mp_corr_id = eb_corr_id b,
      mp_source_id = eb_source_id b, mp_session_id = eb_session_id b, mp_user_id = eb_user_id b, mp_timestamp = now_ms\<rparr>"

lemma eb_serialize_into_layout:
  assumes "length buf = eb_total_size b"
  shows "eb_serialize_into now_ms b buf =
    build_full_envelope (builder_routing b) (builder_metadata now_ms b) (eb_reply_topic b) (eb_payload b)"
proof -
  let ?t = "eb_reply_topic b"
  let ?rh = "(builder_routing b)\<lparr>rh_flags := topic_flags ?t (eb_flags b)\<rparr>" and ?mp = "builder_metadata now_ms b"
  let ?r = "RoutingHeader_serialize ?rh" and ?m = "MetadataPrefix_serialize ?mp"
  let ?b1 = "?r @ drop 8 buf" let ?b2 = "(?r @ ?m) @ drop 48 buf"
  have len: "48 \<le> length buf" using assms
    by (simp add: eb_total_size_def ENVELOPE_HEADER_SIZE_def RoutingHeader_SIZE_def MetadataPrefix_SIZE_def)
  have ser: "RoutingHeader_serialize_to (subspan buf 0 8) ?rh = ?r" "MetadataPrefix_serialize_to (subspan ?b1 8 40) ?mp = ?m"
    using len by (simp_all add: RoutingHeader_serialize_def MetadataPrefix_serialize_def RoutingHeader_SIZE_def
        MetadataPrefix_SIZE_def RoutingHeader_serialize_to_layout MetadataPrefix_serialize_to_layout subspan_def)
  have b1: "memcpy buf 0 ?r = ?b1" using memcpy_next[of "[]" 0 ?r 8 buf] by simp
  have b2: "memcpy ?b1 8 ?m = ?b2" using memcpy_next[of ?r 8 ?m 48 buf] by simp
  have has: "eb_has_topic b = topic_ok ?t" by (simp add: eb_has_topic_def topic_ok_def)
  have rh: "\<lparr>rh_header_version = RoutingHeader_VERSION,
      rh_flags = (if topic_ok ?t then eb_flags b OR HAS_REPLY_TOPIC else eb_flags b AND (NOT HAS_REPLY_TOPIC)),
      rh_msg_id = eb_msg_id b\<rparr> = ?rh"
    by (simp add: builder_routing_def topic_flags_def)
  have total: "eb_total_size b = 48 + length (topic_section ?t) + length (eb_payload b)"
    by (simp add: eb_total_size_def has topic_section_def ENVELOPE_HEADER_SIZE_def RoutingHeader_SIZE_def MetadataPrefix_SIZE_def)
  define b3 where "b3 = (?r @ ?m @ topic_section ?t) @ drop (48 + length (topic_section ?t)) buf"
  have topic: "(if topic_ok ?t
       then let len = of_nat (length ?t) :: u16; buf = memcpy ?b2 48 (le_store 2 (bswap 2 len)); offset = 48 + 2;
                buf = memcpy buf offset (take (unat len) ?t)
            in (buf, offset + unat len)
       else (?b2, 48)) = (b3, 48 + length (topic_section ?t))"
  proof (cases "topic_ok ?t")
    case True
    let ?n = "rev (le_store 2 (of_nat (length ?t) :: u16))"
    have "memcpy ?b2 48 ?n = ((?r @ ?m) @ ?n) @ drop 50 buf" by (rule memcpy_next) simp_all
    moreover have "memcpy (((?r @ ?m) @ ?n) @ drop 50 buf) 50 ?t = (((?r @ ?m) @ ?n) @ ?t) @ drop (50 + length ?t) buf"
      by (rule memcpy_next) simp_all
    ultimately show ?thesis using True unat_topic_length[OF True]
      by (simp add: b3_def topic_section_def le_store_bswap Let_def)
  qed (simp add: b3_def topic_section_def)
  have pay: "memcpy b3 (48 + length (topic_section ?t)) (eb_payload b) = ?r @ ?m @ topic_section ?t @ eb_payload b"
    using memcpy_next[of "?r @ ?m @ topic_section ?t" _ "eb_payload b" _ buf] assms total by (simp add: b3_def)
  have nopay: "eb_payload b = [] \<Longrightarrow> b3 = ?r @ ?m @ topic_section ?t" using assms total by (simp add: b3_def)
  have n: "(0 :: nat) + 8 = 8" "(8 :: nat) + 40 = 48" by simp_all
  have rf: "rh_flags (builder_routing b) = eb_flags b" by (simp add: builder_routing_def)
  show ?thesis
    unfolding eb_serialize_into_def Let_def has rh builder_metadata_def[symmetric] RoutingHeader_SIZE_def MetadataPrefix_SIZE_def
      n ser(1) b1 ser(2) b2 topic[unfolded Let_def] prod.case build_full_envelope_layout rf
    using pay nopay by simp
qed

text \<open>
  The builder's in-place serialization, on the heap or in a bump allocator that has room,
  gives exactly the bytes of \<open>build_full_envelope\<close> for the same parameters, whatever the memory
  held before; without room the result is the empty span.
\<close>

theorem envelope_builder_equivalent:
  assumes "\<forall>mem. eb_total_size b \<le> length (old mem)" and "eb_build_into now_ms old b alloc = (out, alloc')"
  shows "eb_build now_ms b = build_full_envelope (builder_routing b) (builder_metadata now_ms b) (eb_reply_topic b) (eb_payload b) \<and>
    out = (if fst (bump_allocate (of_nat (eb_total_size b)) 1 alloc) = None then [] else eb_build now_ms b)"
proof -
  have build: "eb_build now_ms b = build_full_envelope (builder_routing b) (builder_metadata now_ms b) (eb_reply_topic b) (eb_payload b)"
    unfolding eb_build_def by (rule eb_serialize_into_layout) simp
  have "eb_serialize_into now_ms b (take (eb_total_size b) (old mem)) = eb_build now_ms b" for mem
    unfolding build using assms(1) by (intro eb_serialize_into_layout) simp
  then show ?thesis using build assms(2) by (auto simp: eb_build_into_def split: prod.splits option.splits)
qed

definition sample_builder :: EnvelopeBuilder where
  "sample_builder = eb_set_payload [1, 2, 3] (eb_set_reply_topic [97, 98] (eb_metadata 3 7 2 11 13
     (eb_routing 1000 DIRECTION_RESPONSE EnvelopeBuilder_new)))"

theorem envelope_builder_equivalent_witness:
  "fst (eb_build_into 5 (\<lambda>mem. replicate 64 255) sample_builder
        \<lparr>bump_base = 4096, bump_cursor = 4096, bump_end = 8192\<rparr>) = eb_build 5 sample_builder"
proof -
  let ?a = "\<lparr>bump_base = 4096, bump_cursor = 4096, bump_end = 8192\<rparr>"
  have size: "eb_total_size sample_builder = 55"
    by (simp add: eb_total_size_def sample_builder_def eb_has_topic_def eb_set_payload_def eb_set_reply_topic_def
        eb_metadata_def eb_routing_def EnvelopeBuilder_new_def ENVELOPE_HEADER_SIZE_def RoutingHeader_SIZE_def MetadataPrefix_SIZE_def)
  have alloc: "fst (bump_allocate 55 1 ?a) \<noteq> None" by code_simp
  obtain out a' where "eb_build_into 5 (\<lambda>mem. replicate 64 255) sample_builder ?a = (out, a')"
    by (cases "eb_build_into 5 (\<lambda>mem. replicate 64 255) sample_builder ?a")
  with envelope_builder_equivalent[OF _ this] show ?thesis using size alloc by simp
qed

text \<open>
  C27: A message put into an envelope by the builder and received by a service's dispatch bridge
  reaches the handler registered for its identifier with the same metadata and exactly the
  payload, and the reply topic the service reads back is the one set, or none if it was empty or
  longer than a 16-bit length can say.
\<close>

theorem envelope_reaches_handler:
  assumes "handlers (eb_msg_id b) = Some h" and "raw = eb_build now_ms b"
  shows "bridge_dispatch (Some handlers) raw e =
      h \<lparr>km_meta_version = MetadataPrefix_VERSION, km_core_id = eb_core_id b, km_corr_id = eb_corr_id b,
         km_source_id = eb_source_id b, km_session_id = eb_session_id b, km_user_id = eb_user_id b,
         km_timestamp = now_ms\<rparr> (eb_msg_id b) (eb_payload b) e \<and>
    (\<exists>r. RoutingHeader_parse raw = Inr r \<and>
       extract_reply_topic (rh_flags r) raw =
         (if eb_reply_topic b \<noteq> [] \<and> length (eb_reply_topic b) \<le> 65535 then eb_reply_topic b else []))"
proof -
  let ?t = "eb_reply_topic b" and ?p = "eb_payload b" and ?m = "builder_metadata now_ms b"
  let ?r = "(builder_routing b)\<lparr>rh_flags := topic_flags (eb_reply_topic b) (eb_flags b)\<rparr>"
  have "raw = build_full_envelope (builder_routing b) ?m ?t ?p"
    unfolding assms(2) eb_build_def by (rule eb_serialize_into_layout) simp
  then have raw: "raw = RoutingHeader_serialize ?r @ MetadataPrefix_serialize ?m @ topic_section ?t @ ?p"
    by (simp add: build_full_envelope_layout builder_routing_def)
  have rp: "RoutingHeader_parse raw = Inr ?r"
    unfolding raw by (rule routing.par_ser) (simp add: builder_routing_def)
  have mp: "MetadataPrefix_parse (drop 8 raw) = Inr ?m"
    unfolding raw using metadata.par_ser[of ?m "topic_section ?t @ ?p"] by (simp add: builder_metadata_def)
  have len: "length (RoutingHeader_serialize ?r @ MetadataPrefix_serialize ?m) = 48" by simp
  have raw': "raw = (RoutingHeader_serialize ?r @ MetadataPrefix_serialize ?m) @ topic_section ?t @ ?p" using raw by simp
  have fl: "rh_flags ?r = topic_flags ?t (eb_flags b)" by simp
  have off: "envelope_payload_offset (rh_flags ?r) raw = 48 + length (topic_section ?t)"
    unfolding raw' fl by (rule envelope_payload_offset_layout(1)[OF len])
  have topic: "extract_reply_topic (rh_flags ?r) raw = (if topic_ok ?t then ?t else [])"
    unfolding raw' fl by (rule envelope_payload_offset_layout(2)[OF len])
  have "length raw = 48 + length (topic_section ?t) + length ?p" "drop (48 + length (topic_section ?t)) raw = ?p"
    unfolding raw' by simp_all
  then have "bridge_dispatch (Some handlers) raw e =
      h \<lparr>km_meta_version = MetadataPrefix_VERSION, km_core_id = eb_core_id b, km_corr_id = eb_corr_id b,
         km_source_id = eb_source_id b, km_session_id = eb_session_id b, km_user_id = eb_user_id b,
         km_timestamp = now_ms\<rparr> (eb_msg_id b) ?p e"
    using assms(1) off unfolding bridge_dispatch_def ENVELOPE_HEADER_SIZE_def RoutingHeader_SIZE_def MetadataPrefix_SIZE_def rp mp
    by (simp add: builder_metadata_def builder_routing_def Let_def)
  moreover have "topic_ok ?t \<longleftrightarrow> ?t \<noteq> [] \<and> length ?t \<le> 65535" by (simp add: topic_ok_def)
  ultimately show ?thesis using rp topic by auto
qed

theorem envelope_reaches_handler_witness:
  "snd (bridge_dispatch (Some [1000 \<mapsto> (\<lambda>meta msg_id payload log. (Inr (), log @ [(km_session_id meta, payload)]))])
      (eb_build 5 sample_builder) []) = [(11, [1, 2, 3])]"
proof -
  have b: "eb_msg_id sample_builder = 1000" "eb_session_id sample_builder = 11" "eb_payload sample_builder = [1, 2, 3]"
    by (simp_all add: sample_builder_def eb_set_payload_def eb_set_reply_topic_def eb_metadata_def eb_routing_def EnvelopeBuilder_new_def)
  let ?h = "\<lambda>(meta :: KafkaMessageMeta) (msg_id :: u32) payload log. (Inr () :: unit result, log @ [(km_session_id meta, payload :: bytes)])"
  show ?thesis
    using envelope_reaches_handler[of "[1000 \<mapsto> ?h]" sample_builder ?h "eb_build 5 sample_builder" 5 "[]"] by (simp add: b)
qed

end
