(* ===== verification/Message_Router.thy ===== *)
theory Message_Router
  imports Decimal Route_Table Kafka_Envelope
begin

unbundle bit_operations_syntax

text \<open>
  \<open>apex_services/gateway/src/message_router.cpp\<close>: a client message becomes a Kafka message on
  the topic of its route. \<open>produce\<close> is \<open>KafkaAdapter::produce\<close> (topic, key, value), and the
  clock is a parameter.
\<close>

record MessageRouter =
  mr_route_table :: RouteTable
  mr_core_id :: u16
  mr_corr_counter :: u64
  mr_response_topic :: bytes

type_synonym 'e producer = "string \<Rightarrow> string \<Rightarrow> bytes \<Rightarrow> 'e \<Rightarrow> unit result \<times> 'e"

definition MessageRouter_new :: "RouteTable \<Rightarrow> u16 \<Rightarrow> bytes \<Rightarrow> MessageRouter" where
  "MessageRouter_new table core_id response_topic =
     \<lparr>mr_route_table = table, mr_core_id = core_id, mr_corr_counter = 0, mr_response_topic = response_topic\<rparr>"

definition source_GATEWAY :: u16 where "source_GATEWAY = 0"

definition build_envelope :: "u64 \<Rightarrow> WireHeader \<Rightarrow> bytes \<Rightarrow> u64 \<Rightarrow> u64 \<Rightarrow> u64 \<Rightarrow> u16 \<Rightarrow> MessageRouter \<Rightarrow> bytes" where
  "build_envelope now_ms header payload session_id user_id corr_id core_id r =
     (let rh = \<lparr>rh_header_version = RoutingHeader_VERSION, rh_flags = 0, rh_msg_id = wh_msg_id header\<rparr>;
          meta = \<lparr>mp_meta_version = MetadataPrefix_VERSION, mp_core_id = core_id, mp_corr_id = corr_id,
                  mp_source_id = source_GATEWAY, mp_session_id = session_id, mp_user_id = user_id,
                  mp_timestamp = now_ms\<rparr>
      in build_full_envelope rh meta (mr_response_topic r) payload)"

definition route ::
  "'e producer \<Rightarrow> u64 \<Rightarrow> u64 \<Rightarrow> WireHeader \<Rightarrow> bytes \<Rightarrow> u64 \<Rightarrow> u64 \<Rightarrow> MessageRouter \<Rightarrow> 'e \<Rightarrow> unit result \<times> 'e" where
  "route produce now_ms session_id header payload user_id corr_id r e =
     (case resolve (wh_msg_id header) (mr_route_table r) of
        None \<Rightarrow> (Inl ServiceError, e)
      | Some topic \<Rightarrow>
          let envelope = build_envelope now_ms header payload session_id user_id corr_id (mr_core_id r) r;
              session_key = nat_str (unat session_id)
          in produce topic session_key envelope e)"

definition update_table :: "RouteTable \<Rightarrow> MessageRouter \<Rightarrow> MessageRouter" where
  "update_table t r = r\<lparr>mr_route_table := t\<rparr>"

definition current_table :: "MessageRouter \<Rightarrow> RouteTable" where
  "current_table r = mr_route_table r"

definition kCounterMask :: u64 where
  "kCounterMask = push_bit 48 1 - 1"

definition generate_corr_id :: "MessageRouter \<Rightarrow> u64 \<times> MessageRouter" where
  "generate_corr_id r =
     (let counter = mr_corr_counter r + 1
      in (push_bit 48 (ucast (mr_core_id r)) OR (counter AND kCounterMask), r\<lparr>mr_corr_counter := counter\<rparr>))"

section \<open>Correlation identifiers\<close>

definition corr_of :: "u16 \<Rightarrow> u64 \<Rightarrow> u64" where
  "corr_of core n = push_bit 48 (ucast core) OR (n AND kCounterMask)"

lemma kCounterMask_mask: "kCounterMask = mask 48"
  by (simp add: kCounterMask_def mask_eq_exp_minus_1 push_bit_eq_mult)

lemma generate_corr_id_conv:
  "generate_corr_id r = (corr_of (mr_core_id r) (mr_corr_counter r + 1), r\<lparr>mr_corr_counter := mr_corr_counter r + 1\<rparr>)"
  by (simp add: generate_corr_id_def corr_of_def Let_def)

lemma take_bit_corr: "take_bit 48 (corr_of core n) = take_bit 48 n"
  by (rule bit_eqI) (auto simp: corr_of_def kCounterMask_mask bit_simps)

lemma drop_bit_corr: "drop_bit 48 (corr_of core n) = ucast core"
  by (rule bit_eqI) (auto simp: corr_of_def kCounterMask_mask bit_simps dest: bit_imp_le_length)

lemma unat_take_bit_48: "unat (take_bit 48 (n :: u64)) = unat n mod 2 ^ 48"
  unfolding unsigned_take_bit_eq by (rule take_bit_eq_mod)

lemma ucast_64_inj: "(ucast (a :: u16) :: u64) = ucast b \<longleftrightarrow> a = b"
proof -
  have "unat (ucast (c :: u16) :: u64) = unat c" for c
    using unat_lt2p[of c] by (simp add: unsigned_ucast_eq take_bit_nat_eq_self)
  then show ?thesis by (metis word_unat_eq_iff)
qed

text \<open>The core is in the upper 16 bits and the counter below: two identifiers are equal only for
  the same core and counters that differ by a multiple of \<open>2 ^ 48\<close>.\<close>

lemma corr_of_eq:
  "corr_of core n = corr_of core' n' \<longleftrightarrow> core = core' \<and> unat n mod 2 ^ 48 = unat n' mod 2 ^ 48"
proof
  assume eq: "corr_of core n = corr_of core' n'"
  have "(ucast core :: u64) = ucast core'" using arg_cong[OF eq, of "drop_bit 48"] by (simp add: drop_bit_corr)
  then have "core = core'" by (simp add: ucast_64_inj)
  moreover have "take_bit 48 n = take_bit 48 n'" using arg_cong[OF eq, of "take_bit 48"] by (simp add: take_bit_corr)
  then have "unat n mod 2 ^ 48 = unat n' mod 2 ^ 48" by (metis unat_take_bit_48)
  ultimately show "core = core' \<and> unat n mod 2 ^ 48 = unat n' mod 2 ^ 48" ..
next
  assume "core = core' \<and> unat n mod 2 ^ 48 = unat n' mod 2 ^ 48"
  then have "core = core'" "take_bit 48 n = take_bit 48 n'"
    by (metis word_unat_eq_iff unat_take_bit_48)+
  then show "corr_of core n = corr_of core' n'"
    by (simp add: corr_of_def kCounterMask_mask flip: take_bit_eq_mask)
qed

lemma corr_of_nonzero: "unat n mod 2 ^ 48 \<noteq> 0 \<Longrightarrow> corr_of core n \<noteq> 0"
proof
  assume "unat n mod 2 ^ 48 \<noteq> 0" "corr_of core n = 0"
  then have "take_bit 48 n = 0" using take_bit_corr[of core n] by simp
  then show False using \<open>unat n mod 2 ^ 48 \<noteq> 0\<close> by (metis unat_0 unat_take_bit_48)
qed

text \<open>What a service finds in the envelope of a routed message.\<close>

lemma build_envelope_layout:
  "build_envelope now_ms header payload sid uid corr core r =
     RoutingHeader_serialize \<lparr>rh_header_version = RoutingHeader_VERSION, rh_flags = topic_flags (mr_response_topic r) 0,
       rh_msg_id = wh_msg_id header\<rparr> @
     MetadataPrefix_serialize \<lparr>mp_meta_version = MetadataPrefix_VERSION, mp_core_id = core, mp_corr_id = corr,
       mp_source_id = source_GATEWAY, mp_session_id = sid, mp_user_id = uid, mp_timestamp = now_ms\<rparr> @
     topic_section (mr_response_topic r) @ payload"
  by (simp add: build_envelope_def build_full_envelope_layout)

end
