(* ===== verification/Message_Dispatcher.thy ===== *)
theory Message_Dispatcher
  imports Prelude "HOL-Library.AList"
begin

text \<open>
  \<open>apex_core/src/message_dispatcher.cpp\<close>: the table from message identifiers to handlers. A
  handler is a coroutine; it acts on the state \<open>'c\<close> of the connection and what is around it,
  and returns a result or throws. The table is an association list: the order of the hash map
  is never observed.
\<close>

datatype handler_outcome = Returned "unit result" | Threw

type_synonym 'c msg_handler = "u32 \<Rightarrow> bytes \<Rightarrow> 'c \<Rightarrow> handler_outcome \<times> 'c"

record 'c MessageDispatcher =
  md_handlers :: "(u32 \<times> 'c msg_handler) list"
  md_default_handler :: "'c msg_handler option"
  md_metric_dispatched :: u64
  md_metric_exceptions :: u64

definition MessageDispatcher_new :: "'c MessageDispatcher" where
  "MessageDispatcher_new = \<lparr>md_handlers = [], md_default_handler = None, md_metric_dispatched = 0, md_metric_exceptions = 0\<rparr>"

definition register_handler :: "u32 \<Rightarrow> 'c msg_handler \<Rightarrow> 'c MessageDispatcher \<Rightarrow> 'c MessageDispatcher" where
  "register_handler msg_id handler d = d\<lparr>md_handlers := AList.update msg_id handler (md_handlers d)\<rparr>"

definition unregister_handler :: "u32 \<Rightarrow> 'c MessageDispatcher \<Rightarrow> 'c MessageDispatcher" where
  "unregister_handler msg_id d = d\<lparr>md_handlers := AList.delete msg_id (md_handlers d)\<rparr>"

definition set_default_handler :: "'c msg_handler \<Rightarrow> 'c MessageDispatcher \<Rightarrow> 'c MessageDispatcher" where
  "set_default_handler handler d = d\<lparr>md_default_handler := Some handler\<rparr>"

definition clear_default_handler :: "'c MessageDispatcher \<Rightarrow> 'c MessageDispatcher" where
  "clear_default_handler d = d\<lparr>md_default_handler := None\<rparr>"

definition has_handler :: "u32 \<Rightarrow> 'c MessageDispatcher \<Rightarrow> bool" where
  "has_handler msg_id d \<longleftrightarrow> map_of (md_handlers d) msg_id \<noteq> None"

definition has_default_handler :: "'c MessageDispatcher \<Rightarrow> bool" where
  "has_default_handler d \<longleftrightarrow> md_default_handler d \<noteq> None"

definition handler_count :: "'c MessageDispatcher \<Rightarrow> nat" where
  "handler_count d = length (md_handlers d)"

text \<open>Calling a handler with the counters and the \<open>catch\<close> clauses around it.\<close>

definition guarded_call ::
  "'c msg_handler \<Rightarrow> u32 \<Rightarrow> bytes \<Rightarrow> 'c MessageDispatcher \<Rightarrow> 'c \<Rightarrow> unit result \<times> 'c MessageDispatcher \<times> 'c" where
  "guarded_call h msg_id payload d c =
     (let d = d\<lparr>md_metric_dispatched := md_metric_dispatched d + 1\<rparr> in
      case h msg_id payload c of
        (Returned r, c) \<Rightarrow> (r, d, c)
      | (Threw, c) \<Rightarrow> (Inl HandlerException, d\<lparr>md_metric_exceptions := md_metric_exceptions d + 1\<rparr>, c))"

definition dispatch ::
  "u32 \<Rightarrow> bytes \<Rightarrow> 'c MessageDispatcher \<Rightarrow> 'c \<Rightarrow> unit result \<times> 'c MessageDispatcher \<times> 'c" where
  "dispatch msg_id payload d c =
     (case map_of (md_handlers d) msg_id of
        None \<Rightarrow>
          (case md_default_handler d of
             Some h \<Rightarrow> guarded_call h msg_id payload d c
           | None \<Rightarrow> (Inl HandlerNotFound, d, c))
      | Some h \<Rightarrow> guarded_call h msg_id payload d c)"

section \<open>The table\<close>

definition md_inv :: "'c MessageDispatcher \<Rightarrow> bool" where
  "md_inv d \<longleftrightarrow> distinct (map fst (md_handlers d))"

lemma md_inv_ops [simp]:
  "md_inv MessageDispatcher_new"
  "md_inv d \<Longrightarrow> md_inv (register_handler m h d)"
  "md_inv d \<Longrightarrow> md_inv (unregister_handler m d)"
  "md_inv d \<Longrightarrow> md_inv (set_default_handler h d)"
  "md_inv d \<Longrightarrow> md_inv (clear_default_handler d)"
  by (simp_all add: md_inv_def MessageDispatcher_new_def register_handler_def unregister_handler_def
      set_default_handler_def clear_default_handler_def distinct_update distinct_delete)

text \<open>The handler a message goes to: the one registered for it, otherwise the default one.\<close>

definition handler_for :: "u32 \<Rightarrow> 'c MessageDispatcher \<Rightarrow> 'c msg_handler option" where
  "handler_for msg_id d =
     (case map_of (md_handlers d) msg_id of Some h \<Rightarrow> Some h | None \<Rightarrow> md_default_handler d)"

lemma handler_for_ops:
  "handler_for m (register_handler m' h d) = (if m = m' then Some h else handler_for m d)"
  "handler_for m (unregister_handler m' d) = (if m = m' then md_default_handler d else handler_for m d)"
  "handler_for m (set_default_handler h d) = (if has_handler m d then handler_for m d else Some h)"
  "handler_for m (clear_default_handler d) = (if has_handler m d then handler_for m d else None)"
  by (auto simp: handler_for_def register_handler_def unregister_handler_def set_default_handler_def
      clear_default_handler_def has_handler_def update_conv delete_conv split: option.splits)

lemma dispatch_conv:
  "dispatch msg_id payload d c =
     (case handler_for msg_id d of Some h \<Rightarrow> guarded_call h msg_id payload d c
      | None \<Rightarrow> (Inl HandlerNotFound, d, c))"
  by (simp add: dispatch_def handler_for_def split: option.split)

lemma guarded_call_fields:
  assumes "guarded_call h msg_id payload d c = (r, d', c')"
  shows "md_handlers d' = md_handlers d" "md_default_handler d' = md_default_handler d"
    "c' = snd (h msg_id payload c)"
    "r = (case fst (h msg_id payload c) of Returned r \<Rightarrow> r | Threw \<Rightarrow> Inl HandlerException)"
    "md_metric_dispatched d' = md_metric_dispatched d + 1"
  using assms by (auto simp: guarded_call_def Let_def split: prod.splits handler_outcome.splits)

lemma dispatch_fields:
  assumes "dispatch msg_id payload d c = (r, d', c')"
  shows "md_handlers d' = md_handlers d" "md_default_handler d' = md_default_handler d"
  using assms guarded_call_fields(1,2) by (auto simp: dispatch_conv split: option.splits)

end
