(* ===== verification/Connection_Handler.thy ===== *)
theory Connection_Handler
  imports Message_Dispatcher Protocol Session
begin

text \<open>
  \<open>apex_core/include/apex/core/connection_handler.hpp\<close>: the coroutine that reads a connection,
  cuts the bytes into frames and dispatches them. It is generic in the protocol, as the class
  template is; \<open>extract\<close> is the part of \<open>process_frames\<close> that takes the message identifier and
  the payload out of a frame. \<open>create_error_response\<close> stands for the generated FlatBuffers
  code. The session manager and the callback of the listener are parameters, operations on the
  connection and what is around it.
\<close>

section \<open>Error frames (error\_sender.cpp)\<close>

definition build_error_frame ::
  "(u16 \<Rightarrow> string \<Rightarrow> u16 \<Rightarrow> bytes) \<Rightarrow> u32 \<Rightarrow> ErrorCode \<Rightarrow> string \<Rightarrow> u16 \<Rightarrow> bytes" where
  "build_error_frame create_error_response original_msg_id code message service_error_code =
     (let payload = create_error_response (error_code_value code) message service_error_code;
          header = \<lparr>wh_version = CURRENT_VERSION, wh_flags = flag_ERROR_RESPONSE, wh_msg_id = original_msg_id,
                    wh_body_size = of_nat (length payload), wh_reserved = 0\<rparr>;
          frame = replicate (unat (frame_size header)) 0;
          frame = memcpy frame 0 (WireHeader_serialize header)
      in memcpy frame WireHeader_SIZE payload)"

section \<open>A connection\<close>

text \<open>
  The session with its write pump, what is around it (\<open>cn_env\<close>), the counter of active read
  loops, and a record of what happened: the bytes read and the messages dispatched.
\<close>

record 'e conn =
  cn_rt :: session_rt
  cn_env :: 'e
  cn_active :: u32
  cn_received :: bytes
  cn_dispatched :: "(u32 \<times> bytes) list"

definition cn_session :: "'e conn \<Rightarrow> Session" where
  "cn_session c = rt_session (cn_rt c)"

definition cn_buf :: "'e conn \<Rightarrow> RingBuffer" where
  "cn_buf c = s_recv_buf (cn_session c)"

definition set_buf :: "RingBuffer \<Rightarrow> 'e conn \<Rightarrow> 'e conn" where
  "set_buf b c = c\<lparr>cn_rt := (cn_rt c)\<lparr>rt_session := (cn_session c)\<lparr>s_recv_buf := b\<rparr>\<rparr>\<rparr>"

definition cn_close :: "'e conn \<Rightarrow> 'e conn" where
  "cn_close c = c\<lparr>cn_rt := rt_close (cn_rt c)\<rparr>"

definition cn_open :: "'e conn \<Rightarrow> bool" where
  "cn_open c \<longleftrightarrow> is_open (cn_session c)"

text \<open>The message identifier and payload of a frame: from the TCP header, or the first four
  bytes of a WebSocket frame, which must be there.\<close>

definition tcp_extract :: "Frame \<Rightarrow> (u32 \<times> bytes) option" where
  "tcp_extract f = Some (wh_msg_id (frame_header f), frame_payload f)"

definition ws_extract :: "WsFrame \<Rightarrow> (u32 \<times> bytes) option" where
  "ws_extract f =
     (let raw = ws_payload_data f in
      if length raw < 4 then None
      else Some (ntoh32 (le_load (take 4 raw)), drop 4 raw))"

text \<open>What follows the decoding of one frame: dispatch, consume, answer an error.\<close>

definition serve_frame ::
  "(u16 \<Rightarrow> string \<Rightarrow> u16 \<Rightarrow> bytes) \<Rightarrow> (bytes option \<Rightarrow> u64 \<Rightarrow> bytes option) \<Rightarrow> (rb_state \<Rightarrow> 'f \<Rightarrow> rb_state) \<Rightarrow>
   'f \<Rightarrow> u32 \<Rightarrow> bytes \<Rightarrow> 'e conn MessageDispatcher \<Rightarrow> 'e conn \<Rightarrow> 'e conn MessageDispatcher \<times> 'e conn" where
  "serve_frame cer realloc consume_frame frame msg_id payload d c =
     (let (result, d, c) = dispatch msg_id payload d (c\<lparr>cn_dispatched := cn_dispatched c @ [(msg_id, payload)]\<rparr>);
          c = set_buf (snd (consume_frame (realloc, cn_buf c) frame)) c
      in case result of
           Inr u \<Rightarrow> (d, c)
         | Inl err \<Rightarrow>
             (d, if err \<noteq> ServiceError
                 then c\<lparr>cn_rt := snd (enqueue_write (build_error_frame cer msg_id err '''' 0) (cn_rt c))\<rparr>
                 else c))"

text \<open>
  The loop of \<open>process_frames\<close>. \<open>None\<close> is a loop that does not end; \<open>Null_copy\<close> is the copy
  from a null pointer when a decoder runs out of memory.
\<close>

datatype frames_end = Done | Null_copy

partial_function (option) process_frames ::
  "(u16 \<Rightarrow> string \<Rightarrow> u16 \<Rightarrow> bytes) \<Rightarrow> (bytes option \<Rightarrow> u64 \<Rightarrow> bytes option) \<Rightarrow>
   (rb_state \<Rightarrow> 'f result option \<times> rb_state) \<Rightarrow> (rb_state \<Rightarrow> 'f \<Rightarrow> rb_state) \<Rightarrow> ('f \<Rightarrow> (u32 \<times> bytes) option) \<Rightarrow>
   'e conn MessageDispatcher \<Rightarrow> 'e conn \<Rightarrow> (frames_end \<times> 'e conn MessageDispatcher \<times> 'e conn) option" where
  "process_frames cer realloc try_decode consume_frame extract d c =
     (let (res, s) = try_decode (realloc, cn_buf c);
          c = set_buf (snd s) c
      in case res of
           None \<Rightarrow> Some (Null_copy, d, c)
         | Some (Inl err) \<Rightarrow> Some (Done, d, if err = InsufficientData then c else cn_close c)
         | Some (Inr frame) \<Rightarrow>
             (case extract frame of
                None \<Rightarrow> Some (Done, d, cn_close c)
              | Some (msg_id, payload) \<Rightarrow>
                  let (d, c) = serve_frame cer realloc consume_frame frame msg_id payload d c
                  in if \<not> cn_open c then Some (Done, d, c)
                     else process_frames cer realloc try_decode consume_frame extract d c))"

text \<open>
  \<open>read_loop\<close>. The session manager and the listener's callback as operations; an event is a
  completed read: what other coroutines of the core did meanwhile, whether the socket reports an
  error, and the bytes available, of which a read takes at most the size of the span it was given.
  With no event left the loop is suspended in the next read.
\<close>

record 'e conn_ops =
  co_touch_session :: "u64 \<Rightarrow> 'e conn \<Rightarrow> 'e conn"
  co_remove_session :: "u64 \<Rightarrow> 'e conn \<Rightarrow> 'e conn"
  co_connection_closed_cb :: "(string \<Rightarrow> 'e conn \<Rightarrow> 'e conn) option"

datatype loop_end = Waiting | Ended | Crashed

definition call_closed_cb :: "'e conn_ops \<Rightarrow> 'e conn \<Rightarrow> 'e conn" where
  "call_closed_cb ops c =
     (case co_connection_closed_cb ops of
        Some cb \<Rightarrow> if s_remote_ip (cn_session c) \<noteq> '''' then cb (s_remote_ip (cn_session c)) c else c
      | None \<Rightarrow> c)"

definition finish_loop :: "'e conn_ops \<Rightarrow> 'e conn \<Rightarrow> 'e conn" where
  "finish_loop ops c =
     (let c = call_closed_cb ops c;
          c = co_remove_session ops (s_id (cn_session c)) c
      in c\<lparr>cn_active := cn_active c - 1\<rparr>)"

text \<open>The head of the loop: the reason to leave it, or the span for the next read.\<close>

definition loop_head :: "'e conn_ops \<Rightarrow> 'e conn \<Rightarrow> 'e conn + (u64 \<times> u64)" where
  "loop_head ops c =
     (if \<not> cn_open c then Inl (finish_loop ops c)
      else if snd (writable (cn_buf c)) = 0 then Inl (finish_loop ops (cn_close c))
      else Inr (writable (cn_buf c)))"

definition read_into :: "u64 \<times> u64 \<Rightarrow> bytes \<Rightarrow> 'e conn \<Rightarrow> 'e conn" where
  "read_into span data c =
     (let b = cn_buf c;
          b = b\<lparr>rb_buffer := memcpy (rb_buffer b) (unat (fst span)) data\<rparr>
      in (set_buf (commit_write b (of_nat (length data))) c)\<lparr>cn_received := cn_received c @ data\<rparr>)"

fun read_loop ::
  "('e conn MessageDispatcher \<Rightarrow> 'e conn \<Rightarrow> (frames_end \<times> 'e conn MessageDispatcher \<times> 'e conn) option) \<Rightarrow>
   'e conn_ops \<Rightarrow> (('e conn \<Rightarrow> 'e conn) \<times> bool \<times> bytes) list \<Rightarrow> 'e conn MessageDispatcher \<Rightarrow> 'e conn \<Rightarrow>
   (loop_end \<times> 'e conn MessageDispatcher \<times> 'e conn) option" where
  "read_loop frames ops [] d c =
     (case loop_head ops c of Inl c \<Rightarrow> Some (Ended, d, c) | Inr span \<Rightarrow> Some (Waiting, d, c))"
| "read_loop frames ops ((others, ec, avail) # evs) d c =
     (case loop_head ops c of
        Inl c \<Rightarrow> Some (Ended, d, c)
      | Inr span \<Rightarrow>
          let c = others c; data = take (unat (snd span)) avail in
          if ec \<or> data = [] then Some (Ended, d, finish_loop ops c)
          else case frames d (read_into span data c) of
                 None \<Rightarrow> None
               | Some (Null_copy, d, c) \<Rightarrow> Some (Crashed, d, c)
               | Some (Done, d, c) \<Rightarrow>
                   if \<not> cn_open c then Some (Ended, d, finish_loop ops c)
                   else read_loop frames ops evs d (co_touch_session ops (s_id (cn_session c)) c))"

definition start_read_loop ::
  "('e conn MessageDispatcher \<Rightarrow> 'e conn \<Rightarrow> (frames_end \<times> 'e conn MessageDispatcher \<times> 'e conn) option) \<Rightarrow>
   'e conn_ops \<Rightarrow> ('e conn \<Rightarrow> 'e conn) \<times> bool \<Rightarrow> (('e conn \<Rightarrow> 'e conn) \<times> bool \<times> bytes) list \<Rightarrow>
   'e conn MessageDispatcher \<Rightarrow> 'e conn \<Rightarrow> (loop_end \<times> 'e conn MessageDispatcher \<times> 'e conn) option" where
  "start_read_loop frames ops handshake evs d c =
     (let c = c\<lparr>cn_active := cn_active c + 1\<rparr>;
          c = fst handshake c
      in if \<not> snd handshake then Some (Ended, d, finish_loop ops (cn_close c))
         else read_loop frames ops evs d c)"

text \<open>
  \<open>accept_connection\<close>: the session made by the session manager (\<open>create_session\<close>), with the
  address of the client; its read loop is the coroutine above.
\<close>

definition accept_connection :: "('e \<Rightarrow> Session \<times> 'e) \<Rightarrow> string \<Rightarrow> u32 \<Rightarrow> 'e \<Rightarrow> 'e conn" where
  "accept_connection create_session remote_ip active e =
     (let (s, e) = create_session e;
          s = (if remote_ip \<noteq> '''' then s\<lparr>s_remote_ip := remote_ip\<rparr> else s)
      in \<lparr>cn_rt = session_rt_new s, cn_env = e, cn_active = active, cn_received = [], cn_dispatched = []\<rparr>)"

section \<open>What others may do to a connection\<close>

text \<open>
  Handlers, the session manager and other coroutines leave the receive buffer alone: only the
  read loop moves its positions. They may send, close the session and change everything else.
\<close>

definition undisturbed :: "'e conn \<Rightarrow> 'e conn \<Rightarrow> bool" where
  "undisturbed c c' \<longleftrightarrow>
     cn_received c' = cn_received c \<and> cn_dispatched c' = cn_dispatched c \<and>
     rb_buffer (cn_buf c') = rb_buffer (cn_buf c) \<and> rb_capacity (cn_buf c') = rb_capacity (cn_buf c) \<and>
     rb_mask (cn_buf c') = rb_mask (cn_buf c) \<and> rb_read_pos (cn_buf c') = rb_read_pos (cn_buf c) \<and>
     rb_write_pos (cn_buf c') = rb_write_pos (cn_buf c) \<and> (rb_inv (cn_buf c) \<longrightarrow> rb_inv (cn_buf c'))"

definition keeps :: "('e conn \<Rightarrow> 'e conn) \<Rightarrow> bool" where
  "keeps f \<longleftrightarrow> (\<forall>c. undisturbed c (f c))"

definition handlers_ok :: "'e conn MessageDispatcher \<Rightarrow> bool" where
  "handlers_ok d \<longleftrightarrow> (\<forall>msg_id h payload. handler_for msg_id d = Some h \<longrightarrow> keeps (\<lambda>c. snd (h msg_id payload c)))"

definition ops_ok :: "'e conn_ops \<Rightarrow> bool" where
  "ops_ok ops \<longleftrightarrow> (\<forall>i. keeps (co_touch_session ops i) \<and> keeps (co_remove_session ops i)) \<and>
     (\<forall>cb ip. co_connection_closed_cb ops = Some cb \<longrightarrow> keeps (cb ip))"

lemma undisturbed_refl [simp]: "undisturbed c c"
  by (simp add: undisturbed_def)

lemma undisturbed_trans: "undisturbed a b \<Longrightarrow> undisturbed b c \<Longrightarrow> undisturbed a c"
  by (simp add: undisturbed_def)

lemma undisturbedD:
  assumes "undisturbed c c'"
  shows "cn_received c' = cn_received c" "cn_dispatched c' = cn_dispatched c"
    "rb_contents (cn_buf c') = rb_contents (cn_buf c)" "rb_inv (cn_buf c) \<Longrightarrow> rb_inv (cn_buf c')"
    "writable (cn_buf c') = writable (cn_buf c)"
  using assms by (auto simp: undisturbed_def writable_def writable_size_def readable_size_def Let_def
      intro: rb_contents_cong)

lemma set_buf_fields [simp]:
  "cn_buf (set_buf b c) = b" "cn_received (set_buf b c) = cn_received c"
  "cn_dispatched (set_buf b c) = cn_dispatched c" "cn_open (set_buf b c) = cn_open c"
  by (simp_all add: set_buf_def cn_buf_def cn_session_def cn_open_def is_open_def)

lemma cn_close_fields [simp]:
  "cn_buf (cn_close c) = cn_buf c" "cn_received (cn_close c) = cn_received c"
  "cn_dispatched (cn_close c) = cn_dispatched c" "\<not> cn_open (cn_close c)"
  by (simp_all add: cn_close_def rt_close_def session_close_def cn_buf_def cn_session_def cn_open_def is_open_def)

lemma cn_close_undisturbed [simp]: "undisturbed c (cn_close c)"
  by (simp add: undisturbed_def)

lemma enqueue_write_buf [simp]:
  "s_recv_buf (rt_session (snd (enqueue_write data rt))) = s_recv_buf (rt_session rt)"
  by (simp add: enqueue_write_def push_request_def Let_def)

lemma finish_loop_undisturbed:
  assumes "ops_ok ops"
  shows "undisturbed c (finish_loop ops c)"
proof -
  define c1 where "c1 = call_closed_cb ops c"
  define c2 where "c2 = co_remove_session ops (s_id (cn_session c1)) c1"
  have "undisturbed c c1"
    using assms by (auto simp: c1_def call_closed_cb_def ops_ok_def keeps_def split: option.splits)
  moreover have "undisturbed c1 c2" using assms by (simp add: c2_def ops_ok_def keeps_def)
  moreover have "undisturbed c2 (c2\<lparr>cn_active := cn_active c2 - 1\<rparr>)"
    by (simp add: undisturbed_def cn_buf_def cn_session_def)
  ultimately show ?thesis unfolding finish_loop_def Let_def c1_def[symmetric] c2_def[symmetric]
    by (blast intro: undisturbed_trans)
qed

lemma dispatch_undisturbed:
  assumes "handlers_ok d" and "dispatch msg_id payload d c = (r, d', c')"
  shows "undisturbed c c'" and "handlers_ok d'"
proof -
  have "handler_for m d' = handler_for m d" for m
    by (simp add: handler_for_def dispatch_fields[OF assms(2)] split: option.split)
  then show "handlers_ok d'" using assms(1) by (simp add: handlers_ok_def)
  show "undisturbed c c'"
  proof (cases "handler_for msg_id d")
    case (Some h)
    then have "c' = snd (h msg_id payload c)" using assms(2) guarded_call_fields(3) by (simp add: dispatch_conv)
    then show ?thesis using assms(1) Some by (simp add: handlers_ok_def keeps_def)
  qed (use assms(2) in \<open>simp add: dispatch_conv\<close>)
qed

section \<open>Frames\<close>

context protocol
begin

lemma serve_frame_ok:
  assumes ok: "handlers_ok d" and inv: "rb_state_inv (realloc, cn_buf c)"
    and f: "dec (rb_contents (cn_buf c)) = Inr f"
    and run: "serve_frame cer realloc consume_frame f msg_id payload d c = (d', c')"
  shows "handlers_ok d'" "rb_state_inv (realloc, cn_buf c')" "cn_received c' = cn_received c"
    "rb_contents (cn_buf c') = drop (fsize f) (rb_contents (cn_buf c))"
    "cn_dispatched c' = cn_dispatched c @ [(msg_id, payload)]"
proof -
  let ?c0 = "c\<lparr>cn_dispatched := cn_dispatched c @ [(msg_id, payload)]\<rparr>"
  obtain r d1 c1 where disp: "dispatch msg_id payload d ?c0 = (r, d1, c1)"
    by (cases "dispatch msg_id payload d ?c0") auto
  note u = dispatch_undisturbed[OF ok disp]
  have b0: "cn_buf ?c0 = cn_buf c" by (simp add: cn_buf_def cn_session_def)
  note D = undisturbedD[OF u(1)]
  have inv1: "rb_state_inv (realloc, cn_buf c1)"
    using inv D(4) by (simp add: rb_state_inv_def b0)
  have "dec (rb_contents (snd (realloc, cn_buf c1))) = Inr f" using f D(3) by (simp add: b0)
  note cons = consume_spec[OF inv1 this]
  obtain rl b where cf: "consume_frame (realloc, cn_buf c1) f = (rl, b)"
    by (cases "consume_frame (realloc, cn_buf c1) f")
  have buf: "cn_buf c' = b" "cn_received c' = cn_received c1" "cn_dispatched c' = cn_dispatched c1" "d' = d1"
    using run disp cf by (auto simp: serve_frame_def Let_def cn_buf_def cn_session_def set_buf_def split: sum.splits if_splits)
  show "handlers_ok d'" using u(2) buf by simp
  show "rb_state_inv (realloc, cn_buf c')" using cons cf buf inv by (simp add: rb_state_inv_def)
  show "rb_contents (cn_buf c') = drop (fsize f) (rb_contents (cn_buf c))" using cons cf buf D(3) b0 by simp
  show "cn_received c' = cn_received c" "cn_dispatched c' = cn_dispatched c @ [(msg_id, payload)]"
    using buf D(1,2) by simp_all
qed

text \<open>
  The loop ends; it dispatches a prefix of the frames the buffer holds, in order, and when it
  leaves the session open, all of them.
\<close>

lemma process_frames_ok:
  assumes "handlers_ok d" and "rb_state_inv (realloc, cn_buf c)"
    and "decode_stream dec fsize (rb_contents (cn_buf c)) = (fs, err, rest)"
  shows "\<exists>d' c' k. process_frames cer realloc try_decode consume_frame extract d c = Some (Done, d', c') \<and>
    handlers_ok d' \<and> rb_state_inv (realloc, cn_buf c') \<and> cn_received c' = cn_received c \<and>
    cn_dispatched c' = cn_dispatched c @ map (\<lambda>f. the (extract f)) (take k fs) \<and>
    (\<forall>f \<in> set (take k fs). extract f \<noteq> None) \<and>
    (cn_open c' \<longrightarrow> length fs \<le> k \<and> err = InsufficientData \<and> rb_contents (cn_buf c') = rest)"
  using assms
proof (induction "rb_contents (cn_buf c)" arbitrary: c d fs rule: decode_stream_induct)
  case (error e)
  obtain res rl b where td: "try_decode (realloc, cn_buf c) = (res, rl, b)"
    by (cases "try_decode (realloc, cn_buf c)") auto
  from try_decode_spec[OF error.prems(2) td] error.hyps
  have res: "res = Some (Inl e)" "rb_state_inv (rl, b)" "rb_contents b = rb_contents (cn_buf c)"
    by (simp_all add: rb_state_abs_def)
  have fs: "fs = []" "err = e" "rest = rb_contents (cn_buf c)"
    using error.prems(3) decode_stream_error[OF error.hyps] by simp_all
  let ?c' = "if e = InsufficientData then set_buf b c else cn_close (set_buf b c)"
  have "process_frames cer realloc try_decode consume_frame extract d c = Some (Done, d, ?c')"
    by (subst process_frames.simps) (simp add: td res(1))
  then show ?case using error.prems(1,2) res(2,3) fs
    by (intro exI[of _ d] exI[of _ ?c'] exI[of _ 0]) (auto simp: rb_state_inv_def)
next
  case (frame f)
  obtain res rl b where td: "try_decode (realloc, cn_buf c) = (res, rl, b)"
    by (cases "try_decode (realloc, cn_buf c)") auto
  from try_decode_spec[OF frame.prems(2) td] frame.hyps(1)
  have res: "res = Some (Inr f)" "rb_state_inv (rl, b)" "rb_contents b = rb_contents (cn_buf c)"
    by (simp_all add: rb_state_abs_def)
  have inv: "rb_state_inv (realloc, b)" using frame.prems(2) res(2) by (simp add: rb_state_inv_def)
  obtain fs' where fs: "fs = f # fs'"
    and rec: "decode_stream dec fsize (drop (fsize f) (rb_contents (cn_buf c))) = (fs', err, rest)"
    using frame.prems(3) by (auto simp: decode_stream_frame[OF frame.hyps(1)] split: prod.splits)
  let ?c1 = "set_buf b c"
  show ?case
  proof (cases "extract f")
    case None
    then have "process_frames cer realloc try_decode consume_frame extract d c = Some (Done, d, cn_close ?c1)"
      by (subst process_frames.simps) (simp add: td res(1))
    then show ?thesis using frame.prems(1) inv
      by (intro exI[of _ d] exI[of _ "cn_close ?c1"] exI[of _ 0]) simp
  next
    case (Some mp)
    obtain msg_id payload where mp: "mp = (msg_id, payload)" by (cases mp)
    obtain d2 c2 where sf: "serve_frame cer realloc consume_frame f msg_id payload d ?c1 = (d2, c2)"
      by (cases "serve_frame cer realloc consume_frame f msg_id payload d ?c1")
    have inv1: "rb_state_inv (realloc, cn_buf ?c1)" and dec1: "dec (rb_contents (cn_buf ?c1)) = Inr f"
      using inv res(3) frame.hyps(1) by simp_all
    note sv = serve_frame_ok[OF frame.prems(1) inv1 dec1 sf]
    have step: "process_frames cer realloc try_decode consume_frame extract d c =
        (if \<not> cn_open c2 then Some (Done, d2, c2) else process_frames cer realloc try_decode consume_frame extract d2 c2)"
      by (subst process_frames.simps) (simp add: td res(1) Some mp sf)
    show ?thesis
    proof (cases "cn_open c2")
      case False
      then show ?thesis using step sv Some mp fs
        by (intro exI[of _ d2] exI[of _ c2] exI[of _ 1]) simp
    next
      case True
      have c2: "rb_contents (cn_buf c2) = drop (fsize f) (rb_contents (cn_buf c))" using sv(4) res(3) by simp
      obtain d' c' k where IH: "process_frames cer realloc try_decode consume_frame extract d2 c2 = Some (Done, d', c')"
          "handlers_ok d'" "rb_state_inv (realloc, cn_buf c')" "cn_received c' = cn_received c2"
          "cn_dispatched c' = cn_dispatched c2 @ map (\<lambda>f. the (extract f)) (take k fs')"
          "\<forall>f \<in> set (take k fs'). extract f \<noteq> None"
          "cn_open c' \<longrightarrow> length fs' \<le> k \<and> err = InsufficientData \<and> rb_contents (cn_buf c') = rest"
        using frame.hyps(2)[OF c2[symmetric] sv(1,2), of fs'] rec c2 by auto
      show ?thesis
      proof (intro exI[of _ d'] exI[of _ c'] exI[of _ "Suc k"] conjI)
        show "process_frames cer realloc try_decode consume_frame extract d c = Some (Done, d', c')"
          using step IH(1) True by simp
        show "cn_dispatched c' = cn_dispatched c @ map (\<lambda>f. the (extract f)) (take (Suc k) fs)"
          using IH(5) sv(5) fs Some mp by simp
        show "\<forall>f \<in> set (take (Suc k) fs). extract f \<noteq> None" using IH(6) fs Some by simp
        show "cn_open c' \<longrightarrow> length fs \<le> Suc k \<and> err = InsufficientData \<and> rb_contents (cn_buf c') = rest"
          using IH(7) fs by simp
      qed (use IH sv(3) in simp_all)
    qed
  qed
qed

end

section \<open>The byte stream\<close>

text \<open>
  What was dispatched is a prefix of the frames of the bytes received; for a loop that waits for
  more, it is all of them and the buffer holds exactly the bytes of the incomplete frame.
\<close>

definition delivered ::
  "(bytes \<Rightarrow> 'f result) \<Rightarrow> ('f \<Rightarrow> nat) \<Rightarrow> ('f \<Rightarrow> (u32 \<times> bytes) option) \<Rightarrow> bool \<Rightarrow> 'e conn \<Rightarrow> bool" where
  "delivered dec fsize extract waiting c \<longleftrightarrow>
     (case decode_stream dec fsize (cn_received c) of (fs, err, rest) \<Rightarrow>
        \<exists>k. cn_dispatched c = map (\<lambda>f. the (extract f)) (take k fs) \<and> (\<forall>f \<in> set (take k fs). extract f \<noteq> None) \<and>
            (waiting \<longrightarrow> length fs \<le> k \<and> err = InsufficientData \<and> rest = rb_contents (cn_buf c)))"

lemma deliveredI:
  assumes "decode_stream dec fsize (cn_received c) = (fs, err, rest)"
    and "cn_dispatched c = map (\<lambda>f. the (extract f)) (take k fs)" and "\<forall>f \<in> set (take k fs). extract f \<noteq> None"
    and "waiting \<Longrightarrow> length fs \<le> k \<and> err = InsufficientData \<and> rest = rb_contents (cn_buf c)"
  shows "delivered dec fsize extract waiting c"
  unfolding delivered_def assms(1) using assms(2-4) by auto

lemma delivered_undisturbed:
  "delivered dec fsize extract w c \<Longrightarrow> undisturbed c c' \<Longrightarrow> delivered dec fsize extract w c'"
  by (simp add: delivered_def undisturbedD)

lemma delivered_weaken: "delivered dec fsize extract True c \<Longrightarrow> delivered dec fsize extract False c"
  unfolding delivered_def by (cases "decode_stream dec fsize (cn_received c)") (simp, blast)

lemma delivered_waiting:
  assumes "delivered dec fsize extract True c"
  obtains fs where "decode_stream dec fsize (cn_received c) = (fs, InsufficientData, rb_contents (cn_buf c))"
    and "cn_dispatched c = map (\<lambda>f. the (extract f)) fs" and "\<forall>f \<in> set fs. extract f \<noteq> None"
  using assms by (auto simp: delivered_def split: prod.splits)

lemma read_into_put:
  assumes "span = writable (cn_buf c)" and "length data \<le> unat (snd span)" and "rb_inv (cn_buf c)"
  shows "rb_inv (cn_buf (read_into span data c))"
    "rb_contents (cn_buf (read_into span data c)) = rb_contents (cn_buf c) @ data"
    "cn_received (read_into span data c) = cn_received c @ data"
    "cn_dispatched (read_into span data c) = cn_dispatched c"
proof -
  have b: "cn_buf (read_into span data c) = put (cn_buf c) data"
    by (simp add: read_into_def Let_def put_def assms(1) cn_buf_def cn_session_def set_buf_def)
  show "rb_inv (cn_buf (read_into span data c))"
    "rb_contents (cn_buf (read_into span data c)) = rb_contents (cn_buf c) @ data"
    unfolding b using put_correct(1,2)[OF assms(3), of data] assms(1,2) by simp_all
  show "cn_received (read_into span data c) = cn_received c @ data"
    "cn_dispatched (read_into span data c) = cn_dispatched c"
    by (simp_all add: read_into_def Let_def)
qed

context protocol
begin

lemma process_frames_delivers:
  assumes "handlers_ok d" and "rb_state_inv (realloc, cn_buf c)" and "delivered dec fsize extract True c"
    and "span = writable (cn_buf c)" and "length data \<le> unat (snd span)"
  shows "\<exists>d' c'. process_frames cer realloc try_decode consume_frame extract d (read_into span data c) = Some (Done, d', c') \<and>
    handlers_ok d' \<and> rb_state_inv (realloc, cn_buf c') \<and> delivered dec fsize extract (cn_open c') c'"
proof -
  let ?c = "read_into span data c"
  have "rb_inv (cn_buf c)" using assms(2) by (simp add: rb_state_inv_def)
  note ri = read_into_put[OF assms(4,5) this]
  have inv: "rb_state_inv (realloc, cn_buf ?c)" using assms(2) ri(1) by (simp add: rb_state_inv_def)
  obtain fs where fs: "decode_stream dec fsize (cn_received c) = (fs, InsufficientData, rb_contents (cn_buf c))"
      "cn_dispatched c = map (\<lambda>f. the (extract f)) fs" "\<forall>f \<in> set fs. extract f \<noteq> None"
    using delivered_waiting[OF assms(3)] .
  obtain gs err rest where gs: "decode_stream dec fsize (rb_contents (cn_buf ?c)) = (gs, err, rest)"
    by (cases "decode_stream dec fsize (rb_contents (cn_buf ?c))") auto
  have all: "decode_stream dec fsize (cn_received ?c) = (fs @ gs, err, rest)"
    using decode_stream_append[OF fs(1), of data gs err rest] gs ri(2,3) by simp
  obtain d' c' k where pf: "process_frames cer realloc try_decode consume_frame extract d ?c = Some (Done, d', c')"
      "handlers_ok d'" "rb_state_inv (realloc, cn_buf c')" "cn_received c' = cn_received ?c"
      "cn_dispatched c' = cn_dispatched ?c @ map (\<lambda>f. the (extract f)) (take k gs)"
      "\<forall>f \<in> set (take k gs). extract f \<noteq> None"
      "cn_open c' \<longrightarrow> length gs \<le> k \<and> err = InsufficientData \<and> rb_contents (cn_buf c') = rest"
    using process_frames_ok[OF assms(1) inv gs] by blast
  have "delivered dec fsize extract (cn_open c') c'"
  proof (rule deliveredI[where k = "length fs + k"])
    show "decode_stream dec fsize (cn_received c') = (fs @ gs, err, rest)" using all pf(4) by simp
    show "cn_dispatched c' = map (\<lambda>f. the (extract f)) (take (length fs + k) (fs @ gs))"
      using pf(5) ri(4) fs(2) by simp
    show "\<forall>f \<in> set (take (length fs + k) (fs @ gs)). extract f \<noteq> None" using pf(6) fs(3) by auto
    show "cn_open c' \<Longrightarrow> length (fs @ gs) \<le> length fs + k \<and> err = InsufficientData \<and> rest = rb_contents (cn_buf c')"
      using pf(7) by simp
  qed
  then show ?thesis using pf(1-3) by blast
qed

lemma read_loop_delivers:
  assumes "handlers_ok d" and "ops_ok ops" and "\<forall>ev \<in> set evs. keeps (fst ev)" and "rb_state_inv (realloc, cn_buf c)"
    and "delivered dec fsize extract True c"
  shows "\<exists>o' d' c'. read_loop (process_frames cer realloc try_decode consume_frame extract) ops evs d c = Some (o', d', c') \<and>
    o' \<noteq> Crashed \<and> delivered dec fsize extract (o' = Waiting) c'"
  using assms
proof (induction evs arbitrary: d c)
  case Nil
  note fin = finish_loop_undisturbed[OF assms(2)]
  note weak = delivered_weaken[OF Nil.prems(5)]
  have "delivered dec fsize extract False (finish_loop ops c)"
    "delivered dec fsize extract False (finish_loop ops (cn_close c))"
    using delivered_undisturbed[OF weak] undisturbed_trans[OF cn_close_undisturbed] fin by blast+
  then show ?case using Nil.prems(5) by (auto simp: loop_head_def)
next
  case (Cons ev evs)
  obtain others ec avail where ev: "ev = (others, ec, avail)" by (cases ev)
  note fin = finish_loop_undisturbed[OF assms(2)]
  note weak = delivered_weaken[OF Cons.prems(5)]
  have ends: "delivered dec fsize extract False (finish_loop ops c)"
    "delivered dec fsize extract False (finish_loop ops (cn_close c))"
    using delivered_undisturbed[OF weak] undisturbed_trans[OF cn_close_undisturbed] fin by blast+
  show ?case
  proof (cases "loop_head ops c")
    case (Inl c')
    then show ?thesis using ends by (auto simp: ev loop_head_def split: if_splits)
  next
    case (Inr span)
    then have span: "span = writable (cn_buf c)" by (auto simp: loop_head_def split: if_splits)
    let ?c1 = "others c" and ?data = "take (unat (snd span)) avail"
    have u: "undisturbed c ?c1" using Cons.prems(3) by (simp add: ev keeps_def)
    have inv1: "rb_state_inv (realloc, cn_buf ?c1)" using Cons.prems(4) undisturbedD(4)[OF u] by (simp add: rb_state_inv_def)
    have del1: "delivered dec fsize extract True ?c1" using delivered_undisturbed[OF Cons.prems(5) u] .
    show ?thesis
    proof (cases "ec \<or> ?data = []")
      case True
      have "delivered dec fsize extract False (finish_loop ops ?c1)"
        using delivered_undisturbed[OF delivered_weaken[OF del1] fin] .
      then show ?thesis using True Inr by (simp add: ev Let_def)
    next
      case False
      have sp: "span = writable (cn_buf ?c1)" "length ?data \<le> unat (snd span)"
        using span undisturbedD(5)[OF u] by simp_all
      obtain d' c' where pf: "process_frames cer realloc try_decode consume_frame extract d (read_into span ?data ?c1) = Some (Done, d', c')"
          "handlers_ok d'" "rb_state_inv (realloc, cn_buf c')" "delivered dec fsize extract (cn_open c') c'"
        using process_frames_delivers[OF Cons.prems(1) inv1 del1 sp] by blast
      show ?thesis
      proof (cases "cn_open c'")
        case True
        let ?c2 = "co_touch_session ops (s_id (cn_session c')) c'"
        have u2: "undisturbed c' ?c2" using assms(2) by (simp add: ops_ok_def keeps_def)
        have "rb_state_inv (realloc, cn_buf ?c2)" using pf(3) undisturbedD(4)[OF u2] by (simp add: rb_state_inv_def)
        moreover have "delivered dec fsize extract True ?c2" using delivered_undisturbed[OF _ u2] pf(4) True by simp
        ultimately show ?thesis
          using Cons.IH[OF pf(2) assms(2)] Cons.prems(3) Inr False pf(1) True by (simp add: ev Let_def)
      next
        case closed: False
        have "delivered dec fsize extract False (finish_loop ops c')"
          using delivered_undisturbed[OF _ fin] pf(4) closed by simp
        then show ?thesis using Inr False pf(1) closed by (simp add: ev Let_def)
      qed
    qed
  qed
qed

lemma start_read_loop_delivers:
  assumes "handlers_ok d" and "ops_ok ops" and "keeps (fst hs)" and "\<forall>ev \<in> set evs. keeps (fst ev)"
    and "rb_state_inv (realloc, cn_buf c)" and "rb_contents (cn_buf c) = []" and "cn_received c = []"
    and "cn_dispatched c = []" and "dec [] = Inl InsufficientData"
  shows "\<exists>o' d' c'. start_read_loop (process_frames cer realloc try_decode consume_frame extract) ops hs evs d c = Some (o', d', c') \<and>
    o' \<noteq> Crashed \<and> delivered dec fsize extract (o' = Waiting) c'"
proof -
  have "delivered dec fsize extract True c"
    using assms(6-8) by (intro deliveredI[where k = 0 and fs = "[]"]) (simp_all add: decode_stream_error[OF assms(9)])
  moreover have "undisturbed c (c\<lparr>cn_active := cn_active c + 1\<rparr>)" by (simp add: undisturbed_def cn_buf_def cn_session_def)
  then have u: "undisturbed c (fst hs (c\<lparr>cn_active := cn_active c + 1\<rparr>))" (is "undisturbed c ?c")
    using assms(3) undisturbed_trans unfolding keeps_def by blast
  ultimately have del: "delivered dec fsize extract True ?c" using delivered_undisturbed by blast
  have inv: "rb_state_inv (realloc, cn_buf ?c)" using assms(5) undisturbedD(4)[OF u] by (simp add: rb_state_inv_def)
  have "undisturbed ?c (finish_loop ops (cn_close ?c))"
    using undisturbed_trans[OF cn_close_undisturbed finish_loop_undisturbed[OF assms(2)]] .
  then have "delivered dec fsize extract False (finish_loop ops (cn_close ?c))"
    using delivered_undisturbed[OF delivered_weaken[OF del]] by blast
  then show ?thesis using read_loop_delivers[OF assms(1,2,4) inv del] by (auto simp: start_read_loop_def Let_def)
qed

end

text \<open>
  C3: A TCP connection delivers its byte stream: however the network cuts the stream into reads,
  whatever the handlers, the session manager and other coroutines do meanwhile, including closing
  the session, the read loop never runs forever on what it received, and the messages dispatched
  are the frames of the bytes received, in order, each once, from the first on. While the loop
  waits for more, all complete frames have been dispatched and only the bytes of an incomplete
  one are kept.
\<close>

theorem tcp_connection_delivers_stream:
  assumes "handlers_ok d" and "ops_ok ops" and "keeps (fst hs)" and "\<forall>ev \<in> set evs. keeps (fst ev)"
    and "rb_state_inv (realloc, cn_buf c)" and "rb_contents (cn_buf c) = []"
    and "cn_received c = []" and "cn_dispatched c = []"
  shows "\<exists>o' d' c' fs err rest k.
    start_read_loop (process_frames cer realloc tcp_try_decode tcp_consume_frame tcp_extract) ops hs evs d c = Some (o', d', c') \<and>
    o' \<noteq> Crashed \<and>
    decode_stream frame_decode (\<lambda>f. unat (frame_size (frame_header f))) (cn_received c') = (fs, err, rest) \<and>
    cn_dispatched c' = map (\<lambda>f. (wh_msg_id (frame_header f), frame_payload f)) (take k fs) \<and>
    (o' = Waiting \<longrightarrow> take k fs = fs \<and> err = InsufficientData \<and> rest = rb_contents (cn_buf c'))"
proof -
  have "frame_decode [] = Inl InsufficientData" by (simp add: frame_decode_def WireHeader_parse_short)
  from tcp.start_read_loop_delivers[OF assms this, of cer tcp_extract]
  obtain o' d' c' where run: "start_read_loop (process_frames cer realloc tcp_try_decode tcp_consume_frame tcp_extract) ops hs evs d c = Some (o', d', c')"
      "o' \<noteq> Crashed" "delivered frame_decode (\<lambda>f. unat (frame_size (frame_header f))) tcp_extract (o' = Waiting) c'"
    by blast
  obtain fs err rest where s: "decode_stream frame_decode (\<lambda>f. unat (frame_size (frame_header f))) (cn_received c') = (fs, err, rest)"
    by (cases "decode_stream frame_decode (\<lambda>f. unat (frame_size (frame_header f))) (cn_received c')") auto
  from run(3) obtain k where k: "cn_dispatched c' = map (\<lambda>f. the (tcp_extract f)) (take k fs)"
      "o' = Waiting \<longrightarrow> length fs \<le> k \<and> err = InsufficientData \<and> rest = rb_contents (cn_buf c')"
    unfolding delivered_def s by auto
  then show ?thesis using run(1,2) s
    by (intro exI[of _ o'] exI[of _ d'] exI[of _ c'] exI[of _ fs] exI[of _ err] exI[of _ rest] exI[of _ k])
      (simp add: tcp_extract_def)
qed

text \<open>The same for a WebSocket connection, whose frames must be long enough for an identifier.\<close>

lemma ws_connection_delivers_stream:
  assumes "handlers_ok d" and "ops_ok ops" and "keeps (fst hs)" and "\<forall>ev \<in> set evs. keeps (fst ev)"
    and "rb_state_inv (realloc, cn_buf c)" and "rb_contents (cn_buf c) = []"
    and "cn_received c = []" and "cn_dispatched c = []"
  shows "\<exists>o' d' c'.
    start_read_loop (process_frames cer realloc ws_try_decode ws_consume_frame ws_extract) ops hs evs d c = Some (o', d', c') \<and>
    o' \<noteq> Crashed \<and> delivered ws_decode (\<lambda>f. 4 + length (ws_payload_data f)) ws_extract (o' = Waiting) c'"
  using ws.start_read_loop_delivers[OF assms, of cer ws_extract] by (simp add: ws_decode_def)

definition idle_conn :: "unit conn" where
  "idle_conn = accept_connection
     (\<lambda>e. (Session_new 1 0 \<lparr>rb_buffer = replicate 16 0, rb_linear_buf = None, rb_capacity = 16, rb_mask = 15,
             rb_read_pos = 0, rb_write_pos = 0, rb_linear_buf_size = 0\<rparr> 8, e)) ''10.0.0.1'' 0 ()"

definition no_ops :: "unit conn_ops" where
  "no_ops = \<lparr>co_touch_session = (\<lambda>i c. c), co_remove_session = (\<lambda>i c. c), co_connection_closed_cb = None\<rparr>"

definition echo_dispatcher :: "unit conn MessageDispatcher" where
  "echo_dispatcher = register_handler 7
     (\<lambda>m p c. (Returned (Inr ()), c\<lparr>cn_rt := snd (enqueue_write p (cn_rt c))\<rparr>)) MessageDispatcher_new"

lemma idle_conn_ok:
  "handlers_ok echo_dispatcher" "ops_ok no_ops" "rb_state_inv (zero_realloc, cn_buf idle_conn)"
  "rb_contents (cn_buf idle_conn) = []" "cn_received idle_conn = []" "cn_dispatched idle_conn = []"
proof -
  show "handlers_ok echo_dispatcher"
    by (auto simp: handlers_ok_def echo_dispatcher_def handler_for_ops keeps_def undisturbed_def cn_buf_def cn_session_def
        split: if_splits) (simp_all add: handler_for_def MessageDispatcher_new_def)
  show "ops_ok no_ops" by (simp add: ops_ok_def no_ops_def keeps_def)
  have buf: "cn_buf idle_conn = \<lparr>rb_buffer = replicate 16 0, rb_linear_buf = None, rb_capacity = 16, rb_mask = 15,
      rb_read_pos = 0, rb_write_pos = 0, rb_linear_buf_size = 0\<rparr>"
    by (simp add: idle_conn_def accept_connection_def cn_buf_def cn_session_def session_rt_new_def Session_new_def)
  show "rb_state_inv (zero_realloc, cn_buf idle_conn)"
    using zero_realloc_spec zero_realloc_total
    by (auto simp: buf rb_state_inv_def rb_inv_def readable_size_def intro: exI[of _ 4])
  show "rb_contents (cn_buf idle_conn) = []" by (simp add: buf rb_contents_def readable_size_def)
  show "cn_received idle_conn = []" "cn_dispatched idle_conn = []"
    by (simp_all add: idle_conn_def accept_connection_def)
qed

theorem tcp_connection_delivers_stream_witness:
  "\<exists>o' d' c'. start_read_loop (process_frames (\<lambda>e m s. [0]) zero_realloc tcp_try_decode tcp_consume_frame tcp_extract)
     no_ops (id, True) [(id, False, [2, 0, 0, 0, 0]), (id, False, [7, 0, 0, 0, 2, 0, 0, 72, 105])] echo_dispatcher idle_conn =
       Some (o', d', c') \<and> o' \<noteq> Crashed"
proof -
  have "keeps (fst (id :: unit conn \<Rightarrow> unit conn, True))" by (simp add: keeps_def)
  moreover have "\<forall>ev \<in> set [(id :: unit conn \<Rightarrow> unit conn, False, [2, 0, 0, 0, 0 :: u8]), (id, False, [7, 0, 0, 0, 2, 0, 0, 72, 105])].
      keeps (fst ev)" by (simp add: keeps_def)
  ultimately show ?thesis
    using tcp_connection_delivers_stream[OF idle_conn_ok(1,2) _ _ idle_conn_ok(3-6), of
      "(id, True)" "[(id, False, [2, 0, 0, 0, 0]), (id, False, [7, 0, 0, 0, 2, 0, 0, 72, 105])]" "\<lambda>e m s. [0]"]
    by blast
qed

section \<open>Errors are answered\<close>

lemma build_error_frame_bytes:
  assumes "cer (error_code_value code) message svc = payload" and "length payload \<le> unat MAX_BODY_SIZE"
  shows "frame_decode (build_error_frame cer msg_id code message svc) =
    Inr \<lparr>frame_header = \<lparr>wh_version = CURRENT_VERSION, wh_flags = flag_ERROR_RESPONSE, wh_msg_id = msg_id,
           wh_body_size = of_nat (length payload), wh_reserved = 0\<rparr>, frame_payload = payload\<rparr>"
proof -
  let ?h = "\<lparr>wh_version = CURRENT_VERSION, wh_flags = flag_ERROR_RESPONSE, wh_msg_id = msg_id,
     wh_body_size = of_nat (length payload), wh_reserved = 0\<rparr>"
  let ?f = "\<lparr>frame_header = ?h, frame_payload = payload\<rparr>"
  have len: "unat (of_nat (length payload) :: u32) = length payload"
    using assms(2) by (intro unat_of_nat_small) (simp add: MAX_BODY_SIZE_def)
  have "build_error_frame cer msg_id code message svc = frame_bytes ?f"
    using assms(1) len
    by (simp add: build_error_frame_def Let_def unat_frame_size memcpy_def frame_bytes_def WireHeader_SIZE_def)
  moreover have "frame_valid ?f"
    using assms(2) len by (simp add: frame_valid_def wire_header_valid_def word_le_nat_alt)
  ultimately show ?thesis using frame_decode_iff[of "frame_bytes ?f" ?f] by simp
qed



end
