(* ===== verification/Gateway_Delivery.thy ===== *)
theory Gateway_Delivery
  imports Pending_Requests Channel_Session_Map Message_Router Connection_Handler
begin

unbundle bit_operations_syntax

text \<open>
  The gateway towards its clients: \<open>response_dispatcher.cpp\<close> (a Kafka response to the session
  that asked), \<open>broadcast_fanout.cpp\<close> (a Pub/Sub message to the subscribers), and the timeout
  of a request (\<open>GatewayService::schedule_sweep\<close>). Both run outside of the cores and post
  tasks to them; a task runs on its core, on the state \<open>gw_core\<close> of that core.
\<close>

section \<open>Errors of the gateway (gateway\_error.hpp)\<close>

datatype GatewayError =
    ConfigParseFailed | JwtVerifyFailed | JwtExpired | JwtBlacklisted | RouteNotFound | ServiceTimeout
  | PendingMapFull | RateLimitedIp | RateLimitedUser | RateLimitedEndpoint | SubscriptionLimitExceeded | BlacklistCheckFailed

fun gateway_error_value :: "GatewayError \<Rightarrow> u16" where
  "gateway_error_value ConfigParseFailed = 1"
| "gateway_error_value JwtVerifyFailed = 2"
| "gateway_error_value JwtExpired = 3"
| "gateway_error_value JwtBlacklisted = 4"
| "gateway_error_value RouteNotFound = 5"
| "gateway_error_value ServiceTimeout = 6"
| "gateway_error_value PendingMapFull = 7"
| "gateway_error_value RateLimitedIp = 8"
| "gateway_error_value RateLimitedUser = 9"
| "gateway_error_value RateLimitedEndpoint = 10"
| "gateway_error_value SubscriptionLimitExceeded = 11"
| "gateway_error_value BlacklistCheckFailed = 12"

fun gateway_error_name :: "GatewayError \<Rightarrow> string" where
  "gateway_error_name ConfigParseFailed = ''ConfigParseFailed''"
| "gateway_error_name JwtVerifyFailed = ''JwtVerifyFailed''"
| "gateway_error_name JwtExpired = ''JwtExpired''"
| "gateway_error_name JwtBlacklisted = ''JwtBlacklisted''"
| "gateway_error_name RouteNotFound = ''RouteNotFound''"
| "gateway_error_name ServiceTimeout = ''ServiceTimeout''"
| "gateway_error_name PendingMapFull = ''PendingMapFull''"
| "gateway_error_name RateLimitedIp = ''RateLimitedIp''"
| "gateway_error_name RateLimitedUser = ''RateLimitedUser''"
| "gateway_error_name RateLimitedEndpoint = ''RateLimitedEndpoint''"
| "gateway_error_name SubscriptionLimitExceeded = ''SubscriptionLimitExceeded''"
| "gateway_error_name BlacklistCheckFailed = ''BlacklistCheckFailed''"

section \<open>A core of the gateway\<close>

text \<open>
  What the tasks and handlers of one core work on. \<open>gc_objects\<close> are the live session objects by
  their id, \<open>gc_table\<close> the ones the session manager knows. Two records of what happened: the
  requests sent to a service, and the answers to them, as correlation identifier and session.
\<close>

record gw_core =
  gc_pending :: PendingRequestsMap
  gc_channels :: ChannelSessionMap
  gc_router :: MessageRouter
  gc_objects :: "u64 \<Rightarrow> session_rt option"
  gc_table :: "u64 list"
  gc_requests :: "(u64 \<times> u64) list"
  gc_answers :: "(u64 \<times> u64) list"

text \<open>\<open>find_session\<close> with the check of \<open>is_open\<close> that always follows it.\<close>

definition gc_open :: "u64 \<Rightarrow> gw_core \<Rightarrow> bool" where
  "gc_open sid g \<longleftrightarrow> sid \<in> set (gc_table g) \<and>
     (case gc_objects g sid of Some rt \<Rightarrow> is_open (rt_session rt) | None \<Rightarrow> False)"

definition gc_write :: "(session_rt \<Rightarrow> unit result \<times> session_rt) \<Rightarrow> u64 \<Rightarrow> gw_core \<Rightarrow> gw_core" where
  "gc_write wr sid g = g\<lparr>gc_objects := (gc_objects g)(sid := map_option (\<lambda>rt. snd (wr rt)) (gc_objects g sid))\<rparr>"

text \<open>Recording the answer to a request.\<close>

definition gc_answered :: "u64 \<Rightarrow> u64 \<Rightarrow> gw_core \<Rightarrow> gw_core" where
  "gc_answered corr_id sid g = g\<lparr>gc_answers := gc_answers g @ [(corr_id, sid)]\<rparr>"

section \<open>Responses (response\_dispatcher.cpp)\<close>

definition build_wire_response :: "RoutingHeader \<Rightarrow> bytes \<Rightarrow> u32 \<Rightarrow> bytes" where
  "build_wire_response routing fbs_payload original_msg_id =
     (let flags = (if rh_flags routing AND ERROR_BIT \<noteq> 0 then 0 OR flag_ERROR_RESPONSE else 0);
          wh = \<lparr>wh_version = CURRENT_VERSION, wh_flags = flags, wh_msg_id = original_msg_id,
                wh_body_size = of_nat (length fbs_payload), wh_reserved = 0\<rparr>;
          buf = replicate (WireHeader_SIZE + length fbs_payload) 0;
          buf = memcpy buf 0 (WireHeader_serialize wh)
      in if fbs_payload \<noteq> [] then memcpy buf WireHeader_SIZE fbs_payload else buf)"

datatype gw_task =
    Push_task RoutingHeader u64 bytes
  | Response_task u64 RoutingHeader bytes
  | Global_task bytes
  | Room_task string bytes

text \<open>
  \<open>on_response\<close>, on the thread of the Kafka consumer: the tasks it posts, each with its core.
  \<open>sessions\<close> and \<open>pendings\<close> are the numbers of session managers and pending maps.
\<close>

definition on_response :: "nat \<Rightarrow> nat \<Rightarrow> bytes \<Rightarrow> unit result \<times> (nat \<times> gw_task) list" where
  "on_response sessions pendings payload =
     (if length payload < ENVELOPE_HEADER_SIZE then (Inl ParseFailed, [])
      else case RoutingHeader_parse (subspan payload 0 RoutingHeader_SIZE) of
        Inl e \<Rightarrow> (Inl ParseFailed, [])
      | Inr routing \<Rightarrow>
          (case MetadataPrefix_parse (subspan payload RoutingHeader_SIZE MetadataPrefix_SIZE) of
             Inl e \<Rightarrow> (Inl ParseFailed, [])
           | Inr meta \<Rightarrow>
               let target_core = unat (mp_core_id meta) in
               if mp_corr_id meta = 0
               then let task = Push_task routing (mp_session_id meta) payload in
                    if target_core < sessions then (Inr (), [(target_core, task)])
                    else (Inr (), map (\<lambda>core. (core, task)) [0..<sessions])
               else if pendings \<le> target_core then (Inl ParseFailed, [])
               else (Inr (), [(target_core, Response_task (mp_corr_id meta) routing payload)])))"

definition run_push :: "RoutingHeader \<Rightarrow> u64 \<Rightarrow> bytes \<Rightarrow> gw_core \<Rightarrow> gw_core" where
  "run_push routing sid payload g =
     (if \<not> gc_open sid g then g
      else let payload_offset = envelope_payload_offset (rh_flags routing) payload in
      if length payload < payload_offset then g
      else gc_write (enqueue_write (build_wire_response routing (drop payload_offset payload) (rh_msg_id routing))) sid g)"

definition run_response :: "u64 \<Rightarrow> RoutingHeader \<Rightarrow> bytes \<Rightarrow> gw_core \<Rightarrow> gw_core" where
  "run_response corr_id routing payload g =
     (case pm_extract corr_id (gc_pending g) of
        (None, pm) \<Rightarrow> g\<lparr>gc_pending := pm\<rparr>
      | (Some pending, pm) \<Rightarrow>
          let g = g\<lparr>gc_pending := pm\<rparr>;
              payload_offset = envelope_payload_offset (rh_flags routing) payload
          in if length payload < payload_offset then g
             else let wire_response = build_wire_response routing (drop payload_offset payload) (rh_msg_id routing);
                      sid = pe_session_id pending
                  in if \<not> gc_open sid g then g
                     else gc_answered corr_id sid (gc_write (enqueue_write wire_response) sid g))"

section \<open>Timeouts (gateway\_service.cpp, schedule\_sweep)\<close>

definition on_request_timeout :: "(u16 \<Rightarrow> string \<Rightarrow> u16 \<Rightarrow> bytes) \<Rightarrow> u64 \<Rightarrow> PendingEntry \<Rightarrow> gw_core \<Rightarrow> gw_core" where
  "on_request_timeout cer corr_id entry g =
     (let sid = pe_session_id entry in
      if gc_open sid g
      then gc_answered corr_id sid
             (gc_write (enqueue_write (build_error_frame cer (pe_original_msg_id entry) ServiceError ''''
                (gateway_error_value ServiceTimeout))) sid g)
      else g)"

definition gc_sweep :: "(u16 \<Rightarrow> string \<Rightarrow> u16 \<Rightarrow> bytes) \<Rightarrow> int \<Rightarrow> gw_core \<Rightarrow> gw_core" where
  "gc_sweep cer now g =
     (let (pm, g) = sweep_expired now (Some (on_request_timeout cer)) (gc_pending g) g in g\<lparr>gc_pending := pm\<rparr>)"

section \<open>Broadcast (broadcast\_fanout.cpp)\<close>

definition PUBSUB_MSG_ID_SIZE :: nat where "PUBSUB_MSG_ID_SIZE = 4"

text \<open>The message identifier in front of the payload, big-endian.\<close>

definition pubsub_msg_id :: "bytes \<Rightarrow> u32" where
  "pubsub_msg_id message =
     push_bit 24 (ucast (message ! 0)) OR push_bit 16 (ucast (message ! 1)) OR
     push_bit 8 (ucast (message ! 2)) OR ucast (message ! 3)"

definition build_wire_frame :: "bytes \<Rightarrow> bytes" where
  "build_wire_frame message =
     (if 0 < length message \<and> length message < PUBSUB_MSG_ID_SIZE then []
      else let (msg_id, payload) =
             (if PUBSUB_MSG_ID_SIZE \<le> length message
              then (pubsub_msg_id message, drop PUBSUB_MSG_ID_SIZE message)
              else (0 :: u32, []));
             wh = \<lparr>wh_version = CURRENT_VERSION, wh_flags = 0, wh_msg_id = msg_id,
                   wh_body_size = of_nat (length payload), wh_reserved = 0\<rparr>;
             frame = replicate (WireHeader_SIZE + length payload) 0;
             frame = memcpy frame 0 (WireHeader_serialize wh)
           in if payload \<noteq> [] then memcpy frame WireHeader_SIZE payload else frame)"

definition GLOBAL_PREFIX :: string where "GLOBAL_PREFIX = ''pub:global:''"

definition is_global :: "string \<Rightarrow> bool" where
  "is_global channel \<longleftrightarrow> take (length GLOBAL_PREFIX) channel = GLOBAL_PREFIX"

text \<open>\<open>fanout\<close>, on the thread of the Pub/Sub listener: the tasks it posts.\<close>

definition fanout :: "nat \<Rightarrow> nat \<Rightarrow> string \<Rightarrow> bytes \<Rightarrow> (nat \<times> gw_task) list" where
  "fanout num_cores sessions channel message =
     (let frame = build_wire_frame message in
      if frame = [] then []
      else if is_global channel then map (\<lambda>core. (core, Global_task frame)) [0..<sessions]
      else map (\<lambda>core. (core, Room_task channel frame)) (filter (\<lambda>core. core < sessions) [0..<num_cores]))"

text \<open>The body of the loops of both tasks.\<close>

definition send_if_open :: "bytes \<Rightarrow> u64 \<Rightarrow> gw_core \<Rightarrow> gw_core" where
  "send_if_open data sid g = (if gc_open sid g then gc_write (enqueue_write_raw data) sid g else g)"

definition run_global :: "bytes \<Rightarrow> gw_core \<Rightarrow> gw_core" where
  "run_global data g = fold (send_if_open data) (gc_table g) g"

definition run_room :: "string \<Rightarrow> bytes \<Rightarrow> gw_core \<Rightarrow> gw_core" where
  "run_room channel data g =
     (case get_subscribers channel (gc_channels g) of
        None \<Rightarrow> g
      | Some subs \<Rightarrow> if subs = [] then g else fold (send_if_open data) subs g)"

fun run_task :: "gw_task \<Rightarrow> gw_core \<Rightarrow> gw_core" where
  "run_task (Push_task routing sid payload) g = run_push routing sid payload g"
| "run_task (Response_task corr_id routing payload) g = run_response corr_id routing payload g"
| "run_task (Global_task data) g = run_global data g"
| "run_task (Room_task channel data) g = run_room channel data g"

section \<open>Frames to the client\<close>

lemma memcpy_header:
  assumes "length h = 12"
  shows "(if p \<noteq> [] then memcpy (memcpy (replicate (12 + length p) 0) 0 h) 12 p else memcpy (replicate (12 + length p) 0) 0 h) = h @ p"
  using assms by (auto simp: memcpy_def)

lemma build_wire_response_layout:
  "build_wire_response routing p i =
     WireHeader_serialize \<lparr>wh_version = CURRENT_VERSION, wh_flags = (if rh_flags routing AND ERROR_BIT \<noteq> 0 then flag_ERROR_RESPONSE else 0),
       wh_msg_id = i, wh_body_size = of_nat (length p), wh_reserved = 0\<rparr> @ p"
  unfolding build_wire_response_def WireHeader_SIZE_def Let_def or.left_neutral by (rule memcpy_header) simp

lemma WireHeader_serialize_nonempty [simp]: "WireHeader_serialize h \<noteq> []"
  using length_WireHeader_serialize[of h] by (metis list.size(3) zero_neq_numeral)

lemma build_wire_frame_layout:
  "build_wire_frame message =
     (if message = [] \<or> 4 \<le> length message
      then WireHeader_serialize \<lparr>wh_version = CURRENT_VERSION, wh_flags = 0,
             wh_msg_id = (if message = [] then 0 else pubsub_msg_id message),
             wh_body_size = of_nat (length (drop 4 message)), wh_reserved = 0\<rparr> @ drop 4 message
      else [])"
  using memcpy_header[of _ "drop 4 message"] memcpy_header[of _ "[]"]
  by (cases "message = []") (auto simp: build_wire_frame_def PUBSUB_MSG_ID_SIZE_def WireHeader_SIZE_def Let_def not_le)

section \<open>Broadcast reaches the subscribers\<close>

lemma gc_write_fields [simp]:
  "gc_table (gc_write wr sid g) = gc_table g" "gc_pending (gc_write wr sid g) = gc_pending g"
  "gc_channels (gc_write wr sid g) = gc_channels g" "gc_router (gc_write wr sid g) = gc_router g"
  "gc_requests (gc_write wr sid g) = gc_requests g" "gc_answers (gc_write wr sid g) = gc_answers g"
  by (simp_all add: gc_write_def)

lemma gc_write_objects: "gc_objects (gc_write wr sid g) s = (if s = sid then map_option (\<lambda>rt. snd (wr rt)) (gc_objects g s) else gc_objects g s)"
  by (simp add: gc_write_def)

lemma gc_answered_fields [simp]:
  "gc_table (gc_answered c sid g) = gc_table g" "gc_pending (gc_answered c sid g) = gc_pending g"
  "gc_channels (gc_answered c sid g) = gc_channels g" "gc_router (gc_answered c sid g) = gc_router g"
  "gc_requests (gc_answered c sid g) = gc_requests g" "gc_objects (gc_answered c sid g) = gc_objects g"
  "gc_answers (gc_answered c sid g) = gc_answers g @ [(c, sid)]"
  by (simp_all add: gc_answered_def)

lemma send_if_open_fields [simp]:
  "gc_table (send_if_open d sid g) = gc_table g" "gc_pending (send_if_open d sid g) = gc_pending g"
  "gc_channels (send_if_open d sid g) = gc_channels g" "gc_router (send_if_open d sid g) = gc_router g"
  "gc_requests (send_if_open d sid g) = gc_requests g" "gc_answers (send_if_open d sid g) = gc_answers g"
  by (simp_all add: send_if_open_def)

lemma send_if_open_objects:
  "gc_objects (send_if_open d sid g) s =
     (if s = sid \<and> gc_open s g then map_option (\<lambda>rt. snd (enqueue_write d rt)) (gc_objects g s) else gc_objects g s)"
  by (auto simp: send_if_open_def gc_write_objects enqueue_write_raw_def)

lemma gc_open_send_other: "s \<noteq> sid \<Longrightarrow> gc_open s (send_if_open d sid g) = gc_open s g"
  by (simp add: gc_open_def send_if_open_objects)

lemma fold_send:
  assumes "distinct sids"
  shows "gc_objects (fold (send_if_open d) sids g) s =
    (if s \<in> set sids \<and> gc_open s g then map_option (\<lambda>rt. snd (enqueue_write d rt)) (gc_objects g s) else gc_objects g s)"
  using assms
proof (induction sids arbitrary: g)
  case (Cons sid sids)
  then show ?case using gc_open_send_other[of s sid d g] by (auto simp: send_if_open_objects)
qed simp

lemma fold_send_fields [simp]:
  "gc_table (fold (send_if_open d) sids g) = gc_table g" "gc_pending (fold (send_if_open d) sids g) = gc_pending g"
  "gc_channels (fold (send_if_open d) sids g) = gc_channels g" "gc_router (fold (send_if_open d) sids g) = gc_router g"
  "gc_requests (fold (send_if_open d) sids g) = gc_requests g" "gc_answers (fold (send_if_open d) sids g) = gc_answers g"
  by (induction sids arbitrary: g) simp_all

lemma run_global_objects:
  "distinct (gc_table g) \<Longrightarrow> gc_objects (run_global d g) s =
    (if gc_open s g then map_option (\<lambda>rt. snd (enqueue_write d rt)) (gc_objects g s) else gc_objects g s)"
  unfolding run_global_def by (subst fold_send) (auto simp: gc_open_def)

lemma run_room_objects:
  assumes "csm_inv (gc_channels g)"
  shows "gc_objects (run_room channel d g) s =
    (if gc_open s g \<and> (channel, s) \<in> csm_rel (gc_channels g) then map_option (\<lambda>rt. snd (enqueue_write d rt)) (gc_objects g s) else gc_objects g s)"
proof -
  have inv: "mm_inv (cs_channel_to_sessions (gc_channels g))" using assms by (simp add: csm_inv_def)
  have "run_room channel d g = fold (send_if_open d) (at (cs_channel_to_sessions (gc_channels g)) channel) g"
    by (auto simp: run_room_def get_subscribers_def at_def split: option.split)
  then show ?thesis using fold_send[OF mm_inv_at[OF inv]] by (auto simp: csm_rel_def)
qed

text \<open>A core runs the tasks posted to it, each on its own state.\<close>

definition run_posts :: "(nat \<times> gw_task) list \<Rightarrow> gw_core list \<Rightarrow> gw_core list" where
  "run_posts posts cores = fold (\<lambda>(core, task) cs. cs[core := run_task task (cs ! core)]) posts cores"

lemma run_posts_all:
  assumes "n \<le> length cores"
  shows "run_posts (map (\<lambda>core. (core, task)) [0..<n]) cores = map (run_task task) (take n cores) @ drop n cores"
  using assms
proof (induction n)
  case (Suc n)
  have "run_posts (map (\<lambda>core. (core, task)) [0..<Suc n]) cores =
      (map (run_task task) (take n cores) @ drop n cores)[n := run_task task ((map (run_task task) (take n cores) @ drop n cores) ! n)]"
    using Suc by (simp add: run_posts_def)
  also have "\<dots> = map (run_task task) (take (Suc n) cores) @ drop (Suc n) cores"
    using Suc.prems by (intro nth_equalityI) (auto simp: nth_list_update nth_append min_def)
  finally show ?case .
qed (simp add: run_posts_def)


definition sample_session :: "u64 \<Rightarrow> Session" where
  "sample_session sid = Session_new sid 0
     \<lparr>rb_buffer = replicate 8 0, rb_linear_buf = None, rb_capacity = 8, rb_mask = 7, rb_read_pos = 0,
       rb_write_pos = 0, rb_linear_buf_size = 0\<rparr> 16"

definition sample_core :: "u64 \<Rightarrow> gw_core" where
  "sample_core sid = \<lparr>gc_pending = PendingRequestsMap_new 8 5000,
     gc_channels = snd (csm_subscribe ''room'' sid (ChannelSessionMap_new 2)),
     gc_router = MessageRouter_new \<lparr>rtab_entries = []\<rparr> 0 [], gc_objects = [sid \<mapsto> session_rt_new (sample_session sid)],
     gc_table = [sid], gc_requests = [], gc_answers = []\<rparr>"


end
