(* ===== verification/Sliding_Window.thy ===== *)
theory Sliding_Window
  imports Prelude Complex_Main
begin

text \<open>
  \<open>apex_shared/lib/rate_limit/src/sliding_window_counter.cpp\<close>: the counter behind every rate
  limit. Time is the count of the steady clock. An expression of type \<open>double\<close> is its exact
  value followed by a rounding \<open>rnd\<close>, a parameter; of IEEE 754 the proofs use only that
  rounding is monotone and exact on integers of at most 53 bits.
\<close>

definition double_rounding :: "(rat \<Rightarrow> rat) \<Rightarrow> bool" where
  "double_rounding rnd \<longleftrightarrow> mono rnd \<and> (\<forall>n :: int. \<bar>n\<bar> \<le> 2 ^ 53 \<longrightarrow> rnd (of_int n) = of_int n)"

record SlidingWindowCounter =
  swc_limit :: u32
  swc_window_size :: int
  swc_current_count :: u32
  swc_previous_count :: u32
  swc_window_start :: int
  swc_last_access :: int

definition SlidingWindowCounter_new :: "u32 \<Rightarrow> int \<Rightarrow> SlidingWindowCounter" where
  "SlidingWindowCounter_new limit window_size =
     \<lparr>swc_limit = limit, swc_window_size = (if 0 < window_size then window_size else 1),
      swc_current_count = 0, swc_previous_count = 0, swc_window_start = 0, swc_last_access = 0\<rparr>"

definition advance_window :: "int \<Rightarrow> SlidingWindowCounter \<Rightarrow> SlidingWindowCounter" where
  "advance_window now c =
     (if swc_window_start c = 0 then c\<lparr>swc_window_start := now\<rparr>
      else let elapsed = now - swc_window_start c in
      if elapsed < swc_window_size c then c
      else let windows_passed = elapsed div swc_window_size c in
      if windows_passed = 1
      then c\<lparr>swc_previous_count := swc_current_count c, swc_current_count := 0,
             swc_window_start := swc_window_start c + swc_window_size c\<rparr>
      else c\<lparr>swc_previous_count := 0, swc_current_count := 0, swc_window_start := now\<rparr>)"

text \<open>A count as a \<open>double\<close>; every 32-bit value is exact.\<close>

definition u32_double :: "u32 \<Rightarrow> rat" where
  "u32_double w = rat_of_nat (unat w)"

lemma u32_double_simps [simp]: "0 \<le> u32_double w" "u32_double 0 = 0"
  unfolding u32_double_def by (rule of_nat_0_le_iff) simp

text \<open>\<open>previous * (1.0 - ratio) + current\<close> with the ratio capped at 1.\<close>

definition weighted :: "(rat \<Rightarrow> rat) \<Rightarrow> int \<Rightarrow> int \<Rightarrow> u32 \<Rightarrow> u32 \<Rightarrow> rat" where
  "weighted rnd elapsed window previous current =
     (let ratio = rnd (rnd (of_int elapsed) / rnd (of_int window));
          ratio = (if 1 < ratio then 1 else ratio)
      in rnd (rnd (u32_double previous * rnd (1 - ratio)) + u32_double current))"

definition allow :: "(rat \<Rightarrow> rat) \<Rightarrow> int \<Rightarrow> SlidingWindowCounter \<Rightarrow> bool \<times> SlidingWindowCounter" where
  "allow rnd now c =
     (let c = advance_window now c;
          estimate = weighted rnd (now - swc_window_start c) (swc_window_size c)
                       (swc_previous_count c) (swc_current_count c)
      in if u32_double (swc_limit c) \<le> estimate then (False, c)
         else (True, c\<lparr>swc_current_count := swc_current_count c + 1, swc_last_access := now\<rparr>))"

definition estimated_count :: "(rat \<Rightarrow> rat) \<Rightarrow> int \<Rightarrow> SlidingWindowCounter \<Rightarrow> rat" where
  "estimated_count rnd now c =
     (let elapsed_since_start = now - swc_window_start c in
      if 0 < swc_window_size c \<and> swc_window_size c \<le> elapsed_since_start
      then let windows_passed = elapsed_since_start div swc_window_size c in
           if windows_passed = 1
           then weighted rnd (now - (swc_window_start c + swc_window_size c)) (swc_window_size c) (swc_current_count c) 0
           else 0
      else weighted rnd (now - swc_window_start c) (swc_window_size c) (swc_previous_count c) (swc_current_count c))"

definition swc_reset :: "SlidingWindowCounter \<Rightarrow> SlidingWindowCounter" where
  "swc_reset c = c\<lparr>swc_current_count := 0, swc_previous_count := 0, swc_window_start := 0, swc_last_access := 0\<rparr>"

section \<open>The estimate\<close>

lemma double_roundingD:
  assumes "double_rounding rnd"
  shows "x \<le> y \<Longrightarrow> rnd x \<le> rnd y" and "rnd 0 = 0" and "rnd 1 = 1" and "rnd (u32_double w) = u32_double w"
proof -
  show "x \<le> y \<Longrightarrow> rnd x \<le> rnd y" using assms unfolding double_rounding_def mono_def by blast
  have int: "\<bar>n\<bar> \<le> 2 ^ 53 \<Longrightarrow> rnd (of_int n) = of_int n" for n :: int
    using assms unfolding double_rounding_def by blast
  show "rnd 0 = 0" "rnd 1 = 1" using int[of 0] int[of 1] by simp_all
  have nat: "n < 2 ^ 32 \<Longrightarrow> rnd (of_nat n) = of_nat n" for n :: nat using int[of "int n"] by simp
  have "unat w < 2 ^ 32" using unat_lt2p[of w] by simp
  then show "rnd (u32_double w) = u32_double w" unfolding u32_double_def by (rule nat)
qed

lemma weighted_ge:
  assumes "double_rounding rnd"
  shows "u32_double current \<le> weighted rnd elapsed window previous current"
proof -
  note d = double_roundingD[OF assms]
  define ratio where "ratio = rnd (rnd (of_int elapsed) / rnd (of_int window))"
  define r where "r = (if 1 < ratio then 1 else ratio)"
  have "0 \<le> 1 - r" by (simp add: r_def)
  then have "0 \<le> rnd (1 - r)" using d(1)[of 0] d(2) by simp
  then have "0 \<le> u32_double previous * rnd (1 - r)" by simp
  then have "0 \<le> rnd (u32_double previous * rnd (1 - r))" using d(1)[of 0] d(2) by simp
  then have "u32_double current \<le> rnd (u32_double previous * rnd (1 - r)) + u32_double current" by simp
  then have "rnd (u32_double current) \<le> weighted rnd elapsed window previous current"
    unfolding weighted_def Let_def ratio_def[symmetric] r_def[symmetric] by (rule d(1))
  then show ?thesis by (simp add: d(4))
qed

text \<open>Monitoring reports the estimate the next decision would be made with.\<close>

lemma estimated_count_is_estimate:
  assumes "swc_window_start c \<noteq> 0" and "0 < swc_window_size c" and "double_rounding rnd"
  shows "estimated_count rnd now c =
    (let c' = advance_window now c
     in weighted rnd (now - swc_window_start c') (swc_window_size c') (swc_previous_count c') (swc_current_count c'))"
proof -
  note d = double_roundingD[OF assms(3)]
  have "rnd (0 / w) = 0" for w using d(2) by simp
  then have "weighted rnd 0 w 0 0 = 0" for w using d(2,3) by (simp add: weighted_def Let_def)
  then show ?thesis using assms(1,2) by (auto simp: estimated_count_def advance_window_def Let_def)
qed

section \<open>The bound\<close>

primrec run_allow :: "(rat \<Rightarrow> rat) \<Rightarrow> int list \<Rightarrow> SlidingWindowCounter \<Rightarrow> int list \<times> SlidingWindowCounter" where
  "run_allow rnd [] c = ([], c)"
| "run_allow rnd (t # ts) c =
     (case allow rnd t c of (ok, c) \<Rightarrow>
        (case run_allow rnd ts c of (acc, c) \<Rightarrow> (if ok then t # acc else acc, c)))"

definition inside :: "int \<Rightarrow> int \<Rightarrow> int list \<Rightarrow> nat" where
  "inside a b xs = length (filter (\<lambda>x. a \<le> x \<and> x < b) xs)"

lemma inside_simps [simp]:
  "inside a b [] = 0" "inside a b (xs @ ys) = inside a b xs + inside a b ys"
  "inside a b [x] = (if a \<le> x \<and> x < b then 1 else 0)"
  by (simp_all add: inside_def)

lemma inside_mono: "a' \<le> a \<Longrightarrow> b \<le> b' \<Longrightarrow> inside a b xs \<le> inside a' b' xs"
  by (induction xs) (auto simp: inside_def)

lemma inside_none: "\<forall>x \<in> set xs. x < a \<Longrightarrow> inside a b xs = 0"
  by (auto simp: inside_def filter_empty_conv)

lemma inside_split: "a \<le> m \<Longrightarrow> m \<le> b \<Longrightarrow> inside a b xs = inside a m xs + inside m b xs"
  by (induction xs) (auto simp: inside_def)

text \<open>
  \<open>L\<close> are the times of the requests let through, up to \<open>m\<close>: the counts are those of the
  two windows, and no interval as long as the window holds more than twice the limit.
\<close>

definition swc_inv :: "int list \<Rightarrow> int \<Rightarrow> SlidingWindowCounter \<Rightarrow> bool" where
  "swc_inv L m c \<longleftrightarrow>
     (let W = swc_window_size c; ws = swc_window_start c in
      0 < W \<and>
      (if ws = 0 then L = [] \<and> swc_current_count c = 0
       else 0 < ws \<and> (\<forall>x \<in> set L. x < ws + W) \<and>
         unat (swc_current_count c) = inside ws (ws + W) L \<and> unat (swc_current_count c) \<le> unat (swc_limit c) \<and>
         inside (ws - W) ws L \<le> unat (swc_limit c)) \<and>
      (\<forall>t. inside t (t + W) L \<le> 2 * unat (swc_limit c)))"

lemma advance_window_inv:
  assumes inv: "swc_inv L m c" and now: "0 < now" "\<forall>x \<in> set L. x \<le> now" "swc_window_start c \<le> now"
  shows "swc_inv L now (advance_window now c)" "swc_window_start (advance_window now c) \<noteq> 0"
    "swc_window_start (advance_window now c) \<le> now"
    "now < swc_window_start (advance_window now c) + swc_window_size c"
    "swc_window_size (advance_window now c) = swc_window_size c" "swc_limit (advance_window now c) = swc_limit c"
proof -
  let ?W = "swc_window_size c" and ?ws = "swc_window_start c" and ?c = "advance_window now c"
  have W: "0 < ?W" using inv by (simp add: swc_inv_def Let_def)
  show sizes: "swc_window_size ?c = ?W" "swc_limit ?c = swc_limit c" by (simp_all add: advance_window_def Let_def)
  have "swc_inv L now ?c \<and> swc_window_start ?c \<noteq> 0 \<and> swc_window_start ?c \<le> now \<and> now < swc_window_start ?c + ?W"
  proof (cases "?ws = 0")
    case True
    then show ?thesis using inv now W by (simp add: advance_window_def swc_inv_def Let_def)
  next
    case False
    note i = inv[unfolded swc_inv_def Let_def, simplified False, simplified]
    consider (same) "now - ?ws < ?W" | (rotate) "?W \<le> now - ?ws" "now - ?ws < 2 * ?W" | (late) "2 * ?W \<le> now - ?ws"
      by linarith
    then show ?thesis
    proof cases
      case same
      then have "?c = c" using False by (simp add: advance_window_def Let_def)
      then show ?thesis using inv now(3) False same by (simp add: swc_inv_def Let_def)
    next
      case rotate
      then have "(now - ?ws) div ?W = 1" by (simp add: int_div_pos_eq[where r = "now - ?ws - ?W"])
      then have c: "?c = c\<lparr>swc_previous_count := swc_current_count c, swc_current_count := 0, swc_window_start := ?ws + ?W\<rparr>"
        using False rotate by (simp add: advance_window_def Let_def)
      have "inside (?ws + ?W) (?ws + ?W + ?W) L = 0" using i by (intro inside_none) simp
      then show ?thesis using i W rotate by (auto simp: c swc_inv_def Let_def)
    next
      case late
      then have "2 \<le> (now - ?ws) div ?W" using zdiv_mono1[OF late W] W by simp
      then have c: "?c = c\<lparr>swc_previous_count := 0, swc_current_count := 0, swc_window_start := now\<rparr>"
        using False late W by (simp add: advance_window_def Let_def)
      have "\<forall>x \<in> set L. x < now - ?W" using i late by fastforce
      then have "inside now (now + ?W) L = 0" "inside (now - ?W) now L = 0" "\<forall>x \<in> set L. x < now + ?W"
        using W by (fastforce intro!: inside_none)+
      then show ?thesis using i W now(1) by (simp add: c swc_inv_def Let_def)
    qed
  qed
  then show "swc_inv L now ?c" "swc_window_start ?c \<noteq> 0" "swc_window_start ?c \<le> now"
    "now < swc_window_start ?c + ?W" by simp_all
qed

lemma allow_inv:
  assumes d: "double_rounding rnd" and inv: "swc_inv L m c" and now: "0 < now" "\<forall>x \<in> set L. x \<le> now" "swc_window_start c \<le> now"
    and run: "allow rnd now c = (ok, c')"
  shows "swc_inv (if ok then L @ [now] else L) now c'" "swc_window_start c' \<le> now"
    "swc_window_size c' = swc_window_size c" "swc_limit c' = swc_limit c"
proof -
  define a where "a = advance_window now c"
  let ?W = "swc_window_size a" and ?ws = "swc_window_start a"
  note adv = advance_window_inv[OF inv now, folded a_def]
  have ws: "?ws \<noteq> 0" "?ws \<le> now" "now < ?ws + ?W" using adv by simp_all
  let ?est = "weighted rnd (now - ?ws) ?W (swc_previous_count a) (swc_current_count a)"
  have res: "ok = (\<not> u32_double (swc_limit a) \<le> ?est)"
    "c' = (if ok then a\<lparr>swc_current_count := swc_current_count a + 1, swc_last_access := now\<rparr> else a)"
    using run by (auto simp: allow_def a_def[symmetric] Let_def split: if_splits)
  show "swc_window_start c' \<le> now" "swc_window_size c' = swc_window_size c" "swc_limit c' = swc_limit c"
    using adv res by simp_all
  show "swc_inv (if ok then L @ [now] else L) now c'"
  proof (cases ok)
    case False
    then show ?thesis using adv(1) res by simp
  next
    case True
    note i = adv(1)[unfolded swc_inv_def Let_def, simplified ws(1), simplified]
    let ?cur = "swc_current_count a" and ?lim = "unat (swc_limit a)"
    have "u32_double ?cur < u32_double (swc_limit a)"
      using True res(1) weighted_ge[OF d, of ?cur "now - ?ws" ?W "swc_previous_count a"] by linarith
    then have lt: "unat ?cur < ?lim" unfolding u32_double_def of_nat_less_iff .
    then have cur1: "unat (?cur + 1) = unat ?cur + 1"
      using unat_lt2p[of "swc_limit a"] by (subst unat_add_small) simp_all
    have bound: "inside t (t + ?W) (L @ [now]) \<le> 2 * ?lim" for t
    proof (cases "t \<le> now \<and> now < t + ?W")
      case False
      then show ?thesis using i by auto
    next
      case True
      have "inside t (t + ?W) L \<le> inside (?ws - ?W) (?ws + ?W) L"
      proof -
        have "inside t (t + ?W) L \<le> inside (?ws - ?W) (max (?ws + ?W) (t + ?W)) L"
          using True ws by (intro inside_mono) linarith+
        also have "\<dots> = inside (?ws - ?W) (?ws + ?W) L"
        proof -
          have "filter (\<lambda>x. ?ws - ?W \<le> x \<and> x < max (?ws + ?W) (t + ?W)) L = filter (\<lambda>x. ?ws - ?W \<le> x \<and> x < ?ws + ?W) L"
            using i by (intro filter_cong refl) auto
          then show ?thesis by (simp add: inside_def)
        qed
        finally show ?thesis .
      qed
      also have "\<dots> = inside (?ws - ?W) ?ws L + inside ?ws (?ws + ?W) L" using i by (intro inside_split) simp_all
      also have "\<dots> \<le> ?lim + unat ?cur" using i by simp
      finally show ?thesis using lt True by simp
    qed
    have "inside (?ws - ?W) ?ws (L @ [now]) \<le> ?lim" using i ws(2) by simp
    moreover have "unat (?cur + 1) = inside ?ws (?ws + ?W) (L @ [now])" using i cur1 ws by simp
    ultimately show ?thesis using True i ws lt cur1 bound by (simp add: res(2) swc_inv_def Let_def)
  qed
qed

lemma run_allow_inv:
  assumes "double_rounding rnd" and "swc_inv L m c" and "sorted ts" and "\<forall>t \<in> set ts. 0 < t \<and> m \<le> t"
    and "\<forall>x \<in> set L. x \<le> m" and "swc_window_start c \<le> m" and "run_allow rnd ts c = (acc, c')"
  shows "\<exists>m'. swc_inv (L @ acc) m' c' \<and> swc_window_size c' = swc_window_size c \<and> swc_limit c' = swc_limit c"
  using assms(2-)
proof (induction ts arbitrary: L m c acc)
  case (Cons t ts)
  obtain ok c1 where a: "allow rnd t c = (ok, c1)" by (cases "allow rnd t c")
  obtain acc1 where r: "run_allow rnd ts c1 = (acc1, c')" and acc: "acc = (if ok then t # acc1 else acc1)"
    using Cons.prems(6) by (auto simp: a split: prod.splits)
  let ?L = "if ok then L @ [t] else L"
  have "\<forall>x \<in> set L. x \<le> t" "swc_window_start c \<le> t" "0 < t" using Cons.prems by fastforce+
  note al = allow_inv[OF assms(1) Cons.prems(1) this(3,1,2) a]
  have "\<forall>x \<in> set ?L. x \<le> t" using \<open>\<forall>x \<in> set L. x \<le> t\<close> by simp
  then obtain m' where "swc_inv (?L @ acc1) m' c' \<and> swc_window_size c' = swc_window_size c1 \<and> swc_limit c' = swc_limit c1"
    using Cons.IH[OF al(1) _ _ _ al(2) r] Cons.prems(2,3) by auto
  moreover have "?L @ acc1 = L @ acc" by (simp add: acc)
  ultimately show ?case using al(3,4) by auto
qed auto

text \<open>
  C33: However requests arrive, a counter lets at most twice its limit through in any interval as
  long as its window, and its 32-bit counts never overflow.
\<close>

theorem sliding_window_bound:
  assumes "double_rounding rnd" and "sorted ts" and "\<forall>t \<in> set ts. 0 < t"
    and "run_allow rnd ts (SlidingWindowCounter_new limit window) = (acc, c')"
  shows "length (filter (\<lambda>x. t \<le> x \<and> x < t + max 1 window) acc) \<le> 2 * unat limit \<and>
    unat (swc_current_count c') \<le> unat limit"
proof -
  let ?c = "SlidingWindowCounter_new limit window"
  have W: "swc_window_size ?c = max 1 window" by (simp add: SlidingWindowCounter_new_def)
  have "swc_inv [] 0 ?c" by (simp add: swc_inv_def SlidingWindowCounter_new_def)
  then obtain m' where "swc_inv ([] @ acc) m' c'" and c': "swc_window_size c' = swc_window_size ?c" "swc_limit c' = swc_limit ?c"
    using run_allow_inv[OF assms(1) _ assms(2) _ _ _ assms(4), of "[]" 0] assms(3)
    by (fastforce simp: SlidingWindowCounter_new_def)
  then have "inside t (t + max 1 window) acc \<le> 2 * unat limit" "unat (swc_current_count c') \<le> unat limit"
    unfolding swc_inv_def Let_def c' W by (auto simp: SlidingWindowCounter_new_def split: if_splits)
  then show ?thesis by (simp add: inside_def)
qed

theorem sliding_window_bound_witness:
  "let (acc, c') = run_allow id [1, 2, 3, 12, 13] (SlidingWindowCounter_new 2 10)
   in acc = [1, 2, 12] \<and> length (filter (\<lambda>x. 2 \<le> x \<and> x < 2 + 10) acc) \<le> 4 \<and> unat (swc_current_count c') \<le> 2"
proof -
  obtain acc c' where r: "run_allow id [1, 2, 3, 12, 13] (SlidingWindowCounter_new 2 10) = (acc, c')"
    by (cases "run_allow id [1, 2, 3, 12, 13] (SlidingWindowCounter_new 2 10)")
  have "fst (run_allow id [1, 2, 3, 12, 13] (SlidingWindowCounter_new 2 10)) = [1, 2, 12]" by code_simp
  then have "acc = [1, 2, 12]" using r by simp
  moreover have "double_rounding id" by (simp add: double_rounding_def mono_def)
  ultimately show ?thesis unfolding r Let_def prod.case using sliding_window_bound[OF _ _ _ r, of 2] by simp
qed

end
