(* ===== verification/Per_Ip_Rate_Limiter.thy ===== *)
theory Per_Ip_Rate_Limiter
  imports Sliding_Window "HOL-Library.AList" "HOL-Library.Multiset"
begin

text \<open>
  \<open>apex_shared/lib/rate_limit/src/per_ip_rate_limiter.cpp\<close>: one counter per client address,
  bounded in number. The callbacks for timers are parameters that act on an environment; the
  task of a scheduled timer is \<open>remove_entry\<close> of an address.
\<close>

record PerIpRateLimiterConfig =
  pc_total_limit :: u32
  pc_window_size :: int
  pc_num_cores :: u32
  pc_max_entries :: u32
  pc_ttl_multiplier :: u32

record 'e ttl_callbacks =
  tc_schedule :: "int \<Rightarrow> string \<Rightarrow> 'e \<Rightarrow> u64 \<times> 'e"
  tc_cancel :: "u64 \<Rightarrow> 'e \<Rightarrow> 'e"
  tc_reschedule :: "u64 \<Rightarrow> int \<Rightarrow> 'e \<Rightarrow> 'e"

record ip_entry =
  ie_counter :: SlidingWindowCounter
  ie_timer_handle :: u64
  ie_lru_index :: u32

record PerIpRateLimiter =
  pl_config :: PerIpRateLimiterConfig
  pl_per_core_limit :: u32
  pl_ttl :: int
  pl_entries :: "(string \<times> ip_entry) list"
  pl_lru_order :: "string list"

definition per_core_limit_of :: "PerIpRateLimiterConfig \<Rightarrow> u32" where
  "per_core_limit_of config = max 1 (pc_total_limit config div max 1 (pc_num_cores config))"

text \<open>Seconds to milliseconds, and to the nanoseconds of the steady clock.\<close>

definition ttl_of :: "PerIpRateLimiterConfig \<Rightarrow> int" where
  "ttl_of config = pc_window_size config * int (unat (pc_ttl_multiplier config)) * 1000"

definition window_ns :: "PerIpRateLimiterConfig \<Rightarrow> int" where
  "window_ns config = pc_window_size config * 1000000000"

definition PerIpRateLimiter_new :: "PerIpRateLimiterConfig \<Rightarrow> PerIpRateLimiter" where
  "PerIpRateLimiter_new config = \<lparr>pl_config = config, pl_per_core_limit = per_core_limit_of config,
     pl_ttl = ttl_of config, pl_entries = [], pl_lru_order = []\<rparr>"

definition set_lru_index :: "string \<Rightarrow> u32 \<Rightarrow> PerIpRateLimiter \<Rightarrow> PerIpRateLimiter" where
  "set_lru_index ip i p =
     (case map_of (pl_entries p) ip of None \<Rightarrow> p
      | Some en \<Rightarrow> p\<lparr>pl_entries := AList.update ip (en\<lparr>ie_lru_index := i\<rparr>) (pl_entries p)\<rparr>)"

definition cancel_if_set :: "'e ttl_callbacks \<Rightarrow> ip_entry \<Rightarrow> 'e \<Rightarrow> 'e" where
  "cancel_if_set cbs en e = (if ie_timer_handle en \<noteq> 0 then tc_cancel cbs (ie_timer_handle en) e else e)"

definition evict_lru :: "'e ttl_callbacks \<Rightarrow> PerIpRateLimiter \<Rightarrow> 'e \<Rightarrow> PerIpRateLimiter \<times> 'e" where
  "evict_lru cbs p e =
     (if pl_lru_order p = [] then (p, e)
      else let oldest_ip = hd (pl_lru_order p);
               (p, e) = (case map_of (pl_entries p) oldest_ip of
                           Some en \<Rightarrow> (p\<lparr>pl_entries := AList.delete oldest_ip (pl_entries p)\<rparr>, cancel_if_set cbs en e)
                         | None \<Rightarrow> (p, e));
               p = (if 1 < length (pl_lru_order p)
                    then let back_ip = last (pl_lru_order p) in
                         (set_lru_index back_ip 0 p)
                           \<lparr>pl_lru_order := (pl_lru_order p)[0 := back_ip, length (pl_lru_order p) - 1 := oldest_ip]\<rparr>
                    else p)
           in (p\<lparr>pl_lru_order := butlast (pl_lru_order p)\<rparr>, e))"

definition pl_remove_entry :: "string \<Rightarrow> PerIpRateLimiter \<Rightarrow> PerIpRateLimiter" where
  "pl_remove_entry ip p =
     (case map_of (pl_entries p) ip of
        None \<Rightarrow> p
      | Some en \<Rightarrow>
          let lru_idx = unat (ie_lru_index en);
              p = p\<lparr>pl_entries := AList.delete ip (pl_entries p)\<rparr>
          in if lru_idx < length (pl_lru_order p)
             then let p = (if lru_idx \<noteq> length (pl_lru_order p) - 1
                           then let back_ip = last (pl_lru_order p) in
                                (set_lru_index back_ip (of_nat lru_idx) p)
                                  \<lparr>pl_lru_order := (pl_lru_order p)[lru_idx := back_ip,
                                     length (pl_lru_order p) - 1 := pl_lru_order p ! lru_idx]\<rparr>
                           else p)
                  in p\<lparr>pl_lru_order := butlast (pl_lru_order p)\<rparr>
             else p)"

definition touch_lru :: "string \<Rightarrow> u32 \<Rightarrow> PerIpRateLimiter \<Rightarrow> PerIpRateLimiter" where
  "touch_lru ip map_index p =
     (if length (pl_lru_order p) \<le> unat map_index then p
      else let last_idx = of_nat (length (pl_lru_order p) - 1) :: u32 in
      if map_index = last_idx then p
      else let back_ip = pl_lru_order p ! unat last_idx;
               p = set_lru_index back_ip map_index p;
               p = set_lru_index ip last_idx p
           in p\<lparr>pl_lru_order := (pl_lru_order p)[unat map_index := pl_lru_order p ! unat last_idx,
                                  unat last_idx := pl_lru_order p ! unat map_index]\<rparr>)"

text \<open>The call of \<open>allow\<close> on the counter inside an entry.\<close>

definition allow_entry :: "(rat \<Rightarrow> rat) \<Rightarrow> string \<Rightarrow> int \<Rightarrow> PerIpRateLimiter \<Rightarrow> bool \<times> PerIpRateLimiter" where
  "allow_entry rnd ip now p =
     (case map_of (pl_entries p) ip of None \<Rightarrow> (False, p)
      | Some en \<Rightarrow>
          let (ok, counter) = allow rnd now (ie_counter en)
          in (ok, p\<lparr>pl_entries := AList.update ip (en\<lparr>ie_counter := counter\<rparr>) (pl_entries p)\<rparr>))"

definition pl_allow ::
  "(rat \<Rightarrow> rat) \<Rightarrow> 'e ttl_callbacks \<Rightarrow> string \<Rightarrow> int \<Rightarrow> PerIpRateLimiter \<Rightarrow> 'e \<Rightarrow> bool \<times> PerIpRateLimiter \<times> 'e" where
  "pl_allow rnd cbs ip now p e =
     (case map_of (pl_entries p) ip of
        None \<Rightarrow>
          let (p, e) = (if unat (pc_max_entries (pl_config p)) \<le> length (pl_entries p) then evict_lru cbs p e else (p, e));
              (handle, e) = tc_schedule cbs (pl_ttl p) ip e;
              en = \<lparr>ie_counter = SlidingWindowCounter_new (pl_per_core_limit p) (window_ns (pl_config p)),
                    ie_timer_handle = handle, ie_lru_index = of_nat (length (pl_lru_order p))\<rparr>;
              p = p\<lparr>pl_entries := AList.update ip en (pl_entries p), pl_lru_order := pl_lru_order p @ [ip]\<rparr>;
              (ok, p) = allow_entry rnd ip now p
          in (ok, p, e)
      | Some en \<Rightarrow>
          let e = tc_reschedule cbs (ie_timer_handle en) (pl_ttl p) e;
              p = touch_lru ip (ie_lru_index en) p;
              (ok, p) = allow_entry rnd ip now p
          in (ok, p, e))"

definition pl_entry_count :: "PerIpRateLimiter \<Rightarrow> u32" where
  "pl_entry_count p = of_nat (length (pl_entries p))"

definition cancel_all :: "'e ttl_callbacks \<Rightarrow> PerIpRateLimiter \<Rightarrow> 'e \<Rightarrow> 'e" where
  "cancel_all cbs p e = fold (\<lambda>(ip, en). cancel_if_set cbs en) (pl_entries p) e"

definition pl_update_config :: "'e ttl_callbacks \<Rightarrow> PerIpRateLimiterConfig \<Rightarrow> PerIpRateLimiter \<Rightarrow> 'e \<Rightarrow> PerIpRateLimiter \<times> 'e" where
  "pl_update_config cbs config p e =
     (p\<lparr>pl_entries := [], pl_lru_order := [], pl_config := config,
        pl_per_core_limit := per_core_limit_of config, pl_ttl := ttl_of config\<rparr>, cancel_all cbs p e)"

section \<open>Lists with a hole filled from the back\<close>

definition fill_hole :: "nat \<Rightarrow> 'a list \<Rightarrow> 'a list" where
  "fill_hole i xs = butlast (if i \<noteq> length xs - 1 then xs[i := last xs, length xs - 1 := xs ! i] else xs)"

lemma mset_butlast: "xs \<noteq> [] \<Longrightarrow> mset (butlast xs) = mset xs - {#last xs#}"
  by (cases xs rule: rev_cases) simp_all

lemma last_swap: "i < length xs \<Longrightarrow> last (xs[i := last xs, length xs - 1 := xs ! i]) = xs ! i"
  by (subst last_conv_nth) (auto simp: nth_list_update)

lemma fill_hole_props:
  assumes "distinct xs" and "i < length xs"
  shows "distinct (fill_hole i xs)" "set (fill_hole i xs) = set xs - {xs ! i}"
    "length (fill_hole i xs) = length xs - 1"
    "j < length xs - 1 \<Longrightarrow> fill_hole i xs ! j = (if j = i then last xs else xs ! j)"
proof -
  have ne: "xs \<noteq> []" using assms(2) by auto
  let ?ys = "xs[i := last xs, length xs - 1 := xs ! i]"
  have "mset ?ys = mset xs"
    using mset_swap[of "length xs - 1" xs i] assms(2) ne by (simp add: last_conv_nth list_update_swap)
  moreover have "last ?ys = xs ! i" using last_swap[OF assms(2)] .
  moreover have "i = length xs - 1 \<Longrightarrow> last xs = xs ! i" using ne by (simp add: last_conv_nth)
  ultimately have "mset (fill_hole i xs) = mset xs - {#xs ! i#}"
    using mset_butlast[OF ne] mset_butlast[of ?ys] ne by (auto simp: fill_hole_def)
  then have m: "mset (fill_hole i xs) = mset (remove1 (xs ! i) xs)" by simp
  show "distinct (fill_hole i xs)" using assms(1) mset_eq_imp_distinct_iff[OF m] by simp
  show "set (fill_hole i xs) = set xs - {xs ! i}" using assms(1) mset_eq_setD[OF m] by simp
  show "length (fill_hole i xs) = length xs - 1" by (simp add: fill_hole_def)
  show "j < length xs - 1 \<Longrightarrow> fill_hole i xs ! j = (if j = i then last xs else xs ! j)"
    by (auto simp: fill_hole_def nth_butlast nth_list_update)
qed

section \<open>Invariant\<close>

text \<open>The table \<open>E\<close> and the order list agree, position by position; counters have limit \<open>l\<close>.\<close>

definition lru_ok :: "(string \<rightharpoonup> ip_entry) \<Rightarrow> u32 \<Rightarrow> string list \<Rightarrow> bool" where
  "lru_ok E l lru \<longleftrightarrow>
     distinct lru \<and> dom E = set lru \<and> length lru < 2 ^ 32 \<and>
     (\<forall>ip en. E ip = Some en \<longrightarrow>
        unat (ie_lru_index en) < length lru \<and> lru ! unat (ie_lru_index en) = ip \<and> swc_limit (ie_counter en) = l)"

definition pl_inv :: "PerIpRateLimiter \<Rightarrow> bool" where
  "pl_inv p \<longleftrightarrow> distinct (map fst (pl_entries p)) \<and> lru_ok (map_of (pl_entries p)) (pl_per_core_limit p) (pl_lru_order p)"

lemma pl_inv_length: "pl_inv p \<Longrightarrow> length (pl_entries p) = length (pl_lru_order p)"
  unfolding pl_inv_def lru_ok_def by (metis distinct_card dom_map_of_conv_image_fst length_map set_map)

lemma lru_okD:
  assumes "lru_ok E l lru"
  shows "distinct lru" "dom E = set lru" "length lru < 2 ^ 32"
    "E ip = Some en \<Longrightarrow> unat (ie_lru_index en) < length lru"
    "E ip = Some en \<Longrightarrow> lru ! unat (ie_lru_index en) = ip"
    "E ip = Some en \<Longrightarrow> swc_limit (ie_counter en) = l"
  using assms by (auto simp: lru_ok_def)

lemma unat_index: "n < 2 ^ 32 \<Longrightarrow> unat (of_nat n :: u32) = n"
  by (intro unat_of_nat_small) simp

lemma lru_ok_hole:
  assumes ok: "lru_ok E l lru" and i: "i < length lru" and b: "E (last lru) = Some b"
  shows "lru_ok (if i \<noteq> length lru - 1 then (E(lru ! i := None))(last lru \<mapsto> b\<lparr>ie_lru_index := of_nat i\<rparr>) else E(lru ! i := None))
    l (fill_hole i lru)"
proof -
  note D = lru_okD[OF ok] and F = fill_hole_props[OF lru_okD(1)[OF ok] i]
  have ne: "lru \<noteq> []" using i by auto
  have ui: "unat (of_nat i :: u32) = i" using i D(3) by (intro unat_index) simp
  have lst: "last lru = lru ! (length lru - 1)" using ne by (simp add: last_conv_nth)
  have neq: "last lru \<noteq> lru ! i" if "i \<noteq> length lru - 1"
    using that i D(1) ne by (simp add: lst nth_eq_iff_index_eq)
  have old: "unat (ie_lru_index en) < length lru - 1 \<and> fill_hole i lru ! unat (ie_lru_index en) = ip"
    if "E ip = Some en" "ip \<noteq> lru ! i" "ip \<noteq> last lru \<or> i = length lru - 1" for ip en
  proof -
    have "unat (ie_lru_index en) \<noteq> length lru - 1" using D(5)[OF that(1)] that(2,3) lst by auto
    then have lt: "unat (ie_lru_index en) < length lru - 1" using D(4)[OF that(1)] by simp
    moreover have "unat (ie_lru_index en) \<noteq> i" using D(5)[OF that(1)] that(2) by auto
    ultimately show ?thesis using F(4)[OF lt] D(5)[OF that(1)] by simp
  qed
  show ?thesis
  proof (cases "i = length lru - 1")
    case True
    then show ?thesis using D F old unfolding lru_ok_def by (auto split: if_splits)
  next
    case False
    then have "i < length lru - 1" using i by simp
    from F(4)[OF this] have "fill_hole i lru ! i = last lru" by simp
    moreover have "last lru \<in> set lru - {lru ! i}" using neq[OF False] ne by simp
    moreover have "swc_limit (ie_counter b) = l" using D(6)[OF b] .
    ultimately show ?thesis using False D F old ui \<open>i < length lru - 1\<close> neq[OF False] unfolding lru_ok_def
      by (auto split: if_splits)
  qed
qed

lemma lru_ok_swap:
  assumes ok: "lru_ok E l lru" and i: "i < length lru" "i \<noteq> length lru - 1"
    and a: "E (lru ! i) = Some a" and b: "E (lru ! (length lru - 1)) = Some b"
  shows "lru_ok (E(lru ! (length lru - 1) \<mapsto> b\<lparr>ie_lru_index := of_nat i\<rparr>, lru ! i \<mapsto> a\<lparr>ie_lru_index := of_nat (length lru - 1)\<rparr>))
    l (lru[i := lru ! (length lru - 1), length lru - 1 := lru ! i])"
proof -
  note D = lru_okD[OF ok]
  let ?n = "length lru - 1" let ?lru = "lru[i := lru ! ?n, ?n := lru ! i]"
  have n: "?n < length lru" using i by simp
  have u: "unat (of_nat i :: u32) = i" "unat (of_nat ?n :: u32) = ?n"
    by (rule unat_index, use i D(3) in simp)+
  have "mset ?lru = mset lru" using mset_swap[OF n i(1)] i by (simp add: list_update_swap)
  then have d: "distinct ?lru" "set ?lru = set lru" using D(1) mset_eq_imp_distinct_iff mset_eq_setD by blast+
  have neq: "lru ! ?n \<noteq> lru ! i" using D(1) i n by (simp add: nth_eq_iff_index_eq)
  have old: "?lru ! unat (ie_lru_index en) = ip" if "E ip = Some en" "ip \<noteq> lru ! i" "ip \<noteq> lru ! ?n" for ip en
  proof -
    have "unat (ie_lru_index en) \<noteq> i" "unat (ie_lru_index en) \<noteq> ?n" using D(5)[OF that(1)] that(2,3) by auto
    then show ?thesis using D(5)[OF that(1)] by simp
  qed
  have "lru ! i \<in> set lru" "lru ! ?n \<in> set lru" using i n by simp_all
  then show ?thesis unfolding lru_ok_def using d D(2-4,6) old u i n neq a b
    by (auto simp: nth_list_update split: if_splits)
qed

lemma lru_ok_back: "lru_ok E l lru \<Longrightarrow> lru \<noteq> [] \<Longrightarrow> \<exists>b. E (last lru) = Some b"
  unfolding lru_ok_def by (metis domD last_in_set)

lemma set_lru_index_fields [simp]:
  "pl_lru_order (set_lru_index ip i p) = pl_lru_order p" "pl_config (set_lru_index ip i p) = pl_config p"
  "pl_per_core_limit (set_lru_index ip i p) = pl_per_core_limit p" "pl_ttl (set_lru_index ip i p) = pl_ttl p"
  "distinct (map fst (pl_entries p)) \<Longrightarrow> distinct (map fst (pl_entries (set_lru_index ip i p)))"
  by (auto simp: set_lru_index_def distinct_update split: option.split)

lemma set_lru_index_map:
  "map_of (pl_entries p) ip = Some en \<Longrightarrow>
   map_of (pl_entries (set_lru_index ip i p)) = (map_of (pl_entries p))(ip \<mapsto> en\<lparr>ie_lru_index := i\<rparr>)"
  by (simp add: set_lru_index_def update_conv')

text \<open>Taking the entry at position \<open>i\<close> out, as both eviction and expiry do it.\<close>

definition drop_at :: "nat \<Rightarrow> PerIpRateLimiter \<Rightarrow> PerIpRateLimiter" where
  "drop_at i p =
     (let lru = pl_lru_order p;
          p = p\<lparr>pl_entries := AList.delete (lru ! i) (pl_entries p)\<rparr>;
          p = (if i \<noteq> length lru - 1 then set_lru_index (last lru) (of_nat i) p else p)
      in p\<lparr>pl_lru_order := fill_hole i lru\<rparr>)"

lemma drop_at_inv:
  assumes "pl_inv p" and i: "i < length (pl_lru_order p)"
  shows "pl_inv (drop_at i p)" "pl_config (drop_at i p) = pl_config p" "pl_per_core_limit (drop_at i p) = pl_per_core_limit p"
    "length (pl_lru_order (drop_at i p)) = length (pl_lru_order p) - 1" "pl_ttl (drop_at i p) = pl_ttl p"
    "map_of (pl_entries (drop_at i p)) (pl_lru_order p ! i) = None"
proof -
  let ?lru = "pl_lru_order p" and ?E = "map_of (pl_entries p)"
  let ?p = "p\<lparr>pl_entries := AList.delete (?lru ! i) (pl_entries p)\<rparr>"
  have ok: "lru_ok ?E (pl_per_core_limit p) ?lru" and d: "distinct (map fst (pl_entries p))"
    using assms(1) by (simp_all add: pl_inv_def)
  have ne: "?lru \<noteq> []" using i by auto
  obtain b where b: "?E (last ?lru) = Some b" using lru_ok_back[OF ok ne] by blast
  have neq: "last ?lru \<noteq> ?lru ! i" if "i \<noteq> length ?lru - 1"
    using that i lru_okD(1)[OF ok] ne by (simp add: last_conv_nth nth_eq_iff_index_eq)
  have m: "map_of (pl_entries (drop_at i p)) =
      (if i \<noteq> length ?lru - 1 then (?E(?lru ! i := None))(last ?lru \<mapsto> b\<lparr>ie_lru_index := of_nat i\<rparr>) else ?E(?lru ! i := None))"
    using neq b by (auto simp: drop_at_def Let_def delete_conv' set_lru_index_map)
  show "map_of (pl_entries (drop_at i p)) (?lru ! i) = None"
    unfolding m by (cases "i = length ?lru - 1", simp, use neq in simp)
  show f: "pl_config (drop_at i p) = pl_config p" "pl_per_core_limit (drop_at i p) = pl_per_core_limit p"
    "length (pl_lru_order (drop_at i p)) = length ?lru - 1" "pl_ttl (drop_at i p) = pl_ttl p"
    using fill_hole_props(3)[OF lru_okD(1)[OF ok] i] by (simp_all add: drop_at_def Let_def)
  have "distinct (map fst (pl_entries (drop_at i p)))" using d by (simp add: drop_at_def Let_def distinct_delete)
  then show "pl_inv (drop_at i p)"
    using lru_ok_hole[OF ok i b] unfolding pl_inv_def m f by (simp add: drop_at_def Let_def)
qed

lemma evict_lru_conv:
  assumes "pl_inv p" and "pl_lru_order p \<noteq> []"
  shows "fst (evict_lru cbs p e) = drop_at 0 p"
proof -
  have "hd (pl_lru_order p) \<in> dom (map_of (pl_entries p))" using assms by (simp add: pl_inv_def lru_ok_def)
  then obtain en where "map_of (pl_entries p) (hd (pl_lru_order p)) = Some en" by blast
  then show ?thesis using assms(2)
    by (cases "pl_lru_order p") (simp_all add: evict_lru_def drop_at_def fill_hole_def Let_def)
qed

lemma pl_remove_entry_conv:
  assumes "pl_inv p" and "map_of (pl_entries p) ip = Some en"
  shows "pl_remove_entry ip p = drop_at (unat (ie_lru_index en)) p"
proof -
  have ok: "lru_ok (map_of (pl_entries p)) (pl_per_core_limit p) (pl_lru_order p)" using assms(1) by (simp add: pl_inv_def)
  show ?thesis using lru_okD(4,5)[OF ok assms(2)] assms(2)
    by (auto simp: pl_remove_entry_def drop_at_def fill_hole_def Let_def)
qed

lemma touch_lru_inv:
  assumes "pl_inv p" and en: "map_of (pl_entries p) ip = Some en"
  shows "pl_inv (touch_lru ip (ie_lru_index en) p)" "pl_config (touch_lru ip (ie_lru_index en) p) = pl_config p"
    "pl_per_core_limit (touch_lru ip (ie_lru_index en) p) = pl_per_core_limit p"
    "length (pl_lru_order (touch_lru ip (ie_lru_index en) p)) = length (pl_lru_order p)"
    "map_of (pl_entries (touch_lru ip (ie_lru_index en) p)) ip \<noteq> None"
proof -
  let ?lru = "pl_lru_order p" and ?E = "map_of (pl_entries p)" and ?i = "unat (ie_lru_index en)"
  let ?n = "length ?lru - 1" and ?p = "touch_lru ip (ie_lru_index en) p"
  have ok: "lru_ok ?E (pl_per_core_limit p) ?lru" and d: "distinct (map fst (pl_entries p))"
    using assms(1) by (simp_all add: pl_inv_def)
  note D = lru_okD[OF ok]
  have i: "?i < length ?lru" "?lru ! ?i = ip" using D(4,5)[OF en] by simp_all
  have n: "unat (of_nat ?n :: u32) = ?n" using D(3) by (intro unat_index) simp
  show "pl_config ?p = pl_config p" and lim: "pl_per_core_limit ?p = pl_per_core_limit p"
    and "length (pl_lru_order ?p) = length ?lru"
    by (simp_all add: touch_lru_def Let_def)
  have "pl_inv ?p \<and> map_of (pl_entries ?p) ip \<noteq> None"
  proof (cases "ie_lru_index en = of_nat ?n")
    case True
    then show ?thesis using assms(1) en by (simp add: touch_lru_def)
  next
    case False
    then have neq: "?i \<noteq> ?n" using n by (metis word_unat_eq_iff)
    have ne: "?lru \<noteq> []" using i by auto
    obtain b where b: "?E (?lru ! ?n) = Some b" using lru_ok_back[OF ok ne] ne by (auto simp: last_conv_nth)
    have ipn: "?lru ! ?n \<noteq> ip" using D(1) i neq by (metis diff_less length_greater_0_conv ne nth_eq_iff_index_eq zero_less_one)
    let ?p1 = "set_lru_index (?lru ! ?n) (ie_lru_index en) p"
    have m1: "map_of (pl_entries ?p1) = ?E(?lru ! ?n \<mapsto> b\<lparr>ie_lru_index := ie_lru_index en\<rparr>)" using set_lru_index_map[OF b] .
    then have "map_of (pl_entries ?p1) ip = Some en" using ipn en by simp
    from set_lru_index_map[OF this, of "of_nat ?n"]
    have m: "map_of (pl_entries ?p) = ?E(?lru ! ?n \<mapsto> b\<lparr>ie_lru_index := ie_lru_index en\<rparr>, ip \<mapsto> en\<lparr>ie_lru_index := of_nat ?n\<rparr>)"
      using False i n by (simp add: touch_lru_def Let_def m1[simplified])
    have lru: "pl_lru_order ?p = ?lru[?i := ?lru ! ?n, ?n := ?lru ! ?i]"
      using False i n by (simp add: touch_lru_def Let_def)
    have "distinct (map fst (pl_entries ?p))" using d False i by (simp add: touch_lru_def Let_def)
    moreover have "lru_ok (map_of (pl_entries ?p)) (pl_per_core_limit p) (pl_lru_order ?p)"
      using lru_ok_swap[OF ok i(1) neq, of en b] en b i(2) unfolding m lru by simp
    ultimately show ?thesis unfolding pl_inv_def lim by (simp add: m)
  qed
  then show "pl_inv ?p" "map_of (pl_entries ?p) ip \<noteq> None" by simp_all
qed

lemma allow_entry_inv:
  assumes "pl_inv p" and "allow_entry rnd ip now p = (ok, p')"
  shows "pl_inv p'" "pl_config p' = pl_config p" "pl_lru_order p' = pl_lru_order p"
proof -
  have "pl_inv p' \<and> pl_config p' = pl_config p \<and> pl_lru_order p' = pl_lru_order p"
  proof (cases "map_of (pl_entries p) ip")
    case (Some en)
    obtain c where a: "allow rnd now (ie_counter en) = (ok, c)" and p': "p' = p\<lparr>pl_entries := AList.update ip (en\<lparr>ie_counter := c\<rparr>) (pl_entries p)\<rparr>"
      using assms(2) by (auto simp: allow_entry_def Some Let_def split: prod.splits)
    have "swc_limit c = swc_limit (ie_counter en)"
      using a by (auto simp: allow_def advance_window_def Let_def split: if_splits)
    then show ?thesis using assms(1) Some
      by (auto simp: p' pl_inv_def lru_ok_def distinct_update update_conv' split: if_splits)
  qed (use assms in \<open>simp add: allow_entry_def\<close>)
  then show "pl_inv p'" "pl_config p' = pl_config p" "pl_lru_order p' = pl_lru_order p" by simp_all
qed

definition pl_bounded :: "PerIpRateLimiter \<Rightarrow> bool" where
  "pl_bounded p \<longleftrightarrow> pl_inv p \<and> length (pl_lru_order p) \<le> max 1 (unat (pc_max_entries (pl_config p)))"

lemma append_entry_inv:
  assumes "pl_inv p" and "map_of (pl_entries p) ip = None" and "Suc (length (pl_lru_order p)) < 2 ^ 32"
    and "ie_lru_index en = of_nat (length (pl_lru_order p))" and "swc_limit (ie_counter en) = pl_per_core_limit p"
  shows "pl_inv (p\<lparr>pl_entries := AList.update ip en (pl_entries p), pl_lru_order := pl_lru_order p @ [ip]\<rparr>)"
proof -
  have u: "unat (of_nat (length (pl_lru_order p)) :: u32) = length (pl_lru_order p)" using assms(3) by (intro unat_index) simp
  have "ip \<notin> set (pl_lru_order p)" using assms(1,2) by (auto simp: pl_inv_def lru_ok_def)
  then show ?thesis using assms u
    by (auto simp: pl_inv_def lru_ok_def distinct_update update_conv' nth_append less_Suc_eq split: if_splits)
qed

lemma drop_at_absent:
  assumes "pl_inv p" and "i < length (pl_lru_order p)" and "map_of (pl_entries p) ip = None"
  shows "map_of (pl_entries (drop_at i p)) ip = None"
proof -
  have "distinct (pl_lru_order p)" "dom (map_of (pl_entries p)) = set (pl_lru_order p)"
    using assms(1) by (simp_all add: pl_inv_def lru_ok_def)
  moreover have "dom (map_of (pl_entries (drop_at i p))) = set (pl_lru_order (drop_at i p))"
    using drop_at_inv(1)[OF assms(1,2)] by (simp add: pl_inv_def lru_ok_def)
  moreover have "pl_lru_order (drop_at i p) = fill_hole i (pl_lru_order p)" by (simp add: drop_at_def Let_def)
  ultimately show ?thesis using assms(2,3) fill_hole_props(2)[of "pl_lru_order p" i] by auto
qed

lemma make_room:
  assumes "pl_bounded p" and "map_of (pl_entries p) ip = None"
    and "(if unat (pc_max_entries (pl_config p)) \<le> length (pl_entries p) then evict_lru cbs p e else (p, e)) = (p1, e1)"
  shows "pl_inv p1" "map_of (pl_entries p1) ip = None" "pl_config p1 = pl_config p"
    "Suc (length (pl_lru_order p1)) \<le> max 1 (unat (pc_max_entries (pl_config p)))"
    "Suc (length (pl_lru_order p1)) < 2 ^ 32"
proof -
  let ?m = "unat (pc_max_entries (pl_config p))"
  have inv: "pl_inv p" and len: "length (pl_lru_order p) \<le> max 1 ?m" using assms(1) by (simp_all add: pl_bounded_def)
  note le = pl_inv_length[OF inv]
  have "pl_inv p1 \<and> map_of (pl_entries p1) ip = None \<and> pl_config p1 = pl_config p \<and> Suc (length (pl_lru_order p1)) \<le> max 1 ?m"
  proof (cases "?m \<le> length (pl_entries p) \<and> pl_lru_order p \<noteq> []")
    case True
    then have i: "0 < length (pl_lru_order p)" by simp
    have "p1 = drop_at 0 p" using True assms(3) evict_lru_conv[OF inv, of cbs e] by (metis fst_conv)
    then show ?thesis using drop_at_inv[OF inv i] drop_at_absent[OF inv i assms(2)] len i by simp
  next
    case False
    then have "p1 = p" using assms(3) by (auto simp: evict_lru_def split: if_splits)
    then show ?thesis using False inv assms(2) le by auto
  qed
  then show "pl_inv p1" "map_of (pl_entries p1) ip = None" "pl_config p1 = pl_config p"
    "Suc (length (pl_lru_order p1)) \<le> max 1 ?m" by simp_all
  then show "Suc (length (pl_lru_order p1)) < 2 ^ 32"
    using unat_lt2p[of "pc_max_entries (pl_config p)"] by (simp add: max_def split: if_splits)
qed

lemma pl_allow_bounded:
  assumes "pl_bounded p" and "pl_allow rnd cbs ip now p e = (ok, p', e')"
  shows "pl_bounded p'" "pl_config p' = pl_config p"
proof -
  have inv: "pl_inv p" using assms(1) by (simp add: pl_bounded_def)
  have "pl_bounded p' \<and> pl_config p' = pl_config p"
  proof (cases "map_of (pl_entries p) ip")
    case None
    obtain p1 e1 where r: "(if unat (pc_max_entries (pl_config p)) \<le> length (pl_entries p) then evict_lru cbs p e else (p, e)) = (p1, e1)"
      by fastforce
    note room = make_room[OF assms(1) None r]
    obtain handle e2 where h: "tc_schedule cbs (pl_ttl p1) ip e1 = (handle, e2)" by fastforce
    let ?en = "\<lparr>ie_counter = SlidingWindowCounter_new (pl_per_core_limit p1) (window_ns (pl_config p1)),
      ie_timer_handle = handle, ie_lru_index = of_nat (length (pl_lru_order p1))\<rparr>"
    let ?p2 = "p1\<lparr>pl_entries := AList.update ip ?en (pl_entries p1), pl_lru_order := pl_lru_order p1 @ [ip]\<rparr>"
    have inv2: "pl_inv ?p2" using room by (intro append_entry_inv) (simp_all add: SlidingWindowCounter_new_def)
    have a: "allow_entry rnd ip now ?p2 = (ok, p')"
      using assms(2) unfolding pl_allow_def None option.case r Let_def prod.case h
      by (cases "allow_entry rnd ip now ?p2") simp
    show ?thesis using allow_entry_inv[OF inv2 a] room by (simp add: pl_bounded_def)
  next
    case (Some en)
    let ?p1 = "touch_lru ip (ie_lru_index en) p"
    note t = touch_lru_inv[OF inv Some]
    have a: "allow_entry rnd ip now ?p1 = (ok, p')"
      using assms(2) by (simp add: pl_allow_def Some Let_def split: prod.splits)
    show ?thesis using allow_entry_inv[OF t(1) a] t assms(1) by (simp add: pl_bounded_def)
  qed
  then show "pl_bounded p'" "pl_config p' = pl_config p" by simp_all
qed

section \<open>Any history of requests, expiries and reloads\<close>

datatype ip_op = Ip_allow string int | Ip_expire string | Ip_update PerIpRateLimiterConfig

fun ip_step :: "(rat \<Rightarrow> rat) \<Rightarrow> 'e ttl_callbacks \<Rightarrow> ip_op \<Rightarrow> PerIpRateLimiter \<times> 'e \<Rightarrow> PerIpRateLimiter \<times> 'e" where
  "ip_step rnd cbs (Ip_allow ip now) (p, e) = snd (pl_allow rnd cbs ip now p e)"
| "ip_step rnd cbs (Ip_expire ip) (p, e) = (pl_remove_entry ip p, e)"
| "ip_step rnd cbs (Ip_update config) (p, e) = pl_update_config cbs config p e"

lemma ip_step_bounded:
  assumes "pl_bounded (fst s)"
  shows "pl_bounded (fst (ip_step rnd cbs op s))"
proof -
  obtain p e where s: "s = (p, e)" by (cases s)
  show ?thesis
  proof (cases op)
    case (Ip_allow ip now)
    obtain ok p' e' where "pl_allow rnd cbs ip now p e = (ok, p', e')" by (cases "pl_allow rnd cbs ip now p e") auto
    with pl_allow_bounded(1)[of p rnd cbs ip now e ok p' e'] assms show ?thesis by (simp add: s Ip_allow)
  next
    case (Ip_expire ip)
    show ?thesis
    proof (cases "map_of (pl_entries p) ip")
      case None
      then show ?thesis using assms by (simp add: s Ip_expire pl_remove_entry_def)
    next
      case (Some en)
      have inv: "pl_inv p" using assms by (simp add: s pl_bounded_def)
      then have "unat (ie_lru_index en) < length (pl_lru_order p)" using Some by (simp add: pl_inv_def lru_ok_def)
      from drop_at_inv(1,2,4)[OF inv this] show ?thesis
        using assms by (auto simp: s Ip_expire pl_remove_entry_conv[OF inv Some] pl_bounded_def)
    qed
  next
    case (Ip_update config)
    show ?thesis by (simp add: s Ip_update pl_update_config_def pl_bounded_def pl_inv_def lru_ok_def)
  qed
qed

lemma ip_run_bounded: "pl_bounded (fst s) \<Longrightarrow> pl_bounded (fst (fold (ip_step rnd cbs) ops s))"
  by (induction ops arbitrary: s) (simp_all add: ip_step_bounded)


definition no_timers :: "unit ttl_callbacks" where
  "no_timers = \<lparr>tc_schedule = (\<lambda>d ip e. (0, e)), tc_cancel = (\<lambda>h e. e), tc_reschedule = (\<lambda>h d e. e)\<rparr>"

definition three_ips :: PerIpRateLimiterConfig where
  "three_ips = \<lparr>pc_total_limit = 4, pc_window_size = 60, pc_num_cores = 2, pc_max_entries = 3, pc_ttl_multiplier = 2\<rparr>"


text \<open>
  The order list is not an order of use: moving an entry to the back swaps it with the one there.
  After requests from a, b, c and a again, the least recent address is b, but the next new
  address evicts c.
\<close>

lemma eviction_not_lru:
  "map fst (pl_entries (fst (fold (ip_step id no_timers)
     [Ip_allow ''a'' 1, Ip_allow ''b'' 2, Ip_allow ''c'' 3, Ip_allow ''a'' 4, Ip_allow ''d'' 5]
     (PerIpRateLimiter_new three_ips, ())))) = [''a'', ''b'', ''d'']"
  by code_simp

end
