(* ===== verification/Redis_Rate_Limiter.thy ===== *)
theory Redis_Rate_Limiter
  imports Per_Ip_Rate_Limiter Decimal
begin

text \<open>
  \<open>apex_shared/lib/rate_limit\<close>: the limits kept in Redis (the Lua script and the client around
  it), the limits per endpoint, and the facade over the three layers. The connection to Redis is
  a parameter, a function from a command to a reply. The script works on a store of the keys it
  uses, whose values are always integers, with their expiry; \<open>rnow\<close> is the server's clock.
\<close>

section \<open>The script\<close>

record redis_value =
  rv_value :: int
  rv_expire :: "int option"

type_synonym redis_store = "string \<Rightarrow> redis_value option"

definition redis_get :: "int \<Rightarrow> string \<Rightarrow> redis_store \<Rightarrow> int option" where
  "redis_get rnow k st =
     (case st k of None \<Rightarrow> None
      | Some v \<Rightarrow> (case rv_expire v of Some t \<Rightarrow> if t \<le> rnow then None else Some (rv_value v) | None \<Rightarrow> Some (rv_value v)))"

definition redis_set :: "string \<Rightarrow> int \<Rightarrow> redis_store \<Rightarrow> redis_store" where
  "redis_set k v st = st(k \<mapsto> \<lparr>rv_value = v, rv_expire = None\<rparr>)"

definition redis_pexpire :: "int \<Rightarrow> string \<Rightarrow> int \<Rightarrow> redis_store \<Rightarrow> redis_store" where
  "redis_pexpire rnow k ms st =
     (case redis_get rnow k st of None \<Rightarrow> st
      | Some v \<Rightarrow> if ms \<le> 0 then st(k := None) else st(k \<mapsto> \<lparr>rv_value = v, rv_expire = Some (rnow + ms)\<rparr>))"

definition redis_incr :: "int \<Rightarrow> string \<Rightarrow> redis_store \<Rightarrow> redis_store" where
  "redis_incr rnow k st =
     (case redis_get rnow k st of
        None \<Rightarrow> st(k \<mapsto> \<lparr>rv_value = 1, rv_expire = None\<rparr>)
      | Some v \<Rightarrow> st(k \<mapsto> \<lparr>rv_value = v + 1, rv_expire = rv_expire (the (st k))\<rparr>))"

definition get_or_0 :: "int \<Rightarrow> string \<Rightarrow> redis_store \<Rightarrow> int" where
  "get_or_0 rnow k st = (case redis_get rnow k st of Some v \<Rightarrow> v | None \<Rightarrow> 0)"

text \<open>Numbers of Lua are doubles.\<close>

definition lua_weighted :: "(rat \<Rightarrow> rat) \<Rightarrow> int \<Rightarrow> int \<Rightarrow> int \<Rightarrow> int \<Rightarrow> rat" where
  "lua_weighted rnd elapsed window_ms prev_count cur_count =
     (let ratio = rnd (rnd (of_int elapsed) / rnd (of_int window_ms));
          ratio = (if 1 < ratio then 1 else ratio)
      in rnd (rnd (of_int prev_count * rnd (1 - ratio)) + of_int cur_count))"

definition lua_script ::
  "(rat \<Rightarrow> rat) \<Rightarrow> int \<Rightarrow> string \<Rightarrow> string \<Rightarrow> int \<Rightarrow> int \<Rightarrow> int \<Rightarrow> redis_store \<Rightarrow> (int \<times> int \<times> int) \<times> redis_store" where
  "lua_script rnd rnow cur_key prev_key limit window_ms now_ms st =
     (let cur_count = get_or_0 rnow cur_key st;
          prev_count = get_or_0 rnow prev_key st;
          meta_key = cur_key @ '':meta'';
          window_start = get_or_0 rnow meta_key st;
          (window_start, st) =
            (if window_start = 0
             then (now_ms, redis_pexpire rnow meta_key (window_ms * 3) (redis_set meta_key now_ms st))
             else (window_start, st));
          elapsed = now_ms - window_start;
          (cur_count, prev_count, window_start, elapsed, st) =
            (if window_ms \<le> elapsed
             then let windows_passed = elapsed div window_ms;
                      (cur_count, prev_count, window_start, st) =
                        (if windows_passed = 1
                         then (0, prev_count, window_start + window_ms,
                               redis_set cur_key 0 (redis_pexpire rnow prev_key (window_ms * 2) (redis_set prev_key cur_count st)))
                         else (0, 0, now_ms,
                               redis_set cur_key 0 (redis_pexpire rnow prev_key (window_ms * 2) (redis_set prev_key 0 st))));
                      st = redis_pexpire rnow meta_key (window_ms * 3) (redis_set meta_key window_start st)
                  in (cur_count, prev_count, window_start, now_ms - window_start, st)
             else (cur_count, prev_count, window_start, elapsed, st));
          estimate = lua_weighted rnd elapsed window_ms prev_count cur_count
      in if of_int limit \<le> estimate
         then ((0, \<lfloor>estimate\<rfloor>, max 0 (window_ms - elapsed)), st)
         else ((1, \<lfloor>estimate\<rfloor>, 0), redis_pexpire rnow cur_key (window_ms * 2) (redis_incr rnow cur_key st)))"

section \<open>The client\<close>

datatype reply_type = REPLY_STRING | REPLY_ARRAY | REPLY_INTEGER | REPLY_NIL | REPLY_STATUS | REPLY_ERROR

datatype RedisReply = RedisReply (rr_str: string) (rr_integer: int) (rr_type: reply_type) (rr_array: "RedisReply list")

definition rr_is_string :: "RedisReply \<Rightarrow> bool" where
  "rr_is_string r \<longleftrightarrow> rr_type r = REPLY_STRING \<or> rr_type r = REPLY_STATUS"

definition rr_is_array :: "RedisReply \<Rightarrow> bool" where
  "rr_is_array r \<longleftrightarrow> rr_type r = REPLY_ARRAY"

record RateLimitResult =
  rl_allowed :: bool
  rl_estimated_count :: u32
  rl_retry_after_ms :: u32

record RedisRateLimiter =
  rrl_default_limit :: u32
  rrl_window_size :: int
  rrl_script_sha :: string

type_synonym 'e redis_command = "string list \<Rightarrow> 'e \<Rightarrow> RedisReply result \<times> 'e"

definition RedisRateLimiter_new :: "u32 \<Rightarrow> int \<Rightarrow> RedisRateLimiter" where
  "RedisRateLimiter_new default_limit window_size =
     \<lparr>rrl_default_limit = default_limit, rrl_window_size = window_size, rrl_script_sha = ''''\<rparr>"

definition rrl_update_config :: "u32 \<Rightarrow> int \<Rightarrow> RedisRateLimiter \<Rightarrow> RedisRateLimiter" where
  "rrl_update_config default_limit window_size l = l\<lparr>rrl_default_limit := default_limit, rrl_window_size := window_size\<rparr>"

definition load_script :: "'e redis_command \<Rightarrow> string \<Rightarrow> RedisRateLimiter \<Rightarrow> 'e \<Rightarrow> unit result \<times> RedisRateLimiter \<times> 'e" where
  "load_script command script l e =
     (case command [''SCRIPT'', ''LOAD'', script] e of
        (Inl err, e) \<Rightarrow> (Inl err, l, e)
      | (Inr r, e) \<Rightarrow> if \<not> rr_is_string r then (Inl AdapterError, l, e) else (Inr (), l\<lparr>rrl_script_sha := rr_str r\<rparr>, e))"

definition execute_lua ::
  "'e redis_command \<Rightarrow> string \<Rightarrow> string \<Rightarrow> string \<Rightarrow> u32 \<Rightarrow> u64 \<Rightarrow> RedisRateLimiter \<Rightarrow> 'e \<Rightarrow> RateLimitResult result \<times> 'e" where
  "execute_lua command script cur_key prev_key limit now_ms l e =
     (let window_ms = rrl_window_size l * 1000;
          args = [''2'', cur_key, prev_key, nat_str (unat limit), nat_str (nat window_ms), nat_str (unat now_ms)];
          (result, e) = (if rrl_script_sha l \<noteq> '''' then command ([''EVALSHA'', rrl_script_sha l] @ args) e
                         else command ([''EVAL'', script] @ args) e)
      in case result of
           Inl err \<Rightarrow> (Inl err, e)
         | Inr r \<Rightarrow>
             if \<not> rr_is_array r \<or> length (rr_array r) < 3 then (Inl AdapterError, e)
             else (Inr \<lparr>rl_allowed = (rr_integer (rr_array r ! 0) \<noteq> 0),
                        rl_estimated_count = of_int (rr_integer (rr_array r ! 1)),
                        rl_retry_after_ms = of_int (rr_integer (rr_array r ! 2))\<rparr>, e))"

definition user_key :: "u64 \<Rightarrow> string" where
  "user_key user_id = ''rl:user:'' @ nat_str (unat user_id)"

definition endpoint_key :: "u64 \<Rightarrow> u32 \<Rightarrow> string" where
  "endpoint_key user_id msg_id = ''rl:ep:'' @ nat_str (unat user_id) @ '':'' @ nat_str (unat msg_id)"

definition rrl_check_user ::
  "'e redis_command \<Rightarrow> string \<Rightarrow> u64 \<Rightarrow> u64 \<Rightarrow> RedisRateLimiter \<Rightarrow> 'e \<Rightarrow> RateLimitResult result \<times> 'e" where
  "rrl_check_user command script user_id now_ms l e =
     execute_lua command script (user_key user_id @ '':cur'') (user_key user_id @ '':prev'') (rrl_default_limit l) now_ms l e"

definition rrl_check_endpoint ::
  "'e redis_command \<Rightarrow> string \<Rightarrow> u64 \<Rightarrow> u32 \<Rightarrow> u64 \<Rightarrow> u32 \<Rightarrow> RedisRateLimiter \<Rightarrow> 'e \<Rightarrow> RateLimitResult result \<times> 'e" where
  "rrl_check_endpoint command script user_id msg_id now_ms limit_override l e =
     (let limit = (if 0 < limit_override then limit_override else rrl_default_limit l)
      in execute_lua command script (endpoint_key user_id msg_id @ '':cur'') (endpoint_key user_id msg_id @ '':prev'')
           limit now_ms l e)"

section \<open>Endpoints and the facade\<close>

record EndpointRateConfig =
  ec_default_limit :: u32
  ec_window_size :: int
  ec_overrides :: "u32 \<rightharpoonup> u32"

definition limit_for :: "u32 \<Rightarrow> EndpointRateConfig \<Rightarrow> u32" where
  "limit_for msg_id c = (case ec_overrides c msg_id of Some l \<Rightarrow> l | None \<Rightarrow> ec_default_limit c)"

record RateLimitFacade =
  rf_ip_limiter :: PerIpRateLimiter
  rf_redis_limiter :: RedisRateLimiter
  rf_endpoint_config :: EndpointRateConfig

definition check_ip ::
  "(rat \<Rightarrow> rat) \<Rightarrow> 'e ttl_callbacks \<Rightarrow> string \<Rightarrow> int \<Rightarrow> RateLimitFacade \<Rightarrow> 'e \<Rightarrow> bool \<times> RateLimitFacade \<times> 'e" where
  "check_ip rnd cbs ip now f e =
     (let (ok, p, e) = pl_allow rnd cbs ip now (rf_ip_limiter f) e in (ok, f\<lparr>rf_ip_limiter := p\<rparr>, e))"

definition check_user :: "'e redis_command \<Rightarrow> string \<Rightarrow> u64 \<Rightarrow> u64 \<Rightarrow> RateLimitFacade \<Rightarrow> 'e \<Rightarrow> RateLimitResult result \<times> 'e" where
  "check_user command script user_id now_ms f e = rrl_check_user command script user_id now_ms (rf_redis_limiter f) e"

definition check_endpoint ::
  "'e redis_command \<Rightarrow> string \<Rightarrow> u64 \<Rightarrow> u32 \<Rightarrow> u64 \<Rightarrow> RateLimitFacade \<Rightarrow> 'e \<Rightarrow> RateLimitResult result \<times> 'e" where
  "check_endpoint command script user_id msg_id now_ms f e =
     rrl_check_endpoint command script user_id msg_id now_ms (limit_for msg_id (rf_endpoint_config f)) (rf_redis_limiter f) e"

definition update_endpoint_config :: "EndpointRateConfig \<Rightarrow> RateLimitFacade \<Rightarrow> RateLimitFacade" where
  "update_endpoint_config c f = f\<lparr>rf_endpoint_config := c\<rparr>"

section \<open>Keys\<close>

text \<open>No two users and no two endpoints share a counter.\<close>

lemma endpoint_keys_distinct:
  assumes "endpoint_key u m @ '':cur'' = endpoint_key u' m' @ '':cur''"
  shows "u = u' \<and> m = m'"
proof -
  have "nat_str (unat u) @ CHR '':'' # nat_str (unat m) @ '':cur'' = nat_str (unat u') @ CHR '':'' # nat_str (unat m') @ '':cur''"
    using assms by (simp add: endpoint_key_def)
  from nat_str_colon[OF this] show ?thesis by (simp add: nat_str_inj word_unat_eq_iff)
qed

lemma user_keys_distinct: "user_key u @ '':cur'' = user_key u' @ '':cur'' \<Longrightarrow> u = u'"
  by (simp add: user_key_def nat_str_inj word_unat_eq_iff)

lemma meta_keys:
  "k @ '':cur:meta'' \<noteq> k @ '':cur''" "k @ '':cur:meta'' \<noteq> k @ '':prev''" "k @ '':cur'' \<noteq> k @ '':prev''"
  by simp_all

section \<open>The script is the counter\<close>

lemma get_or_0_ops:
  "get_or_0 rnow k (redis_set k' v st) = (if k = k' then v else get_or_0 rnow k st)"
  "0 < ms \<Longrightarrow> get_or_0 rnow k (redis_pexpire rnow k' ms st) = get_or_0 rnow k st"
  "get_or_0 rnow k (redis_incr rnow k' st) = (if k = k' then get_or_0 rnow k st + 1 else get_or_0 rnow k st)"
  by (auto simp: get_or_0_def redis_set_def redis_pexpire_def redis_incr_def redis_get_def split: option.splits)

text \<open>The counter that the keys of the script hold.\<close>

definition counter_of :: "int \<Rightarrow> string \<Rightarrow> string \<Rightarrow> u32 \<Rightarrow> int \<Rightarrow> redis_store \<Rightarrow> SlidingWindowCounter" where
  "counter_of rnow cur_key prev_key limit window_ms st =
     \<lparr>swc_limit = limit, swc_window_size = window_ms, swc_current_count = of_int (get_or_0 rnow cur_key st),
      swc_previous_count = of_int (get_or_0 rnow prev_key st),
      swc_window_start = get_or_0 rnow (cur_key @ '':meta'') st, swc_last_access = 0\<rparr>"

lemma of_int_u32_double: "0 \<le> n \<Longrightarrow> n < 2 ^ 32 \<Longrightarrow> u32_double (of_int n) = of_int n"
proof -
  assume n: "0 \<le> n" "n < 2 ^ 32"
  then have "int (unat (of_int n :: u32)) = n" by (simp add: uint_word_of_int)
  then show ?thesis unfolding u32_double_def by (metis of_int_of_nat_eq)
qed

lemma lua_weighted_eq:
  assumes "0 \<le> p" "p < 2 ^ 32" "0 \<le> c" "c < 2 ^ 32"
  shows "weighted rnd el w (of_int p) (of_int c) = lua_weighted rnd el w p c"
  using assms by (simp add: weighted_def lua_weighted_def of_int_u32_double)

lemma limit_double: "u32_double l = of_int (int (unat l))"
  unfolding u32_double_def by (rule of_int_of_nat_eq[symmetric])

text \<open>
  C34: Outside of the first request after a window has passed, the Lua script in Redis decides as the
  sliding window counter of the C++ side does on the counts its keys hold, and leaves the keys
  holding the counter's next state; so a limit means the same whether it is kept in memory or in Redis.
\<close>

theorem redis_script_is_counter:
  assumes "cur_key \<noteq> prev_key" and "cur_key @ '':meta'' \<noteq> prev_key" and "0 < window_ms"
    and "0 \<le> get_or_0 rnow cur_key st" and "get_or_0 rnow cur_key st < 2 ^ 32"
    and "0 \<le> get_or_0 rnow prev_key st" and "get_or_0 rnow prev_key st < 2 ^ 32"
    and "get_or_0 rnow (cur_key @ '':meta'') st = 0 \<or> (now - get_or_0 rnow (cur_key @ '':meta'') st) div window_ms \<noteq> 1"
    and "lua_script rnd rnow cur_key prev_key (int (unat limit)) window_ms now st = ((ok, est, retry), st')"
    and "allow rnd now (counter_of rnow cur_key prev_key limit window_ms st) = (ok', c')"
  shows "ok = (if ok' then 1 else 0) \<and> counter_of rnow cur_key prev_key limit window_ms st' = c'\<lparr>swc_last_access := 0\<rparr>"
proof -
  let ?m = "cur_key @ '':meta''" let ?c = "get_or_0 rnow cur_key st" let ?p = "get_or_0 rnow prev_key st"
  let ?s = "get_or_0 rnow ?m st"
  have keys: "cur_key \<noteq> prev_key" "prev_key \<noteq> cur_key" "?m \<noteq> prev_key" "prev_key \<noteq> ?m" using assms(1,2) by auto
  note g = get_or_0_ops keys
  note w = lua_weighted_eq[OF assms(6,7,4,5)]
  have w0: "weighted rnd el win 0 0 = lua_weighted rnd el win 0 0" for el win using lua_weighted_eq[of 0 0] by simp
  consider (fresh) "?s = 0" | (same) "?s \<noteq> 0" "now - ?s < window_ms" | (late) "?s \<noteq> 0" "\<not> now - ?s < window_ms"
    by blast
  then show ?thesis
  proof cases
    case fresh
    then show ?thesis using assms(3,9,10)
      by (auto simp: lua_script_def allow_def advance_window_def counter_of_def Let_def g w limit_double split: if_splits)
  next
    case same
    then show ?thesis using assms(3,9,10)
      by (auto simp: lua_script_def allow_def advance_window_def counter_of_def Let_def g w limit_double split: if_splits)
  next
    case late
    then show ?thesis using assms(3,8,9,10)
      by (auto simp: lua_script_def allow_def advance_window_def counter_of_def Let_def g w0 limit_double split: if_splits)
  qed
qed

theorem redis_script_is_counter_witness:
  "\<exists>est retry st'. lua_script id 5000 (user_key 7 @ '':cur'') (user_key 7 @ '':prev'') 2 60000 1000 Map.empty = ((1, est, retry), st') \<and>
     swc_current_count (counter_of 5000 (user_key 7 @ '':cur'') (user_key 7 @ '':prev'') 2 60000 st') = 1"
proof -
  let ?cur = "user_key 7 @ '':cur''" and ?prev = "user_key 7 @ '':prev''"
  obtain ok est retry st' where run: "lua_script id 5000 ?cur ?prev (int (unat (2 :: u32))) 60000 1000 Map.empty = ((ok, est, retry), st')"
    by (cases "lua_script id 5000 ?cur ?prev (int (unat (2 :: u32))) 60000 1000 Map.empty") auto
  have a: "allow id 1000 (counter_of 5000 ?cur ?prev 2 60000 Map.empty) =
      (True, (counter_of 5000 ?cur ?prev 2 60000 Map.empty)\<lparr>swc_window_start := 1000, swc_current_count := 1, swc_last_access := 1000\<rparr>)"
    by (simp add: allow_def advance_window_def counter_of_def get_or_0_def redis_get_def weighted_def Let_def u32_double_def)
  have "get_or_0 5000 k Map.empty = 0" for k by (simp add: get_or_0_def redis_get_def)
  with redis_script_is_counter[OF _ _ _ _ _ _ _ _ run a] meta_keys[of "user_key 7"]
  have "ok = 1 \<and> counter_of 5000 ?cur ?prev 2 60000 st' =
      (counter_of 5000 ?cur ?prev 2 60000 Map.empty)\<lparr>swc_window_start := 1000, swc_current_count := 1, swc_last_access := 0\<rparr>"
    by simp
  then show ?thesis using run by simp
qed

text \<open>
  On the first request after a window the script writes the count of that window to the previous
  key but still weighs the older count it read before: with ten requests in the window just
  passed and a limit of ten it admits an eleventh that the counter rejects.
\<close>

lemma script_rotation_differs:
  "let st = Map.empty(''k:cur'' \<mapsto> \<lparr>rv_value = 10, rv_expire = None\<rparr>, ''k:cur:meta'' \<mapsto> \<lparr>rv_value = 1000, rv_expire = None\<rparr>)
   in fst (fst (lua_script id 0 ''k:cur'' ''k:prev'' 10 1000 2000 st)) = 1 \<and>
      \<not> fst (allow id 2000 (counter_of 0 ''k:cur'' ''k:prev'' 10 1000 st))"
  by (simp add: lua_script_def allow_def advance_window_def counter_of_def get_or_0_def redis_get_def redis_set_def
      redis_pexpire_def weighted_def lua_weighted_def Let_def u32_double_def)

end
