(* ===== verification/Gateway_Pipeline.thy ===== *)
theory Gateway_Pipeline
  imports Gateway_Delivery Redis_Rate_Limiter
begin

unbundle bit_operations_syntax

text \<open>
  What a client message must pass in the gateway before it is routed: \<open>jwt_verifier.cpp\<close>,
  \<open>jwt_blacklist.cpp\<close> and \<open>gateway_pipeline.hpp\<close>. The jwt-cpp library is the parameter
  \<open>jwt_lib\<close>; a function of it that throws gives \<open>None\<close>.
\<close>

section \<open>Tokens (jwt\_verifier.cpp)\<close>

record JwtConfig =
  jc_public_key_file :: string
  jc_algorithm :: string
  jc_issuer :: string
  jc_clock_skew :: int
  jc_sensitive_msg_ids :: "u32 list"

record JwtClaims =
  jwt_user_id :: u64
  jwt_email :: string
  jwt_jti :: string
  jwt_expires_at :: int

record JwtVerifier =
  jv_config :: JwtConfig
  jv_public_key :: string

text \<open>
  The library: decoding, the check of signature, issuer and times (with the key of the only
  allowed algorithm, if there is one), and the claims of a token.
\<close>

record 'd jwt_lib =
  jl_decode :: "string \<Rightarrow> 'd option"
  jl_verify :: "string option \<Rightarrow> string \<Rightarrow> u64 \<Rightarrow> 'd \<Rightarrow> bool"
  jl_claim :: "'d \<Rightarrow> string \<Rightarrow> string option"
  jl_has_claim :: "'d \<Rightarrow> string \<Rightarrow> bool"
  jl_subject :: "'d \<Rightarrow> string option"
  jl_expires_at :: "'d \<Rightarrow> int option"

definition JwtVerifier_new :: "(string \<Rightarrow> string option) \<Rightarrow> JwtConfig \<Rightarrow> JwtVerifier" where
  "JwtVerifier_new read_file config =
     \<lparr>jv_config = config, jv_public_key = (case read_file (jc_public_key_file config) of Some s \<Rightarrow> s | None \<Rightarrow> '''')\<rparr>"

definition jwt_verify :: "'d jwt_lib \<Rightarrow> JwtVerifier \<Rightarrow> string \<Rightarrow> JwtClaims result" where
  "jwt_verify lib v token =
     (case jl_decode lib token of
        None \<Rightarrow> Inl ServiceError
      | Some decoded \<Rightarrow>
          let key = (if jv_public_key v = '''' then None else Some (jv_public_key v)) in
          if \<not> jl_verify lib key (jc_issuer (jv_config v)) (of_int (jc_clock_skew (jv_config v))) decoded then Inl ServiceError
          else case jl_claim lib decoded ''uid'' of
            None \<Rightarrow> Inl ServiceError
          | Some uid_str \<Rightarrow>
              (case from_chars_u64 uid_str of
                 None \<Rightarrow> Inl ServiceError
               | Some user_id \<Rightarrow>
                   (case jl_subject lib decoded of
                      None \<Rightarrow> Inl ServiceError
                    | Some email \<Rightarrow>
                        (case (if jl_has_claim lib decoded ''jti'' then jl_claim lib decoded ''jti'' else Some '''') of
                           None \<Rightarrow> Inl ServiceError
                         | Some jti \<Rightarrow>
                             (case jl_expires_at lib decoded of
                                None \<Rightarrow> Inl ServiceError
                              | Some expires_at \<Rightarrow>
                                  Inr \<lparr>jwt_user_id = user_id, jwt_email = email, jwt_jti = jti, jwt_expires_at = expires_at\<rparr>)))))"

definition is_sensitive :: "u32 \<Rightarrow> JwtVerifier \<Rightarrow> bool" where
  "is_sensitive msg_id v \<longleftrightarrow> msg_id \<in> set (jc_sensitive_msg_ids (jv_config v))"

section \<open>The blacklist (jwt\_blacklist.cpp)\<close>

definition jti_char :: "char \<Rightarrow> bool" where
  "jti_char c \<longleftrightarrow> (let n = of_char c :: nat in 48 \<le> n \<and> n \<le> 57 \<or> 97 \<le> n \<and> n \<le> 102 \<or> 65 \<le> n \<and> n \<le> 70 \<or> n = 45)"

definition is_valid_jti :: "string \<Rightarrow> bool" where
  "is_valid_jti jti = (if jti = '''' \<or> 128 < length jti then False else list_all jti_char jti)"

definition is_blacklisted :: "'e redis_command \<Rightarrow> string \<Rightarrow> 'e \<Rightarrow> bool result \<times> 'e" where
  "is_blacklisted command jti e =
     (if \<not> is_valid_jti jti then (Inr True, e)
      else let key = ''jwt:blacklist:'' @ jti in
      case command [''EXISTS'', key] e of
        (Inl err, e) \<Rightarrow> (Inl AdapterError, e)
      | (Inr r, e) \<Rightarrow> (Inr (0 < rr_integer r), e))"

text \<open>No character of an accepted token identifier separates or escapes anything in a Redis command.\<close>

lemma valid_jti_chars:
  assumes "is_valid_jti jti" "c \<in> set jti"
  shows "c \<notin> {CHR '' '', CHR ''%'', CHR '':'', CHR ''*'', CHR 0x0A, CHR 0x0D, CHR 0x00}"
  using assms by (auto simp: is_valid_jti_def list_all_iff jti_char_def split: if_splits)

section \<open>The pipeline (gateway\_pipeline.hpp)\<close>

record AuthState =
  au_authenticated :: bool
  au_user_id :: u64
  au_jti :: string
  au_token :: string

definition AuthState_new :: AuthState where
  "AuthState_new = \<lparr>au_authenticated = False, au_user_id = 0, au_jti = '''', au_token = ''''\<rparr>"

text \<open>
  The template is generic in its verifier, blacklist and limiter; here they are functions on the
  state \<open>'s\<close> of the core. At a \<open>co_await\<close> other coroutines of the core run, so a blacklist or a
  limiter may change all of \<open>'s\<close>. \<open>AuthState\<close> is passed by reference: \<open>ar_get\<close> and \<open>ar_upd\<close>
  access the referenced object, and give \<open>None\<close> when the reference no longer refers to it.
\<close>

record 's limiter =
  lm_check_ip :: "string \<Rightarrow> int \<Rightarrow> 's \<Rightarrow> bool \<times> 's"
  lm_check_user :: "u64 \<Rightarrow> u64 \<Rightarrow> 's \<Rightarrow> RateLimitResult result \<times> 's"
  lm_check_endpoint :: "u64 \<Rightarrow> u32 \<Rightarrow> u64 \<Rightarrow> 's \<Rightarrow> RateLimitResult result \<times> 's"

record 's GatewayPipeline =
  gp_auth_exempt_msg_ids :: "u32 list"
  gp_blacklist_fail_open :: bool
  gp_verify :: "string \<Rightarrow> 's \<Rightarrow> JwtClaims result"
  gp_is_sensitive :: "u32 \<Rightarrow> bool"
  gp_blacklist :: "(string \<Rightarrow> 's \<Rightarrow> bool result \<times> 's) option"
  gp_rate_limiter :: "'s limiter option"
  gp_now :: "'s \<Rightarrow> int"
  gp_now_ms :: "'s \<Rightarrow> u64"

record 's auth_ref =
  ar_get :: "'s \<Rightarrow> AuthState option"
  ar_upd :: "(AuthState \<Rightarrow> AuthState) \<Rightarrow> 's \<Rightarrow> 's option"

definition fnv1a_hash :: "string \<Rightarrow> u64" where
  "fnv1a_hash s = foldl (\<lambda>h c. (h XOR of_nat (of_char c)) * 1099511628211) 14695981039346656037 s"

definition check_ip_rate_limit :: "'s GatewayPipeline \<Rightarrow> string \<Rightarrow> 's \<Rightarrow> (GatewayError + unit) \<times> 's" where
  "check_ip_rate_limit p remote_ip s =
     (case gp_rate_limiter p of
        None \<Rightarrow> (Inr (), s)
      | Some l \<Rightarrow>
          (case lm_check_ip l remote_ip (gp_now p s) s of
             (ok, s) \<Rightarrow> if \<not> ok then (Inl RateLimitedIp, s) else (Inr (), s)))"

definition check_user_rate_limit :: "'s GatewayPipeline \<Rightarrow> u64 \<Rightarrow> 's \<Rightarrow> (GatewayError + unit) \<times> 's" where
  "check_user_rate_limit p user_id s =
     (case gp_rate_limiter p of
        None \<Rightarrow> (Inr (), s)
      | Some l \<Rightarrow>
          (case lm_check_user l user_id (gp_now_ms p s) s of
             (Inl e, s) \<Rightarrow> (Inr (), s)
           | (Inr result, s) \<Rightarrow> if \<not> rl_allowed result then (Inl RateLimitedUser, s) else (Inr (), s)))"

definition check_endpoint_rate_limit :: "'s GatewayPipeline \<Rightarrow> u64 \<Rightarrow> u32 \<Rightarrow> 's \<Rightarrow> (GatewayError + unit) \<times> 's" where
  "check_endpoint_rate_limit p user_id msg_id s =
     (case gp_rate_limiter p of
        None \<Rightarrow> (Inr (), s)
      | Some l \<Rightarrow>
          (case lm_check_endpoint l user_id msg_id (gp_now_ms p s) s of
             (Inl e, s) \<Rightarrow> (Inr (), s)
           | (Inr result, s) \<Rightarrow> if \<not> rl_allowed result then (Inl RateLimitedEndpoint, s) else (Inr (), s)))"

text \<open>The check of the blacklist inside \<open>authenticate\<close>.\<close>

definition check_blacklist :: "'s GatewayPipeline \<Rightarrow> u32 \<Rightarrow> string \<Rightarrow> 's \<Rightarrow> (GatewayError + unit) \<times> 's" where
  "check_blacklist p msg_id jti s =
     (case gp_blacklist p of
        None \<Rightarrow> (Inr (), s)
      | Some bl \<Rightarrow>
          if \<not> gp_is_sensitive p msg_id then (Inr (), s)
          else case bl jti s of
                 (Inr hit, s) \<Rightarrow> if hit then (Inl JwtBlacklisted, s) else (Inr (), s)
               | (Inl e, s) \<Rightarrow> if gp_blacklist_fail_open p then (Inr (), s) else (Inl BlacklistCheckFailed, s))"

definition authenticate :: "'s GatewayPipeline \<Rightarrow> u32 \<Rightarrow> 's auth_ref \<Rightarrow> 's \<Rightarrow> ((GatewayError + unit) \<times> 's) option" where
  "authenticate p msg_id state s =
     (if msg_id \<in> set (gp_auth_exempt_msg_ids p) then Some (Inr (), s)
      else case ar_get state s of
        None \<Rightarrow> None
      | Some st \<Rightarrow>
          if au_token st = '''' then Some (Inl JwtVerifyFailed, s)
          else case gp_verify p (au_token st) s of
            Inl e \<Rightarrow> Some (Inl JwtVerifyFailed, s)
          | Inr claims \<Rightarrow>
              (case check_blacklist p msg_id (jwt_jti claims) s of
                 (Inl e, s) \<Rightarrow> Some (Inl e, s)
               | (Inr u, s) \<Rightarrow>
                   (case ar_upd state (\<lambda>st. st\<lparr>au_authenticated := True, au_user_id := jwt_user_id claims, au_jti := jwt_jti claims\<rparr>) s of
                      None \<Rightarrow> None
                    | Some s \<Rightarrow> Some (Inr (), s))))"

text \<open>\<open>send_error\<close>, and the early return with it.\<close>

definition deny :: "(GatewayError \<Rightarrow> 's \<Rightarrow> 's) \<Rightarrow> GatewayError \<Rightarrow> 's \<Rightarrow> (unit result \<times> 's) option" where
  "deny send_error e s = Some (Inl ServiceError, send_error e s)"

text \<open>The part of \<open>process\<close> behind the authentication.\<close>

definition rate_limits ::
  "'s GatewayPipeline \<Rightarrow> (GatewayError \<Rightarrow> 's \<Rightarrow> 's) \<Rightarrow> u32 \<Rightarrow> 's auth_ref \<Rightarrow> string \<Rightarrow> 's \<Rightarrow> (unit result \<times> 's) option" where
  "rate_limits p send_error msg_id state remote_ip s =
     (case ar_get state s of
        None \<Rightarrow> None
      | Some st \<Rightarrow>
          if au_authenticated st
          then case check_user_rate_limit p (au_user_id st) s of
                 (Inl e, s) \<Rightarrow> deny send_error e s
               | (Inr u, s) \<Rightarrow>
                   (case ar_get state s of
                      None \<Rightarrow> None
                    | Some st \<Rightarrow>
                        (case check_endpoint_rate_limit p (au_user_id st) msg_id s of
                           (Inl e, s) \<Rightarrow> deny send_error e s
                         | (Inr u, s) \<Rightarrow> Some (Inr (), s)))
          else if msg_id \<in> set (gp_auth_exempt_msg_ids p)
          then case check_endpoint_rate_limit p (fnv1a_hash remote_ip) msg_id s of
                 (Inl e, s) \<Rightarrow> deny send_error e s
               | (Inr u, s) \<Rightarrow> Some (Inr (), s)
          else Some (Inr (), s))"

definition process ::
  "'s GatewayPipeline \<Rightarrow> (GatewayError \<Rightarrow> 's \<Rightarrow> 's) \<Rightarrow> u32 \<Rightarrow> 's auth_ref \<Rightarrow> string \<Rightarrow> 's \<Rightarrow> (unit result \<times> 's) option" where
  "process p send_error msg_id state remote_ip s =
     (case check_ip_rate_limit p remote_ip s of
        (Inl e, s) \<Rightarrow> deny send_error e s
      | (Inr u, s) \<Rightarrow>
          (case authenticate p msg_id state s of
             None \<Rightarrow> None
           | Some (Inl e, s) \<Rightarrow> deny send_error e s
           | Some (Inr u, s) \<Rightarrow> rate_limits p send_error msg_id state remote_ip s))"

definition set_rate_limiter :: "'s limiter option \<Rightarrow> 's GatewayPipeline \<Rightarrow> 's GatewayPipeline" where
  "set_rate_limiter l p = p\<lparr>gp_rate_limiter := l\<rparr>"

end
