(* ===== verification/Gateway_Service.thy ===== *)
theory Gateway_Service
  imports Gateway_Pipeline
begin

text \<open>
  \<open>apex_services/gateway/src/gateway_service.cpp\<close>: the handlers of one core. A handler holds a
  pointer to its session, so the session object exists. \<open>gd_fb\<close> stands for the FlatBuffers
  library: what the verifier and the accessors make of the primary string of a system message.
  \<open>gs_routed\<close> records the calls of \<open>MessageRouter::route\<close>: session, message and user.
\<close>

definition AUTHENTICATE_SESSION :: u32 where "AUTHENTICATE_SESSION = 3"
definition SUBSCRIBE_CHANNEL :: u32 where "SUBSCRIBE_CHANNEL = 4"
definition UNSUBSCRIBE_CHANNEL :: u32 where "UNSUBSCRIBE_CHANNEL = 5"

datatype fb_string = Table_bad | String_bad | String_ok string

text \<open>
  \<open>gs_auth_version\<close> counts how often the hash map of the authentication states has moved its
  elements: a reference into it is good as long as it has not changed and the element is there.
\<close>

record 'e gateway =
  gs_core :: gw_core
  gs_wired :: bool
  gs_default_handler :: bool
  gs_auth :: "(u64 \<times> AuthState) list"
  gs_auth_version :: nat
  gs_env :: 'e
  gs_routed :: "(u64 \<times> u32 \<times> u64) list"

record 'e gw_deps =
  gd_pipeline :: "'e gateway GatewayPipeline"
  gd_cer :: "u16 \<Rightarrow> string \<Rightarrow> u16 \<Rightarrow> bytes"
  gd_fb :: "bytes \<Rightarrow> fb_string"
  gd_rehashes :: "nat \<Rightarrow> bool"
  gd_produce :: "'e producer"
  gd_listener_subscribe :: "(string \<Rightarrow> 'e \<Rightarrow> 'e) option"
  gd_listener_stop :: "'e \<Rightarrow> 'e"

definition upd_core :: "(gw_core \<Rightarrow> gw_core) \<Rightarrow> 'e gateway \<Rightarrow> 'e gateway" where
  "upd_core f g = g\<lparr>gs_core := f (gs_core g)\<rparr>"

text \<open>An error frame to the client: a framework error, or a service error with the code of the gateway.\<close>

definition send_framework_error :: "'e gw_deps \<Rightarrow> u64 \<Rightarrow> u32 \<Rightarrow> ErrorCode \<Rightarrow> 'e gateway \<Rightarrow> 'e gateway" where
  "send_framework_error d sid msg_id code g =
     upd_core (gc_write (enqueue_write (build_error_frame (gd_cer d) msg_id code '''' 0)) sid) g"

definition send_gateway_error :: "'e gw_deps \<Rightarrow> u64 \<Rightarrow> u32 \<Rightarrow> GatewayError \<Rightarrow> 'e gateway \<Rightarrow> 'e gateway" where
  "send_gateway_error d sid msg_id gw_err g =
     upd_core (gc_write (enqueue_write (build_error_frame (gd_cer d) msg_id ServiceError '''' (gateway_error_value gw_err))) sid) g"

text \<open>\<open>auth_states_[sid]\<close>, which inserts a default state for a new session.\<close>

definition auth_index :: "'e gw_deps \<Rightarrow> u64 \<Rightarrow> 'e gateway \<Rightarrow> 'e gateway" where
  "auth_index d sid g =
     (case map_of (gs_auth g) sid of
        Some st \<Rightarrow> g
      | None \<Rightarrow> g\<lparr>gs_auth := (sid, AuthState_new) # gs_auth g,
                  gs_auth_version := gs_auth_version g + (if gd_rehashes d (length (gs_auth g)) then 1 else 0)\<rparr>)"

definition auth_ref :: "u64 \<Rightarrow> nat \<Rightarrow> 'e gateway auth_ref" where
  "auth_ref sid version =
     \<lparr>ar_get = (\<lambda>g. if gs_auth_version g = version then map_of (gs_auth g) sid else None),
      ar_upd = (\<lambda>f g. if gs_auth_version g = version
                      then map_option (\<lambda>st. g\<lparr>gs_auth := AList.update sid (f st) (gs_auth g)\<rparr>) (map_of (gs_auth g) sid)
                      else None)\<rparr>"

definition remote_ip :: "u64 \<Rightarrow> 'e gateway \<Rightarrow> string" where
  "remote_ip sid g = (case gc_objects (gs_core g) sid of Some rt \<Rightarrow> s_remote_ip (rt_session rt) | None \<Rightarrow> '''')"

section \<open>Requests to services\<close>

text \<open>The part of \<open>handle_request\<close> after the pipeline, which runs without interruption.\<close>

definition route_request ::
  "'e gw_deps \<Rightarrow> u64 \<Rightarrow> u32 \<Rightarrow> bytes \<Rightarrow> u64 \<Rightarrow> 'e gateway \<Rightarrow> 'e gateway" where
  "route_request d sid msg_id payload user_id g =
     (let header = \<lparr>wh_version = CURRENT_VERSION, wh_flags = 0, wh_msg_id = msg_id,
                    wh_body_size = of_nat (length payload), wh_reserved = 0\<rparr>;
          (corr_id, router) = generate_corr_id (gc_router (gs_core g));
          g = upd_core (\<lambda>c. c\<lparr>gc_router := router\<rparr>) g;
          (pending_result, pending) = pm_insert (gp_now (gd_pipeline d) g) corr_id sid msg_id (gc_pending (gs_core g));
          g = upd_core (\<lambda>c. c\<lparr>gc_pending := pending\<rparr>) g
      in case pending_result of
           Inl e \<Rightarrow> send_gateway_error d sid msg_id PendingMapFull g
         | Inr u \<Rightarrow>
             let g = upd_core (\<lambda>c. c\<lparr>gc_requests := gc_requests c @ [(corr_id, sid)]\<rparr>) g;
                 g = g\<lparr>gs_routed := gs_routed g @ [(sid, msg_id, user_id)]\<rparr>;
                 (route_result, e) = route (gd_produce d) (gp_now_ms (gd_pipeline d) g) sid header payload user_id corr_id
                                       (gc_router (gs_core g)) (gs_env g);
                 g = g\<lparr>gs_env := e\<rparr>
             in case route_result of
                  Inl e \<Rightarrow>
                    let g = upd_core (\<lambda>c. c\<lparr>gc_pending := snd (pm_extract corr_id (gc_pending c))\<rparr>) g;
                        g = send_gateway_error d sid msg_id RouteNotFound g
                    in upd_core (gc_answered corr_id sid) g
                | Inr u \<Rightarrow> g)"

definition handle_request :: "'e gw_deps \<Rightarrow> u64 \<Rightarrow> u32 \<Rightarrow> bytes \<Rightarrow> 'e gateway \<Rightarrow> (unit result \<times> 'e gateway) option" where
  "handle_request d sid msg_id payload g =
     (let g = auth_index d sid g;
          state = auth_ref sid (gs_auth_version g)
      in case process (gd_pipeline d) (send_gateway_error d sid msg_id) msg_id state (remote_ip sid g) g of
           None \<Rightarrow> None
         | Some (Inl e, g) \<Rightarrow> Some (Inr (), g)
         | Some (Inr u, g) \<Rightarrow>
             (case ar_get state g of
                None \<Rightarrow> None
              | Some st \<Rightarrow> Some (Inr (), route_request d sid msg_id payload (au_user_id st) g)))"

section \<open>System messages\<close>

definition uoffset_size :: nat where "uoffset_size = 4"

definition handle_authenticate_session :: "'e gw_deps \<Rightarrow> u64 \<Rightarrow> bytes \<Rightarrow> 'e gateway \<Rightarrow> 'e gateway" where
  "handle_authenticate_session d sid payload g =
     (if length payload < uoffset_size then send_framework_error d sid AUTHENTICATE_SESSION InvalidMessage g
      else case gd_fb d payload of
        Table_bad \<Rightarrow> send_framework_error d sid AUTHENTICATE_SESSION FlatBuffersVerifyFailed g
      | String_bad \<Rightarrow> send_gateway_error d sid AUTHENTICATE_SESSION JwtVerifyFailed g
      | String_ok token \<Rightarrow>
          if token = '''' then send_gateway_error d sid AUTHENTICATE_SESSION JwtVerifyFailed g
          else let g = auth_index d sid g;
                   state = (the (map_of (gs_auth g) sid))\<lparr>au_token := token\<rparr>;
                   state = (case gp_verify (gd_pipeline d) token g of
                              Inr claims \<Rightarrow> state\<lparr>au_authenticated := True, au_user_id := jwt_user_id claims, au_jti := jwt_jti claims\<rparr>
                            | Inl e \<Rightarrow> state)
               in g\<lparr>gs_auth := AList.update sid state (gs_auth g)\<rparr>)"

definition handle_subscribe_channel :: "'e gw_deps \<Rightarrow> u64 \<Rightarrow> bytes \<Rightarrow> 'e gateway \<Rightarrow> 'e gateway" where
  "handle_subscribe_channel d sid payload g =
     (if \<not> gs_wired g then g
      else if length payload < uoffset_size then send_framework_error d sid SUBSCRIBE_CHANNEL InvalidMessage g
      else case gd_fb d payload of
        Table_bad \<Rightarrow> send_framework_error d sid SUBSCRIBE_CHANNEL FlatBuffersVerifyFailed g
      | String_bad \<Rightarrow> send_framework_error d sid SUBSCRIBE_CHANNEL InvalidMessage g
      | String_ok ch \<Rightarrow>
          if ch = '''' then send_framework_error d sid SUBSCRIBE_CHANNEL InvalidMessage g
          else let (result, channels) = csm_subscribe ch sid (gc_channels (gs_core g));
                   g = upd_core (\<lambda>c. c\<lparr>gc_channels := channels\<rparr>) g
               in case result of
                    Inl e \<Rightarrow> send_gateway_error d sid SUBSCRIBE_CHANNEL SubscriptionLimitExceeded g
                  | Inr u \<Rightarrow>
                      (case gd_listener_subscribe d of None \<Rightarrow> g | Some sub \<Rightarrow> g\<lparr>gs_env := sub ch (gs_env g)\<rparr>))"

definition handle_unsubscribe_channel :: "'e gw_deps \<Rightarrow> u64 \<Rightarrow> bytes \<Rightarrow> 'e gateway \<Rightarrow> 'e gateway" where
  "handle_unsubscribe_channel d sid payload g =
     (if \<not> gs_wired g then g
      else if length payload < uoffset_size then send_framework_error d sid UNSUBSCRIBE_CHANNEL InvalidMessage g
      else case gd_fb d payload of
        Table_bad \<Rightarrow> send_framework_error d sid UNSUBSCRIBE_CHANNEL FlatBuffersVerifyFailed g
      | String_bad \<Rightarrow> send_framework_error d sid UNSUBSCRIBE_CHANNEL InvalidMessage g
      | String_ok ch \<Rightarrow>
          if ch = '''' then send_framework_error d sid UNSUBSCRIBE_CHANNEL InvalidMessage g
          else upd_core (\<lambda>c. c\<lparr>gc_channels := csm_unsubscribe ch sid (gc_channels c)\<rparr>) g)"

definition on_default_message :: "'e gw_deps \<Rightarrow> u64 \<Rightarrow> u32 \<Rightarrow> bytes \<Rightarrow> 'e gateway \<Rightarrow> (unit result \<times> 'e gateway) option" where
  "on_default_message d sid msg_id payload g =
     (if msg_id = AUTHENTICATE_SESSION then Some (Inr (), handle_authenticate_session d sid payload g)
      else if msg_id = SUBSCRIBE_CHANNEL \<or> msg_id = UNSUBSCRIBE_CHANNEL
      then case map_of (gs_auth g) sid of
             None \<Rightarrow> Some (Inr (), send_gateway_error d sid msg_id JwtVerifyFailed g)
           | Some st \<Rightarrow>
               if \<not> au_authenticated st then Some (Inr (), send_gateway_error d sid msg_id JwtVerifyFailed g)
               else (case check_ip_rate_limit (gd_pipeline d) (remote_ip sid g) g of
                       (Inl e, g) \<Rightarrow> Some (Inr (), send_gateway_error d sid msg_id RateLimitedIp g)
                     | (Inr u, g) \<Rightarrow>
                         if msg_id = SUBSCRIBE_CHANNEL then Some (Inr (), handle_subscribe_channel d sid payload g)
                         else Some (Inr (), handle_unsubscribe_channel d sid payload g))
      else handle_request d sid msg_id payload g)"

section \<open>Life cycle\<close>

definition on_session_closed :: "u64 \<Rightarrow> 'e gateway \<Rightarrow> 'e gateway" where
  "on_session_closed sid g =
     (let g = g\<lparr>gs_auth := AList.delete sid (gs_auth g)\<rparr>
      in if gs_wired g then upd_core (\<lambda>c. c\<lparr>gc_channels := csm_unsubscribe_all sid (gc_channels c)\<rparr>) g else g)"

definition gateway_on_start :: "'e gateway \<Rightarrow> 'e gateway" where
  "gateway_on_start g = g\<lparr>gs_default_handler := True\<rparr>"

definition gateway_on_stop :: "'e gw_deps \<Rightarrow> u32 \<Rightarrow> 'e gateway \<Rightarrow> 'e gateway" where
  "gateway_on_stop d core_id g =
     (let g = g\<lparr>gs_default_handler := False\<rparr>;
          g = (if core_id = 0 \<and> gs_wired g then g\<lparr>gs_env := gd_listener_stop d (gs_env g)\<rparr> else g)
      in g\<lparr>gs_auth := [], gs_auth_version := gs_auth_version g + 1\<rparr>)"

section \<open>Who may send what\<close>

text \<open>
  The requests of a session that went to the router, and what a coroutine waiting for the
  blacklist or a limiter may rely on: the messages of a session are handled one after the other,
  so the other coroutines of the core do not route messages of this session, and do to its
  authentication state nothing but drop it when the session is closed.
\<close>

definition routed_of :: "u64 \<Rightarrow> 'e gateway \<Rightarrow> (u64 \<times> u32 \<times> u64) list" where
  "routed_of sid g = filter (\<lambda>r. fst r = sid) (gs_routed g)"

definition others_step :: "u64 \<Rightarrow> 'e gateway \<Rightarrow> 'e gateway \<Rightarrow> bool" where
  "others_step sid g g' \<longleftrightarrow> routed_of sid g' = routed_of sid g \<and>
     (map_of (gs_auth g') sid = map_of (gs_auth g) sid \<or> map_of (gs_auth g') sid = None)"

definition isolated :: "'e gw_deps \<Rightarrow> u64 \<Rightarrow> bool" where
  "isolated d sid \<longleftrightarrow>
     (\<forall>l. gp_rate_limiter (gd_pipeline d) = Some l \<longrightarrow>
        (\<forall>ip t g. \<exists>e. snd (lm_check_ip l ip t g) = g\<lparr>gs_env := e\<rparr>) \<and>
        (\<forall>u t g. others_step sid g (snd (lm_check_user l u t g))) \<and>
        (\<forall>u m t g. others_step sid g (snd (lm_check_endpoint l u m t g)))) \<and>
     (\<forall>bl. gp_blacklist (gd_pipeline d) = Some bl \<longrightarrow> (\<forall>j g. others_step sid g (snd (bl j g))))"

text \<open>A user of some token the verifier accepted, and a session whose state says no more than that.\<close>

definition verified :: "'e gw_deps \<Rightarrow> u64 \<Rightarrow> bool" where
  "verified d uid \<longleftrightarrow> (\<exists>token t claims. gp_verify (gd_pipeline d) token t = Inr claims \<and> uid = jwt_user_id claims)"

definition auth_ok :: "'e gw_deps \<Rightarrow> u64 \<Rightarrow> 'e gateway \<Rightarrow> bool" where
  "auth_ok d sid g \<longleftrightarrow>
     (\<forall>st. map_of (gs_auth g) sid = Some st \<longrightarrow> (if au_authenticated st then verified d (au_user_id st) else au_user_id st = 0))"

text \<open>
  What a routed message must have: the user of the session's own token, checked for this
  message and not on the blacklist where that is asked for; or an exempt message with the user
  of an earlier token, or none.
\<close>

definition not_blacklisted :: "'e gw_deps \<Rightarrow> u32 \<Rightarrow> JwtClaims \<Rightarrow> 'e gateway \<Rightarrow> bool" where
  "not_blacklisted d msg_id claims t \<longleftrightarrow>
     (case gp_blacklist (gd_pipeline d) of
        None \<Rightarrow> True
      | Some bl \<Rightarrow> \<not> gp_is_sensitive (gd_pipeline d) msg_id \<or>
          (case fst (bl (jwt_jti claims) t) of Inr hit \<Rightarrow> \<not> hit | Inl e \<Rightarrow> gp_blacklist_fail_open (gd_pipeline d)))"

definition authorised :: "'e gw_deps \<Rightarrow> u64 \<Rightarrow> u32 \<Rightarrow> u64 \<Rightarrow> 'e gateway \<Rightarrow> bool" where
  "authorised d sid msg_id uid g \<longleftrightarrow>
     (if msg_id \<in> set (gp_auth_exempt_msg_ids (gd_pipeline d)) then uid = 0 \<or> verified d uid
      else \<exists>st t claims. map_of (gs_auth g) sid = Some st \<and> au_token st \<noteq> '''' \<and>
             gp_verify (gd_pipeline d) (au_token st) t = Inr claims \<and> uid = jwt_user_id claims \<and> not_blacklisted d msg_id claims t)"

lemma routed_of_fields [simp]:
  "routed_of sid (g\<lparr>gs_auth := a\<rparr>) = routed_of sid g" "routed_of sid (g\<lparr>gs_env := e\<rparr>) = routed_of sid g"
  "routed_of sid (g\<lparr>gs_auth_version := v\<rparr>) = routed_of sid g" "routed_of sid (g\<lparr>gs_core := c\<rparr>) = routed_of sid g"
  by (simp_all add: routed_of_def)

lemma auth_ok_fields [simp]:
  "auth_ok d sid (g\<lparr>gs_env := e\<rparr>) = auth_ok d sid g" "auth_ok d sid (g\<lparr>gs_core := c\<rparr>) = auth_ok d sid g"
  "auth_ok d sid (g\<lparr>gs_routed := r\<rparr>) = auth_ok d sid g"
  by (simp_all add: auth_ok_def)

lemma others_step_refl [simp]: "others_step sid g g"
  by (simp add: others_step_def)

lemma others_step_trans: "others_step sid a b \<Longrightarrow> others_step sid b c \<Longrightarrow> others_step sid a c"
  by (auto simp: others_step_def)

lemma others_step_auth_ok: "others_step sid g g' \<Longrightarrow> auth_ok d sid g \<Longrightarrow> auth_ok d sid g'"
  by (auto simp: others_step_def auth_ok_def)

lemma send_gateway_error_fields [simp]:
  "gs_auth (send_gateway_error d sid m e g) = gs_auth g" "gs_routed (send_gateway_error d sid m e g) = gs_routed g"
  "routed_of s (send_gateway_error d sid m e g) = routed_of s g" "auth_ok d' s (send_gateway_error d sid m e g) = auth_ok d' s g"
  "gs_auth_version (send_gateway_error d sid m e g) = gs_auth_version g"
  "gc_channels (gs_core (send_gateway_error d sid m e g)) = gc_channels (gs_core g)"
  by (simp_all add: send_gateway_error_def upd_core_def)

lemma send_framework_error_fields [simp]:
  "gs_auth (send_framework_error d sid m e g) = gs_auth g" "gs_routed (send_framework_error d sid m e g) = gs_routed g"
  "routed_of s (send_framework_error d sid m e g) = routed_of s g" "auth_ok d' s (send_framework_error d sid m e g) = auth_ok d' s g"
  "gc_channels (gs_core (send_framework_error d sid m e g)) = gc_channels (gs_core g)"
  by (simp_all add: send_framework_error_def upd_core_def)

lemma upd_core_fields [simp]:
  "gs_auth (upd_core f g) = gs_auth g" "gs_routed (upd_core f g) = gs_routed g" "gs_env (upd_core f g) = gs_env g"
  "routed_of s (upd_core f g) = routed_of s g" "auth_ok d s (upd_core f g) = auth_ok d s g" "gs_core (upd_core f g) = f (gs_core g)"
  by (simp_all add: upd_core_def)

lemma isolatedD:
  assumes "isolated d sid"
  shows "check_ip_rate_limit (gd_pipeline d) ip g = (r, g') \<Longrightarrow> \<exists>e. g' = g\<lparr>gs_env := e\<rparr>"
    "check_user_rate_limit (gd_pipeline d) u g = (r, g') \<Longrightarrow> others_step sid g g'"
    "check_endpoint_rate_limit (gd_pipeline d) u m g = (r, g') \<Longrightarrow> others_step sid g g'"
    "check_blacklist (gd_pipeline d) m j g = (r, g') \<Longrightarrow> others_step sid g g'"
proof -
  show "\<exists>e. g' = g\<lparr>gs_env := e\<rparr>" if "check_ip_rate_limit (gd_pipeline d) ip g = (r, g')"
  proof (cases "gp_rate_limiter (gd_pipeline d)")
    case None
    then have "g' = g\<lparr>gs_env := gs_env g\<rparr>" using that by (simp add: check_ip_rate_limit_def)
    then show ?thesis ..
  next
    case (Some l)
    then have "\<exists>e. snd (lm_check_ip l ip (gp_now (gd_pipeline d) g) g) = g\<lparr>gs_env := e\<rparr>" using assms by (simp add: isolated_def)
    then show ?thesis using that Some by (auto simp: check_ip_rate_limit_def split: prod.splits if_splits)
  qed
  show "others_step sid g g'" if "check_user_rate_limit (gd_pipeline d) u g = (r, g')"
  proof (cases "gp_rate_limiter (gd_pipeline d)")
    case (Some l)
    then have "others_step sid g (snd (lm_check_user l u (gp_now_ms (gd_pipeline d) g) g))" using assms by (simp add: isolated_def)
    then show ?thesis using that Some by (auto simp: check_user_rate_limit_def split: prod.splits sum.splits if_splits)
  qed (use that in \<open>simp add: check_user_rate_limit_def\<close>)
  show "others_step sid g g'" if "check_endpoint_rate_limit (gd_pipeline d) u m g = (r, g')"
  proof (cases "gp_rate_limiter (gd_pipeline d)")
    case (Some l)
    then have "others_step sid g (snd (lm_check_endpoint l u m (gp_now_ms (gd_pipeline d) g) g))" using assms by (simp add: isolated_def)
    then show ?thesis using that Some by (auto simp: check_endpoint_rate_limit_def split: prod.splits sum.splits if_splits)
  qed (use that in \<open>simp add: check_endpoint_rate_limit_def\<close>)
  show "others_step sid g g'" if "check_blacklist (gd_pipeline d) m j g = (r, g')"
  proof (cases "gp_blacklist (gd_pipeline d)")
    case (Some bl)
    then have "others_step sid g (snd (bl j g))" using assms by (simp add: isolated_def)
    then show ?thesis using that Some by (auto simp: check_blacklist_def split: prod.splits sum.splits if_splits)
  qed (use that in \<open>simp add: check_blacklist_def\<close>)
qed

lemma check_blacklist_passed:
  "check_blacklist (gd_pipeline d) m (jwt_jti c) g = (Inr u, g') \<Longrightarrow> not_blacklisted d m c g"
  by (auto simp: check_blacklist_def not_blacklisted_def split: option.splits prod.splits sum.splits if_splits)

lemma authenticate_authorised:
  assumes "isolated d sid" "auth_ok d sid g" "authenticate (gd_pipeline d) m (auth_ref sid v) g = Some (r, g')"
  shows "routed_of sid g' = routed_of sid g" "auth_ok d sid g'"
    "r = Inr () \<Longrightarrow> map_of (gs_auth g') sid = Some st \<Longrightarrow> authorised d sid m (au_user_id st) g"
proof -
  have "routed_of sid g' = routed_of sid g \<and> auth_ok d sid g' \<and>
    (r = Inr () \<longrightarrow> map_of (gs_auth g') sid = Some st \<longrightarrow> authorised d sid m (au_user_id st) g)"
  proof (cases "m \<in> set (gp_auth_exempt_msg_ids (gd_pipeline d))")
    case True
    then have "g' = g" using assms(3) by (simp add: authenticate_def)
    then show ?thesis using True assms(2) by (auto simp: authorised_def auth_ok_def split: if_splits)
  next
    case False
    then obtain st0 where st0: "map_of (gs_auth g) sid = Some st0"
      using assms(3) by (auto simp: authenticate_def auth_ref_def split: if_splits option.splits)
    show ?thesis
    proof (cases "au_token st0 = '''' \<or> (\<exists>e. gp_verify (gd_pipeline d) (au_token st0) g = Inl e)")
      case True
      then have "g' = g \<and> r \<noteq> Inr ()" using assms(3) False st0 by (auto simp: authenticate_def auth_ref_def split: if_splits)
      then show ?thesis using assms(2) by simp
    next
      case tok: False
      then obtain c where c: "gp_verify (gd_pipeline d) (au_token st0) g = Inr c" by (metis sum.exhaust)
      obtain r1 g1 where bl: "check_blacklist (gd_pipeline d) m (jwt_jti c) g = (r1, g1)" by fastforce
      note o = isolatedD(4)[OF assms(1) bl]
      show ?thesis
      proof (cases r1)
        case (Inl e)
        then have "g' = g1 \<and> r \<noteq> Inr ()"
          using assms(3) False st0 tok c bl by (auto simp: authenticate_def auth_ref_def split: if_splits)
        then show ?thesis using o others_step_auth_ok[OF o assms(2)] by (simp add: others_step_def)
      next
        case (Inr u)
        then have upd: "ar_upd (auth_ref sid v) (\<lambda>st. st\<lparr>au_authenticated := True, au_user_id := jwt_user_id c, au_jti := jwt_jti c\<rparr>) g1 = Some g'"
          using assms(3) False st0 tok c bl by (auto simp: authenticate_def auth_ref_def split: if_splits option.splits)
        then obtain st1 where g': "g' = g1\<lparr>gs_auth := AList.update sid
            (st1\<lparr>au_authenticated := True, au_user_id := jwt_user_id c, au_jti := jwt_jti c\<rparr>) (gs_auth g1)\<rparr>"
          by (auto simp: auth_ref_def split: if_splits)
        have "verified d (jwt_user_id c)" unfolding verified_def using c by blast
        moreover have "authorised d sid m (jwt_user_id c) g"
          unfolding authorised_def using False st0 tok c check_blacklist_passed[of d m c g u g1] bl Inr by auto
        ultimately show ?thesis using o by (auto simp: g' auth_ok_def update_conv' others_step_def)
      qed
    qed
  qed
  then show "routed_of sid g' = routed_of sid g" "auth_ok d sid g'"
    "r = Inr () \<Longrightarrow> map_of (gs_auth g') sid = Some st \<Longrightarrow> authorised d sid m (au_user_id st) g" by auto
qed

lemma rate_limits_others:
  assumes "isolated d sid" "rate_limits (gd_pipeline d) (send_gateway_error d sid m) m ref ip g = Some (r, g')"
  shows "\<exists>g1. others_step sid g g1 \<and> (g' = g1 \<or> r = Inl ServiceError \<and> (\<exists>x. g' = send_gateway_error d sid m x g1))"
proof -
  let ?p = "gd_pipeline d"
  obtain st where st: "ar_get ref g = Some st" using assms(2) by (cases "ar_get ref g") (auto simp: rate_limits_def)
  show ?thesis
  proof (cases "au_authenticated st")
    case True
    obtain r1 g1 where c1: "check_user_rate_limit ?p (au_user_id st) g = (r1, g1)" by fastforce
    note o1 = isolatedD(2)[OF assms(1) c1]
    show ?thesis
    proof (cases r1)
      case (Inl x)
      then show ?thesis using assms(2) st True c1 o1 by (auto simp: rate_limits_def deny_def)
    next
      case (Inr u1)
      then obtain st1 where st1: "ar_get ref g1 = Some st1"
        using assms(2) st True c1 by (cases "ar_get ref g1") (auto simp: rate_limits_def)
      obtain r2 g2 where c2: "check_endpoint_rate_limit ?p (au_user_id st1) m g1 = (r2, g2)" by fastforce
      note o2 = others_step_trans[OF o1 isolatedD(3)[OF assms(1) c2]]
      show ?thesis
        using assms(2) st True c1 Inr st1 c2 o2 by (cases r2) (auto simp: rate_limits_def deny_def)
    qed
  next
    case False
    obtain r2 g2 where c2: "check_endpoint_rate_limit ?p (fnv1a_hash ip) m g = (r2, g2)" by fastforce
    note o2 = isolatedD(3)[OF assms(1) c2]
    show ?thesis
      using assms(2) st False c2 o2 others_step_refl[of sid g] by (cases r2) (auto simp: rate_limits_def deny_def split: if_splits)
  qed
qed

lemma process_authorised:
  assumes "isolated d sid" "auth_ok d sid g"
    and "process (gd_pipeline d) (send_gateway_error d sid m) m (auth_ref sid v) ip g = Some (r, g')"
  shows "routed_of sid g' = routed_of sid g" "auth_ok d sid g'"
    "r = Inr () \<Longrightarrow> map_of (gs_auth g') sid = Some st \<Longrightarrow> authorised d sid m (au_user_id st) g"
proof -
  let ?p = "gd_pipeline d" and ?ref = "auth_ref sid v"
  let ?goal = "\<lambda>r g'. routed_of sid g' = routed_of sid g \<and> auth_ok d sid g' \<and>
    (r = Inr () \<longrightarrow> map_of (gs_auth g') sid = Some st \<longrightarrow> authorised d sid m (au_user_id st) g)"
  obtain r1 g1 where c1: "check_ip_rate_limit ?p ip g = (r1, g1)" by fastforce
  obtain e where g1: "g1 = g\<lparr>gs_env := e\<rparr>" using isolatedD(1)[OF assms(1) c1] by blast
  have ok1: "auth_ok d sid g1" "routed_of sid g1 = routed_of sid g" "authorised d sid m u g1 = authorised d sid m u g" for u
    using assms(2) by (simp_all add: g1 authorised_def)
  have "?goal r g'"
  proof (cases r1)
    case (Inl x)
    then have "r = Inl ServiceError \<and> g' = send_gateway_error d sid m x g1"
      using assms(3) c1 by (simp add: process_def deny_def)
    then show ?thesis using ok1 by simp
  next
    case (Inr u1)
    obtain r2 g2 where c2: "authenticate ?p m ?ref g1 = Some (r2, g2)"
      using assms(3) c1 Inr by (cases "authenticate ?p m ?ref g1") (auto simp: process_def)
    note a = authenticate_authorised[OF assms(1) ok1(1) c2]
    show ?thesis
    proof (cases r2)
      case (Inl x)
      then have "r = Inl ServiceError \<and> g' = send_gateway_error d sid m x g2"
        using assms(3) c1 \<open>r1 = Inr u1\<close> c2 by (simp add: process_def deny_def)
      then show ?thesis using a ok1 by simp
    next
      case (Inr u2)
      text \<open>From here on only other coroutines change the state.\<close>
      have "\<exists>g3. others_step sid g2 g3 \<and> (g' = g3 \<or> r = Inl ServiceError \<and> (\<exists>x. g' = send_gateway_error d sid m x g3))"
        using rate_limits_others[OF assms(1)] assms(3) c1 \<open>r1 = Inr u1\<close> c2 Inr by (simp add: process_def)
      then obtain g3 where o: "others_step sid g2 g3"
        and g': "g' = g3 \<or> r = Inl ServiceError \<and> (\<exists>x. g' = send_gateway_error d sid m x g3)" by blast
      have "r = Inr () \<Longrightarrow> map_of (gs_auth g') sid = Some st \<Longrightarrow> map_of (gs_auth g2) sid = Some st"
        using o g' by (auto simp: others_step_def)
      then have "r = Inr () \<longrightarrow> map_of (gs_auth g') sid = Some st \<longrightarrow> authorised d sid m (au_user_id st) g"
        using a(3) ok1(3) Inr by simp
      moreover have "routed_of sid g' = routed_of sid g" "auth_ok d sid g'"
        using g' o others_step_auth_ok[OF o a(2)] a(1) ok1(2) by (auto simp: others_step_def)
      ultimately show ?thesis by simp
    qed
  qed
  then show "routed_of sid g' = routed_of sid g" "auth_ok d sid g'"
    "r = Inr () \<Longrightarrow> map_of (gs_auth g') sid = Some st \<Longrightarrow> authorised d sid m (au_user_id st) g" by auto
qed

lemma route_request_routed:
  "auth_ok d s (route_request d sid m payload uid g) = auth_ok d s g"
  "routed_of s (route_request d sid m payload uid g) = routed_of s g \<or>
   s = sid \<and> routed_of s (route_request d sid m payload uid g) = routed_of s g @ [(sid, m, uid)]"
proof -
  obtain c r where cr: "generate_corr_id (gc_router (gs_core g)) = (c, r)" by fastforce
  obtain x pm where ins: "pm_insert (gp_now (gd_pipeline d) (upd_core (\<lambda>c. c\<lparr>gc_router := r\<rparr>) g)) c sid m (gc_pending (gs_core g)) = (x, pm)"
    by fastforce
  show "auth_ok d s (route_request d sid m payload uid g) = auth_ok d s g"
    by (simp add: route_request_def cr ins Let_def split: sum.split prod.split)
  show "routed_of s (route_request d sid m payload uid g) = routed_of s g \<or>
    s = sid \<and> routed_of s (route_request d sid m payload uid g) = routed_of s g @ [(sid, m, uid)]"
    by (auto simp: route_request_def cr ins Let_def routed_of_def split: sum.split prod.split)
qed

lemma auth_index_fields [simp]:
  "routed_of s (auth_index d sid g) = routed_of s g" "gs_core (auth_index d sid g) = gs_core g"
  "gs_wired (auth_index d sid g) = gs_wired g" "map_of (gs_auth (auth_index d sid g)) sid \<noteq> None"
  by (simp_all add: auth_index_def routed_of_def split: option.split)

lemma auth_index_ok: "auth_ok d s g \<Longrightarrow> auth_ok d s (auth_index d' sid g)"
  by (auto simp: auth_index_def auth_ok_def AuthState_new_def split: option.split)

lemma auth_index_authorised: "authorised d sid m uid (auth_index d' sid g) \<Longrightarrow> authorised d sid m uid g"
  by (auto simp: auth_index_def authorised_def AuthState_new_def split: option.splits if_splits)

lemma handle_request_authorised:
  assumes "isolated d sid" "auth_ok d sid g" "handle_request d sid m payload g = Some (r, g')"
  shows "r = Inr () \<and> auth_ok d sid g' \<and>
    (routed_of sid g' = routed_of sid g \<or> (\<exists>uid. routed_of sid g' = routed_of sid g @ [(sid, m, uid)] \<and> authorised d sid m uid g))"
proof -
  let ?g = "auth_index d sid g"
  let ?ref = "auth_ref sid (gs_auth_version ?g) :: 'a gateway auth_ref"
  obtain r1 g1 where c1: "process (gd_pipeline d) (send_gateway_error d sid m) m ?ref (remote_ip sid ?g) ?g = Some (r1, g1)"
    using assms(3) by (cases "process (gd_pipeline d) (send_gateway_error d sid m) m ?ref (remote_ip sid ?g) ?g")
      (auto simp: handle_request_def Let_def)
  note p = process_authorised[OF assms(1) auth_index_ok[OF assms(2)] c1]
  show ?thesis
  proof (cases r1)
    case (Inl x)
    then have "r = Inr () \<and> g' = g1" using assms(3) c1 by (simp add: handle_request_def Let_def)
    then show ?thesis using p by simp
  next
    case (Inr u)
    then obtain st where st: "ar_get ?ref g1 = Some st" and g': "r = Inr ()" "g' = route_request d sid m payload (au_user_id st) g1"
      using assms(3) c1 by (cases "ar_get ?ref g1") (auto simp: handle_request_def Let_def)
    have "map_of (gs_auth g1) sid = Some st" using st by (simp add: auth_ref_def split: if_splits)
    then have "authorised d sid m (au_user_id st) g" 
      using p(3) Inr auth_index_authorised[of d sid m "au_user_id st" d g] by simp
    then show ?thesis using p(1,2) g'
        route_request_routed(2)[where s = sid and sid = sid and d = d and m = m and payload = payload and uid = "au_user_id st" and g = g1]
      by (auto simp: route_request_routed(1))
  qed
qed

lemma handle_authenticate_ok:
  assumes "auth_ok d sid g"
  shows "auth_ok d sid (handle_authenticate_session d sid payload g)"
    "routed_of s (handle_authenticate_session d sid payload g) = routed_of s g"
    "gc_channels (gs_core (handle_authenticate_session d sid payload g)) = gc_channels (gs_core g)"
proof -
  have idx: "auth_ok d sid (auth_index d sid g)" using assms by (rule auth_index_ok)
  obtain st where st: "map_of (gs_auth (auth_index d sid g)) sid = Some st"
    using auth_index_fields(4)[of d sid g] by blast
  have "verified d (jwt_user_id c)" if "gp_verify (gd_pipeline d) tok t = Inr c" for tok t c
    using that unfolding verified_def by blast
  then show "auth_ok d sid (handle_authenticate_session d sid payload g)"
    using idx st assms by (auto simp: handle_authenticate_session_def auth_ok_def update_conv' Let_def split: fb_string.split sum.split if_splits)
  show "routed_of s (handle_authenticate_session d sid payload g) = routed_of s g"
    by (auto simp: handle_authenticate_session_def Let_def split: fb_string.split sum.split)
  show "gc_channels (gs_core (handle_authenticate_session d sid payload g)) = gc_channels (gs_core g)"
    by (auto simp: handle_authenticate_session_def Let_def split: fb_string.split sum.split)
qed

lemma handle_channel_fields [simp]:
  "auth_ok d' s (handle_subscribe_channel d sid payload g) = auth_ok d' s g"
  "routed_of s (handle_subscribe_channel d sid payload g) = routed_of s g"
  "auth_ok d' s (handle_unsubscribe_channel d sid payload g) = auth_ok d' s g"
  "routed_of s (handle_unsubscribe_channel d sid payload g) = routed_of s g"
  by (auto simp: handle_subscribe_channel_def handle_unsubscribe_channel_def Let_def split: fb_string.split sum.split option.split prod.split)


definition sample_claims :: JwtClaims where
  "sample_claims = \<lparr>jwt_user_id = 42, jwt_email = ''a@b'', jwt_jti = ''00ff'', jwt_expires_at = 9\<rparr>"

definition sample_pipeline :: "'e gateway GatewayPipeline" where
  "sample_pipeline = \<lparr>gp_auth_exempt_msg_ids = [1000], gp_blacklist_fail_open = False,
     gp_verify = (\<lambda>token g. if token = ''good'' then Inr sample_claims else Inl ServiceError),
     gp_is_sensitive = (\<lambda>m. m = 1001), gp_blacklist = None, gp_rate_limiter = None, gp_now = (\<lambda>g. 0), gp_now_ms = (\<lambda>g. 0)\<rparr>"

definition sample_deps :: "unit gw_deps" where
  "sample_deps = \<lparr>gd_pipeline = sample_pipeline, gd_cer = (\<lambda>code message service. []), gd_fb = (\<lambda>bs. String_bad),
     gd_rehashes = (\<lambda>n. True), gd_produce = (\<lambda>topic key envelope e. (Inr (), e)), gd_listener_subscribe = None,
     gd_listener_stop = id\<rparr>"

definition sample_gateway :: "unit gateway" where
  "sample_gateway = \<lparr>gs_core = sample_core 7, gs_wired = True, gs_default_handler = True,
     gs_auth = [(7, AuthState_new\<lparr>au_token := ''good''\<rparr>)], gs_auth_version = 0, gs_env = (), gs_routed = []\<rparr>"

lemma sample_ok: "isolated sample_deps sid" "auth_ok sample_deps sid sample_gateway"
  by (simp_all add: isolated_def sample_deps_def sample_pipeline_def auth_ok_def sample_gateway_def AuthState_new_def)


section \<open>Where the handlers fall short\<close>

text \<open>
  A token that fails verification replaces the token of a session but leaves the state
  authenticated as the user of the previous one, and subscriptions look at that only.
\<close>

lemma failed_token_keeps_authentication:
  assumes "uoffset_size \<le> length payload" "gd_fb d payload = String_ok token" "token \<noteq> ''''"
    and "gp_verify (gd_pipeline d) token g = Inl e" "map_of (gs_auth g) sid = Some st"
  shows "map_of (gs_auth (handle_authenticate_session d sid payload g)) sid = Some (st\<lparr>au_token := token\<rparr>)"
  using assms by (simp add: handle_authenticate_session_def auth_index_def Let_def update_conv')

text \<open>
  \<open>handle_request\<close> keeps a reference into the hash map of authentication states while it waits
  for the rate limiter; the first message of another session in that time moves the map, and the
  reference is used afterwards.
\<close>

lemma auth_reference_dangles:
  "\<exists>(d :: unit gw_deps) g. isolated d 7 \<and> auth_ok d 7 g \<and> handle_request d 7 1500 [] g = None"
proof -
  let ?l = "\<lparr>lm_check_ip = (\<lambda>ip t g. (True, g)),
     lm_check_user = (\<lambda>u t g. (Inr \<lparr>rl_allowed = True, rl_estimated_count = 1, rl_retry_after_ms = 0\<rparr>, auth_index sample_deps 8 g)),
     lm_check_endpoint = (\<lambda>u m t g. (Inl AdapterError, g))\<rparr> :: unit gateway limiter"
  let ?d = "sample_deps\<lparr>gd_pipeline := set_rate_limiter (Some ?l) sample_pipeline\<rparr>"
  have "others_step 7 g (auth_index sample_deps 8 g)" for g :: "unit gateway"
    by (simp add: others_step_def) (simp add: auth_index_def split: option.split)
  moreover have "\<exists>e. g = g\<lparr>gs_env := e\<rparr>" for g :: "unit gateway" by (rule exI[of _ "gs_env g"]) simp
  ultimately have "isolated ?d 7"
    by (simp add: isolated_def set_rate_limiter_def sample_pipeline_def)
  moreover have "auth_ok ?d 7 sample_gateway" using sample_ok(2) by (simp add: auth_ok_def sample_gateway_def AuthState_new_def)
  moreover have "handle_request ?d 7 1500 [] sample_gateway = None"
    by (simp add: handle_request_def auth_index_def process_def rate_limits_def authenticate_def check_ip_rate_limit_def
        check_user_rate_limit_def check_blacklist_def auth_ref_def sample_deps_def sample_pipeline_def sample_gateway_def
        set_rate_limiter_def sample_claims_def AuthState_new_def Let_def)
  ultimately show ?thesis by blast
qed

text \<open>The Pub/Sub listener is told of new channels only: nothing the gateway does unsubscribes it.\<close>

lemma listener_keeps_channels:
  "gs_env (handle_unsubscribe_channel d sid payload g) = gs_env g" "gs_env (on_session_closed sid g) = gs_env g"
  by (auto simp: handle_unsubscribe_channel_def on_session_closed_def send_framework_error_def Let_def split: fb_string.split)

end
