(* ===== verification/Gateway_Correlation.thy ===== *)
theory Gateway_Correlation
  imports Gateway_Service
begin

text \<open>
  The cores of the gateway together: requests of clients, tasks posted by the Kafka consumer and
  the Pub/Sub listener, and sweeps, in any order. What arrives from Kafka is arbitrary: late,
  repeated and malformed responses included.
\<close>

record 'e gw_system =
  sys_cores :: "'e gateway list"
  sys_posted :: "(nat \<times> gw_task) list"

text \<open>What else happens on a core leaves the requests alone: sessions come and go, tokens and subscriptions change.\<close>

definition same_requests :: "'e gateway \<Rightarrow> 'e gateway \<Rightarrow> bool" where
  "same_requests g g' \<longleftrightarrow> gc_pending (gs_core g') = gc_pending (gs_core g) \<and>
     mr_core_id (gc_router (gs_core g')) = mr_core_id (gc_router (gs_core g)) \<and>
     mr_corr_counter (gc_router (gs_core g')) = mr_corr_counter (gc_router (gs_core g)) \<and>
     gc_requests (gs_core g') = gc_requests (gs_core g) \<and> gc_answers (gs_core g') = gc_answers (gs_core g)"

definition set_core :: "nat \<Rightarrow> 'e gateway \<Rightarrow> 'e gw_system \<Rightarrow> 'e gw_system" where
  "set_core k g s = s\<lparr>sys_cores := (sys_cores s)[k := g]\<rparr>"

inductive gw_step :: "'e gw_deps \<Rightarrow> 'e gw_system \<Rightarrow> 'e gw_system \<Rightarrow> bool" for d where
  Step_request: "k < length (sys_cores s) \<Longrightarrow> gw_step d s (set_core k (route_request d sid m payload uid (sys_cores s ! k)) s)"
| Step_kafka: "gw_step d s (s\<lparr>sys_posted := sys_posted s @ snd (on_response (length (sys_cores s)) (length (sys_cores s)) payload)\<rparr>)"
| Step_pubsub: "gw_step d s (s\<lparr>sys_posted := sys_posted s @ fanout (length (sys_cores s)) (length (sys_cores s)) channel message\<rparr>)"
| Step_task: "(k, t) \<in> set (sys_posted s) \<Longrightarrow> k < length (sys_cores s) \<Longrightarrow>
    gw_step d s ((set_core k (upd_core (run_task t) (sys_cores s ! k)) s)\<lparr>sys_posted := remove1 (k, t) (sys_posted s)\<rparr>)"
| Step_sweep: "k < length (sys_cores s) \<Longrightarrow> gw_step d s (set_core k (upd_core (gc_sweep (gd_cer d) now) (sys_cores s ! k)) s)"
| Step_other: "k < length (sys_cores s) \<Longrightarrow> same_requests (sys_cores s ! k) g' \<Longrightarrow> gw_step d s (set_core k g' s)"

definition gw_initial :: "'e gw_system \<Rightarrow> bool" where
  "gw_initial s \<longleftrightarrow> length (sys_cores s) \<le> 2 ^ 16 \<and>
     (\<forall>k < length (sys_cores s). let c = gs_core (sys_cores s ! k) in
        gc_requests c = [] \<and> gc_answers c = [] \<and> pm_map (gc_pending c) = [] \<and>
        mr_core_id (gc_router c) = of_nat k \<and> mr_corr_counter (gc_router c) = 0)"

inductive gw_reach :: "'e gw_deps \<Rightarrow> nat \<Rightarrow> 'e gw_system \<Rightarrow> bool" for d where
  Reach_0: "gw_initial s \<Longrightarrow> gw_reach d 0 s"
| Reach_Suc: "gw_reach d n s \<Longrightarrow> gw_step d s s' \<Longrightarrow> gw_reach d (Suc n) s'"

section \<open>The invariant of a core\<close>

definition issued :: "u16 \<Rightarrow> nat \<Rightarrow> u64 \<Rightarrow> bool" where
  "issued core n c \<longleftrightarrow> (\<exists>j. 0 < j \<and> j \<le> n \<and> c = corr_of core (of_nat j))"

definition corr_inv :: "nat \<Rightarrow> nat \<Rightarrow> gw_core \<Rightarrow> bool" where
  "corr_inv k n c \<longleftrightarrow>
     pm_inv (gc_pending c) \<and> mr_core_id (gc_router c) = of_nat k \<and> unat (mr_corr_counter (gc_router c)) \<le> n \<and>
     (\<forall>x \<in> set (gc_requests c). issued (of_nat k) (unat (mr_corr_counter (gc_router c))) (fst x)) \<and>
     distinct (map fst (gc_requests c)) \<and> distinct (map fst (gc_answers c)) \<and> set (gc_answers c) \<subseteq> set (gc_requests c) \<and>
     (\<forall>i en. map_of (pm_map (gc_pending c)) i = Some en \<longrightarrow>
        (i, pe_session_id en) \<in> set (gc_requests c) \<and> i \<notin> fst ` set (gc_answers c))"

lemma corr_invI:
  assumes "pm_inv (gc_pending c)" "mr_core_id (gc_router c) = of_nat k" "unat (mr_corr_counter (gc_router c)) \<le> n"
    "\<And>x. x \<in> set (gc_requests c) \<Longrightarrow> issued (of_nat k) (unat (mr_corr_counter (gc_router c))) (fst x)"
    "distinct (map fst (gc_requests c))" "distinct (map fst (gc_answers c))" "set (gc_answers c) \<subseteq> set (gc_requests c)"
    "\<And>i en. map_of (pm_map (gc_pending c)) i = Some en \<Longrightarrow> (i, pe_session_id en) \<in> set (gc_requests c) \<and> i \<notin> fst ` set (gc_answers c)"
  shows "corr_inv k n c"
  unfolding corr_inv_def using assms by blast

lemma corr_invD:
  assumes "corr_inv k n c"
  shows "pm_inv (gc_pending c)" "mr_core_id (gc_router c) = of_nat k" "unat (mr_corr_counter (gc_router c)) \<le> n"
    "x \<in> set (gc_requests c) \<Longrightarrow> issued (of_nat k) (unat (mr_corr_counter (gc_router c))) (fst x)"
    "distinct (map fst (gc_requests c))" "distinct (map fst (gc_answers c))" "set (gc_answers c) \<subseteq> set (gc_requests c)"
    "map_of (pm_map (gc_pending c)) i = Some en \<Longrightarrow> (i, pe_session_id en) \<in> set (gc_requests c) \<and> i \<notin> fst ` set (gc_answers c)"
  using assms unfolding corr_inv_def by blast+

lemma corr_inv_mono: "corr_inv k n c \<Longrightarrow> n \<le> n' \<Longrightarrow> corr_inv k n' c"
  unfolding corr_inv_def by auto

text \<open>Only these parts of a core matter.\<close>

lemma corr_inv_cong:
  assumes "gc_pending c' = gc_pending c" "mr_core_id (gc_router c') = mr_core_id (gc_router c)"
    "mr_corr_counter (gc_router c') = mr_corr_counter (gc_router c)" "gc_requests c' = gc_requests c" "gc_answers c' = gc_answers c"
  shows "corr_inv k n c' = corr_inv k n c"
  unfolding corr_inv_def assms ..

lemma issued_mono: "issued core n c \<Longrightarrow> n \<le> n' \<Longrightarrow> issued core n' c"
  unfolding issued_def by (elim exE conjE) (auto intro: order_trans)

lemma not_issued:
  assumes "m < n" "n < 2 ^ 48"
  shows "\<not> issued core m (corr_of core (of_nat n))"
proof
  assume "issued core m (corr_of core (of_nat n))"
  then obtain j where j: "j \<le> m" "corr_of core (of_nat n) = corr_of core (of_nat j)" unfolding issued_def by blast
  have "unat (of_nat i :: u64) mod 2 ^ 48 = i" if "i < 2 ^ 48" for i
    using that by (simp add: unat_of_nat)
  then have "n = j" using j assms by (simp add: corr_of_eq)
  then show False using j(1) assms(1) by simp
qed

lemma issued_nonzero:
  assumes "issued core n c" "n < 2 ^ 48"
  shows "c \<noteq> 0"
proof -
  obtain j where j: "0 < j" "j \<le> n" "c = corr_of core (of_nat j)" using assms(1) unfolding issued_def by blast
  have "unat (of_nat j :: u64) mod 2 ^ 48 = j" using j(2) assms(2) by (simp add: unat_of_nat)
  then show ?thesis unfolding j(3) using j(1) by (intro corr_of_nonzero) simp
qed

lemma issued_core: "issued core n c \<Longrightarrow> issued core' n' c \<Longrightarrow> core = core'"
  unfolding issued_def using corr_of_eq by metis

section \<open>Every step keeps it\<close>

lemma gc_write_inv [simp]: "corr_inv k n (gc_write wr sid c) = corr_inv k n c"
  by (rule corr_inv_cong) simp_all

text \<open>Answering a request that was pending.\<close>

lemma answered_inv:
  assumes "corr_inv k n c" "map_of (pm_map (gc_pending c)) i = Some en" "pm_extract i (gc_pending c) = (x, pm)"
  shows "corr_inv k n (c\<lparr>gc_pending := pm\<rparr>)" "corr_inv k n (gc_answered i (pe_session_id en) (c\<lparr>gc_pending := pm\<rparr>))"
proof -
  note inv = corr_invD[OF assms(1)]
  have pm: "map_of (pm_map pm) = (map_of (pm_map (gc_pending c)))(i := None)" using pm_extract_lookup[OF assms(3)] by simp
  have ok: "pm_inv pm" using pm_inv_extract[OF inv(1), of i] assms(3) by simp
  show "corr_inv k n (c\<lparr>gc_pending := pm\<rparr>)"
    using inv ok pm by (intro corr_invI) (auto split: if_splits)
  show "corr_inv k n (gc_answered i (pe_session_id en) (c\<lparr>gc_pending := pm\<rparr>))"
    using inv ok pm assms(2) by (intro corr_invI) (auto split: if_splits)
qed

lemma run_response_inv: "corr_inv k n c \<Longrightarrow> corr_inv k n (run_response i routing payload c)"
proof -
  assume inv: "corr_inv k n c"
  obtain x pm where ex: "pm_extract i (gc_pending c) = (x, pm)" by fastforce
  have x: "x = map_of (pm_map (gc_pending c)) i" by (rule pm_extract_lookup[OF ex])
  show ?thesis
  proof (cases x)
    case None
    then have "pm = gc_pending c" using ex x by (simp add: pm_extract_def)
    then show ?thesis using inv ex None by (simp add: run_response_def)
  next
    case (Some en)
    note a = answered_inv[OF inv x[unfolded Some, symmetric] ex]
    have "gc_answered i s (gc_write wr s (c\<lparr>gc_pending := pm\<rparr>)) = gc_write wr s (gc_answered i s (c\<lparr>gc_pending := pm\<rparr>))" for wr s
      by (simp add: gc_answered_def gc_write_def)
    then show ?thesis using a ex Some by (simp add: run_response_def Let_def)
  qed
qed

lemma run_task_inv: "corr_inv k n c \<Longrightarrow> corr_inv k n (run_task t c)"
proof (cases t)
  case (Push_task routing sid payload)
  then show "corr_inv k n c \<Longrightarrow> ?thesis" by (simp add: run_push_def Let_def)
next
  case (Response_task i routing payload)
  then show "corr_inv k n c \<Longrightarrow> ?thesis" by (simp add: run_response_inv)
next
  case (Global_task frame)
  then show "corr_inv k n c \<Longrightarrow> ?thesis" by (subst corr_inv_cong[of _ c]) (simp_all add: run_global_def)
next
  case (Room_task channel frame)
  then show "corr_inv k n c \<Longrightarrow> ?thesis" by (subst corr_inv_cong[of _ c]) (simp_all add: run_room_def split: option.split)
qed

lemma fold_timeout:
  assumes "distinct (map fst ps)"
  shows "\<exists>qs. gc_answers (fold (\<lambda>(i, en). on_request_timeout cer i en) ps c) = gc_answers c @ map (\<lambda>(i, en). (i, pe_session_id en)) qs \<and>
      set qs \<subseteq> set ps \<and> distinct (map fst qs)"
    "gc_pending (fold (\<lambda>(i, en). on_request_timeout cer i en) ps c) = gc_pending c"
    "gc_router (fold (\<lambda>(i, en). on_request_timeout cer i en) ps c) = gc_router c"
    "gc_requests (fold (\<lambda>(i, en). on_request_timeout cer i en) ps c) = gc_requests c"
proof -
  let ?f = "\<lambda>(i, en). on_request_timeout cer i en"
  show "gc_pending (fold ?f ps c) = gc_pending c" "gc_router (fold ?f ps c) = gc_router c" "gc_requests (fold ?f ps c) = gc_requests c"
    by (induction ps arbitrary: c) (auto simp: on_request_timeout_def Let_def)
  show "\<exists>qs. gc_answers (fold ?f ps c) = gc_answers c @ map (\<lambda>(i, en). (i, pe_session_id en)) qs \<and> set qs \<subseteq> set ps \<and> distinct (map fst qs)"
    using assms
  proof (induction ps arbitrary: c)
    case (Cons p ps)
    obtain i en where p: "p = (i, en)" by fastforce
    obtain qs where qs: "gc_answers (fold ?f ps (on_request_timeout cer i en c)) =
        gc_answers (on_request_timeout cer i en c) @ map (\<lambda>(i, en). (i, pe_session_id en)) qs" "set qs \<subseteq> set ps" "distinct (map fst qs)"
      using Cons by force
    show ?case
    proof (cases "gc_open (pe_session_id en) c")
      case True
      then have "gc_answers (on_request_timeout cer i en c) = gc_answers c @ [(i, pe_session_id en)]"
        by (simp add: on_request_timeout_def Let_def)
      moreover have "i \<notin> fst ` set qs" using Cons.prems qs(2) p by auto
      ultimately show ?thesis using qs by (intro exI[of _ "(i, en) # qs"]) (auto simp: p)
    next
      case False
      then have "on_request_timeout cer i en c = c" by (simp add: on_request_timeout_def Let_def)
      then show ?thesis using qs by (intro exI[of _ qs]) (auto simp: p)
    qed
  qed simp
qed

lemma gc_sweep_inv:
  assumes "corr_inv k n c"
  shows "corr_inv k n (gc_sweep cer now c)"
proof -
  note inv = corr_invD[OF assms]
  let ?ps = "filter (expired now) (pm_map (gc_pending c))"
  let ?c = "fold (\<lambda>(i, en). on_request_timeout cer i en) ?ps c"
  have keys: "distinct (map fst (pm_map (gc_pending c)))" using inv(1) by (simp add: pm_inv_def)
  then have dist: "distinct (map fst ?ps)" by (simp add: distinct_map_filter)
  obtain qs where qs: "gc_answers ?c = gc_answers c @ map (\<lambda>(i, en). (i, pe_session_id en)) qs" "set qs \<subseteq> set ?ps" "distinct (map fst qs)"
    using fold_timeout(1)[OF dist] by blast
  have pend: "map_of (pm_map (gc_pending c)) i = Some en \<and> pe_deadline en \<le> now" if "(i, en) \<in> set qs" for i en
    using that qs(2) keys by (auto simp: expired_def)
  define m where "m = fst (sweep_expired now (Some (on_request_timeout cer)) (gc_pending c) c)"
  have sweep: "gc_sweep cer now c = ?c\<lparr>gc_pending := m\<rparr>"
    by (simp add: gc_sweep_def sweep_expired_conv m_def)
  have look: "map_of (pm_map m) i = Some en \<longleftrightarrow> map_of (pm_map (gc_pending c)) i = Some en \<and> now < pe_deadline en" for i en
    unfolding m_def using pm_sweep_lookup[OF inv(1), of now "on_request_timeout cer" c i] by (auto split: option.splits)
  have fresh: "fst q \<notin> fst ` set (gc_answers c)" "(fst q, pe_session_id (snd q)) \<in> set (gc_requests c)" if "q \<in> set qs" for q
    using inv(8)[of "fst q" "snd q"] pend[of "fst q" "snd q"] that by auto
  have fst_qs: "map fst (map (\<lambda>(i, en). (i, pe_session_id en)) qs) = map fst qs" by (simp add: case_prod_unfold comp_def)
  show ?thesis
    unfolding sweep
  proof (rule corr_invI)
    show "pm_inv (gc_pending (?c\<lparr>gc_pending := m\<rparr>))"
      using pm_inv_sweep[OF inv(1)] by (simp add: m_def)
    show "distinct (map fst (gc_answers (?c\<lparr>gc_pending := m\<rparr>)))"
      using inv(6) qs(3) fresh(1) by (simp add: qs(1) fst_qs disjoint_iff del: map_map) (metis imageE)
    show "set (gc_answers (?c\<lparr>gc_pending := m\<rparr>)) \<subseteq> set (gc_requests (?c\<lparr>gc_pending := m\<rparr>))"
      using inv(7) fresh(2) by (auto simp: qs(1) fold_timeout(4)[OF dist])
    fix i en assume "map_of (pm_map (gc_pending (?c\<lparr>gc_pending := m\<rparr>))) i = Some en"
    then have p: "map_of (pm_map (gc_pending c)) i = Some en" "now < pe_deadline en" by (simp_all add: look)
    then have "i \<notin> fst ` set qs" using pend by fastforce
    then show "(i, pe_session_id en) \<in> set (gc_requests (?c\<lparr>gc_pending := m\<rparr>)) \<and> i \<notin> fst ` set (gc_answers (?c\<lparr>gc_pending := m\<rparr>))"
      using inv(8)[OF p(1)] by (force simp: qs(1) fold_timeout(4)[OF dist])
  qed (use inv in \<open>simp_all add: fold_timeout(3,4)[OF dist]\<close>)
qed

lemma request_inv:
  assumes "corr_inv k n c" "Suc n < 2 ^ 48" "generate_corr_id (gc_router c) = (i, r)" "pm_insert now i sid m (gc_pending c) = (x, pm)"
  shows "x = Inl e \<Longrightarrow> corr_inv k (Suc n) (c\<lparr>gc_router := r, gc_pending := pm\<rparr>)"
    "x = Inr u \<Longrightarrow> corr_inv k (Suc n) (c\<lparr>gc_router := r, gc_pending := pm, gc_requests := gc_requests c @ [(i, sid)]\<rparr>)"
    "x = Inr u \<Longrightarrow> \<exists>en. map_of (pm_map pm) i = Some en \<and> pe_session_id en = sid"
proof -
  note inv = corr_invD[OF assms(1)]
  let ?n = "mr_corr_counter (gc_router c)"
  have i: "i = corr_of (of_nat k) (?n + 1)" and r: "r = (gc_router c)\<lparr>mr_corr_counter := ?n + 1\<rparr>"
    using assms(3) inv(2) by (simp_all add: generate_corr_id_conv)
  have next_n: "unat (?n + 1) = Suc (unat ?n)"
    using inv(3) assms(2) unat_add_lem[of ?n 1] by simp
  have small: "Suc (unat ?n) < 2 ^ 48" using inv(3) assms(2) by simp
  have "?n + 1 = of_nat (Suc (unat ?n))" by simp
  then have i': "i = corr_of (of_nat k) (of_nat (Suc (unat ?n)))" using i by (simp only:)
  have fresh: "\<not> issued (of_nat k) (unat ?n) i" unfolding i' by (rule not_issued) (use small in auto)
  have new: "issued (of_nat k) (Suc (unat ?n)) i" unfolding issued_def i' by blast
  have fresh_req: "i \<notin> fst ` set (gc_requests c)" using inv(4) fresh by auto
  then have fresh_ans: "i \<notin> fst ` set (gc_answers c)" using inv(7) by auto
  have none: "map_of (pm_map (gc_pending c)) i = None"
  proof (cases "map_of (pm_map (gc_pending c)) i")
    case (Some en)
    then show ?thesis using inv(8)[OF Some] fresh_req by force
  qed simp
  have ok: "pm_inv pm" using pm_inv_insert[OF inv(1), of now i sid m] assms(4) by simp
  have iss: "issued (of_nat k) (Suc (unat ?n)) (fst y)" if "y \<in> set (gc_requests c)" for y
    using issued_mono[OF inv(4)[OF that]] by simp
  show "corr_inv k (Suc n) (c\<lparr>gc_router := r, gc_pending := pm\<rparr>)" if "x = Inl e"
  proof -
    have "pm = gc_pending c" using assms(4) that by (auto simp: pm_insert_def split: if_splits)
    then show ?thesis using inv iss by (intro corr_invI) (auto simp: r next_n)
  qed
  note look = pm_insert_lookup[OF assms(4) none]
  show "corr_inv k (Suc n) (c\<lparr>gc_router := r, gc_pending := pm, gc_requests := gc_requests c @ [(i, sid)]\<rparr>)" if "x = Inr u"
    using inv iss new fresh_req fresh_ans ok look that by (intro corr_invI) (auto simp: r next_n split: if_splits)
  show "\<exists>en. map_of (pm_map pm) i = Some en \<and> pe_session_id en = sid" if "x = Inr u"
    using look that by simp
qed

lemma route_request_inv:
  assumes "corr_inv k n (gs_core g)" "Suc n < 2 ^ 48"
  shows "corr_inv k (Suc n) (gs_core (route_request d sid m payload uid g))"
proof -
  let ?c = "gs_core g"
  obtain i r where gen: "generate_corr_id (gc_router ?c) = (i, r)" by fastforce
  obtain x pm where ins: "pm_insert (gp_now (gd_pipeline d) (upd_core (\<lambda>c. c\<lparr>gc_router := r\<rparr>) g)) i sid m (gc_pending ?c) = (x, pm)"
    by fastforce
  note req = request_inv[OF assms gen ins]
  show ?thesis
  proof (cases x)
    case (Inl e)
    then show ?thesis using req(1)[OF Inl] gen ins
      by (simp add: route_request_def Let_def send_gateway_error_def)
  next
    case (Inr u)
    let ?d = "?c\<lparr>gc_router := r, gc_pending := pm, gc_requests := gc_requests ?c @ [(i, sid)]\<rparr>"
    obtain en where en: "map_of (pm_map (gc_pending ?d)) i = Some en" "pe_session_id en = sid" using req(3)[OF Inr] by auto
    obtain y pm' where ex: "pm_extract i (gc_pending ?d) = (y, pm')" by fastforce
    have a: "corr_inv k (Suc n) (gc_answered i sid (?d\<lparr>gc_pending := pm'\<rparr>))"
      using answered_inv(2)[OF req(2)[OF Inr] en(1) ex] en(2) by simp
    have "gc_answered i sid (gc_write wr sid (?d\<lparr>gc_pending := pm'\<rparr>)) = gc_write wr sid (gc_answered i sid (?d\<lparr>gc_pending := pm'\<rparr>))" for wr
      by (simp add: gc_answered_def gc_write_def)
    then have "corr_inv k (Suc n) (gc_answered i sid (gc_write wr sid (?d\<lparr>gc_pending := pm'\<rparr>)))" for wr using a by simp
    then show ?thesis using req(2)[OF Inr] gen ins Inr ex
      by (auto simp: route_request_def Let_def send_gateway_error_def split: prod.split sum.split)
  qed
qed

definition sys_inv :: "nat \<Rightarrow> 'e gw_system \<Rightarrow> bool" where
  "sys_inv n s \<longleftrightarrow> length (sys_cores s) \<le> 2 ^ 16 \<and> (\<forall>k < length (sys_cores s). corr_inv k n (gs_core (sys_cores s ! k)))"

lemma sys_inv_set:
  assumes "sys_inv n s" "k < length (sys_cores s)" "corr_inv k n (gs_core (sys_cores s ! k)) \<Longrightarrow> corr_inv k (Suc n) (gs_core g)"
  shows "sys_inv (Suc n) (set_core k g s)"
  using assms by (auto simp: sys_inv_def set_core_def nth_list_update intro: corr_inv_mono)

lemma gw_step_inv:
  assumes "gw_step d s s'" "sys_inv n s" "Suc n < 2 ^ 48"
  shows "sys_inv (Suc n) s'"
  using assms(1)
proof cases
  case (Step_request k sid m payload uid)
  show ?thesis unfolding Step_request(1)
    by (rule sys_inv_set[OF assms(2) Step_request(2)]) (rule route_request_inv[OF _ assms(3)])
next
  case (Step_task k t)
  have "sys_inv (Suc n) (set_core k (upd_core (run_task t) (sys_cores s ! k)) s)"
    by (rule sys_inv_set[OF assms(2) Step_task(3)]) (simp add: run_task_inv corr_inv_mono[of k n])
  then show ?thesis unfolding Step_task(1) by (simp add: sys_inv_def)
next
  case (Step_sweep k now)
  show ?thesis unfolding Step_sweep(1)
    by (rule sys_inv_set[OF assms(2) Step_sweep(2)]) (simp add: gc_sweep_inv corr_inv_mono[of k n])
next
  case (Step_other k g')
  have "corr_inv k n (gs_core g') = corr_inv k n (gs_core (sys_cores s ! k))"
    using Step_other(3) by (intro corr_inv_cong) (simp_all add: same_requests_def)
  then show ?thesis unfolding Step_other(1)
    by (intro sys_inv_set[OF assms(2) Step_other(2)]) (simp add: corr_inv_mono[of k n])
qed (use assms(2) in \<open>auto simp: sys_inv_def intro: corr_inv_mono\<close>)

lemma gw_reach_inv: "gw_reach d n s \<Longrightarrow> n < 2 ^ 48 \<Longrightarrow> sys_inv n s"
proof (induction rule: gw_reach.induct)
  case (Reach_0 s)
  then show ?case
    by (auto simp: gw_initial_def sys_inv_def Let_def pm_inv_def intro!: corr_invI)
next
  case (Reach_Suc n s s')
  then show ?case using gw_step_inv by simp
qed

text \<open>
  C1: In every history of the gateway with fewer than \<open>2 ^ 48\<close> steps, whatever Kafka delivers,
  every request sent to a service has a correlation identifier of its own, never 0 and never
  that of another core; a request gets at most one answer, a response, a timeout or a routing
  error; and the answer goes to the session that asked. A request that waits is unanswered.
\<close>

theorem responses_correlated:
  assumes "gw_reach d n s" and "n < 2 ^ 48" and "k < length (sys_cores s)"
  defines "core j \<equiv> gs_core (sys_cores s ! j)"
  shows "distinct (map fst (gc_requests (core k))) \<and> distinct (map fst (gc_answers (core k))) \<and>
    set (gc_answers (core k)) \<subseteq> set (gc_requests (core k)) \<and> 0 \<notin> fst ` set (gc_requests (core k)) \<and>
    (\<forall>i en. map_of (pm_map (gc_pending (core k))) i = Some en \<longrightarrow>
       (i, pe_session_id en) \<in> set (gc_requests (core k)) \<and> i \<notin> fst ` set (gc_answers (core k))) \<and>
    (\<forall>j < length (sys_cores s). j \<noteq> k \<longrightarrow> fst ` set (gc_requests (core j)) \<inter> fst ` set (gc_requests (core k)) = {})"
proof -
  have sys: "sys_inv n s" by (rule gw_reach_inv[OF assms(1,2)])
  have inv: "corr_inv j n (core j)" if "j < length (sys_cores s)" for j using sys that by (simp add: sys_inv_def core_def)
  note k = corr_invD[OF inv[OF assms(3)]]
  have iss: "issued (of_nat j) n i" if "j < length (sys_cores s)" "i \<in> fst ` set (gc_requests (core j))" for i j
    using corr_invD(4)[OF inv[OF that(1)]] corr_invD(3)[OF inv[OF that(1)]] that(2) issued_mono by blast
  have "j = j'" if "j < length (sys_cores s)" "j' < length (sys_cores s)" "(of_nat j :: u16) = of_nat j'" for j j'
  proof -
    have "j < 2 ^ 16" "j' < 2 ^ 16" using that(1,2) sys by (auto simp: sys_inv_def)
    then have "unat (of_nat j :: u16) = j" "unat (of_nat j' :: u16) = j'" by (simp_all add: unat_of_nat)
    then show ?thesis using that(3) by metis
  qed
  then have "\<forall>j < length (sys_cores s). j \<noteq> k \<longrightarrow> fst ` set (gc_requests (core j)) \<inter> fst ` set (gc_requests (core k)) = {}"
    using iss issued_core assms(3) by (metis disjoint_iff)
  moreover have "0 \<notin> fst ` set (gc_requests (core k))"
    using iss[OF assms(3)] issued_nonzero[OF _ assms(2)] by blast
  ultimately show ?thesis using k by blast
qed

theorem responses_correlated_witness:
  "\<exists>s. gw_reach sample_deps 1 s \<and> gc_requests (gs_core (sys_cores s ! 0)) = [(1, 7)] \<and>
     set (gc_answers (gs_core (sys_cores s ! 0))) \<subseteq> {(1, 7)} \<and> 0 \<notin> fst ` set (gc_requests (gs_core (sys_cores s ! 0)))"
proof -
  let ?s = "\<lparr>sys_cores = [sample_gateway], sys_posted = []\<rparr>"
  let ?t = "set_core 0 (route_request sample_deps 7 1500 [1] 42 (sys_cores ?s ! 0)) ?s"
  have "gw_initial ?s"
    by (simp add: gw_initial_def sample_gateway_def sample_core_def PendingRequestsMap_new_def MessageRouter_new_def)
  moreover have "gw_step sample_deps ?s ?t" by (rule Step_request) simp
  ultimately have "gw_reach sample_deps 1 ?t" unfolding One_nat_def by (rule Reach_Suc[OF Reach_0])
  moreover have "generate_corr_id (gc_router (gs_core sample_gateway)) = (1, (gc_router (gs_core sample_gateway))\<lparr>mr_corr_counter := 1\<rparr>)"
    by (simp add: generate_corr_id_def sample_gateway_def sample_core_def MessageRouter_new_def kCounterMask_def)
  then have "gc_requests (gs_core (sys_cores ?t ! 0)) = [(1, 7)]"
    by (simp add: set_core_def route_request_def pm_insert_def Let_def sample_gateway_def sample_core_def PendingRequestsMap_new_def
        upd_core_def send_gateway_error_def split: prod.split sum.split)
  ultimately show ?thesis using responses_correlated[of sample_deps 1 ?t 0] by (intro exI[of _ ?t]) (auto simp: set_core_def)
qed

end
