(* ===== verification/Service_Base.thy ===== *)
theory Service_Base
  imports Message_Router Redis_Rate_Limiter
begin

text \<open>
  What the services behind Kafka share: replies of Redis, rows of PostgreSQL, numbers as text, the typed
  registration of \<open>service_base.hpp\<close>, and the cases of a dispatch through the bridge.
\<close>

definition rr_is_integer :: "RedisReply \<Rightarrow> bool" where "rr_is_integer r \<longleftrightarrow> rr_type r = REPLY_INTEGER"
definition rr_is_nil :: "RedisReply \<Rightarrow> bool" where "rr_is_nil r \<longleftrightarrow> rr_type r = REPLY_NIL"
definition rr_is_error :: "RedisReply \<Rightarrow> bool" where "rr_is_error r \<longleftrightarrow> rr_type r = REPLY_ERROR"

definition u64_str :: "u64 \<Rightarrow> string" where "u64_str v = nat_str (unat v)"
definition u32_str :: "u32 \<Rightarrow> string" where "u32_str v = nat_str (unat v)"

definition cell :: "string list list \<Rightarrow> nat \<Rightarrow> nat \<Rightarrow> string" where
  "cell rows i j = (if i < length rows \<and> j < length (rows ! i) then rows ! i ! j else '''')"

definition kafka_route ::
  "(bytes \<Rightarrow> 'r option) \<Rightarrow> (KafkaMessageMeta \<Rightarrow> 'r \<Rightarrow> 'w \<Rightarrow> unit result \<times> 'w) \<Rightarrow>
   KafkaMessageMeta \<Rightarrow> u32 \<Rightarrow> bytes \<Rightarrow> 'w \<Rightarrow> unit result \<times> 'w" where
  "kafka_route parse method meta msg_id payload w =
     (case parse payload of None \<Rightarrow> (Inl FlatBuffersVerifyFailed, w) | Some msg \<Rightarrow> method meta msg w)"

definition request_meta :: "MetadataPrefix \<Rightarrow> KafkaMessageMeta" where
  "request_meta metadata = \<lparr>km_meta_version = mp_meta_version metadata, km_core_id = mp_core_id metadata,
     km_corr_id = mp_corr_id metadata, km_source_id = mp_source_id metadata,
     km_session_id = mp_session_id metadata, km_user_id = mp_user_id metadata, km_timestamp = mp_timestamp metadata\<rparr>"

text \<open>A dispatch either fails before any handler, with nothing changed, or is one handler on the parsed envelope.\<close>

lemma bridge_dispatch_cases:
  obtains (rejected) e where "bridge_dispatch (Some handlers) raw w = (Inl e, w)"
  | (handled) routing metadata h payload where
      "RoutingHeader_parse raw = Inr routing" "MetadataPrefix_parse (drop RoutingHeader_SIZE raw) = Inr metadata"
      "handlers (rh_msg_id routing) = Some h"
      "bridge_dispatch (Some handlers) raw w = h (request_meta metadata) (rh_msg_id routing) payload w"
proof (cases "\<exists>routing metadata h. RoutingHeader_parse raw = Inr routing \<and>
      MetadataPrefix_parse (drop RoutingHeader_SIZE raw) = Inr metadata \<and>
      handlers (rh_msg_id routing) = Some h \<and> \<not> length raw < ENVELOPE_HEADER_SIZE")
  case False
  then have "\<exists>e. bridge_dispatch (Some handlers) raw w = (Inl e, w)"
    by (auto simp: bridge_dispatch_def Let_def split: sum.splits option.splits)
  then show ?thesis using rejected by blast
next
  case True
  then show ?thesis by (auto simp: bridge_dispatch_def Let_def request_meta_def intro: handled)
qed

end
