(* ===== verification/Chat_Service.thy ===== *)
theory Chat_Service
  imports Gateway_Delivery Service_Base
begin

unbundle bit_operations_syntax

text \<open>
  \<open>apex_services/chat-svc\<close>: rooms, messages, whispers and history. PostgreSQL, Redis, Kafka and
  the generated FlatBuffers code are parameters: \<open>cd_query\<close> runs an SQL statement with its
  parameters and gives rows of text, \<open>cd_redis\<close> a Redis command, \<open>cd_publish\<close> a PUBLISH,
  \<open>cd_produce\<close> sends to Kafka, and \<open>cd_fbs\<close> serializes a message. All of them act on an
  environment, in which other requests may have run meanwhile. \<open>ch_replies\<close>, \<open>ch_published\<close>
  and \<open>ch_persisted\<close> record the calls of \<open>send_response_with_flags\<close>, the messages published
  and the messages produced for the database.
\<close>

section \<open>Pure logic (chat\_logic.hpp)\<close>

datatype MessageValidation = MV_OK | MV_EMPTY | MV_TOO_LONG
datatype RoomNameValidation = RV_OK | RV_EMPTY | RV_TOO_LONG
datatype JoinRoomResult = JOINED | ALREADY_IN | ROOM_IS_FULL

definition validate_message_content :: "nat \<Rightarrow> nat \<Rightarrow> MessageValidation" where
  "validate_message_content content_size max_length =
     (if content_size = 0 then MV_EMPTY else if max_length < content_size then MV_TOO_LONG else MV_OK)"

definition validate_room_name :: "nat \<Rightarrow> nat \<Rightarrow> RoomNameValidation" where
  "validate_room_name name_size max_length =
     (if name_size = 0 then RV_EMPTY else if max_length < name_size then RV_TOO_LONG else RV_OK)"

definition interpret_join_result :: "int \<Rightarrow> JoinRoomResult" where
  "interpret_join_result lua_result =
     (if lua_result = -1 then ALREADY_IN else if lua_result = 0 then ROOM_IS_FULL else JOINED)"

section \<open>Configuration and messages\<close>

record ChatConfig =
  cc_request_topic :: string
  cc_response_topic :: string
  cc_persist_topic :: string
  cc_max_room_members :: u32
  cc_max_message_length :: u32
  cc_history_page_size :: u32
  cc_max_room_name_length :: nat
  cc_max_list_rooms_limit :: u32

definition ChatConfig_default :: ChatConfig where
  "ChatConfig_default = \<lparr>cc_request_topic = ''chat.requests'', cc_response_topic = ''chat.responses'',
     cc_persist_topic = ''chat.messages.persist'', cc_max_room_members = 100, cc_max_message_length = 2000,
     cc_history_page_size = 50, cc_max_room_name_length = 100, cc_max_list_rooms_limit = 100\<rparr>"

datatype ChatRoomError = ROOM_NONE | ROOM_NOT_FOUND | ROOM_FULL | ALREADY_IN_ROOM | ROOM_NOT_IN_ROOM
  | ROOM_NAME_TOO_LONG | ROOM_NAME_EMPTY | ROOM_PERMISSION_DENIED | ROOM_INTERNAL_ERROR

datatype ChatMessageError = MSG_NONE | MSG_NOT_IN_ROOM | MESSAGE_TOO_LONG | EMPTY_MESSAGE | TARGET_NOT_FOUND
  | TARGET_OFFLINE | MSG_RATE_LIMITED | MSG_PERMISSION_DENIED | MSG_INTERNAL_ERROR

record RoomInfo =
  ri_room_id :: u64
  ri_room_name :: string
  ri_member_count :: u32
  ri_max_members :: u32
  ri_owner_id :: u64

record HistoryMessage =
  hm_message_id :: u64
  hm_sender_id :: u64
  hm_sender_name :: string
  hm_content :: string
  hm_timestamp :: u64

text \<open>The messages the service builds; an absent string or vector is \<open>None\<close>.\<close>

datatype chat_fbs =
    CreateRoomResponse ChatRoomError u64 "string option"
  | JoinRoomResponse ChatRoomError u64 "string option" u32
  | LeaveRoomResponse ChatRoomError u64
  | ListRoomsResponse ChatRoomError "RoomInfo list option" u32
  | SendMessageResponse ChatMessageError u64 u64
  | ChatMessage u64 u64 string string u64 u64 "string option"
  | WhisperResponse ChatMessageError u64
  | WhisperMessage u64 string string u64
  | ChatHistoryResponse ChatMessageError "HistoryMessage list option" bool
  | GlobalBroadcastResponse ChatMessageError u64
  | GlobalChatMessage u64 string string u64 string

definition CREATE_ROOM_RESPONSE :: u32 where "CREATE_ROOM_RESPONSE = 2002"
definition JOIN_ROOM_RESPONSE :: u32 where "JOIN_ROOM_RESPONSE = 2004"
definition LEAVE_ROOM_RESPONSE :: u32 where "LEAVE_ROOM_RESPONSE = 2006"
definition LIST_ROOMS_RESPONSE :: u32 where "LIST_ROOMS_RESPONSE = 2008"
definition SEND_MESSAGE_RESPONSE :: u32 where "SEND_MESSAGE_RESPONSE = 2012"
definition CHAT_MESSAGE :: u32 where "CHAT_MESSAGE = 2013"
definition WHISPER_RESPONSE :: u32 where "WHISPER_RESPONSE = 2022"
definition WHISPER_MESSAGE :: u32 where "WHISPER_MESSAGE = 2023"
definition CHAT_HISTORY_RESPONSE :: u32 where "CHAT_HISTORY_RESPONSE = 2032"
definition GLOBAL_BROADCAST_RESPONSE :: u32 where "GLOBAL_BROADCAST_RESPONSE = 2042"
definition GLOBAL_CHAT_MESSAGE :: u32 where "GLOBAL_CHAT_MESSAGE = 2043"
definition GLOBAL_CHAT_CHANNEL :: string where "GLOBAL_CHAT_CHANNEL = ''pub:global:chat''"
definition source_CHAT :: u16 where "source_CHAT = 2"

section \<open>Parsing\<close>

definition safe_parse_u64 :: "string \<Rightarrow> u64 result" where
  "safe_parse_u64 sv = (case from_chars_u64 sv of Some v \<Rightarrow> Inr v | None \<Rightarrow> Inl InvalidMessage)"

definition parse_session_core :: "string \<Rightarrow> (u64 \<times> u16) result" where
  "parse_session_core sv =
     (if CHR '':'' \<notin> set sv
      then case safe_parse_u64 sv of Inl e \<Rightarrow> Inl e | Inr sid \<Rightarrow> Inr (sid, 0)
      else let colon = length (takeWhile (\<lambda>c. c \<noteq> CHR '':'') sv) in
           case safe_parse_u64 (take colon sv) of
             Inl e \<Rightarrow> Inl e
           | Inr sid \<Rightarrow>
               (case safe_parse_u64 (drop (colon + 1) sv) of
                  Inl e \<Rightarrow> Inl e
                | Inr cid \<Rightarrow> Inr (sid, ucast cid)))"

section \<open>The service and what it uses\<close>

record CreateRoomRequest =
  crq_room_name :: "string option"
  crq_max_members :: u32

record ListRoomsRequest =
  lrq_offset :: u32
  lrq_limit :: u32

record SendMessageRequest =
  smq_room_id :: u64
  smq_content :: "string option"

record WhisperRequest =
  wrq_target_user_id :: u64
  wrq_content :: "string option"

record ChatHistoryRequest =
  chq_room_id :: u64
  chq_before_message_id :: u64
  chq_limit :: u32

text \<open>\<open>cd_parse_*\<close> verify a payload as the FlatBuffers table of a request and read it; the requests with
  one field are that field. \<close>

record 'e chat_deps =
  cd_config :: ChatConfig
  cd_query :: "string \<Rightarrow> string list \<Rightarrow> 'e \<Rightarrow> string list list result \<times> 'e"
  cd_redis :: "'e redis_command"
  cd_publish :: "string \<Rightarrow> bytes \<Rightarrow> 'e \<Rightarrow> RedisReply result \<times> 'e"
  cd_produce :: "'e producer"
  cd_fbs :: "chat_fbs \<Rightarrow> bytes"
  cd_now_ms :: "'e \<Rightarrow> u64"
  cd_parse_create_room :: "bytes \<Rightarrow> CreateRoomRequest option"
  cd_parse_join_room :: "bytes \<Rightarrow> u64 option"
  cd_parse_leave_room :: "bytes \<Rightarrow> u64 option"
  cd_parse_list_rooms :: "bytes \<Rightarrow> ListRoomsRequest option"
  cd_parse_send_message :: "bytes \<Rightarrow> SendMessageRequest option"
  cd_parse_whisper :: "bytes \<Rightarrow> WhisperRequest option"
  cd_parse_chat_history :: "bytes \<Rightarrow> ChatHistoryRequest option"
  cd_parse_global_broadcast :: "bytes \<Rightarrow> string option option"

record chat_reply =
  cr_topic :: string
  cr_msg_id :: u32
  cr_flags :: u16
  cr_corr_id :: u64
  cr_core_id :: u16
  cr_session_id :: u64
  cr_payload :: bytes

record 'e chat =
  ch_env :: 'e
  ch_replies :: "chat_reply list"
  ch_published :: "(string \<times> bytes) list"
  ch_persisted :: "(string \<times> bytes) list"

definition chat_query :: "'e chat_deps \<Rightarrow> string \<Rightarrow> string list \<Rightarrow> 'e chat \<Rightarrow> string list list result \<times> 'e chat" where
  "chat_query d sql params w = (let (r, e) = cd_query d sql params (ch_env w) in (r, w\<lparr>ch_env := e\<rparr>))"

definition chat_redis :: "'e chat_deps \<Rightarrow> string list \<Rightarrow> 'e chat \<Rightarrow> RedisReply result \<times> 'e chat" where
  "chat_redis d cmd w = (let (r, e) = cd_redis d cmd (ch_env w) in (r, w\<lparr>ch_env := e\<rparr>))"

definition chat_publish :: "'e chat_deps \<Rightarrow> string \<Rightarrow> bytes \<Rightarrow> 'e chat \<Rightarrow> RedisReply result \<times> 'e chat" where
  "chat_publish d channel payload w = 
     (let (r, e) = cd_publish d channel payload (ch_env w)
      in (r, w\<lparr>ch_env := e, ch_published := ch_published w @ [(channel, payload)]\<rparr>))"

definition members_key :: "u64 \<Rightarrow> string" where
  "members_key room_id = ''chat:room:'' @ u64_str room_id @ '':members''"

section \<open>Responses\<close>

definition send_response_with_flags ::
  "'e chat_deps \<Rightarrow> u32 \<Rightarrow> u16 \<Rightarrow> u64 \<Rightarrow> u16 \<Rightarrow> u64 \<Rightarrow> bytes \<Rightarrow> string \<Rightarrow> 'e chat \<Rightarrow> 'e chat" where
  "send_response_with_flags d msg_id flags corr_id core_id session_id fbs_payload reply_topic w =
     (let envelope_buf = eb_build (cd_now_ms d (ch_env w)) (eb_set_payload fbs_payload
            (eb_metadata core_id corr_id source_CHAT session_id 0 (eb_routing msg_id flags EnvelopeBuilder_new)));
          target_topic = (if reply_topic = '''' then cc_response_topic (cd_config d) else reply_topic);
          key = u64_str session_id;
          (result, e) = cd_produce d target_topic key envelope_buf (ch_env w)
      in w\<lparr>ch_env := e, ch_replies := ch_replies w @
           [\<lparr>cr_topic = target_topic, cr_msg_id = msg_id, cr_flags = flags, cr_corr_id = corr_id, cr_core_id = core_id,
             cr_session_id = session_id, cr_payload = fbs_payload\<rparr>]\<rparr>)"

definition send_response :: "'e chat_deps \<Rightarrow> u32 \<Rightarrow> u64 \<Rightarrow> u16 \<Rightarrow> u64 \<Rightarrow> bytes \<Rightarrow> string \<Rightarrow> 'e chat \<Rightarrow> 'e chat" where
  "send_response d msg_id corr_id core_id session_id fbs_payload reply_topic w =
     send_response_with_flags d msg_id DIRECTION_RESPONSE corr_id core_id session_id fbs_payload reply_topic w"

text \<open>The response to the request with the given metadata, which every handler ends with.\<close>

definition respond :: "'e chat_deps \<Rightarrow> u32 \<Rightarrow> KafkaMessageMeta \<Rightarrow> chat_fbs \<Rightarrow> 'e chat \<Rightarrow> unit result \<times> 'e chat" where
  "respond d msg_id meta resp w =
     (Inr (), send_response d msg_id (km_corr_id meta) (km_core_id meta) (km_session_id meta) (cd_fbs d resp) '''' w)"

definition build_pubsub_payload :: "u32 \<Rightarrow> bytes \<Rightarrow> bytes" where
  "build_pubsub_payload msg_id fbs_payload =
     [ucast (drop_bit 24 msg_id AND 0xFF), ucast (drop_bit 16 msg_id AND 0xFF), ucast (drop_bit 8 msg_id AND 0xFF),
      ucast (msg_id AND 0xFF)] @ fbs_payload"

definition send_create_room_error :: "'e chat_deps \<Rightarrow> KafkaMessageMeta \<Rightarrow> ChatRoomError \<Rightarrow> 'e chat \<Rightarrow> unit result \<times> 'e chat" where
  "send_create_room_error d meta err w = respond d CREATE_ROOM_RESPONSE meta (CreateRoomResponse err 0 None) w"

definition send_join_room_error :: "'e chat_deps \<Rightarrow> KafkaMessageMeta \<Rightarrow> ChatRoomError \<Rightarrow> u64 \<Rightarrow> 'e chat \<Rightarrow> unit result \<times> 'e chat" where
  "send_join_room_error d meta err room_id w = respond d JOIN_ROOM_RESPONSE meta (JoinRoomResponse err room_id None 0) w"

definition send_leave_room_error :: "'e chat_deps \<Rightarrow> KafkaMessageMeta \<Rightarrow> ChatRoomError \<Rightarrow> u64 \<Rightarrow> 'e chat \<Rightarrow> unit result \<times> 'e chat" where
  "send_leave_room_error d meta err room_id w = respond d LEAVE_ROOM_RESPONSE meta (LeaveRoomResponse err room_id) w"

definition send_list_rooms_error :: "'e chat_deps \<Rightarrow> KafkaMessageMeta \<Rightarrow> ChatRoomError \<Rightarrow> 'e chat \<Rightarrow> unit result \<times> 'e chat" where
  "send_list_rooms_error d meta err w = respond d LIST_ROOMS_RESPONSE meta (ListRoomsResponse err None 0) w"

definition send_message_error :: "'e chat_deps \<Rightarrow> KafkaMessageMeta \<Rightarrow> ChatMessageError \<Rightarrow> 'e chat \<Rightarrow> unit result \<times> 'e chat" where
  "send_message_error d meta err w = respond d SEND_MESSAGE_RESPONSE meta (SendMessageResponse err 0 0) w"

definition send_whisper_error :: "'e chat_deps \<Rightarrow> KafkaMessageMeta \<Rightarrow> ChatMessageError \<Rightarrow> 'e chat \<Rightarrow> unit result \<times> 'e chat" where
  "send_whisper_error d meta err w = respond d WHISPER_RESPONSE meta (WhisperResponse err 0) w"

definition send_history_error :: "'e chat_deps \<Rightarrow> KafkaMessageMeta \<Rightarrow> ChatMessageError \<Rightarrow> 'e chat \<Rightarrow> unit result \<times> 'e chat" where
  "send_history_error d meta err w = respond d CHAT_HISTORY_RESPONSE meta (ChatHistoryResponse err None False) w"

definition send_global_broadcast_error :: "'e chat_deps \<Rightarrow> KafkaMessageMeta \<Rightarrow> ChatMessageError \<Rightarrow> 'e chat \<Rightarrow> unit result \<times> 'e chat" where
  "send_global_broadcast_error d meta err w = respond d GLOBAL_BROADCAST_RESPONSE meta (GlobalBroadcastResponse err 0) w"

section \<open>Room handlers\<close>

definition SQL_INSERT_ROOM :: string where
  "SQL_INSERT_ROOM = ''INSERT INTO chat_svc.chat_rooms (room_name, max_members, owner_id) '' @
     ''VALUES ($1, $2::int, $3::bigint) RETURNING room_id''"

definition SQL_SELECT_ROOM :: string where
  "SQL_SELECT_ROOM = ''SELECT room_name, max_members FROM chat_svc.chat_rooms '' @
     ''WHERE room_id = $1::bigint AND is_active = true''"

definition SQL_COUNT_ROOMS :: string where
  "SQL_COUNT_ROOMS = ''SELECT COUNT(*) FROM chat_svc.chat_rooms WHERE is_active = true''"

definition SQL_PAGE_ROOMS :: string where
  "SQL_PAGE_ROOMS = ''SELECT room_id, room_name, max_members, owner_id '' @
     ''FROM chat_svc.chat_rooms WHERE is_active = true '' @ ''ORDER BY room_id ASC LIMIT $1::int OFFSET $2::int''"

definition on_create_room :: "'e chat_deps \<Rightarrow> KafkaMessageMeta \<Rightarrow> CreateRoomRequest \<Rightarrow> 'e chat \<Rightarrow> unit result \<times> 'e chat" where
  "on_create_room d meta req w =
     (let name_validation = validate_room_name (case crq_room_name req of Some n \<Rightarrow> length n | None \<Rightarrow> 0)
                              (cc_max_room_name_length (cd_config d)) in
      if name_validation = RV_EMPTY then send_create_room_error d meta ROOM_NAME_EMPTY w
      else if name_validation = RV_TOO_LONG then send_create_room_error d meta ROOM_NAME_TOO_LONG w
      else
        let room_name_str = the (crq_room_name req);
            max_members = (if 0 < crq_max_members req then crq_max_members req else cc_max_room_members (cd_config d));
            user_id = km_user_id meta;
            (pg_result, w) = chat_query d SQL_INSERT_ROOM [room_name_str, u32_str max_members, u64_str user_id] w
        in case pg_result of
             Inl e \<Rightarrow> send_create_room_error d meta ROOM_INTERNAL_ERROR w
           | Inr rows \<Rightarrow>
               if rows = [] then send_create_room_error d meta ROOM_INTERNAL_ERROR w
               else (case safe_parse_u64 (cell rows 0 0) of
                       Inl e \<Rightarrow> send_create_room_error d meta ROOM_INTERNAL_ERROR w
                     | Inr room_id \<Rightarrow>
                         let (redis_result, w) = chat_redis d [''SADD'', members_key room_id, u64_str user_id] w
                         in respond d CREATE_ROOM_RESPONSE meta (CreateRoomResponse ROOM_NONE room_id (Some room_name_str)) w))"

text \<open>The scripts that Redis runs atomically; \<open>nl\<close> is a line break of the raw string, \<open>CHR 0x27\<close> a
  quote.\<close>

definition nl :: string where "nl = [CHR 0x0A]"

definition JOIN_ROOM_LUA :: string where
  "JOIN_ROOM_LUA = nl @ ''if redis.call('' @ [CHR 0x27] @ ''SISMEMBER'' @ [CHR 0x27] @ '', KEYS[1], ARGV[1]) == 1 then'' @ nl @
     ''    return -1'' @ nl @ ''end'' @ nl @
     ''if redis.call('' @ [CHR 0x27] @ ''SCARD'' @ [CHR 0x27] @ '', KEYS[1]) >= tonumber(ARGV[2]) then'' @ nl @
     ''    return 0'' @ nl @ ''end'' @ nl @
     ''redis.call('' @ [CHR 0x27] @ ''SADD'' @ [CHR 0x27] @ '', KEYS[1], ARGV[1])'' @ nl @
     ''return redis.call('' @ [CHR 0x27] @ ''SCARD'' @ [CHR 0x27] @ '', KEYS[1])'' @ nl"

definition LEAVE_ROOM_LUA :: string where
  "LEAVE_ROOM_LUA = nl @ ''if redis.call('' @ [CHR 0x27] @ ''SISMEMBER'' @ [CHR 0x27] @ '', KEYS[1], ARGV[1]) == 0 then'' @ nl @
     ''    return 0'' @ nl @ ''end'' @ nl @
     ''redis.call('' @ [CHR 0x27] @ ''SREM'' @ [CHR 0x27] @ '', KEYS[1], ARGV[1])'' @ nl @ ''return 1'' @ nl"

definition on_join_room :: "'e chat_deps \<Rightarrow> KafkaMessageMeta \<Rightarrow> u64 \<Rightarrow> 'e chat \<Rightarrow> unit result \<times> 'e chat" where
  "on_join_room d meta room_id w =
     (let user_id_str = u64_str (km_user_id meta);
          (room_result, w) = chat_query d SQL_SELECT_ROOM [u64_str room_id] w
      in case room_result of
           Inl e \<Rightarrow> send_join_room_error d meta ROOM_NOT_FOUND room_id w
         | Inr rows \<Rightarrow>
             if rows = [] then send_join_room_error d meta ROOM_NOT_FOUND room_id w
             else (case safe_parse_u64 (cell rows 0 1) of
                     Inl e \<Rightarrow> (Inl e, w)
                   | Inr max_members \<Rightarrow>
                       let (eval_result, w) = chat_redis d [''EVAL'', JOIN_ROOM_LUA, ''1'', members_key room_id,
                              user_id_str, u32_str (ucast max_members)] w
                       in case eval_result of
                            Inl e \<Rightarrow> (Inl AdapterError, w)
                          | Inr reply \<Rightarrow>
                              if rr_is_error reply \<or> \<not> rr_is_integer reply then (Inl AdapterError, w)
                              else let join_result = interpret_join_result (rr_integer reply) in
                                   if join_result = ALREADY_IN then send_join_room_error d meta ALREADY_IN_ROOM room_id w
                                   else if join_result = ROOM_IS_FULL then send_join_room_error d meta ROOM_FULL room_id w
                                   else respond d JOIN_ROOM_RESPONSE meta
                                          (JoinRoomResponse ROOM_NONE room_id (Some (cell rows 0 0)) (of_int (rr_integer reply))) w))"

definition on_leave_room :: "'e chat_deps \<Rightarrow> KafkaMessageMeta \<Rightarrow> u64 \<Rightarrow> 'e chat \<Rightarrow> unit result \<times> 'e chat" where
  "on_leave_room d meta room_id w =
     (let (eval_result, w) = chat_redis d [''EVAL'', LEAVE_ROOM_LUA, ''1'', members_key room_id, u64_str (km_user_id meta)] w
      in case eval_result of
           Inl e \<Rightarrow> (Inl AdapterError, w)
         | Inr reply \<Rightarrow>
             if rr_is_error reply \<or> \<not> rr_is_integer reply then (Inl AdapterError, w)
             else if rr_integer reply = 0 then send_leave_room_error d meta ROOM_NOT_IN_ROOM room_id w
             else respond d LEAVE_ROOM_RESPONSE meta (LeaveRoomResponse ROOM_NONE room_id) w)"

text \<open>One pass of the loop over the page: a row whose numbers do not parse is skipped.\<close>

fun list_room_rows :: "'e chat_deps \<Rightarrow> string list list \<Rightarrow> 'e chat \<Rightarrow> RoomInfo list \<times> 'e chat" where
  "list_room_rows d [] w = ([], w)"
| "list_room_rows d (row # rows) w =
     (case (safe_parse_u64 (cell [row] 0 0), safe_parse_u64 (cell [row] 0 2), safe_parse_u64 (cell [row] 0 3)) of
        (Inr rid, Inr rmax, Inr rowner) \<Rightarrow>
          let (scard, w) = chat_redis d [''SCARD'', members_key rid] w;
              member_count = (case scard of Inl e \<Rightarrow> 0 | Inr r \<Rightarrow> of_int (rr_integer r));
              (infos, w) = list_room_rows d rows w
          in (\<lparr>ri_room_id = rid, ri_room_name = cell [row] 0 1, ri_member_count = member_count,
               ri_max_members = ucast rmax, ri_owner_id = rowner\<rparr> # infos, w)
      | _ \<Rightarrow> list_room_rows d rows w)"

definition on_list_rooms :: "'e chat_deps \<Rightarrow> KafkaMessageMeta \<Rightarrow> ListRoomsRequest \<Rightarrow> 'e chat \<Rightarrow> unit result \<times> 'e chat" where
  "on_list_rooms d meta req w =
     (let offset = lrq_offset req;
          limit = min (lrq_limit req) (cc_max_list_rooms_limit (cd_config d));
          (count_result, w) = chat_query d SQL_COUNT_ROOMS [] w;
          total_count = (case count_result of
                           Inl e \<Rightarrow> Inr 0
                         | Inr rows \<Rightarrow> if rows = [] then Inr 0
                                      else (case safe_parse_u64 (cell rows 0 0) of Inl e \<Rightarrow> Inl e | Inr v \<Rightarrow> Inr (ucast v)))
      in case total_count of
           Inl e \<Rightarrow> (Inl e, w)
         | Inr total_count \<Rightarrow>
             let (rooms_result, w) = chat_query d SQL_PAGE_ROOMS [u32_str limit, u32_str offset] w
             in case rooms_result of
                  Inl e \<Rightarrow> send_list_rooms_error d meta ROOM_INTERNAL_ERROR w
                | Inr rows \<Rightarrow>
                    let (infos, w) = list_room_rows d rows w
                    in respond d LIST_ROOMS_RESPONSE meta (ListRoomsResponse ROOM_NONE (Some infos) total_count) w)"

section \<open>Message handlers\<close>

definition room_channel :: "u64 \<Rightarrow> string" where "room_channel room_id = ''pub:chat:room:'' @ u64_str room_id"

definition content_size :: "string option \<Rightarrow> nat" where
  "content_size content = (case content of Some s \<Rightarrow> length s | None \<Rightarrow> 0)"

definition chat_persist :: "'e chat_deps \<Rightarrow> string \<Rightarrow> bytes \<Rightarrow> 'e chat \<Rightarrow> 'e chat" where
  "chat_persist d key payload w =
     (let (produce_result, e) = cd_produce d (cc_persist_topic (cd_config d)) key payload (ch_env w)
      in w\<lparr>ch_env := e, ch_persisted := ch_persisted w @ [(key, payload)]\<rparr>)"

definition on_send_message :: "'e chat_deps \<Rightarrow> KafkaMessageMeta \<Rightarrow> SendMessageRequest \<Rightarrow> 'e chat \<Rightarrow> unit result \<times> 'e chat" where
  "on_send_message d meta req w =
     (let room_id = smq_room_id req;
          msg_validation = validate_message_content (content_size (smq_content req)) (unat (cc_max_message_length (cd_config d)))
      in
      if msg_validation = MV_EMPTY then send_message_error d meta EMPTY_MESSAGE w
      else if msg_validation = MV_TOO_LONG then send_message_error d meta MESSAGE_TOO_LONG w
      else
        let content_str = the (smq_content req);
            timestamp = cd_now_ms d (ch_env w);
            user_id = km_user_id meta;
            (is_member, w) = chat_redis d [''SISMEMBER'', members_key room_id, u64_str user_id] w
        in case is_member of
             Inl e \<Rightarrow> (Inl AdapterError, w)
           | Inr reply \<Rightarrow>
               if rr_integer reply = 0 then send_message_error d meta MSG_NOT_IN_ROOM w
               else
                 let pub_payload = build_pubsub_payload CHAT_MESSAGE (cd_fbs d (ChatMessage room_id user_id
                                     (u64_str user_id) content_str 0 timestamp (Some (room_channel room_id))));
                     (pub_result, w) = chat_publish d (room_channel room_id) pub_payload w;
                     w = chat_persist d (u64_str room_id) (cd_fbs d (ChatMessage room_id user_id
                           (u64_str user_id) content_str 0 timestamp None)) w
                 in respond d SEND_MESSAGE_RESPONSE meta (SendMessageResponse MSG_NONE 0 timestamp) w)"

definition on_whisper :: "'e chat_deps \<Rightarrow> KafkaMessageMeta \<Rightarrow> WhisperRequest \<Rightarrow> 'e chat \<Rightarrow> unit result \<times> 'e chat" where
  "on_whisper d meta req w =
     (let target_user_id = wrq_target_user_id req;
          whisper_validation = validate_message_content (content_size (wrq_content req)) (unat (cc_max_message_length (cd_config d)))
      in
      if whisper_validation = MV_EMPTY then send_whisper_error d meta EMPTY_MESSAGE w
      else if whisper_validation = MV_TOO_LONG then send_whisper_error d meta MESSAGE_TOO_LONG w
      else if target_user_id = km_user_id meta then send_whisper_error d meta MSG_PERMISSION_DENIED w
      else
        let content_str = the (wrq_content req);
            timestamp = cd_now_ms d (ch_env w);
            sender_id = km_user_id meta;
            (session_result, w) = chat_redis d [''GET'', ''session:user:'' @ u64_str target_user_id] w
        in case session_result of
             Inl e \<Rightarrow> send_whisper_error d meta TARGET_OFFLINE w
           | Inr reply \<Rightarrow>
               if rr_is_nil reply then send_whisper_error d meta TARGET_OFFLINE w
               else (case parse_session_core (rr_str reply) of
                       Inl e \<Rightarrow> (Inl e, w)
                     | Inr (target_session_id, target_core_id) \<Rightarrow>
                         let w = send_response_with_flags d WHISPER_MESSAGE (DIRECTION_RESPONSE OR DELIVERY_UNICAST) 0
                                   target_core_id target_session_id
                                   (cd_fbs d (WhisperMessage sender_id (u64_str sender_id) content_str timestamp)) '''' w
                         in respond d WHISPER_RESPONSE meta (WhisperResponse MSG_NONE timestamp) w))"

definition SQL_HISTORY_LATEST :: string where
  "SQL_HISTORY_LATEST = ''SELECT message_id, sender_id, sender_name, content, '' @
     ''EXTRACT(EPOCH FROM created_at)::bigint * 1000 AS ts '' @
     ''FROM chat_svc.chat_messages WHERE room_id = $1::bigint '' @ ''ORDER BY message_id DESC LIMIT $2::int''"

definition SQL_HISTORY_BEFORE :: string where
  "SQL_HISTORY_BEFORE = ''SELECT message_id, sender_id, sender_name, content, '' @
     ''EXTRACT(EPOCH FROM created_at)::bigint * 1000 AS ts '' @
     ''FROM chat_svc.chat_messages WHERE room_id = $1::bigint AND message_id < $2::bigint '' @
     ''ORDER BY message_id DESC LIMIT $3::int''"

text \<open>A row of the history, skipped when one of its numbers does not parse.\<close>

definition history_row :: "string list \<Rightarrow> HistoryMessage option" where
  "history_row row =
     (case (safe_parse_u64 (cell [row] 0 0), safe_parse_u64 (cell [row] 0 1), safe_parse_u64 (cell [row] 0 4)) of
        (Inr mid, Inr sid, Inr mts) \<Rightarrow>
          Some \<lparr>hm_message_id = mid, hm_sender_id = sid, hm_sender_name = cell [row] 0 2, hm_content = cell [row] 0 3,
                hm_timestamp = mts\<rparr>
      | _ \<Rightarrow> None)"

text \<open>The limit is cast to \<open>int\<close>; when that is negative (a configured page size above
  \<open>INT_MAX\<close>), \<open>reserve\<close> throws, which ends the coroutine (\<open>HandlerException\<close>).\<close>

definition on_chat_history :: "'e chat_deps \<Rightarrow> KafkaMessageMeta \<Rightarrow> ChatHistoryRequest \<Rightarrow> 'e chat \<Rightarrow> unit result \<times> 'e chat" where
  "on_chat_history d meta req w =
     (let room_id = chq_room_id req;
          before_message_id = chq_before_message_id req;
          limit = min (chq_limit req) (cc_history_page_size (cd_config d));
          (is_member, w) = chat_redis d [''SISMEMBER'', members_key room_id, u64_str (km_user_id meta)] w
      in case is_member of
           Inl e \<Rightarrow> (Inl AdapterError, w)
         | Inr reply \<Rightarrow>
             if rr_integer reply = 0 then send_history_error d meta MSG_NOT_IN_ROOM w
             else
               let fetch_limit = limit + 1;
                   (msg_result, w) =
                     (if before_message_id = 0
                      then chat_query d SQL_HISTORY_LATEST [u64_str room_id, u32_str fetch_limit] w
                      else chat_query d SQL_HISTORY_BEFORE [u64_str room_id, u64_str before_message_id, u32_str fetch_limit] w)
               in case msg_result of
                    Inl e \<Rightarrow> send_history_error d meta MSG_INTERNAL_ERROR w
                  | Inr rows \<Rightarrow>
                      let has_more = sint limit < int (length rows);
                          actual_count = min (int (length rows)) (sint limit)
                      in if actual_count < 0 then (Inl HandlerException, w)
                         else respond d CHAT_HISTORY_RESPONSE meta (ChatHistoryResponse MSG_NONE
                                (Some (List.map_filter history_row (take (nat actual_count) rows))) has_more) w)"

definition on_global_broadcast :: "'e chat_deps \<Rightarrow> KafkaMessageMeta \<Rightarrow> string option \<Rightarrow> 'e chat \<Rightarrow> unit result \<times> 'e chat" where
  "on_global_broadcast d meta content w =
     (let msg_validation = validate_message_content (content_size content) (unat (cc_max_message_length (cd_config d))) in
      if msg_validation = MV_EMPTY then send_global_broadcast_error d meta EMPTY_MESSAGE w
      else if msg_validation = MV_TOO_LONG then send_global_broadcast_error d meta MESSAGE_TOO_LONG w
      else
        let content_str = the content;
            timestamp = cd_now_ms d (ch_env w);
            sender_id = km_user_id meta;
            pub_payload = build_pubsub_payload GLOBAL_CHAT_MESSAGE (cd_fbs d (GlobalChatMessage sender_id
                            (u64_str sender_id) content_str timestamp GLOBAL_CHAT_CHANNEL));
            (pub_result, w) = chat_publish d GLOBAL_CHAT_CHANNEL pub_payload w
        in respond d GLOBAL_BROADCAST_RESPONSE meta (GlobalBroadcastResponse MSG_NONE timestamp) w)"

section \<open>Registration\<close>

definition chat_kafka_handlers ::
  "'e chat_deps \<Rightarrow> u32 \<rightharpoonup> (KafkaMessageMeta \<Rightarrow> u32 \<Rightarrow> bytes \<Rightarrow> 'e chat \<Rightarrow> unit result \<times> 'e chat)" where
  "chat_kafka_handlers d = Map.empty
     (2001 \<mapsto> kafka_route (cd_parse_create_room d) (on_create_room d),
      2003 \<mapsto> kafka_route (cd_parse_join_room d) (on_join_room d),
      2005 \<mapsto> kafka_route (cd_parse_leave_room d) (on_leave_room d),
      2007 \<mapsto> kafka_route (cd_parse_list_rooms d) (on_list_rooms d),
      2011 \<mapsto> kafka_route (cd_parse_send_message d) (on_send_message d),
      2021 \<mapsto> kafka_route (cd_parse_whisper d) (on_whisper d),
      2031 \<mapsto> kafka_route (cd_parse_chat_history d) (on_chat_history d),
      2041 \<mapsto> kafka_route (cd_parse_global_broadcast d) (on_global_broadcast d))"

text \<open>\<open>ChatDbConsumer::on_message\<close> verifies the message and reports success; nothing is stored.\<close>

definition db_on_message :: "(bytes \<Rightarrow> chat_fbs option) \<Rightarrow> bytes \<Rightarrow> unit result" where
  "db_on_message parse payload = (case parse payload of None \<Rightarrow> Inl FlatBuffersVerifyFailed | Some msg \<Rightarrow> Inr ())"

section \<open>What the steps change\<close>

lemma chat_query_frame [simp]:
  "ch_replies (snd (chat_query d sql ps w)) = ch_replies w"
  "ch_published (snd (chat_query d sql ps w)) = ch_published w"
  "ch_persisted (snd (chat_query d sql ps w)) = ch_persisted w"
  by (simp_all add: chat_query_def split_def Let_def)

lemma chat_redis_frame [simp]:
  "ch_replies (snd (chat_redis d cmd w)) = ch_replies w"
  "ch_published (snd (chat_redis d cmd w)) = ch_published w"
  "ch_persisted (snd (chat_redis d cmd w)) = ch_persisted w"
  by (simp_all add: chat_redis_def split_def Let_def)

lemma chat_publish_frame [simp]:
  "ch_replies (snd (chat_publish d c p w)) = ch_replies w"
  "ch_published (snd (chat_publish d c p w)) = ch_published w @ [(c, p)]"
  "ch_persisted (snd (chat_publish d c p w)) = ch_persisted w"
  by (simp_all add: chat_publish_def split_def Let_def)

lemma chat_persist_frame [simp]:
  "ch_replies (chat_persist d k p w) = ch_replies w"
  "ch_published (chat_persist d k p w) = ch_published w"
  "ch_persisted (chat_persist d k p w) = ch_persisted w @ [(k, p)]"
  by (simp_all add: chat_persist_def split_def Let_def)

lemma list_room_rows_frame [simp]:
  "ch_replies (snd (list_room_rows d rows w)) = ch_replies w"
  "ch_published (snd (list_room_rows d rows w)) = ch_published w"
  "ch_persisted (snd (list_room_rows d rows w)) = ch_persisted w"
  by (induction rows arbitrary: w) (simp_all add: split_def Let_def split: sum.split)

definition reply_to :: "'e chat_deps \<Rightarrow> u32 \<Rightarrow> KafkaMessageMeta \<Rightarrow> chat_fbs \<Rightarrow> chat_reply" where
  "reply_to d msg_id meta resp =
     \<lparr>cr_topic = cc_response_topic (cd_config d), cr_msg_id = msg_id, cr_flags = DIRECTION_RESPONSE,
      cr_corr_id = km_corr_id meta, cr_core_id = km_core_id meta, cr_session_id = km_session_id meta,
      cr_payload = cd_fbs d resp\<rparr>"

lemma send_response_with_flags_frame [simp]:
  "ch_published (send_response_with_flags d m f c k s p t w) = ch_published w"
  "ch_persisted (send_response_with_flags d m f c k s p t w) = ch_persisted w"
  "ch_replies (send_response_with_flags d m f c k s p t w) = ch_replies w @
     [\<lparr>cr_topic = (if t = '''' then cc_response_topic (cd_config d) else t), cr_msg_id = m, cr_flags = f, cr_corr_id = c,
       cr_core_id = k, cr_session_id = s, cr_payload = p\<rparr>]"
  by (simp_all add: send_response_with_flags_def split_def Let_def)

lemma respond_frame [simp]:
  "fst (respond d m meta resp w) = Inr ()"
  "ch_published (snd (respond d m meta resp w)) = ch_published w"
  "ch_persisted (snd (respond d m meta resp w)) = ch_persisted w"
  "ch_replies (snd (respond d m meta resp w)) = ch_replies w @ [reply_to d m meta resp]"
  by (simp_all add: respond_def send_response_def reply_to_def)

text \<open>A handler that succeeds ends with one reply to its request, after pushes that answer nothing; one that
  fails replies nothing.\<close>

definition answered :: "'e chat_deps \<Rightarrow> u32 \<Rightarrow> KafkaMessageMeta \<Rightarrow> 'e chat \<Rightarrow> unit result \<times> 'e chat \<Rightarrow> bool" where
  "answered d msg_id meta w rw \<longleftrightarrow>
     (case fst rw of
        Inl e \<Rightarrow> ch_replies (snd rw) = ch_replies w
      | Inr u \<Rightarrow> \<exists>pushes resp. ch_replies (snd rw) = ch_replies w @ pushes @ [reply_to d msg_id meta resp] \<and>
                  length pushes \<le> 1 \<and> (\<forall>p \<in> set pushes. cr_corr_id p = 0 \<and> cr_msg_id p = WHISPER_MESSAGE))"

lemma answered_failed: "ch_replies w' = ch_replies w \<Longrightarrow> answered d m meta w (Inl e, w')"
  by (simp add: answered_def)

lemma answered_respond: "ch_replies w' = ch_replies w \<Longrightarrow> answered d m meta w (respond d m meta resp w')"
  by (auto simp: answered_def intro: exI [of _ "[]"])

lemma answered_push:
  "ch_replies w' = ch_replies w @ [p] \<Longrightarrow> cr_corr_id p = 0 \<Longrightarrow> cr_msg_id p = WHISPER_MESSAGE \<Longrightarrow>
   answered d m meta w (respond d m meta resp w')"
  by (auto simp: answered_def intro!: exI [of _ "[p]"])

lemmas error_replies = send_create_room_error_def send_join_room_error_def send_leave_room_error_def
  send_list_rooms_error_def send_message_error_def send_whisper_error_def send_history_error_def
  send_global_broadcast_error_def

lemma on_create_room_answered: "answered d CREATE_ROOM_RESPONSE meta w (on_create_room d meta req w)"
  by (simp add: on_create_room_def error_replies Let_def split_def answered_respond split: sum.split)

lemma on_join_room_answered: "answered d JOIN_ROOM_RESPONSE meta w (on_join_room d meta room_id w)"
  by (simp add: on_join_room_def error_replies Let_def split_def answered_respond answered_failed split: sum.split)

lemma on_leave_room_answered: "answered d LEAVE_ROOM_RESPONSE meta w (on_leave_room d meta room_id w)"
  by (simp add: on_leave_room_def error_replies Let_def split_def answered_respond answered_failed split: sum.split)

lemma on_list_rooms_answered: "answered d LIST_ROOMS_RESPONSE meta w (on_list_rooms d meta req w)"
  by (simp add: on_list_rooms_def error_replies Let_def split_def answered_respond answered_failed split: sum.split)

lemma on_send_message_answered: "answered d SEND_MESSAGE_RESPONSE meta w (on_send_message d meta req w)"
  by (simp add: on_send_message_def error_replies Let_def split_def answered_respond answered_failed split: sum.split)

lemma on_whisper_answered: "answered d WHISPER_RESPONSE meta w (on_whisper d meta req w)"
  by (simp add: on_whisper_def error_replies Let_def split_def answered_respond answered_failed answered_push
      split: sum.split)

lemma on_chat_history_answered: "answered d CHAT_HISTORY_RESPONSE meta w (on_chat_history d meta req w)"
  by (simp add: on_chat_history_def error_replies Let_def split_def answered_respond answered_failed split: sum.split)

lemma on_global_broadcast_answered: "answered d GLOBAL_BROADCAST_RESPONSE meta w (on_global_broadcast d meta req w)"
  by (simp add: on_global_broadcast_def error_replies Let_def split_def answered_respond answered_failed split: sum.split)

lemma kafka_route_answered:
  "(\<And>req. answered d m meta w (h meta req w)) \<Longrightarrow> answered d m meta w (kafka_route parse h meta mid payload w)"
  by (simp add: kafka_route_def answered_failed split: option.split)

lemma chat_handler_answered:
  assumes "chat_kafka_handlers d mid = Some h"
  shows "answered d (mid + 1) meta w (h meta mid payload w)"
  using assms
    kafka_route_answered [where h = "on_create_room d", OF on_create_room_answered]
    kafka_route_answered [where h = "on_join_room d", OF on_join_room_answered]
    kafka_route_answered [where h = "on_leave_room d", OF on_leave_room_answered]
    kafka_route_answered [where h = "on_list_rooms d", OF on_list_rooms_answered]
    kafka_route_answered [where h = "on_send_message d", OF on_send_message_answered]
    kafka_route_answered [where h = "on_whisper d", OF on_whisper_answered]
    kafka_route_answered [where h = "on_chat_history d", OF on_chat_history_answered]
    kafka_route_answered [where h = "on_global_broadcast d", OF on_global_broadcast_answered]
  by (auto simp: chat_kafka_handlers_def CREATE_ROOM_RESPONSE_def JOIN_ROOM_RESPONSE_def LEAVE_ROOM_RESPONSE_def
      LIST_ROOMS_RESPONSE_def SEND_MESSAGE_RESPONSE_def WHISPER_RESPONSE_def CHAT_HISTORY_RESPONSE_def
      GLOBAL_BROADCAST_RESPONSE_def split: if_splits)

text \<open>
  C20: The chat service answers each message of its request topic exactly once, or fails. If dispatching a
  Kafka message succeeds, the message was a well-formed envelope and the last thing sent is one reply on the response
  topic: it carries the request's correlation id, core and session, and the message id after the request's; before
  it at most one whisper is pushed, with correlation id zero. If it fails, nothing is sent.
\<close>
theorem chat_answers_once:
  "case bridge_dispatch (Some (chat_kafka_handlers d)) raw w of
     (Inl err, w') \<Rightarrow> ch_replies w' = ch_replies w
   | (Inr _, w') \<Rightarrow>
       \<exists>routing metadata pushes r.
         RoutingHeader_parse raw = Inr routing \<and> MetadataPrefix_parse (drop RoutingHeader_SIZE raw) = Inr metadata \<and>
         ch_replies w' = ch_replies w @ pushes @ [r] \<and>
         cr_topic r = cc_response_topic (cd_config d) \<and> cr_flags r = DIRECTION_RESPONSE \<and>
         cr_msg_id r = rh_msg_id routing + 1 \<and> cr_corr_id r = mp_corr_id metadata \<and>
         cr_core_id r = mp_core_id metadata \<and> cr_session_id r = mp_session_id metadata \<and>
         (pushes = [] \<or> (\<exists>p. pushes = [p] \<and> cr_corr_id p = 0 \<and> cr_msg_id p = WHISPER_MESSAGE))"
proof (cases rule: bridge_dispatch_cases [of "chat_kafka_handlers d" raw w])
  case (rejected e)
  then show ?thesis by simp
next
  case (handled routing metadata h payload)
  let ?meta = "request_meta metadata"
  have a: "answered d (rh_msg_id routing + 1) ?meta w (h ?meta (rh_msg_id routing) payload w)"
    by (rule chat_handler_answered [OF handled(3)])
  obtain res w' where h: "h ?meta (rh_msg_id routing) payload w = (res, w')" by fastforce
  show ?thesis
  proof (cases res)
    case (Inl e)
    then show ?thesis using a by (simp add: handled(4) h answered_def)
  next
    case (Inr u)
    then obtain pushes resp where
      "ch_replies w' = ch_replies w @ pushes @ [reply_to d (rh_msg_id routing + 1) ?meta resp]"
      "length pushes \<le> 1" "\<forall>p \<in> set pushes. cr_corr_id p = 0 \<and> cr_msg_id p = WHISPER_MESSAGE"
      using a by (auto simp: h answered_def)
    moreover have "bridge_dispatch (Some (chat_kafka_handlers d)) raw w = (Inr u, w')"
      using handled(4) h Inr by simp
    ultimately show ?thesis
      using handled(1,2) by (cases pushes) (auto simp: reply_to_def request_meta_def)
  qed
qed

section \<open>Publishing\<close>

lemma pubsub_payload_frame:
  "build_wire_frame (build_pubsub_payload m p) =
     WireHeader_serialize \<lparr>wh_version = CURRENT_VERSION, wh_flags = 0, wh_msg_id = m,
       wh_body_size = of_nat (length p), wh_reserved = 0\<rparr> @ p"
proof -
  have "pubsub_msg_id (build_pubsub_payload m p) = m"
  proof (rule bit_word_eqI)
    fix n
    assume "n < LENGTH(32)"
    then have n: "n < 8 \<or> 8 \<le> n \<and> n < 16 \<or> 16 \<le> n \<and> n < 24 \<or> 24 \<le> n \<and> n < 32" by simp arith
    have ff: "y AND 0xFF = take_bit 8 y" for y :: u32
      by (simp add: take_bit_eq_mask mask_eq_exp_minus_1)
    have eq: "pubsub_msg_id (build_pubsub_payload m p) =
      push_bit 24 (ucast (ucast (take_bit 8 (drop_bit 24 m)) :: u8)) OR
      push_bit 16 (ucast (ucast (take_bit 8 (drop_bit 16 m)) :: u8)) OR
      push_bit 8 (ucast (ucast (take_bit 8 (drop_bit 8 m)) :: u8)) OR ucast (ucast (take_bit 8 m) :: u8)"
      by (simp add: pubsub_msg_id_def build_pubsub_payload_def ff)
    show "bit (pubsub_msg_id (build_pubsub_payload m p)) n = bit m n"
      using n
    proof (elim disjE)
      assume "8 \<le> n \<and> n < 16"
      then show ?thesis by (auto simp: eq bit_simps)
    next
      assume "16 \<le> n \<and> n < 24"
      then show ?thesis by (auto simp: eq bit_simps)
    next
      assume "24 \<le> n \<and> n < 32"
      then show ?thesis by (auto simp: eq bit_simps)
    qed (simp add: eq bit_simps)
  qed
  then show ?thesis by (simp add: build_wire_frame_layout build_pubsub_payload_def)
qed

text \<open>What a request may publish: nothing, a message for everyone, or, when Redis says that the user is a member
  of the room, one message to the room, which is also produced for the database.\<close>

definition published_ok :: "'e chat_deps \<Rightarrow> KafkaMessageMeta \<Rightarrow> 'e chat \<Rightarrow> 'e chat \<Rightarrow> bool" where
  "published_ok d meta w w' \<longleftrightarrow>
     ch_published w' = ch_published w \<and> ch_persisted w' = ch_persisted w \<or>
     (\<exists>p. ch_published w' = ch_published w @ [(GLOBAL_CHAT_CHANNEL, build_pubsub_payload GLOBAL_CHAT_MESSAGE p)] \<and>
          ch_persisted w' = ch_persisted w) \<or>
     (\<exists>room p q reply. fst (cd_redis d [''SISMEMBER'', members_key room, u64_str (km_user_id meta)] (ch_env w)) = Inr reply \<and>
          rr_integer reply \<noteq> 0 \<and>
          ch_published w' = ch_published w @ [(room_channel room, build_pubsub_payload CHAT_MESSAGE p)] \<and>
          ch_persisted w' = ch_persisted w @ [(u64_str room, q)])"

lemma published_ok_refl:
  "ch_published w' = ch_published w \<Longrightarrow> ch_persisted w' = ch_persisted w \<Longrightarrow> published_ok d meta w w'"
  by (simp add: published_ok_def)

lemma quiet_handlers:
  "published_ok d meta w (snd (on_create_room d meta crq w))"
  "published_ok d meta w (snd (on_join_room d meta room w))"
  "published_ok d meta w (snd (on_leave_room d meta room w))"
  "published_ok d meta w (snd (on_list_rooms d meta lrq w))"
  "published_ok d meta w (snd (on_whisper d meta wrq w))"
  "published_ok d meta w (snd (on_chat_history d meta chq w))"
  by (simp_all add: on_create_room_def on_join_room_def on_leave_room_def on_list_rooms_def on_whisper_def
      on_chat_history_def error_replies Let_def split_def published_ok_refl split: sum.split)

lemma on_global_broadcast_published: "published_ok d meta w (snd (on_global_broadcast d meta content w))"
  by (auto simp: on_global_broadcast_def error_replies Let_def split_def published_ok_def)

lemma on_send_message_published: "published_ok d meta w (snd (on_send_message d meta req w))"
proof (cases "fst (chat_redis d [''SISMEMBER'', members_key (smq_room_id req), u64_str (km_user_id meta)] w)")
  case (Inl e)
  then show ?thesis by (simp add: on_send_message_def error_replies Let_def split_def published_ok_refl)
next
  case (Inr reply)
  then have "fst (cd_redis d [''SISMEMBER'', members_key (smq_room_id req), u64_str (km_user_id meta)] (ch_env w)) = Inr reply"
    by (simp add: chat_redis_def split_def Let_def)
  then show ?thesis
    by (simp add: on_send_message_def error_replies Let_def split_def published_ok_refl Inr)
       (auto simp: published_ok_def)
qed

lemma chat_handler_published:
  assumes "chat_kafka_handlers d mid = Some h"
  shows "published_ok d meta w (snd (h meta mid payload w))"
  using assms
  by (auto simp: chat_kafka_handlers_def kafka_route_def quiet_handlers on_global_broadcast_published
      on_send_message_published published_ok_refl split: if_splits option.split)


section \<open>The scripts on Redis sets\<close>

text \<open>The effect of the two scripts on the sets of Redis, which runs a script atomically.\<close>

type_synonym redis_sets = "string \<Rightarrow> string set"

definition join_script :: "string \<Rightarrow> string \<Rightarrow> nat \<Rightarrow> redis_sets \<Rightarrow> int \<times> redis_sets" where
  "join_script key member max_members sets =
     (if member \<in> sets key then (-1, sets)
      else if max_members \<le> card (sets key) then (0, sets)
      else let sets = sets(key := insert member (sets key)) in (int (card (sets key)), sets))"

definition leave_script :: "string \<Rightarrow> string \<Rightarrow> redis_sets \<Rightarrow> int \<times> redis_sets" where
  "leave_script key member sets =
     (if member \<notin> sets key then (0, sets) else (1, sets(key := sets key - {member})))"

definition int_reply :: "int \<Rightarrow> RedisReply" where "int_reply i = RedisReply '''' i REPLY_INTEGER []"

text \<open>What Redis does with the commands the service sends, over a view \<open>mem\<close> of its sets: EVAL runs the scripts,
  SADD inserts, and reading leaves the sets alone.\<close>

definition redis_behaves :: "'e redis_command \<Rightarrow> ('e \<Rightarrow> redis_sets) \<Rightarrow> bool" where
  "redis_behaves redis mem \<longleftrightarrow>
     (\<forall>key member m e. fst (redis [''EVAL'', JOIN_ROOM_LUA, ''1'', key, member, nat_str m] e) =
          Inr (int_reply (fst (join_script key member m (mem e)))) \<and>
        mem (snd (redis [''EVAL'', JOIN_ROOM_LUA, ''1'', key, member, nat_str m] e)) = snd (join_script key member m (mem e))) \<and>
     (\<forall>key member e. fst (redis [''EVAL'', LEAVE_ROOM_LUA, ''1'', key, member] e) =
          Inr (int_reply (fst (leave_script key member (mem e)))) \<and>
        mem (snd (redis [''EVAL'', LEAVE_ROOM_LUA, ''1'', key, member] e)) = snd (leave_script key member (mem e))) \<and>
     (\<forall>key member e. mem (snd (redis [''SADD'', key, member] e)) = (mem e)(key := insert member (mem e key))) \<and>
     (\<forall>key member e. mem (snd (redis [''SISMEMBER'', key, member] e)) = mem e) \<and>
     (\<forall>key e. mem (snd (redis [''SCARD'', key] e)) = mem e) \<and>
     (\<forall>key e. mem (snd (redis [''GET'', key] e)) = mem e)"

definition capacity_ok :: "(u64 \<Rightarrow> u32) \<Rightarrow> redis_sets \<Rightarrow> bool" where
  "capacity_ok limit_of sets \<longleftrightarrow> (\<forall>room. finite (sets (members_key room)) \<and> card (sets (members_key room)) \<le> unat (limit_of room))"

lemma members_key_inj [simp]: "members_key r = members_key s \<longleftrightarrow> r = s"
  by (auto simp: members_key_def u64_str_def nat_str_inj intro: unsigned_word_eqI)

lemma join_script_capacity:
  assumes "capacity_ok limit_of sets" "m \<le> unat (limit_of room)"
  shows "capacity_ok limit_of (snd (join_script (members_key room) u m sets))"
  using assms by (auto simp: capacity_ok_def join_script_def Let_def not_le)

lemma leave_script_capacity:
  assumes "capacity_ok limit_of sets"
  shows "capacity_ok limit_of (snd (leave_script (members_key room) u sets))"
  using assms by (auto simp: capacity_ok_def leave_script_def card_Diff_singleton_if intro: le_trans [OF diff_le_self])

lemma create_capacity:
  assumes "capacity_ok limit_of sets" "sets (members_key room) = {}" "limit_of room \<noteq> 0"
  shows "capacity_ok limit_of (sets(members_key room := insert u (sets (members_key room))))"
  using assms by (auto simp: capacity_ok_def Suc_le_eq unat_gt_0)

text \<open>What the database and the broker do for the capacity: whatever runs while a request waits keeps it, a room's
  row gives its limit, and a new room has an id whose set is empty.\<close>

definition backend_keeps :: "'e chat_deps \<Rightarrow> ('e \<Rightarrow> redis_sets) \<Rightarrow> (u64 \<Rightarrow> u32) \<Rightarrow> bool" where
  "backend_keeps d mem limit_of \<longleftrightarrow>
     (\<forall>sql ps e. capacity_ok limit_of (mem e) \<longrightarrow> capacity_ok limit_of (mem (snd (cd_query d sql ps e)))) \<and>
     (\<forall>c p e. capacity_ok limit_of (mem e) \<longrightarrow> capacity_ok limit_of (mem (snd (cd_publish d c p e)))) \<and>
     (\<forall>t k p e. capacity_ok limit_of (mem e) \<longrightarrow> capacity_ok limit_of (mem (snd (cd_produce d t k p e)))) \<and>
     (\<forall>room e rows. fst (cd_query d SQL_SELECT_ROOM [u64_str room] e) = Inr rows \<longrightarrow> rows \<noteq> [] \<longrightarrow>
        cell rows 0 1 = u32_str (limit_of room)) \<and>
     (\<forall>ps e rows room. fst (cd_query d SQL_INSERT_ROOM ps e) = Inr rows \<longrightarrow> rows \<noteq> [] \<longrightarrow>
        safe_parse_u64 (cell rows 0 0) = Inr room \<longrightarrow>
        limit_of room \<noteq> 0 \<and> mem (snd (cd_query d SQL_INSERT_ROOM ps e)) (members_key room) = {})"

definition sets_ok :: "('e \<Rightarrow> redis_sets) \<Rightarrow> (u64 \<Rightarrow> u32) \<Rightarrow> 'e chat \<Rightarrow> bool" where
  "sets_ok mem limit_of w \<longleftrightarrow> capacity_ok limit_of (mem (ch_env w))"

lemma parse_u32_str: "safe_parse_u64 (u32_str v) = Inr (ucast v)"
proof -
  have "unat (ucast v :: u64) = unat v" by (rule unat_ucast_up) simp
  then show ?thesis using from_chars_nat_str [of "[]" "ucast v :: u64"] by (simp add: safe_parse_u64_def u32_str_def)
qed

lemma ucast_u64_u32 [simp]: "(ucast (ucast (v :: u32) :: u64) :: u32) = v"
  by (rule ucast_up_ucast_id) (simp add: is_up)

lemma keeps_query: "backend_keeps d mem limit_of \<Longrightarrow> sets_ok mem limit_of w \<Longrightarrow> sets_ok mem limit_of (snd (chat_query d sql ps w))"
  by (simp add: backend_keeps_def sets_ok_def chat_query_def split_def Let_def)

lemma keeps_publish: "backend_keeps d mem limit_of \<Longrightarrow> sets_ok mem limit_of w \<Longrightarrow> sets_ok mem limit_of (snd (chat_publish d c p w))"
  by (simp add: backend_keeps_def sets_ok_def chat_publish_def split_def Let_def)

lemma keeps_persist: "backend_keeps d mem limit_of \<Longrightarrow> sets_ok mem limit_of w \<Longrightarrow> sets_ok mem limit_of (chat_persist d k p w)"
  by (simp add: backend_keeps_def sets_ok_def chat_persist_def split_def Let_def)

lemma keeps_send:
  "backend_keeps d mem limit_of \<Longrightarrow> sets_ok mem limit_of w \<Longrightarrow> sets_ok mem limit_of (send_response_with_flags d m f c k s p t w)"
  by (simp add: backend_keeps_def sets_ok_def send_response_with_flags_def split_def Let_def)

lemma keeps_respond:
  "backend_keeps d mem limit_of \<Longrightarrow> sets_ok mem limit_of w \<Longrightarrow> sets_ok mem limit_of (snd (respond d m meta resp w))"
  by (simp add: respond_def send_response_def keeps_send)

lemma keeps_read:
  "redis_behaves (cd_redis d) mem \<Longrightarrow> sets_ok mem limit_of w \<Longrightarrow> sets_ok mem limit_of (snd (chat_redis d [''SISMEMBER'', k, u] w))"
  "redis_behaves (cd_redis d) mem \<Longrightarrow> sets_ok mem limit_of w \<Longrightarrow> sets_ok mem limit_of (snd (chat_redis d [''SCARD'', k] w))"
  "redis_behaves (cd_redis d) mem \<Longrightarrow> sets_ok mem limit_of w \<Longrightarrow> sets_ok mem limit_of (snd (chat_redis d [''GET'', k] w))"
  by (simp_all add: redis_behaves_def sets_ok_def chat_redis_def split_def Let_def)

lemma keeps_join:
  assumes "redis_behaves (cd_redis d) mem" "sets_ok mem limit_of w"
  shows "sets_ok mem limit_of (snd (chat_redis d [''EVAL'', JOIN_ROOM_LUA, ''1'', members_key room, u, u32_str (limit_of room)] w))"
  using assms join_script_capacity
  by (simp add: redis_behaves_def sets_ok_def chat_redis_def split_def Let_def u32_str_def)

lemma keeps_leave:
  assumes "redis_behaves (cd_redis d) mem" "sets_ok mem limit_of w"
  shows "sets_ok mem limit_of (snd (chat_redis d [''EVAL'', LEAVE_ROOM_LUA, ''1'', members_key room, u] w))"
  using assms leave_script_capacity
  by (simp add: redis_behaves_def sets_ok_def chat_redis_def split_def Let_def)

lemma keeps_create:
  assumes "redis_behaves (cd_redis d) mem" "sets_ok mem limit_of w" "mem (ch_env w) (members_key room) = {}" "limit_of room \<noteq> 0"
  shows "sets_ok mem limit_of (snd (chat_redis d [''SADD'', members_key room, u] w))"
  using assms create_capacity [of limit_of "mem (ch_env w)"]
  by (simp add: redis_behaves_def sets_ok_def chat_redis_def split_def Let_def)

lemmas keeps = keeps_query keeps_publish keeps_persist keeps_send keeps_respond keeps_read keeps_join keeps_leave

lemma room_limit:
  assumes "backend_keeps d mem limit_of" "fst (chat_query d SQL_SELECT_ROOM [u64_str room] w) = Inr rows" "rows \<noteq> []"
  shows "safe_parse_u64 (cell rows 0 (Suc 0)) = Inr (ucast (limit_of room))"
proof -
  have "fst (cd_query d SQL_SELECT_ROOM [u64_str room] (ch_env w)) = Inr rows"
    using assms(2) by (simp add: chat_query_def split_def Let_def)
  then have "cell rows 0 1 = u32_str (limit_of room)"
    using assms(1,3) by (auto simp: backend_keeps_def)
  then show ?thesis by (simp add: parse_u32_str)
qed

lemma new_room:
  assumes "backend_keeps d mem limit_of" "fst (chat_query d SQL_INSERT_ROOM ps w) = Inr rows" "rows \<noteq> []"
    "safe_parse_u64 (cell rows 0 0) = Inr room"
  shows "limit_of room \<noteq> 0" "mem (ch_env (snd (chat_query d SQL_INSERT_ROOM ps w))) (members_key room) = {}"
proof -
  have "fst (cd_query d SQL_INSERT_ROOM ps (ch_env w)) = Inr rows"
    using assms(2) by (simp add: chat_query_def split_def Let_def)
  then have "limit_of room \<noteq> 0 \<and> mem (snd (cd_query d SQL_INSERT_ROOM ps (ch_env w))) (members_key room) = {}"
    using assms unfolding backend_keeps_def by blast
  then show "limit_of room \<noteq> 0" "mem (ch_env (snd (chat_query d SQL_INSERT_ROOM ps w))) (members_key room) = {}"
    by (simp_all add: chat_query_def split_def Let_def)
qed


lemma rows_keep:
  assumes "redis_behaves (cd_redis d) mem" "sets_ok mem limit_of w"
  shows "sets_ok mem limit_of (snd (list_room_rows d rows w))"
  using assms(2) by (induction rows arbitrary: w) (simp_all add: split_def Let_def keeps assms(1) split: sum.split)

lemma handlers_keep:
  assumes "redis_behaves (cd_redis d) mem" "backend_keeps d mem limit_of" "sets_ok mem limit_of w"
  shows "sets_ok mem limit_of (snd (on_leave_room d meta room w))"
    and "sets_ok mem limit_of (snd (on_list_rooms d meta lrq w))"
    and "sets_ok mem limit_of (snd (on_send_message d meta smq w))"
    and "sets_ok mem limit_of (snd (on_whisper d meta wrq w))"
    and "sets_ok mem limit_of (snd (on_chat_history d meta chq w))"
    and "sets_ok mem limit_of (snd (on_global_broadcast d meta content w))"
  by (simp_all add: on_leave_room_def on_list_rooms_def on_send_message_def on_whisper_def on_chat_history_def
      on_global_broadcast_def error_replies Let_def split_def keeps rows_keep assms split: sum.split)

lemma on_join_room_keeps:
  assumes "redis_behaves (cd_redis d) mem" "backend_keeps d mem limit_of" "sets_ok mem limit_of w"
  shows "sets_ok mem limit_of (snd (on_join_room d meta room w))"
proof (cases "fst (chat_query d SQL_SELECT_ROOM [u64_str room] w)")
  case (Inl e)
  then show ?thesis by (simp add: on_join_room_def error_replies Let_def split_def keeps assms)
next
  case (Inr rows)
  show ?thesis
  proof (cases "rows = []")
    case True
    then show ?thesis by (simp add: on_join_room_def error_replies Let_def split_def keeps assms Inr)
  next
    case False
    then show ?thesis
      by (simp add: on_join_room_def error_replies Let_def split_def keeps assms Inr room_limit [OF assms(2) Inr]
          split: sum.split)
  qed
qed

lemma on_create_room_keeps:
  assumes "redis_behaves (cd_redis d) mem" "backend_keeps d mem limit_of" "sets_ok mem limit_of w"
  shows "sets_ok mem limit_of (snd (on_create_room d meta req w))"
  by (simp add: on_create_room_def error_replies Let_def split_def keeps keeps_create assms new_room [OF assms(2)]
      split: sum.split)

lemma chat_handler_keeps:
  assumes "chat_kafka_handlers d mid = Some h"
    and "redis_behaves (cd_redis d) mem" "backend_keeps d mem limit_of" "sets_ok mem limit_of w"
  shows "sets_ok mem limit_of (snd (h meta mid payload w))"
  using assms(1)
  by (auto simp: chat_kafka_handlers_def kafka_route_def handlers_keep [OF assms(2-4)] on_join_room_keeps [OF assms(2-4)]
      on_create_room_keeps [OF assms(2-4)] assms(4) split: if_splits option.split)


text \<open>A concrete backend: Redis as its sets, one room (7, for two members) in the database.\<close>

definition sample_chat_redis :: "redis_sets redis_command" where
  "sample_chat_redis cmd e =
     (if length cmd = 6 \<and> cmd ! 1 = JOIN_ROOM_LUA
      then (case join_script (cmd ! 3) (cmd ! 4) (str_nat (cmd ! 5)) e of (i, e) \<Rightarrow> (Inr (int_reply i), e))
      else if length cmd = 5
      then (case leave_script (cmd ! 3) (cmd ! 4) e of (i, e) \<Rightarrow> (Inr (int_reply i), e))
      else if hd cmd = ''SADD'' then (Inr (int_reply 1), e(cmd ! 1 := insert (cmd ! 2) (e (cmd ! 1))))
      else if hd cmd = ''SISMEMBER'' then (Inr (int_reply (if cmd ! 2 \<in> e (cmd ! 1) then 1 else 0)), e)
      else (Inr (RedisReply '''' 0 REPLY_NIL []), e))"

definition sample_chat_deps :: "redis_sets chat_deps" where
  "sample_chat_deps = \<lparr>cd_config = ChatConfig_default,
     cd_query = (\<lambda>sql ps e. (if sql = SQL_SELECT_ROOM then Inr [[''lobby'', u32_str 2]] else Inl AdapterError, e)),
     cd_redis = sample_chat_redis, cd_publish = (\<lambda>c p e. (Inr (int_reply 0), e)), cd_produce = (\<lambda>t k p e. (Inr (), e)),
     cd_fbs = (\<lambda>m. []), cd_now_ms = (\<lambda>e. 0), cd_parse_create_room = (\<lambda>b. None), cd_parse_join_room = (\<lambda>b. Some 7),
     cd_parse_leave_room = (\<lambda>b. Some 7), cd_parse_list_rooms = (\<lambda>b. None), cd_parse_send_message = (\<lambda>b. None),
     cd_parse_whisper = (\<lambda>b. None), cd_parse_chat_history = (\<lambda>b. None), cd_parse_global_broadcast = (\<lambda>b. None)\<rparr>"

definition sample_chat :: "redis_sets chat" where
  "sample_chat = \<lparr>ch_env = (\<lambda>key. if key = members_key 7 then {u64_str 1} else {}), ch_replies = [], ch_published = [], ch_persisted = []\<rparr>"

definition sample_meta :: KafkaMessageMeta where
  "sample_meta = \<lparr>km_meta_version = 2, km_core_id = 0, km_corr_id = 5, km_source_id = 1, km_session_id = 9, km_user_id = 2,
     km_timestamp = 0\<rparr>"

definition sample_join_envelope :: bytes where
  "sample_join_envelope = eb_build 0 (eb_metadata 0 5 1 9 2 (eb_routing 2003 0 EnvelopeBuilder_new))"

lemma sample_redis_behaves: "redis_behaves (cd_redis sample_chat_deps) id"
  by (simp add: redis_behaves_def sample_chat_deps_def sample_chat_redis_def split_def)

lemma sample_backend_keeps: "backend_keeps sample_chat_deps id (\<lambda>room. 2)"
  by (simp add: backend_keeps_def sample_chat_deps_def cell_def SQL_SELECT_ROOM_def SQL_INSERT_ROOM_def)

lemma sample_capacity_ok: "capacity_ok (\<lambda>room. 2) (ch_env sample_chat)"
  by (simp add: capacity_ok_def sample_chat_def)


text \<open>
  Joining a room that exists has exactly three outcomes, each answered: a user who is a member already gets
  ALREADY_IN_ROOM and a user who finds the room full ROOM_FULL, both with the member set unchanged; any other user
  becomes a member and gets the room's name and its new number of members. The count can not be mistaken for
  one of the script's two refusals.
\<close>
theorem join_room_outcome:
  assumes "redis_behaves (cd_redis d) mem"
    and "chat_query d SQL_SELECT_ROOM [u64_str room] w = (Inr [[name, u32_str m]], w1)"
    and "members = mem (ch_env w1) (members_key room)" and "finite members" and "user = u64_str (km_user_id meta)"
  shows "\<exists>w2. on_join_room d meta room w = respond d JOIN_ROOM_RESPONSE meta
            (if user \<in> members then JoinRoomResponse ALREADY_IN_ROOM room None 0
             else if unat m \<le> card members then JoinRoomResponse ROOM_FULL room None 0
             else JoinRoomResponse ROOM_NONE room (Some name) (of_nat (card members + 1))) w2 \<and>
          mem (ch_env w2) = (mem (ch_env w1))
            (members_key room := if user \<notin> members \<and> card members < unat m then insert user members else members)"
proof -
  define cmd where "cmd = [''EVAL'', JOIN_ROOM_LUA, ''1'', members_key room, user, u32_str m]"
  let ?s = "join_script (members_key room) user (unat m) (mem (ch_env w1))"
  obtain w2 where w2: "chat_redis d cmd w1 = (Inr (int_reply (fst ?s)), w2)" "mem (ch_env w2) = snd ?s"
    using assms(1) by (simp add: redis_behaves_def chat_redis_def cmd_def u32_str_def split_def Let_def)
  have "on_join_room d meta room w =
    (let i = fst ?s in
     if interpret_join_result i = ALREADY_IN then send_join_room_error d meta ALREADY_IN_ROOM room w2
     else if interpret_join_result i = ROOM_IS_FULL then send_join_room_error d meta ROOM_FULL room w2
     else respond d JOIN_ROOM_RESPONSE meta (JoinRoomResponse ROOM_NONE room (Some name) (of_int i)) w2)"
    using w2(1) by (simp add: on_join_room_def assms(2,5) Let_def cell_def parse_u32_str cmd_def
        int_reply_def rr_is_error_def rr_is_integer_def)
  then show ?thesis
    using w2(2) assms(3,4)
    by (auto simp: interpret_join_result_def join_script_def Let_def
        send_join_room_error_def intro!: exI [of _ w2])
qed

theorem join_room_outcome_witness:
  "\<exists>w2. on_join_room sample_chat_deps sample_meta 7 sample_chat =
      respond sample_chat_deps JOIN_ROOM_RESPONSE sample_meta (JoinRoomResponse ROOM_NONE 7 (Some ''lobby'') 2) w2 \<and>
      ch_env w2 (members_key 7) = {u64_str 1, u64_str 2}"
proof -
  have q: "chat_query sample_chat_deps SQL_SELECT_ROOM [u64_str 7] sample_chat = (Inr [[''lobby'', u32_str 2]], sample_chat)"
    by (simp add: chat_query_def sample_chat_deps_def sample_chat_def)
  have m: "{u64_str 1} = id (ch_env sample_chat) (members_key 7)" by (simp add: sample_chat_def)
  have u: "u64_str 2 = u64_str (km_user_id sample_meta)" by (simp add: sample_meta_def)
  have n: "u64_str 2 \<noteq> u64_str 1" by (simp add: u64_str_def nat_str_inj)
  have "\<exists>w2. on_join_room sample_chat_deps sample_meta 7 sample_chat =
      respond sample_chat_deps JOIN_ROOM_RESPONSE sample_meta (JoinRoomResponse ROOM_NONE 7 (Some ''lobby'')
        (of_nat (card {u64_str 1} + 1))) w2 \<and>
      id (ch_env w2) = (id (ch_env sample_chat)) (members_key 7 := insert (u64_str 2) {u64_str 1})"
    using join_room_outcome [of sample_chat_deps id 7 sample_chat "''lobby''" 2 sample_chat "{u64_str 1}" "u64_str 2" sample_meta,
        OF sample_redis_behaves q m] u n by simp
  then show ?thesis by (auto simp: insert_commute)
qed

end
