(* ===== verification/Bcrypt.thy ===== *)
theory Bcrypt
  imports Decimal
begin

unbundle bit_operations_syntax

text \<open>
  \<open>apex_services/auth-svc/src/bcrypt/bcrypt.c\<close>, the password hash of the auth service. C strings are lists of
  characters without the terminator; \<open>cstr_at\<close> reads one, with the terminator at its length and \<open>None\<close> behind
  it, so that a read outside of a string makes a function return \<open>None\<close>. A return value \<open>-1\<close> is \<open>Inl\<close>. The
  random bytes are an argument.
\<close>

section \<open>Base 64\<close>

definition NUL :: char where "NUL = CHR 0x00"

definition c_str :: "string \<Rightarrow> string" where "c_str s = takeWhile (\<lambda>c. c \<noteq> NUL) s"

definition cstr_at :: "string \<Rightarrow> nat \<Rightarrow> char option" where
  "cstr_at s i = (if i < length s then Some (s ! i) else if i = length s then Some NUL else None)"

definition base64_table :: string where
  "base64_table = ''./ABCDEFGHIJKLMNOPQRSTUVWXYZabcdefghijklmnopqrstuvwxyz0123456789''"

definition b64 :: "u32 \<Rightarrow> char" where
  "b64 c = base64_table ! unat (c AND 0x3f)"

fun encode_base64 :: "bytes \<Rightarrow> string" where
  "encode_base64 [] = []"
| "encode_base64 [a] =
     [b64 (drop_bit 2 (ucast a)), b64 (push_bit 4 (ucast a AND 0x03))]"
| "encode_base64 [a, b] =
     [b64 (drop_bit 2 (ucast a)), b64 (push_bit 4 (ucast a AND 0x03) OR (drop_bit 4 (ucast b) AND 0x0f)),
      b64 (push_bit 2 (ucast b AND 0x0f))]"
| "encode_base64 (a # b # c # rest) =
     [b64 (drop_bit 2 (ucast a)), b64 (push_bit 4 (ucast a AND 0x03) OR (drop_bit 4 (ucast b) AND 0x0f)),
      b64 (push_bit 2 (ucast b AND 0x0f) OR (drop_bit 6 (ucast c) AND 0x03)), b64 (ucast c)] @ encode_base64 rest"

text \<open>\<open>strchr\<close> searches the terminator of the table as well.\<close>

definition strchr :: "string \<Rightarrow> char \<Rightarrow> nat option" where
  "strchr s c = (let n = length (takeWhile (\<lambda>x. x \<noteq> c) (s @ [NUL])) in if n \<le> length s then Some n else None)"

definition char64 :: "char \<Rightarrow> u32 option" where
  "char64 c = (case strchr base64_table c of Some n \<Rightarrow> Some (of_nat n) | None \<Rightarrow> None)"

text \<open>The third and fourth character of a group: read unless the string ends there.\<close>

definition next64 :: "string \<Rightarrow> nat \<Rightarrow> u32 option option" where
  "next64 src si = (case cstr_at src si of None \<Rightarrow> None | Some c \<Rightarrow> Some (if c = NUL then None else char64 c))"

function decode_base64 :: "nat \<Rightarrow> string \<Rightarrow> nat \<Rightarrow> bytes \<Rightarrow> (unit + bytes) option" where
  "decode_base64 dst_len src si dst =
     (if \<not> length dst < dst_len then (if cstr_at src si = None then None else Some (Inr dst)) else
      case cstr_at src si of None \<Rightarrow> None | Some ch \<Rightarrow>
      if ch = NUL then Some (Inr dst) else
      case char64 ch of None \<Rightarrow> Some (Inl ()) | Some c1 \<Rightarrow>
      case cstr_at src (si + 1) of None \<Rightarrow> None | Some ch2 \<Rightarrow>
      case char64 ch2 of None \<Rightarrow> Some (Inl ()) | Some c2 \<Rightarrow>
      let dst = dst @ [ucast (push_bit 2 c1 OR drop_bit 4 (c2 AND 0x30))] in
      if \<not> length dst < dst_len then Some (Inr dst) else
      case next64 src (si + 2) of None \<Rightarrow> None | Some None \<Rightarrow> Some (Inr dst) | Some (Some c3) \<Rightarrow>
      let dst = dst @ [ucast (push_bit 4 (c2 AND 0x0f) OR drop_bit 2 (c3 AND 0x3c))] in
      if \<not> length dst < dst_len then Some (Inr dst) else
      case next64 src (si + 3) of None \<Rightarrow> None | Some None \<Rightarrow> Some (Inr dst) | Some (Some c4) \<Rightarrow>
      decode_base64 dst_len src (si + 4) (dst @ [ucast (push_bit 6 (c3 AND 0x03) OR c4)]))"
  by pat_completeness auto
termination
  by (relation "measure (\<lambda>(n, src, si, dst). n - length dst)") auto

section \<open>Blowfish\<close>

record blowfish_ctx =
  bc_P :: "u32 list"
  bc_S :: "u32 list list"

definition bf_P_init :: "u32 list" where
  "bf_P_init =
     [0x243f6a88, 0x85a308d3, 0x13198a2e, 0x03707344, 0xa4093822, 0x299f31d0, 0x082efa98, 0xec4e6c89,
      0x452821e6, 0x38d01377, 0xbe5466cf, 0x34e90c6c, 0xc0ac29b7, 0xc97c50dd, 0x3f84d5b5, 0xb5470917,
      0x9216d5d9, 0x8979fb1b]"

definition bf_S_init_0 :: "u32 list" where
  "bf_S_init_0 =
     [0xd1310ba6, 0x98dfb5ac, 0x2ffd72db, 0xd01adfb7, 0xb8e1afed, 0x6a267e96, 0xba7c9045, 0xf12c7f99,
      0x24a19947, 0xb3916cf7, 0x0801f2e2, 0x858efc16, 0x636920d8, 0x71574e69, 0xa458fea3, 0xf4933d7e,
      0x0d95748f, 0x728eb658, 0x718bcd58, 0x82154aee, 0x7b54a41d, 0xc25a59b5, 0x9c30d539, 0x2af26013,
      0xc5d1b023, 0x286085f0, 0xca417918, 0xb8db38ef, 0x8e79dcb0, 0x603a180e, 0x6c9e0e8b, 0xb01e8a3e,
      0xd71577c1, 0xbd314b27, 0x78af2fda, 0x55605c60, 0xe65525f3, 0xaa55ab94, 0x57489862, 0x63e81440,
      0x55ca396a, 0x2aab10b6, 0xb4cc5c34, 0x1141e8ce, 0xa15486af, 0x7c72e993, 0xb3ee1411, 0x636fbc2a,
      0x2ba9c55d, 0x741831f6, 0xce5c3e16, 0x9b87931e, 0xafd6ba33, 0x6c24cf5c, 0x7a325381, 0x28958677,
      0x3b8f4898, 0x6b4bb9af, 0xc4bfe81b, 0x66282193, 0x61d809cc, 0xfb21a991, 0x487cac60, 0x5dec8032,
      0xef845d5d, 0xe98575b1, 0xdc262302, 0xeb651b88, 0x23893e81, 0xd396acc5, 0x0f6d6ff3, 0x83f44239,
      0x2e0b4482, 0xa4842004, 0x69c8f04a, 0x9e1f9b5e, 0x21c66842, 0xf6e96c9a, 0x670c9c61, 0xabd388f0,
      0x6a51a0d2, 0xd8542f68, 0x960fa728, 0xab5133a3, 0x6eef0b6c, 0x137a3be4, 0xba3bf050, 0x7efb2a98,
      0xa1f1651d, 0x39af0176, 0x66ca593e, 0x82430e88, 0x8cee8619, 0x456f9fb4, 0x7d84a5c3, 0x3b8b5ebe,
      0xe06f75d8, 0x85c12073, 0x401a449f, 0x56c16aa6, 0x4ed3aa62, 0x363f7706, 0x1bfedf72, 0x429b023d,
      0x37d0d724, 0xd00a1248, 0xdb0fead3, 0x49f1c09b, 0x075372c9, 0x80991b7b, 0x25d479d8, 0xf6e8def7,
      0xe3fe501a, 0xb6794c3b, 0x976ce0bd, 0x04c006ba, 0xc1a94fb6, 0x409f60c4, 0x5e5c9ec2, 0x196a2463,
      0x68fb6faf, 0x3e6c53b5, 0x1339b2eb, 0x3b52ec6f, 0x6dfc511f, 0x9b30952c, 0xcc814544, 0xaf5ebd09,
      0xbee3d004, 0xde334afd, 0x660f2807, 0x192e4bb3, 0xc0cba857, 0x45c8740f, 0xd20b5f39, 0xb9d3fbdb,
      0x5579c0bd, 0x1a60320a, 0xd6a100c6, 0x402c7279, 0x679f25fe, 0xfb1fa3cc, 0x8ea5e9f8, 0xdb3222f8,
      0x3c7516df, 0xfd616b15, 0x2f501ec8, 0xad0552ab, 0x323db5fa, 0xfd238760, 0x53317b48, 0x3e00df82,
      0x9e5c57bb, 0xca6f8ca0, 0x1a87562e, 0xdf1769db, 0xd542a8f6, 0x287effc3, 0xac6732c6, 0x8c4f5573,
      0x695b27b0, 0xbbca58c8, 0xe1ffa35d, 0xb8f011a0, 0x10fa3d98, 0xfd2183b8, 0x4afcb56c, 0x2dd1d35b,
      0x9a53e479, 0xb6f84565, 0xd28e49bc, 0x4bfb9790, 0xe1ddf2da, 0xa4cb7e33, 0x62fb1341, 0xcee4c6e8,
      0xef20cada, 0x36774c01, 0xd07e9efe, 0x2bf11fb4, 0x95dbda4d, 0xae909198, 0xeaad8e71, 0x6b93d5a0,
      0xd08ed1d0, 0xafc725e0, 0x8e3c5b2f, 0x8e7594b7, 0x8ff6e2fb, 0xf2122b64, 0x8888b812, 0x900df01c,
      0x4fad5ea0, 0x688fc31c, 0xd1cff191, 0xb3a8c1ad, 0x2f2f2218, 0xbe0e1777, 0xea752dfe, 0x8b021fa1,
      0xe5a0cc0f, 0xb56f74e8, 0x18acf3d6, 0xce89e299, 0xb4a84fe0, 0xfd13e0b7, 0x7cc43b81, 0xd2ada8d9,
      0x165fa266, 0x80957705, 0x93cc7314, 0x211a1477, 0xe6ad2065, 0x77b5fa86, 0xc75442f5, 0xfb9d35cf,
      0xebcdaf0c, 0x7b3e89a0, 0xd6411bd3, 0xae1e7e49, 0x00250e2d, 0x2071b35e, 0x226800bb, 0x57b8e0af,
      0x2464369b, 0xf009b91e, 0x5563911d, 0x59dfa6aa, 0x78c14389, 0xd95a537f, 0x207d5ba2, 0x02e5b9c5,
      0x83260376, 0x6295cfa9, 0x11c81968, 0x4e734a41, 0xb3472dca, 0x7b14a94a, 0x1b510052, 0x9a532915,
      0xd60f573f, 0xbc9bc6e4, 0x2b60a476, 0x81e67400, 0x08ba6fb5, 0x571be91f, 0xf296ec6b, 0x2a0dd915,
      0xb6636521, 0xe7b9f9b6, 0xff34052e, 0xc5855664, 0x53b02d5d, 0xa99f8fa1, 0x08ba4799, 0x6e85076a]"

definition bf_S_init_1 :: "u32 list" where
  "bf_S_init_1 =
     [0x4b7a70e9, 0xb5b32944, 0xdb75092e, 0xc4192623, 0xad6ea6b0, 0x49a7df7d, 0x9cee60b8, 0x8fedb266,
      0xecaa8c71, 0x699a17ff, 0x5664526c, 0xc2b19ee1, 0x193602a5, 0x75094c29, 0xa0591340, 0xe4183a3e,
      0x3f54989a, 0x5b429d65, 0x6b8fe4d6, 0x99f73fd6, 0xa1d29c07, 0xefe830f5, 0x4d2d38e6, 0xf0255dc1,
      0x4cdd2086, 0x8470eb26, 0x6382e9c6, 0x021ecc5e, 0x09686b3f, 0x3ebaefc9, 0x3c971814, 0x6b6a70a1,
      0x687f3584, 0x52a0e286, 0xb79c5305, 0xaa500737, 0x3e07841c, 0x7fdeae5c, 0x8e7d44ec, 0x5716f2b8,
      0xb03ada37, 0xf0500c0d, 0xf01c1f04, 0x0200b3ff, 0xae0cf51a, 0x3cb574b2, 0x25837a58, 0xdc0921bd,
      0xd19113f9, 0x7ca92ff6, 0x94324773, 0x22f54701, 0x3ae5e581, 0x37c2dadc, 0xc8b57634, 0x9af3dda7,
      0xa9446146, 0x0fd0030e, 0xecc8c73e, 0xa4751e41, 0xe238cd99, 0x3bea0e2f, 0x3280bba1, 0x183eb331,
      0x4e548b38, 0x4f6db908, 0x6f420d03, 0xf60a04bf, 0x2cb81290, 0x24977c79, 0x5679b072, 0xbcaf89af,
      0xde9a771f, 0xd9930810, 0xb38bae12, 0xdccf3f2e, 0x5512721f, 0x2e6b7124, 0x501adde6, 0x9f84cd87,
      0x7a584718, 0x7408da17, 0xbc9f9abc, 0xe94b7d8c, 0xec7aec3a, 0xdb851dfa, 0x63094366, 0xc464c3d2,
      0xef1c1847, 0x3215d908, 0xdd433b37, 0x24c2ba16, 0x12a14d43, 0x2a65c451, 0x50940002, 0x133ae4dd,
      0x71dff89e, 0x10314e55, 0x81ac77d6, 0x5f11199b, 0x043556f1, 0xd7a3c76b, 0x3c11183b, 0x5924a509,
      0xf28fe6ed, 0x97f1fbfa, 0x9ebabf2c, 0x1e153c6e, 0x86e34570, 0xeae96fb1, 0x860e5e0a, 0x5a3e2ab3,
      0x771fe71c, 0x4e3d06fa, 0x2965dcb9, 0x99e71d0f, 0x803e89d6, 0x5266c825, 0x2e4cc978, 0x9c10b36a,
      0xc6150eba, 0x94e2ea78, 0xa5fc3c53, 0x1e0a2df4, 0xf2f74ea7, 0x361d2b3d, 0x1939260f, 0x19c27960,
      0x5223a708, 0xf71312b6, 0xebadfe6e, 0xeac31f66, 0xe3bc4595, 0xa67bc883, 0xb17f37d1, 0x018cff28,
      0xc332ddef, 0xbe6c5aa5, 0x65582185, 0x68ab9802, 0xeecea50f, 0xdb2f953b, 0x2aef7dad, 0x5b6e2f84,
      0x1521b628, 0x29076170, 0xecdd4775, 0x619f1510, 0x13cca830, 0xeb61bd96, 0x0334fe1e, 0xaa0363cf,
      0xb5735c90, 0x4c70a239, 0xd59e9e0b, 0xcbaade14, 0xeecc86bc, 0x60622ca7, 0x9cab5cab, 0xb2f3846e,
      0x648b1eaf, 0x19bdf0ca, 0xa02369b9, 0x655abb50, 0x40685a32, 0x3c2ab4b3, 0x319ee9d5, 0xc021b8f7,
      0x9b540b19, 0x875fa099, 0x95f7997e, 0x623d7da8, 0xf837889a, 0x97e32d77, 0x11ed935f, 0x16681281,
      0x0e358829, 0xc7e61fd6, 0x96dedfa1, 0x7858ba99, 0x57f584a5, 0x1b227263, 0x9b83c3ff, 0x1ac24696,
      0xcdb30aeb, 0x532e3054, 0x8fd948e4, 0x6dbc3128, 0x58ebf2ef, 0x34c6ffea, 0xfe28ed61, 0xee7c3c73,
      0x5d4a14d9, 0xe864b7e3, 0x42105d14, 0x203e13e0, 0x45eee2b6, 0xa3aaabea, 0xdb6c4f15, 0xfacb4fd0,
      0xc742f442, 0xef6abbb5, 0x654f3b1d, 0x41cd2105, 0xd81e799e, 0x86854dc7, 0xe44b476a, 0x3d816250,
      0xcf62a1f2, 0x5b8d2646, 0xfc8883a0, 0xc1c7b6a3, 0x7f1524c3, 0x69cb7492, 0x47848a0b, 0x5692b285,
      0x095bbf00, 0xad19489d, 0x1462b174, 0x23820e00, 0x58428d2a, 0x0c55f5ea, 0x1dadf43e, 0x233f7061,
      0x3372f092, 0x8d937e41, 0xd65fecf1, 0x6c223bdb, 0x7cde3759, 0xcbee7460, 0x4085f2a7, 0xce77326e,
      0xa6078084, 0x19f8509e, 0xe8efd855, 0x61d99735, 0xa969a7aa, 0xc50c06c2, 0x5a04abfc, 0x800bcadc,
      0x9e447a2e, 0xc3453484, 0xfdd56705, 0x0e1e9ec9, 0xdb73dbd3, 0x105588cd, 0x675fda79, 0xe3674340,
      0xc5c43465, 0x713e38d8, 0x3d28f89e, 0xf16dff20, 0x153e21e7, 0x8fb03d4a, 0xe6e39f2b, 0xdb83adf7]"

text \<open>The last two boxes are zero.\<close>

definition bf_S_init :: "u32 list list" where
  "bf_S_init = [bf_S_init_0, bf_S_init_1, replicate 256 0, replicate 256 0]"

definition bf_f :: "blowfish_ctx \<Rightarrow> u32 \<Rightarrow> u32" where
  "bf_f ctx x =
     (let h = bc_S ctx ! 0 ! unat (drop_bit 24 x AND 0xff);
          h = h + bc_S ctx ! 1 ! unat (drop_bit 16 x AND 0xff);
          h = h XOR bc_S ctx ! 2 ! unat (drop_bit 8 x AND 0xff)
      in h + bc_S ctx ! 3 ! unat (x AND 0xff))"

definition bf_round :: "blowfish_ctx \<Rightarrow> u32 \<times> u32 \<Rightarrow> nat \<Rightarrow> u32 \<times> u32" where
  "bf_round ctx = (\<lambda>(l, r) i.
     let l = l XOR bc_P ctx ! i; r = r XOR bf_f ctx l; r = r XOR bc_P ctx ! (i + 1); l = l XOR bf_f ctx r in (l, r))"

definition bf_encrypt :: "blowfish_ctx \<Rightarrow> u32 \<times> u32 \<Rightarrow> u32 \<times> u32" where
  "bf_encrypt ctx lr =
     (let (l, r) = foldl (bf_round ctx) lr (map (\<lambda>k. 2 * k) [0..<8])
      in (r XOR bc_P ctx ! 17, l XOR bc_P ctx ! 16))"

definition bf_init :: blowfish_ctx where
  "bf_init = \<lparr>bc_P = bf_P_init, bc_S = bf_S_init\<rparr>"

text \<open>Four bytes shifted into a word, from the key (a running index below its length) and from the data.\<close>

definition key_word :: "bytes \<Rightarrow> nat \<Rightarrow> u32 \<times> nat" where
  "key_word key ki = foldl (\<lambda>(tmp, ki) j. (push_bit 8 tmp OR ucast (key ! ki), (ki + 1) mod length key)) (0, ki) [0..<4]"

definition data_word :: "bytes \<Rightarrow> u32 \<Rightarrow> nat \<Rightarrow> u32 \<times> nat" where
  "data_word data l di = foldl (\<lambda>(l, di) j. (push_bit 8 l OR ucast (data ! (di mod length data)), di + 1)) (l, di) [0..<4]"

definition xor_key :: "bytes \<Rightarrow> blowfish_ctx \<Rightarrow> blowfish_ctx" where
  "xor_key key ctx = fst (foldl (\<lambda>(ctx, ki) i.
     let (tmp, ki) = key_word key ki in (ctx\<lparr>bc_P := (bc_P ctx)[i := bc_P ctx ! i XOR tmp]\<rparr>, ki)) (ctx, 0) [0..<18])"

text \<open>One block: shift eight bytes of data into \<open>l\<close> and \<open>r\<close>, encrypt, and store the result.\<close>

definition next_block :: "bytes \<Rightarrow> (u32 \<Rightarrow> u32 \<Rightarrow> blowfish_ctx \<Rightarrow> blowfish_ctx) \<Rightarrow>
  blowfish_ctx \<times> u32 \<times> u32 \<times> nat \<Rightarrow> blowfish_ctx \<times> u32 \<times> u32 \<times> nat" where
  "next_block data store = (\<lambda>(ctx, l, r, di).
     let (l, di) = data_word data l di; (r, di) = data_word data r di; (l, r) = bf_encrypt ctx (l, r)
     in (store l r ctx, l, r, di))"

definition store_P :: "nat \<Rightarrow> u32 \<Rightarrow> u32 \<Rightarrow> blowfish_ctx \<Rightarrow> blowfish_ctx" where
  "store_P i l r ctx = ctx\<lparr>bc_P := (bc_P ctx)[i := l, i + 1 := r]\<rparr>"

definition store_S :: "nat \<Rightarrow> nat \<Rightarrow> u32 \<Rightarrow> u32 \<Rightarrow> blowfish_ctx \<Rightarrow> blowfish_ctx" where
  "store_S i j l r ctx = ctx\<lparr>bc_S := (bc_S ctx)[i := (bc_S ctx ! i)[j := l, j + 1 := r]]\<rparr>"

definition block_stores :: "(u32 \<Rightarrow> u32 \<Rightarrow> blowfish_ctx \<Rightarrow> blowfish_ctx) list" where
  "block_stores = map (\<lambda>k. store_P (2 * k)) [0..<9] @ concat (map (\<lambda>i. map (\<lambda>k. store_S i (2 * k)) [0..<128]) [0..<4])"

definition bf_expand_key :: "blowfish_ctx \<Rightarrow> bytes \<Rightarrow> bytes \<Rightarrow> blowfish_ctx" where
  "bf_expand_key ctx key data = fst (foldl (\<lambda>st store. next_block data store st) (xor_key key ctx, 0, 0, 0) block_stores)"

definition eksblowfish_setup :: "nat \<Rightarrow> bytes \<Rightarrow> bytes \<Rightarrow> blowfish_ctx" where
  "eksblowfish_setup rounds salt key =
     (let ctx = bf_expand_key bf_init key salt;
          count = unat (push_bit rounds 1 :: u64);
          zero_salt = replicate 16 0
      in ((\<lambda>ctx. bf_expand_key (bf_expand_key ctx key zero_salt) salt zero_salt) ^^ count) ctx)"

section \<open>Public interface\<close>

definition bf_crypt_ciphertext :: string where "bf_crypt_ciphertext = ''OrpheanBeholderScryDoubt''"

definition char_byte :: "char \<Rightarrow> u8" where "char_byte c = of_nat (of_char c)"

definition two_digits :: "nat \<Rightarrow> string" where
  "two_digits n = (if n < 10 then ''0'' else '''') @ nat_str n"

definition clamp_rounds :: "int \<Rightarrow> int" where
  "clamp_rounds log_rounds =
     (let log_rounds = (if log_rounds < 4 then 4 else log_rounds) in if 31 < log_rounds then 31 else log_rounds)"

definition apex_bcrypt_gensalt :: "int \<Rightarrow> bytes option \<Rightarrow> string option" where
  "apex_bcrypt_gensalt log_rounds raw_salt =
     (case raw_salt of
        None \<Rightarrow> None
      | Some raw_salt \<Rightarrow> Some (''$2a$'' @ two_digits (nat (clamp_rounds log_rounds)) @ ''$'' @ encode_base64 raw_salt))"

text \<open>\<open>atoi\<close>, for numbers that fit in an \<open>int\<close>.\<close>

definition atoi :: "string \<Rightarrow> int" where
  "atoi s =
     (let s = dropWhile (\<lambda>c. c \<in> set [CHR 0x20, CHR 0x09, CHR 0x0A, CHR 0x0B, CHR 0x0C, CHR 0x0D]) s;
          neg = (s \<noteq> [] \<and> hd s = CHR ''-'');
          s = (if s \<noteq> [] \<and> (hd s = CHR ''-'' \<or> hd s = CHR ''+'') then tl s else s);
          v = int (str_nat (takeWhile is_digit s))
      in if neg then - v else v)"

definition bcrypt_key :: "string \<Rightarrow> bytes" where
  "bcrypt_key password = take 72 (map char_byte (password @ [NUL]))"

definition be32 :: "bytes \<Rightarrow> u32" where
  "be32 p = push_bit 24 (ucast (p ! 0)) OR push_bit 16 (ucast (p ! 1)) OR push_bit 8 (ucast (p ! 2)) OR ucast (p ! 3)"

definition bytes_be32 :: "u32 \<Rightarrow> bytes" where
  "bytes_be32 v = [ucast (drop_bit 24 v), ucast (drop_bit 16 v), ucast (drop_bit 8 v), ucast v]"

definition encrypt_magic :: "blowfish_ctx \<Rightarrow> bytes" where
  "encrypt_magic ctx =
     (let magic = map char_byte bf_crypt_ciphertext;
          cdata = map (\<lambda>i. be32 (take 4 (drop (4 * i) magic))) [0..<6];
          enc = (\<lambda>lr. (bf_encrypt ctx ^^ 64) lr);
          (c0, c1) = enc (cdata ! 0, cdata ! 1);
          (c2, c3) = enc (cdata ! 2, cdata ! 3);
          (c4, c5) = enc (cdata ! 4, cdata ! 5)
      in concat (map bytes_be32 [c0, c1, c2, c3, c4, c5]))"

text \<open>The result is the string in the buffer \<open>hash\<close>: 29 bytes of the salt string, its terminator among them if it
  is that short, and the encoded output.\<close>

definition apex_bcrypt_hashpw :: "string \<Rightarrow> string \<Rightarrow> (unit + string) option" where
  "apex_bcrypt_hashpw password salt_str =
     (if cstr_at salt_str 0 \<noteq> Some (CHR ''$'') \<or> cstr_at salt_str 1 \<noteq> Some (CHR ''2'') \<or>
         (cstr_at salt_str 2 \<noteq> Some (CHR ''a'') \<and> cstr_at salt_str 2 \<noteq> Some (CHR ''b'')) \<or> cstr_at salt_str 3 \<noteq> Some (CHR ''$'')
      then Some (Inl ())
      else let log_rounds = atoi (drop 4 salt_str) in
           if log_rounds < 4 \<or> 31 < log_rounds then Some (Inl ())
           else case decode_base64 16 salt_str 7 [] of
                  None \<Rightarrow> None
                | Some (Inl u) \<Rightarrow> Some (Inl ())
                | Some (Inr raw_salt) \<Rightarrow>
                    if length raw_salt < 16 then Some (Inl ())
                    else let ctx = eksblowfish_setup (nat log_rounds) raw_salt (bcrypt_key password);
                             output = encrypt_magic ctx
                         in Some (Inr (c_str (take 29 (salt_str @ [NUL]) @ encode_base64 (take 23 output)))))"

definition apex_bcrypt_checkpw :: "string \<Rightarrow> string \<Rightarrow> int option" where
  "apex_bcrypt_checkpw password stored_hash =
     (case apex_bcrypt_hashpw password stored_hash of
        None \<Rightarrow> None
      | Some (Inl u) \<Rightarrow> Some (-1)
      | Some (Inr computed) \<Rightarrow>
          if length stored_hash \<noteq> length computed then Some 1
          else let diff = foldl (\<lambda>diff i. diff OR (char_byte (stored_hash ! i) XOR char_byte (computed ! i))) 0 [0..<length stored_hash]
               in Some (if diff \<noteq> 0 then 1 else 0))"

section \<open>Password hasher (password\_hasher.cpp)\<close>

text \<open>The string views are copied into strings and passed as C strings, which end at the first zero byte.\<close>

definition hasher_hash :: "u32 \<Rightarrow> bytes option \<Rightarrow> string \<Rightarrow> string option" where
  "hasher_hash work_factor random password =
     (case apex_bcrypt_gensalt (sint work_factor) random of
        None \<Rightarrow> Some ''''
      | Some salt \<Rightarrow>
          (case apex_bcrypt_hashpw (c_str password) salt of
             None \<Rightarrow> None
           | Some (Inl u) \<Rightarrow> Some ''''
           | Some (Inr hash_buf) \<Rightarrow> Some hash_buf))"

definition hasher_verify :: "string \<Rightarrow> string \<Rightarrow> bool option" where
  "hasher_verify password stored_hash = map_option (\<lambda>ret. ret = 0) (apex_bcrypt_checkpw (c_str password) (c_str stored_hash))"

section \<open>Base 64 round trip\<close>

lemma length_base64_table [simp]: "length base64_table = 64"
  by (simp add: base64_table_def)

lemma distinct_base64_table: "distinct base64_table"
  by (simp add: base64_table_def)

lemma NUL_not_in_base64_table: "NUL \<notin> set base64_table"
  by (simp add: base64_table_def NUL_def)

lemma takeWhile_distinct_nth:
  "distinct xs \<Longrightarrow> i < length xs \<Longrightarrow> length (takeWhile (\<lambda>x. x \<noteq> xs ! i) (xs @ ys)) = i"
proof (induction xs arbitrary: i)
  case (Cons x xs)
  then show ?case by (cases i) auto
qed simp

lemma char64_nth: "i < 64 \<Longrightarrow> char64 (base64_table ! i) = Some (of_nat i)"
  by (simp add: char64_def strchr_def takeWhile_distinct_nth [OF distinct_base64_table])

lemma char64_NUL: "char64 NUL = Some 64"
proof -
  have "takeWhile (\<lambda>x. x \<noteq> NUL) (base64_table @ [NUL]) = base64_table"
    using NUL_not_in_base64_table by (subst takeWhile_append2) auto
  then show ?thesis by (simp add: char64_def strchr_def)
qed

lemma and_3f: "(c :: u32) AND 0x3f = take_bit 6 c"
  by (simp add: take_bit_eq_mask mask_eq_exp_minus_1)

lemma char64_b64: "char64 (b64 c) = Some (take_bit 6 c)"
proof -
  have "unat (take_bit 6 c) < 64"
    unfolding unsigned_take_bit_eq by (simp add: take_bit_nat_less_exp [of 6, simplified])
  then show ?thesis by (simp add: b64_def and_3f char64_nth)
qed

lemma b64_not_NUL: "b64 c \<noteq> NUL"
proof -
  have "unat (take_bit 6 c) < 64"
    unfolding unsigned_take_bit_eq by (simp add: take_bit_nat_less_exp [of 6, simplified])
  then have "b64 c \<in> set base64_table" by (simp add: b64_def and_3f)
  then show ?thesis using NUL_not_in_base64_table by metis
qed

lemma less_8_cases: "(n :: nat) < 8 \<Longrightarrow> n = 0 \<or> n = 1 \<or> n = 2 \<or> n = 3 \<or> n = 4 \<or> n = 5 \<or> n = 6 \<or> n = 7"
  by arith

lemma and_masks:
  "(c :: u32) AND 0x03 = take_bit 2 c" "c AND 0x0f = take_bit 4 c"
  by (simp_all add: take_bit_eq_mask mask_eq_exp_minus_1)

lemma and_30: "drop_bit 4 ((c :: u32) AND 0x30) = take_bit 2 (drop_bit 4 c)"
proof -
  have "drop_bit 4 (0x30 :: u32) = 0x03" by (simp add: drop_bit_eq_div)
  then show ?thesis by (simp only: drop_bit_and and_masks)
qed

lemma and_3c: "drop_bit 2 ((c :: u32) AND 0x3c) = take_bit 4 (drop_bit 2 c)"
proof -
  have "drop_bit 2 (0x3c :: u32) = 0x0f" by (simp add: drop_bit_eq_div)
  then show ?thesis by (simp only: drop_bit_and and_masks)
qed

text \<open>The bytes that decoding puts together from the characters of a group.\<close>

lemma decode_first:
  "ucast (push_bit 2 (take_bit 6 (drop_bit 2 (ucast (a :: u8)))) OR
     take_bit 2 (drop_bit 4 (take_bit 6 (push_bit 4 (take_bit 2 (ucast a)) OR take_bit 4 x))) :: u32) = a"
proof (rule bit_word_eqI)
  fix n
  assume "n < LENGTH(8)"
  then have "n = 0 \<or> n = 1 \<or> n = 2 \<or> n = 3 \<or> n = 4 \<or> n = 5 \<or> n = 6 \<or> n = 7" by simp arith
  then show "bit (ucast (push_bit 2 (take_bit 6 (drop_bit 2 (ucast a))) OR
     take_bit 2 (drop_bit 4 (take_bit 6 (push_bit 4 (take_bit 2 (ucast a)) OR take_bit 4 x))) :: u32) :: u8) n = bit a n"
    by (elim disjE) (simp_all add: bit_simps)
qed

lemma decode_second:
  "ucast (push_bit 4 (take_bit 4 (take_bit 6 (push_bit 4 y OR take_bit 4 (drop_bit 4 (ucast (b :: u8)))))) OR
     take_bit 4 (drop_bit 2 (take_bit 6 (push_bit 2 (take_bit 4 (ucast b)) OR take_bit 2 x))) :: u32) = b"
proof (rule bit_word_eqI)
  fix n
  assume "n < LENGTH(8)"
  then have "n = 0 \<or> n = 1 \<or> n = 2 \<or> n = 3 \<or> n = 4 \<or> n = 5 \<or> n = 6 \<or> n = 7" by simp arith
  then show "bit (ucast (push_bit 4 (take_bit 4 (take_bit 6 (push_bit 4 y OR take_bit 4 (drop_bit 4 (ucast b))))) OR
     take_bit 4 (drop_bit 2 (take_bit 6 (push_bit 2 (take_bit 4 (ucast b)) OR take_bit 2 x))) :: u32) :: u8) n = bit b n"
    by (elim disjE) (simp_all add: bit_simps)
qed

lemma decode_third:
  "ucast (push_bit 6 (take_bit 2 (take_bit 6 (push_bit 2 y OR take_bit 2 (drop_bit 6 (ucast (c :: u8)))))) OR
     take_bit 6 (ucast c) :: u32) = c"
proof (rule bit_word_eqI)
  fix n
  assume "n < LENGTH(8)"
  then have "n = 0 \<or> n = 1 \<or> n = 2 \<or> n = 3 \<or> n = 4 \<or> n = 5 \<or> n = 6 \<or> n = 7" by simp arith
  then show "bit (ucast (push_bit 6 (take_bit 2 (take_bit 6 (push_bit 2 y OR take_bit 2 (drop_bit 6 (ucast c))))) OR
     take_bit 6 (ucast c) :: u32) :: u8) n = bit c n"
    by (elim disjE) (simp_all add: bit_simps)
qed

lemma cstr_at_append [simp]: "cstr_at (pre @ c # rest) (length pre) = Some c"
  by (simp add: cstr_at_def)

lemma cstr_at_append1 [simp]: "cstr_at (pre @ b # c # rest) (Suc (length pre)) = Some c"
  using cstr_at_append [of "pre @ [b]"] by simp

lemma cstr_at_append2 [simp]: "cstr_at (pre @ a # b # c # rest) (length pre + 2) = Some c"
  by (simp add: cstr_at_def nth_append)

lemma cstr_at_append3 [simp]: "cstr_at (pre @ a # b # c # d # rest) (length pre + 3) = Some d"
  by (simp add: cstr_at_def nth_append)

declare decode_base64.simps [simp del]

definition byte1 :: "u32 \<Rightarrow> u32 \<Rightarrow> u8" where "byte1 c1 c2 = ucast (push_bit 2 c1 OR drop_bit 4 (c2 AND 0x30))"
definition byte2 :: "u32 \<Rightarrow> u32 \<Rightarrow> u8" where "byte2 c2 c3 = ucast (push_bit 4 (c2 AND 0x0f) OR drop_bit 2 (c3 AND 0x3c))"
definition byte3 :: "u32 \<Rightarrow> u32 \<Rightarrow> u8" where "byte3 c3 c4 = ucast (push_bit 6 (c3 AND 0x03) OR c4)"

lemma decode_group2:
  assumes "n = length dst + 1" "k1 \<noteq> NUL" "char64 k1 = Some c1" "char64 k2 = Some c2"
  shows "decode_base64 n (pre @ k1 # k2 # rest) (length pre) dst = Some (Inr (dst @ [byte1 c1 c2]))"
  using assms by (subst decode_base64.simps) (simp add: byte1_def byte2_def byte3_def)

lemma decode_group3:
  assumes "n = length dst + 2" "k1 \<noteq> NUL" "char64 k1 = Some c1" "char64 k2 = Some c2" "k3 \<noteq> NUL" "char64 k3 = Some c3"
  shows "decode_base64 n (pre @ k1 # k2 # k3 # rest) (length pre) dst = Some (Inr (dst @ [byte1 c1 c2, byte2 c2 c3]))"
  using assms by (subst decode_base64.simps) (simp add: byte1_def byte2_def byte3_def next64_def del: add_2_eq_Suc')

lemma decode_group4:
  assumes "length dst + 3 \<le> n" "k1 \<noteq> NUL" "char64 k1 = Some c1" "char64 k2 = Some c2" "k3 \<noteq> NUL" "char64 k3 = Some c3"
    "k4 \<noteq> NUL" "char64 k4 = Some c4"
  shows "decode_base64 n (pre @ k1 # k2 # k3 # k4 # rest) (length pre) dst =
    decode_base64 n (pre @ k1 # k2 # k3 # k4 # rest) (length pre + 4) (dst @ [byte1 c1 c2, byte2 c2 c3, byte3 c3 c4])"
  using assms by (subst decode_base64.simps) (simp add: byte1_def byte2_def byte3_def next64_def del: add_2_eq_Suc')

lemma bytes_of_group:
  fixes a b c :: u8
  shows "byte1 (take_bit 6 (drop_bit 2 (ucast a))) (take_bit 6 (push_bit 4 (ucast a AND 0x03))) = a"
    and "byte1 (take_bit 6 (drop_bit 2 (ucast a))) (take_bit 6 (push_bit 4 (ucast a AND 0x03) OR (x AND 0x0f))) = a"
    and "byte2 (take_bit 6 (push_bit 4 y OR (drop_bit 4 (ucast b) AND 0x0f))) (take_bit 6 (push_bit 2 (ucast b AND 0x0f))) = b"
    and "byte2 (take_bit 6 (push_bit 4 y OR (drop_bit 4 (ucast b) AND 0x0f))) (take_bit 6 (push_bit 2 (ucast b AND 0x0f) OR (x AND 0x03))) = b"
    and "byte3 (take_bit 6 (push_bit 2 y OR (drop_bit 6 (ucast c) AND 0x03))) (take_bit 6 (ucast c)) = c"
  unfolding byte1_def byte2_def byte3_def and_30 and_3c and_masks
  using decode_first [of a 0] decode_first [of a x] decode_second [of y b 0] decode_second [of y b x] decode_third [of y c]
  by (simp_all only: take_bit_of_0 or.right_neutral)

text \<open>Decoding as many bytes as were encoded gives them back, whatever follows in the string.\<close>

lemma decode_encode_base64:
  "decode_base64 (length dst + length bs) (pre @ encode_base64 bs @ rest) (length pre) dst = Some (Inr (dst @ bs))"
proof (induction bs arbitrary: dst pre rule: encode_base64.induct)
  case 1
  have "cstr_at (pre @ rest) (length pre) \<noteq> None" by (cases rest) (simp_all add: cstr_at_def)
  then show ?case by (subst decode_base64.simps) simp
next
  case (2 a)
  have "decode_base64 (length dst + 1) (pre @ b64 (drop_bit 2 (ucast a)) # b64 (push_bit 4 (ucast a AND 0x03)) # rest) (length pre) dst =
    Some (Inr (dst @ [byte1 (take_bit 6 (drop_bit 2 (ucast a))) (take_bit 6 (push_bit 4 (ucast a AND 0x03)))]))"
    by (rule decode_group2 [OF refl b64_not_NUL char64_b64 char64_b64])
  then have "decode_base64 (length dst + 1) (pre @ b64 (drop_bit 2 (ucast a)) # b64 (push_bit 4 (ucast a AND 0x03)) # rest) (length pre) dst =
    Some (Inr (dst @ [a]))"
    unfolding bytes_of_group .
  then show ?case by simp
next
  case (3 a b)
  let ?k2 = "push_bit 4 (ucast a AND 0x03) OR (drop_bit 4 (ucast b) AND 0x0f) :: u32"
  let ?k3 = "push_bit 2 (ucast b AND 0x0f) :: u32"
  have "decode_base64 (length dst + 2) (pre @ b64 (drop_bit 2 (ucast a)) # b64 ?k2 # b64 ?k3 # rest) (length pre) dst =
    Some (Inr (dst @ [byte1 (take_bit 6 (drop_bit 2 (ucast a))) (take_bit 6 ?k2), byte2 (take_bit 6 ?k2) (take_bit 6 ?k3)]))"
    by (rule decode_group3 [OF refl b64_not_NUL char64_b64 char64_b64 b64_not_NUL char64_b64])
  then have "decode_base64 (length dst + 2) (pre @ b64 (drop_bit 2 (ucast a)) # b64 ?k2 # b64 ?k3 # rest) (length pre) dst =
    Some (Inr (dst @ [a, b]))"
    unfolding bytes_of_group .
  then show ?case by simp
next
  case (4 a b c bs)
  let ?n = "length dst + length (a # b # c # bs)"
  let ?k1 = "drop_bit 2 (ucast a) :: u32"
  let ?k2 = "push_bit 4 (ucast a AND 0x03) OR (drop_bit 4 (ucast b) AND 0x0f) :: u32"
  let ?k3 = "push_bit 2 (ucast b AND 0x0f) OR (drop_bit 6 (ucast c) AND 0x03) :: u32"
  let ?g = "[b64 ?k1, b64 ?k2, b64 ?k3, b64 (ucast c)]"
  have "decode_base64 ?n (pre @ b64 ?k1 # b64 ?k2 # b64 ?k3 # b64 (ucast c) # encode_base64 bs @ rest) (length pre) dst =
    decode_base64 ?n (pre @ b64 ?k1 # b64 ?k2 # b64 ?k3 # b64 (ucast c) # encode_base64 bs @ rest) (length pre + 4)
      (dst @ [byte1 (take_bit 6 ?k1) (take_bit 6 ?k2), byte2 (take_bit 6 ?k2) (take_bit 6 ?k3),
        byte3 (take_bit 6 ?k3) (take_bit 6 (ucast c))])"
    by (rule decode_group4 [OF _ b64_not_NUL char64_b64 char64_b64 b64_not_NUL char64_b64 b64_not_NUL char64_b64]) simp
  then have "decode_base64 ?n (pre @ b64 ?k1 # b64 ?k2 # b64 ?k3 # b64 (ucast c) # encode_base64 bs @ rest) (length pre) dst =
    decode_base64 ?n (pre @ b64 ?k1 # b64 ?k2 # b64 ?k3 # b64 (ucast c) # encode_base64 bs @ rest) (length pre + 4) (dst @ [a, b, c])"
    unfolding bytes_of_group .
  also have "\<dots> = Some (Inr ((dst @ [a, b, c]) @ bs))"
  proof -
    have "pre @ b64 ?k1 # b64 ?k2 # b64 ?k3 # b64 (ucast c) # encode_base64 bs @ rest = (pre @ ?g) @ encode_base64 bs @ rest"
      and "length pre + 4 = length (pre @ ?g)" and "?n = length (dst @ [a, b, c]) + length bs"
      by simp_all
    then show ?thesis by (simp only: "4.IH")
  qed
  finally show ?case by simp
qed

section \<open>Checking what was hashed\<close>

lemma length_encode_base64: "length (encode_base64 bs) = (4 * length bs + 2) div 3"
  by (induction bs rule: encode_base64.induct) simp_all

lemma encode_base64_no_NUL: "NUL \<notin> set (encode_base64 bs)"
  using b64_not_NUL by (induction bs rule: encode_base64.induct) (auto simp: b64_not_NUL [symmetric])

lemma length_encrypt_magic: "length (encrypt_magic ctx) = 24"
  by (simp add: encrypt_magic_def bytes_be32_def split_def Let_def)

lemma c_str_id: "NUL \<notin> set s \<Longrightarrow> c_str s = s"
  unfolding c_str_def by (induction s) auto

lemma c_str_append_NUL: "NUL \<notin> set s \<Longrightarrow> c_str (s @ NUL # t) = s"
  unfolding c_str_def by (induction s) auto

lemma length_two_digits: "n < 100 \<Longrightarrow> length (two_digits n) = 2"
proof -
  assume "n < 100"
  then have "n div 10 < 10" by simp
  then show ?thesis using \<open>n < 100\<close>
    by (simp add: two_digits_def nat_str.simps [of n] nat_str.simps [of "n div 10"])
qed

lemma is_digit_two_digits: "c \<in> set (two_digits n) \<Longrightarrow> is_digit c"
  using nat_str_digits [of c n] by (auto simp: two_digits_def is_digit_def)

lemma str_nat_two_digits: "str_nat (two_digits n) = n"
  using str_nat_str [of n] by (auto simp: two_digits_def str_nat_def simp del: str_nat_str)

lemma atoi_digits:
  assumes "ds \<noteq> []" "\<forall>c \<in> set ds. is_digit c"
  shows "atoi (ds @ CHR ''$'' # rest) = int (str_nat ds)"
proof -
  obtain d ds' where ds: "ds = d # ds'" using assms(1) by (cases ds) auto
  then have d: "is_digit d" using assms(2) by simp
  have t: "takeWhile is_digit (ds @ CHR ''$'' # rest) = ds"
    using assms(2) by (subst takeWhile_append2) (auto simp: is_digit_def)
  have "d \<notin> set [CHR 0x20, CHR 0x09, CHR 0x0A, CHR 0x0B, CHR 0x0C, CHR 0x0D, CHR ''-'', CHR ''+'']"
    using d by (auto simp: is_digit_def)
  then show ?thesis using t by (simp add: atoi_def ds Let_def)
qed

definition salt_prefix :: "nat \<Rightarrow> string" where
  "salt_prefix r = ''$2a$'' @ two_digits r @ ''$''"

lemma length_salt_prefix: "r < 100 \<Longrightarrow> length (salt_prefix r) = 7"
  by (simp add: salt_prefix_def length_two_digits)

lemma salt_prefix_no_NUL: "NUL \<notin> set (salt_prefix r)"
  using is_digit_two_digits [of NUL r] by (auto simp: salt_prefix_def NUL_def is_digit_def)

text \<open>The work of hashing: the characters after the salt.\<close>

definition bcrypt_tail :: "string \<Rightarrow> nat \<Rightarrow> bytes \<Rightarrow> string" where
  "bcrypt_tail password r raw_salt = encode_base64 (take 23 (encrypt_magic (eksblowfish_setup r raw_salt (bcrypt_key password))))"

lemma bcrypt_tail_no_NUL: "NUL \<notin> set (bcrypt_tail pw r raw)"
  by (simp add: bcrypt_tail_def encode_base64_no_NUL)

lemma length_bcrypt_tail: "length (bcrypt_tail pw r raw) = 31"
  by (simp add: bcrypt_tail_def length_encode_base64 length_encrypt_magic)

lemma hashpw_salt_prefix:
  assumes "4 \<le> r" "r \<le> 31"
  shows "apex_bcrypt_hashpw pw (salt_prefix r @ s) =
    (case decode_base64 16 (salt_prefix r @ s) 7 [] of
       None \<Rightarrow> None
     | Some (Inl u) \<Rightarrow> Some (Inl ())
     | Some (Inr raw) \<Rightarrow> if length raw < 16 then Some (Inl ())
         else Some (Inr (c_str (take 29 ((salt_prefix r @ s) @ [NUL]) @ bcrypt_tail pw r raw))))"
proof -
  have "two_digits r \<noteq> []" using length_two_digits [of r] assms by auto
  then have "atoi (two_digits r @ CHR ''$'' # s) = int r"
    using atoi_digits [of "two_digits r" s] is_digit_two_digits by (auto simp: str_nat_two_digits)
  then have "atoi (drop 4 (salt_prefix r @ s)) = int r" by (simp add: salt_prefix_def)
  moreover have "cstr_at (salt_prefix r @ s) 0 = Some (CHR ''$'')" "cstr_at (salt_prefix r @ s) 1 = Some (CHR ''2'')"
    "cstr_at (salt_prefix r @ s) 2 = Some (CHR ''a'')" "cstr_at (salt_prefix r @ s) 3 = Some (CHR ''$'')"
    by (simp_all add: cstr_at_def salt_prefix_def)
  ultimately show ?thesis
    using assms by (simp add: apex_bcrypt_hashpw_def bcrypt_tail_def Let_def split: option.split sum.split)
qed

lemma hashpw_encoded:
  assumes "4 \<le> r" "r \<le> 31" "length raw = 16"
  shows "apex_bcrypt_hashpw pw (salt_prefix r @ encode_base64 raw @ rest) =
    Some (Inr (salt_prefix r @ encode_base64 raw @ bcrypt_tail pw r raw))"
proof -
  have d: "decode_base64 16 (salt_prefix r @ encode_base64 raw @ rest) 7 [] = Some (Inr raw)"
    using decode_encode_base64 [of "[]" raw "salt_prefix r" rest] assms by (simp add: length_salt_prefix)
  have "take 29 ((salt_prefix r @ encode_base64 raw @ rest) @ [NUL]) = salt_prefix r @ encode_base64 raw"
    using assms by (simp add: length_salt_prefix length_encode_base64)
  then show ?thesis
    using assms salt_prefix_no_NUL [of r] encode_base64_no_NUL [of raw] bcrypt_tail_no_NUL [of pw r raw]
    by (simp add: hashpw_salt_prefix d c_str_id)
qed

lemma char_byte_inj: "char_byte a = char_byte b \<longleftrightarrow> a = b"
proof
  assume "char_byte a = char_byte b"
  then have "(of_char a :: nat) mod 256 = of_char b mod 256"
    by (simp add: char_byte_def of_nat_eq_iff word_of_nat_eq_iff take_bit_eq_mod)
  then show "a = b" by simp
qed simp

lemma xor_eq_0: "(a :: u8) XOR b = 0 \<longleftrightarrow> a = b"
  by (metis xor.assoc xor.right_neutral xor_self_eq xor.left_neutral)

lemma foldl_diff:
  "foldl (\<lambda>d i. d OR (f i XOR g i)) d xs = 0 \<longleftrightarrow> d = 0 \<and> (\<forall>i \<in> set xs. f i = (g i :: u8))"
  by (induction xs arbitrary: d) (auto simp: or_eq_0_iff xor_eq_0)

lemma nth_char_bytes_eq:
  assumes "length h = length c"
  shows "(\<forall>i \<in> set [0..<length h]. char_byte (h ! i) = char_byte (c ! i)) \<longleftrightarrow> c = h"
proof -
  have "(\<forall>i \<in> set [0..<length h]. char_byte (h ! i) = char_byte (c ! i)) \<longleftrightarrow> (\<forall>i < length h. h ! i = c ! i)"
    by (simp add: char_byte_inj Ball_def)
  also have "\<dots> \<longleftrightarrow> h = c" using assms by (simp add: list_eq_iff_nth_eq)
  finally show ?thesis by blast
qed

lemma checkpw_iff:
  "apex_bcrypt_checkpw pw h = Some 0 \<longleftrightarrow> apex_bcrypt_hashpw pw h = Some (Inr h)"
proof (cases "apex_bcrypt_hashpw pw h")
  case None
  then show ?thesis by (simp add: apex_bcrypt_checkpw_def)
next
  case (Some res)
  show ?thesis
  proof (cases res)
    case (Inl u)
    then show ?thesis using Some by (simp add: apex_bcrypt_checkpw_def)
  next
    case (Inr c)
    show ?thesis
    proof (cases "length h = length c")
      case True
      then show ?thesis
        unfolding apex_bcrypt_checkpw_def Some Inr Let_def using nth_char_bytes_eq [OF True] by (simp add: foldl_diff)
    next
      case False
      then have "c \<noteq> h" by auto
      with False show ?thesis unfolding apex_bcrypt_checkpw_def Some Inr by simp
    qed
  qed
qed



section \<open>Truncated hashes\<close>

lemma table_char64: "k \<in> set base64_table \<Longrightarrow> k \<noteq> NUL \<and> (\<exists>c. char64 k = Some c)"
  using NUL_not_in_base64_table char64_nth by (fastforce simp: in_set_conv_nth)

lemma decode_groups:
  assumes "\<forall>k \<in> set ks. k \<in> set base64_table" "length ks = 4 * m" "length dst + 3 * m \<le> n"
  shows "\<exists>bs. length bs = 3 * m \<and>
    decode_base64 n (pre @ ks @ rest) (length pre) dst = decode_base64 n (pre @ ks @ rest) (length pre + 4 * m) (dst @ bs)"
  using assms
proof (induction m arbitrary: ks dst pre)
  case (Suc m)
  then obtain k1 k2 k3 k4 ks' where ks: "ks = k1 # k2 # k3 # k4 # ks'" and l: "length ks' = 4 * m"
    by (auto simp: length_Suc_conv numeral_eq_Suc)
  with Suc.prems(1) table_char64 obtain c1 c2 c3 c4 where c:
    "k1 \<noteq> NUL" "char64 k1 = Some c1" "char64 k2 = Some c2" "k3 \<noteq> NUL" "char64 k3 = Some c3" "k4 \<noteq> NUL" "char64 k4 = Some c4"
    by (metis list.set_intros)
  let ?d = "dst @ [byte1 c1 c2, byte2 c2 c3, byte3 c3 c4]"
  let ?pre = "pre @ [k1, k2, k3, k4]"
  have "decode_base64 n (pre @ ks @ rest) (length pre) dst = decode_base64 n (pre @ ks @ rest) (length pre + 4) ?d"
    using decode_group4 [OF _ c, of dst n pre "ks' @ rest"] Suc.prems(3) by (simp add: ks)
  moreover obtain bs where "length bs = 3 * m"
    "decode_base64 n (?pre @ ks' @ rest) (length ?pre) ?d = decode_base64 n (?pre @ ks' @ rest) (length ?pre + 4 * m) (?d @ bs)"
    using Suc.IH [of ks' ?d ?pre] Suc.prems l by (auto simp: ks)
  ultimately show ?case
    by (intro exI [of _ "[byte1 c1 c2, byte2 c2 c3, byte3 c3 c4] @ bs"]) (simp add: ks numeral_eq_Suc)
qed simp

lemma decode_group2_end:
  assumes "n = length dst + 1" "k1 \<noteq> NUL" "char64 k1 = Some c1"
  shows "decode_base64 n (pre @ [k1]) (length pre) dst = Some (Inr (dst @ [byte1 c1 64]))"
  using assms char64_NUL by (subst decode_base64.simps) (simp add: byte1_def cstr_at_def)

text \<open>
  C40: A stored hash that is cut off after 28 characters verifies every password. \<open>char64\<close> finds the terminator of the
  string in the terminator of its table, so that 21 characters of salt pass for 16 bytes; the copy of the salt then ends
  the computed hash where the stored one ends.
\<close>
theorem truncated_hash_accepts_any_password:
  assumes "4 \<le> r" "r \<le> 31" "length s = 21" "\<forall>k \<in> set s. k \<in> set base64_table"
  shows "apex_bcrypt_checkpw pw (''$2a$'' @ two_digits r @ ''$'' @ s) = Some 0"
proof -
  obtain ks k where s: "s = ks @ [k]" and l: "length ks = 4 * 5"
    using assms(3) by (cases s rule: rev_cases) auto
  obtain c where k: "k \<noteq> NUL" "char64 k = Some c" using table_char64 assms(4) s by auto
  obtain bs where bs: "length bs = 15" "decode_base64 16 (salt_prefix r @ s) 7 [] =
      decode_base64 16 (salt_prefix r @ s) 27 bs"
    using decode_groups [of ks 5 "[]" 16 "salt_prefix r" "[k]"] assms s l by (auto simp: length_salt_prefix)
  have "decode_base64 16 ((salt_prefix r @ ks) @ [k]) (length (salt_prefix r @ ks)) bs = Some (Inr (bs @ [byte1 c 64]))"
    by (rule decode_group2_end) (use k bs in auto)
  then have d: "decode_base64 16 (salt_prefix r @ s) 7 [] = Some (Inr (bs @ [byte1 c 64]))"
    using bs l assms by (simp add: s length_salt_prefix)
  have n: "NUL \<notin> set (salt_prefix r @ s)"
    using assms(4) NUL_not_in_base64_table salt_prefix_no_NUL by auto
  have t: "take 29 ((salt_prefix r @ s) @ [NUL]) = (salt_prefix r @ s) @ [NUL]"
    using assms by (simp add: length_salt_prefix)
  have "apex_bcrypt_hashpw pw (salt_prefix r @ s) =
      Some (Inr (c_str (take 29 ((salt_prefix r @ s) @ [NUL]) @ bcrypt_tail pw r (bs @ [byte1 c 64]))))"
    unfolding hashpw_salt_prefix [OF assms(1,2)] d using bs(1) by simp
  also have "\<dots> = Some (Inr (salt_prefix r @ s))"
    unfolding t using c_str_append_NUL [OF n] by simp
  finally have "apex_bcrypt_hashpw pw (salt_prefix r @ s) = Some (Inr (salt_prefix r @ s))" .
  then show ?thesis by (simp add: checkpw_iff salt_prefix_def)
qed

theorem truncated_hash_accepts_any_password_witness:
  "apex_bcrypt_checkpw ''anything'' (''$2a$'' @ two_digits 12 @ ''$'' @ replicate 21 (CHR ''A'')) = Some 0"
  by (rule truncated_hash_accepts_any_password) (simp_all add: base64_table_def)

section \<open>The key schedule does not chain\<close>

lemma shift_out:
  "push_bit 8 (push_bit 8 (push_bit 8 (push_bit 8 l OR a) OR b) OR c) OR d =
   push_bit 8 (push_bit 8 (push_bit 8 a OR b) OR c) OR (d :: u32)"
  by (rule bit_word_eqI) (auto simp: bit_simps)

lemma data_word_unfold:
  "data_word data l di =
     (push_bit 8 (push_bit 8 (push_bit 8 (push_bit 8 l OR ucast (data ! (di mod length data))) OR
        ucast (data ! ((di + 1) mod length data))) OR ucast (data ! ((di + 2) mod length data))) OR
        ucast (data ! ((di + 3) mod length data)), di + 4)"
proof -
  have "[0..<4] = [0 :: nat, 1, 2, 3]" by (simp add: upt_rec)
  then show ?thesis by (simp only: data_word_def foldl.simps split_conv add.assoc) (simp add: numeral_3_eq_3)
qed

text \<open>Whatever \<open>l\<close> held is shifted out: a block is the data alone.\<close>

lemma data_word_forgets: "data_word data l di = data_word data 0 di"
  by (simp only: data_word_unfold shift_out push_bit_of_0 or.left_neutral)

lemma data_word_zero: "data_word (replicate 16 0) l di = (0, di + 4)"
proof -
  have "replicate 16 (0 :: u8) ! (k mod length (replicate 16 (0 :: u8))) = 0" for k
    by (simp only: length_replicate) (rule nth_replicate, simp)
  then show ?thesis by (simp only: data_word_unfold shift_out) simp
qed

text \<open>
  With the zero salt every block that \<open>bf_expand_key\<close> encrypts is zero. The comments say that data is
  XORed into the left and right half, as the algorithm asks, so that each block is chained to the one before; the code
  shifts the data in, which shifts the previous block out. All subkeys and all boxes are encryptions of the zero block.
\<close>
theorem expand_key_does_not_chain:
  "bf_expand_key ctx key (replicate 16 0) =
     foldl (\<lambda>ctx store. case bf_encrypt ctx (0, 0) of (l, r) \<Rightarrow> store l r ctx) (xor_key key ctx) block_stores"
proof -
  have "fst (foldl (\<lambda>st store. next_block (replicate 16 0) store st) (c, l, r, di) stores) =
    foldl (\<lambda>ctx store. case bf_encrypt ctx (0, 0) of (l, r) \<Rightarrow> store l r ctx) c stores" for c l r di stores
    by (induction stores arbitrary: c l r di) (simp_all add: next_block_def data_word_zero split_def Let_def)
  then show ?thesis by (simp add: bf_expand_key_def)
qed

end
