(* ===== verification/Auth_Tokens.thy ===== *)
theory Auth_Tokens
  imports Bcrypt Gateway_Pipeline Service_Base
begin

text \<open>
  What the handlers of the auth service use: random tokens and hashes (\<open>crypto_util.hpp\<close>), access tokens
  (\<open>jwt_manager.cpp\<close>) and sessions in Redis (\<open>session_store.cpp\<close>). OpenSSL, jwt-cpp, Redis and the clock are
  parameters; times are in nanoseconds, durations in seconds.
\<close>

section \<open>Hexadecimal (crypto\_util.hpp)\<close>

definition hex_digit :: "nat \<Rightarrow> char" where
  "hex_digit n = (if n < 10 then char_of (48 + n) else char_of (87 + n))"

definition byte_hex :: "u8 \<Rightarrow> string" where
  "byte_hex b = [hex_digit (unat b div 16), hex_digit (unat b mod 16)]"

definition sha256_hex :: "(string \<Rightarrow> bytes) \<Rightarrow> string \<Rightarrow> string" where
  "sha256_hex sha256 input = concat (map byte_hex (sha256 input))"

text \<open>\<open>random n\<close> is \<open>RAND_bytes\<close> for \<open>n\<close> bytes.\<close>

definition generate_secure_token :: "(nat \<Rightarrow> 'e \<Rightarrow> bytes option \<times> 'e) \<Rightarrow> nat \<Rightarrow> 'e \<Rightarrow> string result \<times> 'e" where
  "generate_secure_token random n e =
     (case random n e of
        (None, e) \<Rightarrow> (Inl AdapterError, e)
      | (Some buf, e) \<Rightarrow> (Inr (concat (map byte_hex buf)), e))"

section \<open>Access tokens (jwt\_manager.cpp)\<close>

record JwtManager =
  jm_private_key :: string
  jm_public_key :: string
  jm_issuer :: string
  jm_access_token_ttl :: int

record Claims =
  cl_user_id :: u64
  cl_email :: string
  cl_jti :: string
  cl_issued_at :: int
  cl_expires_at :: int

text \<open>The claims a token is signed over.\<close>

record jwt_payload =
  pl_issuer :: string
  pl_issued_at :: int
  pl_expires_at :: int
  pl_uid :: string
  pl_subject :: string
  pl_jti :: string

text \<open>
  The library, with what the gateway does not use: signing with a key pair, and the two kinds of exceptions of a
  verification. A function that throws gives \<open>None\<close>.
\<close>

datatype verify_outcome = Verified | TokenVerificationException | OtherException

record 'd jwt_cpp = "'d jwt_lib" +
  jl_sign :: "string \<Rightarrow> string \<Rightarrow> jwt_payload \<Rightarrow> string option"
  jl_check :: "string \<Rightarrow> string \<Rightarrow> 'd \<Rightarrow> verify_outcome"
  jl_issued_at :: "'d \<Rightarrow> int option"

definition read_file :: "(string \<Rightarrow> string option) \<Rightarrow> string \<Rightarrow> string" where
  "read_file fs path = (case fs path of None \<Rightarrow> '''' | Some s \<Rightarrow> s)"

definition JwtManager_new :: "(string \<Rightarrow> string option) \<Rightarrow> string \<Rightarrow> string \<Rightarrow> string \<Rightarrow> int \<Rightarrow> JwtManager" where
  "JwtManager_new fs private_key_path public_key_path issuer ttl =
     \<lparr>jm_private_key = read_file fs private_key_path, jm_public_key = read_file fs public_key_path, jm_issuer = issuer,
      jm_access_token_ttl = ttl\<rparr>"

definition generate_jti :: "(nat \<Rightarrow> 'e \<Rightarrow> bytes option \<times> 'e) \<Rightarrow> 'e \<Rightarrow> string \<times> 'e" where
  "generate_jti random e = (case generate_secure_token random 16 e of (Inl err, e) \<Rightarrow> ('''', e) | (Inr jti, e) \<Rightarrow> (jti, e))"

definition access_payload :: "JwtManager \<Rightarrow> int \<Rightarrow> u64 \<Rightarrow> string \<Rightarrow> string \<Rightarrow> jwt_payload" where
  "access_payload m now user_id email jti =
     \<lparr>pl_issuer = jm_issuer m, pl_issued_at = now, pl_expires_at = now + jm_access_token_ttl m * 10 ^ 9,
      pl_uid = u64_str user_id, pl_subject = email, pl_jti = jti\<rparr>"

definition create_access_token ::
  "'d jwt_cpp \<Rightarrow> (nat \<Rightarrow> 'e \<Rightarrow> bytes option \<times> 'e) \<Rightarrow> ('e \<Rightarrow> int) \<Rightarrow> JwtManager \<Rightarrow> u64 \<Rightarrow> string \<Rightarrow> 'e \<Rightarrow> string \<times> 'e" where
  "create_access_token lib random clock m user_id email e =
     (if jm_private_key m = '''' then ('''', e)
      else let now = clock e; (jti, e) = generate_jti random e in
           if jti = '''' then ('''', e)
           else case jl_sign lib (jm_public_key m) (jm_private_key m) (access_payload m now user_id email jti) of
                  None \<Rightarrow> ('''', e)
                | Some token \<Rightarrow> (token, e))"

definition verify_access_token :: "'d jwt_cpp \<Rightarrow> JwtManager \<Rightarrow> string \<Rightarrow> Claims result" where
  "verify_access_token lib m token =
     (if jm_public_key m = '''' then Inl AdapterError
      else case jl_decode lib token of
        None \<Rightarrow> Inl AdapterError
      | Some decoded \<Rightarrow>
          (case jl_check lib (jm_public_key m) (jm_issuer m) decoded of
             TokenVerificationException \<Rightarrow> Inl ServiceError
           | OtherException \<Rightarrow> Inl AdapterError
           | Verified \<Rightarrow>
               (case jl_claim lib decoded ''uid'' of
                  None \<Rightarrow> Inl AdapterError
                | Some uid_str \<Rightarrow>
                    (case from_chars_u64 uid_str of
                       None \<Rightarrow> Inl ServiceError
                     | Some user_id \<Rightarrow>
                         (case (jl_subject lib decoded,
                                if jl_has_claim lib decoded ''jti'' then jl_claim lib decoded ''jti'' else Some '''',
                                jl_issued_at lib decoded, jl_expires_at lib decoded) of
                            (Some email, Some jti, Some issued_at, Some expires_at) \<Rightarrow>
                              Inr \<lparr>cl_user_id = user_id, cl_email = email, cl_jti = jti, cl_issued_at = issued_at,
                                   cl_expires_at = expires_at\<rparr>
                          | _ \<Rightarrow> Inl AdapterError)))))"

definition remaining_ttl :: "'d jwt_cpp \<Rightarrow> int \<Rightarrow> string \<Rightarrow> int" where
  "remaining_ttl lib now token =
     (case jl_decode lib token of
        None \<Rightarrow> 0
      | Some decoded \<Rightarrow>
          (case jl_expires_at lib decoded of
             None \<Rightarrow> 0
           | Some exp_at \<Rightarrow> if exp_at \<le> now then 0 else (exp_at - now) div 10 ^ 9))"

section \<open>Sessions in Redis (session\_store.cpp)\<close>

record SessionStore =
  st_prefix :: string
  st_blacklist_prefix :: string
  st_ttl :: int

definition hex_char :: "char \<Rightarrow> bool" where
  "hex_char c \<longleftrightarrow> (let n = of_char c :: nat in 48 \<le> n \<and> n \<le> 57 \<or> 97 \<le> n \<and> n \<le> 102 \<or> 65 \<le> n \<and> n \<le> 70)"

definition is_valid_token_hash :: "string \<Rightarrow> bool" where
  "is_valid_token_hash hash = (if hash = '''' \<or> 128 < length hash then False else list_all hex_char hash)"

definition int_str :: "int \<Rightarrow> string" where
  "int_str i = (if i < 0 then ''-'' @ nat_str (nat (- i)) else nat_str (nat i))"

text \<open>\<open>%d\<close> of a count cast to \<open>int\<close>; \<open>%s\<close> takes a C string.\<close>

definition ttl_sec :: "int \<Rightarrow> string" where "ttl_sec n = int_str (sint (of_int n :: 32 word))"

definition session_key :: "SessionStore \<Rightarrow> u64 \<Rightarrow> string" where "session_key st user_id = st_prefix st @ u64_str user_id"
definition blacklist_key :: "SessionStore \<Rightarrow> string \<Rightarrow> string" where "blacklist_key st hash = st_blacklist_prefix st @ hash"
definition user_session_key :: "u64 \<Rightarrow> string" where "user_session_key user_id = ''session:user:'' @ u64_str user_id"

definition user_session_value :: "u64 \<Rightarrow> u16 \<Rightarrow> string" where
  "user_session_value session_id core_id = u64_str session_id @ '':'' @ nat_str (unat core_id)"

definition no_reply :: "RedisReply result \<times> 'e \<Rightarrow> unit result \<times> 'e" where
  "no_reply = map_prod (map_sum id (\<lambda>r. ())) id"

definition session_set :: "'e redis_command \<Rightarrow> SessionStore \<Rightarrow> u64 \<Rightarrow> string \<Rightarrow> 'e \<Rightarrow> unit result \<times> 'e" where
  "session_set command st user_id session_data e =
     no_reply (command [''SETEX'', c_str (session_key st user_id), ttl_sec (st_ttl st), c_str session_data] e)"

definition session_get :: "'e redis_command \<Rightarrow> SessionStore \<Rightarrow> u64 \<Rightarrow> 'e \<Rightarrow> string result \<times> 'e" where
  "session_get command st user_id e =
     (case command [''GET'', c_str (session_key st user_id)] e of
        (Inl err, e) \<Rightarrow> (Inl err, e)
      | (Inr r, e) \<Rightarrow> (if rr_is_nil r then Inl AdapterError else Inr (rr_str r), e))"

definition session_remove :: "'e redis_command \<Rightarrow> SessionStore \<Rightarrow> u64 \<Rightarrow> 'e \<Rightarrow> unit result \<times> 'e" where
  "session_remove command st user_id e = no_reply (command [''DEL'', c_str (session_key st user_id)] e)"

definition set_user_session_id :: "'e redis_command \<Rightarrow> SessionStore \<Rightarrow> u64 \<Rightarrow> u64 \<Rightarrow> u16 \<Rightarrow> 'e \<Rightarrow> unit result \<times> 'e" where
  "set_user_session_id command st user_id session_id core_id e =
     no_reply (command [''SETEX'', user_session_key user_id, ttl_sec (st_ttl st), user_session_value session_id core_id] e)"

definition remove_user_session_id :: "'e redis_command \<Rightarrow> u64 \<Rightarrow> 'e \<Rightarrow> unit result \<times> 'e" where
  "remove_user_session_id command user_id e = no_reply (command [''DEL'', user_session_key user_id] e)"

definition blacklist_token :: "'e redis_command \<Rightarrow> SessionStore \<Rightarrow> string \<Rightarrow> int \<Rightarrow> 'e \<Rightarrow> unit result \<times> 'e" where
  "blacklist_token command st token_hash ttl e =
     (if \<not> is_valid_token_hash token_hash then (Inl InvalidMessage, e)
      else no_reply (command [''SETEX'', c_str (blacklist_key st token_hash), ttl_sec ttl, ''1''] e))"

definition store_is_blacklisted :: "'e redis_command \<Rightarrow> SessionStore \<Rightarrow> string \<Rightarrow> 'e \<Rightarrow> bool result \<times> 'e" where
  "store_is_blacklisted command st token_hash e =
     (if \<not> is_valid_token_hash token_hash then (Inr True, e)
      else case command [''EXISTS'', c_str (blacklist_key st token_hash)] e of
             (Inl err, e) \<Rightarrow> (Inr True, e)
           | (Inr r, e) \<Rightarrow> (Inr (0 < rr_integer r), e))"

section \<open>Tokens are hexadecimal\<close>

lemma hex_digit_char: "n < 16 \<Longrightarrow> hex_char (hex_digit n)"
  by (auto simp: hex_char_def hex_digit_def Let_def of_char_of)

lemma byte_hex_chars: "list_all hex_char (byte_hex b)"
proof -
  have "unat b < 256" using unat_lt2p [of b] by simp
  then show ?thesis by (simp add: byte_hex_def hex_digit_char)
qed

lemma hex_chars: "list_all hex_char (concat (map byte_hex bs))"
  using byte_hex_chars by (induction bs) simp_all

lemma length_hex [simp]: "length (concat (map byte_hex bs)) = 2 * length bs"
  by (induction bs) (simp_all add: byte_hex_def)

text \<open>A character of a hexadecimal identifier is one the gateway accepts.\<close>

lemma hex_char_jti: "hex_char c \<Longrightarrow> jti_char c"
  unfolding hex_char_def jti_char_def Let_def by blast

lemma hex_is_jti: "is_valid_token_hash s \<Longrightarrow> is_valid_jti s"
  using hex_char_jti by (simp add: is_valid_token_hash_def is_valid_jti_def list.pred_mono_strong split: if_splits)

lemma hex_char_NUL: "\<not> hex_char NUL"
  by (simp add: hex_char_def NUL_def)

lemma hex_no_NUL: "list_all hex_char s \<Longrightarrow> NUL \<notin> set s"
  using hex_char_NUL by (auto simp: list_all_iff)

end
