(* ===== verification/Pg_Connection.thy ===== *)
theory Pg_Connection
  imports Decimal "HOL-Library.Monad_Syntax"
begin

text \<open>
  \<open>pg_connection.cpp\<close>: one connection to PostgreSQL over libpq. A libpq handle is a value of type
  \<open>'q\<close> that holds its own future: what the server will send and when. \<open>libpq\<close> gathers the functions of the library
  and the waits on its socket. A loop that never ends gives \<open>None\<close>.
\<close>

section \<open>Results\<close>

datatype pg_status = PGRES_COMMAND_OK | PGRES_TUPLES_OK | PGRES_FATAL_ERROR | PGRES_OTHER

record PGresult =
  pr_status :: pg_status
  pr_rows :: "string option list list"
  pr_columns :: "string list"
  pr_cmd_tuples :: string
  pr_error :: string

type_synonym PgResult = "PGresult option"

definition result_ok :: "PgResult \<Rightarrow> bool" where
  "result_ok r = (case r of None \<Rightarrow> False | Some p \<Rightarrow> pr_status p = PGRES_COMMAND_OK \<or> pr_status p = PGRES_TUPLES_OK)"

definition result_status :: "PgResult \<Rightarrow> pg_status" where
  "result_status r = (case r of Some p \<Rightarrow> pr_status p | None \<Rightarrow> PGRES_FATAL_ERROR)"

definition error_message :: "PgResult \<Rightarrow> string" where
  "error_message r = (case r of None \<Rightarrow> ''no result'' | Some p \<Rightarrow> pr_error p)"

definition row_count :: "PgResult \<Rightarrow> nat" where
  "row_count r = (case r of Some p \<Rightarrow> length (pr_rows p) | None \<Rightarrow> 0)"

definition column_count :: "PgResult \<Rightarrow> nat" where
  "column_count r = (case r of Some p \<Rightarrow> length (pr_columns p) | None \<Rightarrow> 0)"

text \<open>libpq calls a cell out of range null.\<close>

definition is_null :: "PgResult \<Rightarrow> nat \<Rightarrow> nat \<Rightarrow> bool" where
  "is_null r row col =
     (case r of
        None \<Rightarrow> True
      | Some p \<Rightarrow> \<not> (row < length (pr_rows p) \<and> col < length (pr_rows p ! row) \<and> pr_rows p ! row ! col \<noteq> None))"

definition pg_value :: "PgResult \<Rightarrow> nat \<Rightarrow> nat \<Rightarrow> string" where
  "pg_value r row col = (if is_null r row col then '''' else the (pr_rows (the r) ! row ! col))"

definition column_name :: "PgResult \<Rightarrow> nat \<Rightarrow> string" where
  "column_name r col = (case r of None \<Rightarrow> '''' | Some p \<Rightarrow> if col < length (pr_columns p) then pr_columns p ! col else '''')"

text \<open>\<open>strtol\<close> on the command tag libpq gives: digits.\<close>

definition affected_rows :: "PgResult \<Rightarrow> int" where
  "affected_rows r =
     (case r of
        None \<Rightarrow> 0
      | Some p \<Rightarrow>
          if pr_cmd_tuples p = '''' then 0
          else let ds = takeWhile is_digit (pr_cmd_tuples p); v = int (str_nat ds)
               in if ds = [] \<or> 2 ^ 31 - 1 < v then 0 else v)"

section \<open>Connections\<close>

record 'q PgConnection =
  pc_conn :: "'q option"
  pc_socket :: bool
  pc_connected :: bool
  pc_poisoned :: bool

definition PgConnection_new :: "'q PgConnection" where
  "PgConnection_new = \<lparr>pc_conn = None, pc_socket = False, pc_connected = False, pc_poisoned = False\<rparr>"

datatype polling = POLLING_READING | POLLING_WRITING | POLLING_OK | POLLING_FAILED

record 'q libpq =
  pq_status_ok :: "'q \<Rightarrow> bool"
  pq_setnonblocking :: "'q \<Rightarrow> bool \<times> 'q"
  pq_socket_ok :: "'q \<Rightarrow> bool"
  pq_assign_ok :: "'q \<Rightarrow> bool"
  pq_connect_poll :: "'q \<Rightarrow> polling \<times> 'q"
  pq_wait :: "'q \<Rightarrow> bool \<times> 'q"
  pq_send :: "string \<Rightarrow> string list \<Rightarrow> 'q \<Rightarrow> bool \<times> 'q"
  pq_send_prepare :: "string \<Rightarrow> string \<Rightarrow> 'q \<Rightarrow> bool \<times> 'q"
  pq_send_prepared :: "string \<Rightarrow> string list \<Rightarrow> 'q \<Rightarrow> bool \<times> 'q"
  pq_consume_input :: "'q \<Rightarrow> bool \<times> 'q"
  pq_is_busy :: "'q \<Rightarrow> bool"
  pq_get_result :: "'q \<Rightarrow> PGresult option \<times> 'q"

definition release_socket :: "'q PgConnection \<Rightarrow> 'q PgConnection" where
  "release_socket c = (if pc_socket c then c\<lparr>pc_socket := False\<rparr> else c)"

definition conn_close :: "'q PgConnection \<Rightarrow> 'q PgConnection" where
  "conn_close c = (release_socket (c\<lparr>pc_connected := False\<rparr>))\<lparr>pc_conn := None\<rparr>"

definition mark_poisoned :: "'q PgConnection \<Rightarrow> 'q PgConnection" where
  "mark_poisoned c = c\<lparr>pc_poisoned := True\<rparr>"

definition conn_is_valid :: "'q libpq \<Rightarrow> 'q PgConnection \<Rightarrow> bool" where
  "conn_is_valid pq c \<longleftrightarrow> pc_connected c \<and> (case pc_conn c of None \<Rightarrow> False | Some q \<Rightarrow> pq_status_ok pq q)"

partial_function (option) poll_connect :: "'q libpq \<Rightarrow> 'q PgConnection \<Rightarrow> 'q \<Rightarrow> (unit result \<times> 'q PgConnection) option" where
  "poll_connect pq c q =
     (case pq_connect_poll pq q of (status, q) \<Rightarrow>
      if status = POLLING_OK then Some (Inr (), c\<lparr>pc_conn := Some q, pc_connected := True\<rparr>)
      else if status = POLLING_FAILED then Some (Inl AdapterError, c\<lparr>pc_conn := Some q\<rparr>)
      else case pq_wait pq q of (ok, q) \<Rightarrow>
             if \<not> ok then Some (Inl AdapterError, c\<lparr>pc_conn := Some q\<rparr>) else poll_connect pq c q)"

text \<open>\<open>start\<close> is what \<open>PQconnectStart\<close> returns.\<close>

definition connect_async :: "'q libpq \<Rightarrow> 'q option \<Rightarrow> 'q PgConnection \<Rightarrow> (unit result \<times> 'q PgConnection) option" where
  "connect_async pq start c =
     (let c = (if pc_conn c \<noteq> None then conn_close c else c) in
      case start of
        None \<Rightarrow> Some (Inl AdapterError, c\<lparr>pc_conn := None\<rparr>)
      | Some q \<Rightarrow>
          if \<not> pq_status_ok pq q then Some (Inl AdapterError, c\<lparr>pc_conn := None\<rparr>)
          else case pq_setnonblocking pq q of (ok, q) \<Rightarrow>
            if \<not> ok then Some (Inl AdapterError, c\<lparr>pc_conn := None\<rparr>)
            else if \<not> pq_socket_ok pq q then Some (Inl AdapterError, c\<lparr>pc_conn := None\<rparr>)
            else if \<not> pq_assign_ok pq q then Some (Inl AdapterError, c\<lparr>pc_socket := False, pc_conn := None\<rparr>)
            else poll_connect pq (c\<lparr>pc_socket := True, pc_conn := Some q\<rparr>) q)"

text \<open>The inner loop of \<open>collect_result\<close>: \<open>Inl\<close> is its value when it returns, \<open>Inr\<close> goes back to wait.\<close>

partial_function (option) drain_results :: "'q libpq \<Rightarrow> 'q \<Rightarrow> 'q option" where
  "drain_results pq q = (case pq_get_result pq q of (None, q) \<Rightarrow> Some q | (Some r, q) \<Rightarrow> drain_results pq q)"

partial_function (option) take_results ::
  "'q libpq \<Rightarrow> PgResult \<Rightarrow> 'q \<Rightarrow> ((PgResult result + PgResult) \<times> 'q) option" where
  "take_results pq last_result q =
     (if pq_is_busy pq q then Some (Inr last_result, q)
      else case pq_get_result pq q of
        (None, q) \<Rightarrow> Some (Inl (if last_result = None then Inl AdapterError else Inr last_result), q)
      | (Some raw, q) \<Rightarrow>
          if \<not> result_ok (Some raw)
          then (case drain_results pq q of None \<Rightarrow> None | Some q \<Rightarrow> Some (Inl (Inl AdapterError), q))
          else take_results pq (Some raw) q)"

partial_function (option) collect_loop :: "'q libpq \<Rightarrow> PgResult \<Rightarrow> 'q \<Rightarrow> (PgResult result \<times> 'q) option" where
  "collect_loop pq last_result q =
     (case pq_wait pq q of (ok, q) \<Rightarrow>
      if \<not> ok then Some (Inl AdapterError, q)
      else case pq_consume_input pq q of (ok, q) \<Rightarrow>
        if \<not> ok then Some (Inl AdapterError, q)
        else case take_results pq last_result q of
            None \<Rightarrow> None
          | Some (Inl r, q) \<Rightarrow> Some (r, q)
          | Some (Inr last_result, q) \<Rightarrow> collect_loop pq last_result q)"

definition collect_result :: "'q libpq \<Rightarrow> 'q \<Rightarrow> (PgResult result \<times> 'q) option" where
  "collect_result pq q = collect_loop pq None q"

text \<open>What the queries share: the check of the connection, sending, and collecting.\<close>

definition send_and_collect ::
  "'q libpq \<Rightarrow> ('q \<Rightarrow> bool \<times> 'q) \<Rightarrow> 'q PgConnection \<Rightarrow> (PgResult result \<times> 'q PgConnection) option" where
  "send_and_collect pq send c =
     (if \<not> pc_connected c then Some (Inl AdapterError, c)
      else case pc_conn c of
        None \<Rightarrow> Some (Inl AdapterError, c)
      | Some q \<Rightarrow>
          (case send q of (ok, q) \<Rightarrow>
           if \<not> ok then Some (Inl AdapterError, c\<lparr>pc_conn := Some q\<rparr>)
           else map_option (\<lambda>(r, q). (r, c\<lparr>pc_conn := Some q\<rparr>)) (collect_result pq q)))"

definition query_async :: "'q libpq \<Rightarrow> string \<Rightarrow> 'q PgConnection \<Rightarrow> (PgResult result \<times> 'q PgConnection) option" where
  "query_async pq sql c = send_and_collect pq (pq_send pq sql []) c"

definition query_params_async :: "'q libpq \<Rightarrow> string \<Rightarrow> string list \<Rightarrow> 'q PgConnection \<Rightarrow> (PgResult result \<times> 'q PgConnection) option" where
  "query_params_async pq sql params c = send_and_collect pq (pq_send pq sql params) c"

definition execute_async :: "'q libpq \<Rightarrow> string \<Rightarrow> 'q PgConnection \<Rightarrow> (int result \<times> 'q PgConnection) option" where
  "execute_async pq sql c = map_option (map_prod (map_sum id affected_rows) id) (query_async pq sql c)"

definition execute_params_async :: "'q libpq \<Rightarrow> string \<Rightarrow> string list \<Rightarrow> 'q PgConnection \<Rightarrow> (int result \<times> 'q PgConnection) option" where
  "execute_params_async pq sql params c = map_option (map_prod (map_sum id affected_rows) id) (query_params_async pq sql params c)"

definition prepare_async :: "'q libpq \<Rightarrow> string \<Rightarrow> string \<Rightarrow> 'q PgConnection \<Rightarrow> (unit result \<times> 'q PgConnection) option" where
  "prepare_async pq name sql c = map_option (map_prod (map_sum id (\<lambda>r. ())) id) (send_and_collect pq (pq_send_prepare pq name sql) c)"

definition query_prepared_async :: "'q libpq \<Rightarrow> string \<Rightarrow> string list \<Rightarrow> 'q PgConnection \<Rightarrow> (PgResult result \<times> 'q PgConnection) option" where
  "query_prepared_async pq name params c = send_and_collect pq (pq_send_prepared pq name params) c"

section \<open>Collecting results\<close>

text \<open>
  What libpq promises while the connection holds: \<open>queue\<close> are the results it still has for the query, \<open>delay\<close> how often
  its socket becomes readable before it is no longer busy. Consuming input does not lose results, and
  \<open>PQgetResult\<close> takes out the next one or reports the end.
\<close>

definition libpq_delivers :: "'q libpq \<Rightarrow> ('q \<Rightarrow> PGresult list) \<Rightarrow> ('q \<Rightarrow> nat) \<Rightarrow> bool" where
  "libpq_delivers pq queue delay \<longleftrightarrow>
     (\<forall>q. fst (pq_wait pq q) \<and> queue (snd (pq_wait pq q)) = queue q \<and> delay (snd (pq_wait pq q)) = delay q) \<and>
     (\<forall>q. fst (pq_consume_input pq q) \<and> queue (snd (pq_consume_input pq q)) = queue q \<and>
        delay (snd (pq_consume_input pq q)) = delay q - 1) \<and>
     (\<forall>q. pq_is_busy pq q \<longrightarrow> 0 < delay q) \<and>
     (\<forall>q. queue q = [] \<longrightarrow> fst (pq_get_result pq q) = None \<and> queue (snd (pq_get_result pq q)) = []) \<and>
     (\<forall>q r rs. queue q = r # rs \<longrightarrow> fst (pq_get_result pq q) = Some r \<and> queue (snd (pq_get_result pq q)) = rs)"

definition later :: "PgResult \<Rightarrow> PGresult list \<Rightarrow> PgResult" where
  "later prev rs = (if rs = [] then prev else Some (last rs))"

definition collected :: "PgResult \<Rightarrow> PGresult list \<Rightarrow> PgResult result" where
  "collected prev rs =
     (if (\<exists>r \<in> set rs. \<not> result_ok (Some r)) \<or> later prev rs = None then Inl AdapterError else Inr (later prev rs))"

lemma later_append: "later (later prev xs) ys = later prev (xs @ ys)"
  by (simp add: later_def)

lemma collected_append:
  "\<forall>r \<in> set xs. result_ok (Some r) \<Longrightarrow> collected (later prev xs) ys = collected prev (xs @ ys)"
  by (auto simp: collected_def later_append)

lemma delivers_wait:
  assumes "libpq_delivers pq queue delay"
  obtains q1 where "pq_wait pq q = (True, q1)" "queue q1 = queue q" "delay q1 = delay q"
proof -
  have "fst (pq_wait pq q) \<and> queue (snd (pq_wait pq q)) = queue q \<and> delay (snd (pq_wait pq q)) = delay q"
    using assms unfolding libpq_delivers_def by blast
  then show ?thesis by (cases "pq_wait pq q") (simp add: that)
qed

lemma delivers_consume:
  assumes "libpq_delivers pq queue delay"
  obtains q1 where "pq_consume_input pq q = (True, q1)" "queue q1 = queue q" "delay q1 = delay q - 1"
proof -
  have "fst (pq_consume_input pq q) \<and> queue (snd (pq_consume_input pq q)) = queue q \<and>
    delay (snd (pq_consume_input pq q)) = delay q - 1"
    using assms unfolding libpq_delivers_def by blast
  then show ?thesis by (cases "pq_consume_input pq q") (simp add: that)
qed

lemma delivers_end:
  assumes "libpq_delivers pq queue delay" "queue q = []"
  obtains q1 where "pq_get_result pq q = (None, q1)" "queue q1 = []"
proof -
  have "fst (pq_get_result pq q) = None \<and> queue (snd (pq_get_result pq q)) = []"
    using assms unfolding libpq_delivers_def by blast
  then show ?thesis by (cases "pq_get_result pq q") (simp add: that)
qed

lemma delivers_next:
  assumes "libpq_delivers pq queue delay" "queue q = r # rs"
  obtains q1 where "pq_get_result pq q = (Some r, q1)" "queue q1 = rs"
proof -
  have "fst (pq_get_result pq q) = Some r \<and> queue (snd (pq_get_result pq q)) = rs"
    using assms unfolding libpq_delivers_def by blast
  then show ?thesis by (cases "pq_get_result pq q") (simp add: that)
qed

lemma drain_results_ends:
  assumes "libpq_delivers pq queue delay"
  shows "\<exists>q'. drain_results pq q = Some q' \<and> queue q' = []"
proof (induction "queue q" arbitrary: q)
  case Nil
  obtain q1 where "pq_get_result pq q = (None, q1)" "queue q1 = []"
    by (rule delivers_end [OF assms Nil [symmetric]])
  then show ?case by (subst drain_results.simps) simp
next
  case (Cons r rs)
  obtain q1 where g: "pq_get_result pq q = (Some r, q1)" "queue q1 = rs"
    by (rule delivers_next [OF assms Cons(2) [symmetric]])
  then show ?case using Cons(1) [of q1] by (subst drain_results.simps) simp
qed

lemma take_results_cases:
  assumes "libpq_delivers pq queue delay"
  shows "(\<exists>q'. take_results pq prev q = Some (Inl (collected prev (queue q)), q') \<and> queue q' = []) \<or>
    (\<exists>xs ys q'. queue q = xs @ ys \<and> (\<forall>r \<in> set xs. result_ok (Some r)) \<and> queue q' = ys \<and>
       take_results pq prev q = Some (Inr (later prev xs), q') \<and> pq_is_busy pq q' \<and> (xs = [] \<longrightarrow> q' = q))"
proof (induction "queue q" arbitrary: q prev)
  case Nil
  show ?case
  proof (cases "pq_is_busy pq q")
    case True
    then have "take_results pq prev q = Some (Inr prev, q)" by (subst take_results.simps) simp
    then show ?thesis using True Nil
      by (intro disjI2 exI [of _ "[]"] exI [of _ q]) (simp add: later_def)
  next
    case False
    obtain q' where g: "pq_get_result pq q = (None, q')" "queue q' = []"
      by (rule delivers_end [OF assms Nil [symmetric]])
    then have "take_results pq prev q = Some (Inl (collected prev (queue q)), q')"
      using False Nil by (subst take_results.simps) (simp add: collected_def later_def)
    then show ?thesis using g by blast
  qed
next
  case (Cons r rs)
  have qq: "queue q = r # rs" using Cons(2) by simp
  show ?case
  proof (cases "pq_is_busy pq q")
    case True
    then have "take_results pq prev q = Some (Inr prev, q)" by (subst take_results.simps) simp
    then show ?thesis using True Cons(2)
      by (intro disjI2 exI [of _ "[]"] exI [of _ "r # rs"] exI [of _ q]) (simp add: later_def)
  next
    case busy: False
    obtain q1 where g: "pq_get_result pq q = (Some r, q1)" "queue q1 = rs"
      by (rule delivers_next [OF assms Cons(2) [symmetric]])
    show ?thesis
    proof (cases "result_ok (Some r)")
      case False
      obtain q2 where "drain_results pq q1 = Some q2" "queue q2 = []"
        using drain_results_ends [OF assms] by blast
      then have "take_results pq prev q = Some (Inl (collected prev (queue q)), q2)"
        using g busy False by (subst take_results.simps) (simp add: collected_def qq)
      then show ?thesis using \<open>queue q2 = []\<close> by blast
    next
      case True
      then have t: "take_results pq prev q = take_results pq (later prev [r]) q1"
        using g busy by (subst take_results.simps) (simp add: later_def)
      from Cons(1) [OF g(2) [symmetric], of "later prev [r]"] show ?thesis
      proof (elim disjE exE conjE, goal_cases first more)
        case (first q')
        have "take_results pq prev q = Some (Inl (collected prev (queue q)), q')"
          using first(1) t True collected_append [of "[r]" prev rs] by (simp add: qq g(2))
        then show ?case using first(2) by blast
      next
        case (more xs ys q')
        have "take_results pq prev q = Some (Inr (later prev (r # xs)), q')"
          using more(4) t later_append [of prev "[r]" xs] by simp
        moreover have "queue q = (r # xs) @ ys" using more(1) g(2) qq by simp
        ultimately show ?case using more(2,3,5) True
          by (intro disjI2 exI [of _ "r # xs"] exI [of _ ys] exI [of _ q']) simp
      qed
    qed
  qed
qed

text \<open>
  C26: While the connection holds, \<open>collect_result\<close> ends, takes every result of the query out of libpq, so that the
  connection is ready for the next query, and returns the last result if all of them are good and an error otherwise.
\<close>
theorem collect_result_in_sync:
  assumes "libpq_delivers pq queue delay"
  shows "\<exists>q'. collect_result pq q = Some (collected None (queue q), q') \<and> queue q' = []"
proof -
  have "\<exists>q'. collect_loop pq prev q = Some (collected prev (queue q), q') \<and> queue q' = []" for prev q
  proof (induction "(length (queue q), delay q)" arbitrary: q prev rule: wf_induct [OF wf_lex_prod [OF wf_less wf_less]])
    case (1 q prev)
    obtain q1 where w: "pq_wait pq q = (True, q1)" "queue q1 = queue q" "delay q1 = delay q"
      by (rule delivers_wait [OF assms])
    obtain q2 where c: "pq_consume_input pq q1 = (True, q2)" "queue q2 = queue q" "delay q2 = delay q - 1"
      by (rule delivers_consume [OF assms, of q1]) (use w in auto)
    from take_results_cases [OF assms, of prev q2] show ?case
    proof (elim disjE exE conjE)
      fix q'
      assume "take_results pq prev q2 = Some (Inl (collected prev (queue q2)), q')" "queue q' = []"
      then show ?thesis using w c by (subst collect_loop.simps) simp
    next
      fix xs ys q'
      assume t: "queue q2 = xs @ ys" "\<forall>r \<in> set xs. result_ok (Some r)" "queue q' = ys"
        "take_results pq prev q2 = Some (Inr (later prev xs), q')" "pq_is_busy pq q'" "xs = [] \<longrightarrow> q' = q2"
      have "0 < delay q'" using assms t(5) by (auto simp: libpq_delivers_def)
      then have "((length (queue q'), delay q'), length (queue q), delay q) \<in> {(x, y). x < y} <*lex*> {(x, y). x < y}"
        using t c(2,3) by (cases "xs = []") auto
      then have "\<exists>q''. collect_loop pq (later prev xs) q' = Some (collected (later prev xs) (queue q'), q'') \<and> queue q'' = []"
        using 1 by blast
      then show ?thesis
        using w c t collected_append [OF t(2), of prev ys] by (subst collect_loop.simps) auto
    qed
  qed
  then show ?thesis by (simp add: collect_result_def)
qed

text \<open>A server that answers a query with two results, the first after two reads.\<close>

definition sample_result :: PGresult where
  "sample_result = \<lparr>pr_status = PGRES_TUPLES_OK, pr_rows = [[Some ''1'']], pr_columns = [''id''], pr_cmd_tuples = ''1'', pr_error = ''''\<rparr>"

definition sample_libpq :: "(PGresult list \<times> nat) libpq" where
  "sample_libpq = \<lparr>pq_status_ok = (\<lambda>q. True), pq_setnonblocking = (\<lambda>q. (True, q)), pq_socket_ok = (\<lambda>q. True),
     pq_assign_ok = (\<lambda>q. True), pq_connect_poll = (\<lambda>q. (POLLING_OK, q)), pq_wait = (\<lambda>q. (True, q)),
     pq_send = (\<lambda>sql ps q. (True, ([sample_result, sample_result], 2))), pq_send_prepare = (\<lambda>n s q. (True, q)),
     pq_send_prepared = (\<lambda>n ps q. (True, q)), pq_consume_input = (\<lambda>(rs, n). (True, rs, n - 1)), pq_is_busy = (\<lambda>(rs, n). 0 < n),
     pq_get_result = (\<lambda>(rs, n). case rs of [] \<Rightarrow> (None, [], n) | r # rs \<Rightarrow> (Some r, rs, n))\<rparr>"

lemma sample_libpq_delivers: "libpq_delivers sample_libpq fst snd"
  by (auto simp: libpq_delivers_def sample_libpq_def split_def)

theorem collect_result_in_sync_witness:
  "\<exists>q'. collect_result sample_libpq ([sample_result, sample_result], 2) = Some (Inr (Some sample_result), q') \<and> fst q' = []"
  using collect_result_in_sync [OF sample_libpq_delivers, of "([sample_result, sample_result], 2)"]
  by (simp add: collected_def later_def result_ok_def sample_result_def)

end
