(* ===== verification/Pg_Adapter.thy ===== *)
theory Pg_Adapter
  imports Pg_Connection
begin

text \<open>
  \<open>pg_pool.cpp\<close>, \<open>pg_adapter.cpp\<close> and \<open>pg_transaction.hpp\<close>: the connections of one core. A connection object has an
  address in \<open>pp_heap\<close> while it lives; the unique pointers that the pool hands out are addresses, never null.
  At a \<open>co_await\<close> other coroutines of the core use the pool: the functions that wait take what those do as an argument.
\<close>

section \<open>Transactions (pg\_transaction.hpp)\<close>

text \<open>The class is a template over its connection: here over how the connection runs a query, on a state \<open>'s\<close>.\<close>

record PgTransaction =
  tx_begun :: bool
  tx_finished :: bool

definition PgTransaction_new :: PgTransaction where
  "PgTransaction_new = \<lparr>tx_begun = False, tx_finished = False\<rparr>"

definition drop_value :: "'a result \<Rightarrow> unit result" where
  "drop_value r = map_sum id (\<lambda>x. ()) r"

definition tx_begin :: "(string \<Rightarrow> string list \<Rightarrow> 's \<Rightarrow> 'r result \<times> 's) \<Rightarrow> PgTransaction \<Rightarrow> 's \<Rightarrow> unit result \<times> PgTransaction \<times> 's" where
  "tx_begin query t s =
     (case query ''BEGIN'' [] s of (result, s) \<Rightarrow>
      (drop_value result, if isl result then t else t\<lparr>tx_begun := True\<rparr>, s))"

definition tx_execute_params ::
  "(string \<Rightarrow> string list \<Rightarrow> 's \<Rightarrow> 'r result \<times> 's) \<Rightarrow> string \<Rightarrow> string list \<Rightarrow> PgTransaction \<Rightarrow> 's \<Rightarrow> 'r result \<times> 's" where
  "tx_execute_params query sql params t s =
     (if \<not> tx_begun t \<or> tx_finished t then (Inl AdapterError, s) else query sql params s)"

definition tx_execute :: "(string \<Rightarrow> string list \<Rightarrow> 's \<Rightarrow> 'r result \<times> 's) \<Rightarrow> string \<Rightarrow> PgTransaction \<Rightarrow> 's \<Rightarrow> 'r result \<times> 's" where
  "tx_execute query sql t s = (if \<not> tx_begun t \<or> tx_finished t then (Inl AdapterError, s) else query sql [] s)"

definition tx_commit :: "(string \<Rightarrow> string list \<Rightarrow> 's \<Rightarrow> 'r result \<times> 's) \<Rightarrow> PgTransaction \<Rightarrow> 's \<Rightarrow> unit result \<times> PgTransaction \<times> 's" where
  "tx_commit query t s =
     (if \<not> tx_begun t \<or> tx_finished t then (Inl AdapterError, t, s)
      else case query ''COMMIT'' [] s of (result, s) \<Rightarrow>
        (drop_value result, if isl result then t else t\<lparr>tx_finished := True\<rparr>, s))"

definition tx_rollback :: "(string \<Rightarrow> string list \<Rightarrow> 's \<Rightarrow> 'r result \<times> 's) \<Rightarrow> PgTransaction \<Rightarrow> 's \<Rightarrow> unit result \<times> PgTransaction \<times> 's" where
  "tx_rollback query t s =
     (if \<not> tx_begun t \<or> tx_finished t then (Inl AdapterError, t, s)
      else case query ''ROLLBACK'' [] s of (result, s) \<Rightarrow> (drop_value result, t\<lparr>tx_finished := True\<rparr>, s))"

text \<open>The destructor, given what marking the connection does.\<close>

definition tx_destroy :: "('s \<Rightarrow> 's) \<Rightarrow> PgTransaction \<Rightarrow> 's \<Rightarrow> 's" where
  "tx_destroy poison t s = (if tx_begun t \<and> \<not> tx_finished t then poison s else s)"

section \<open>The pool (pg\_pool.cpp)\<close>

record PoolStats =
  ps_acquired :: u64
  ps_released :: u64
  ps_created :: u64
  ps_destroyed :: u64
  ps_failed :: u64

record 'q PgPool =
  pp_max_size :: u64
  pp_max_idle_time :: int
  pp_idle :: "(nat \<times> int) list"
  pp_total :: u64
  pp_active :: u64
  pp_stats :: PoolStats
  pp_queries :: u64
  pp_heap :: "nat \<rightharpoonup> 'q PgConnection"
  pp_next :: nat

definition PgPool_new :: "u64 \<Rightarrow> int \<Rightarrow> 'q PgPool" where
  "PgPool_new pool_size_per_core max_idle_time =
     \<lparr>pp_max_size = pool_size_per_core * 2, pp_max_idle_time = max_idle_time, pp_idle = [], pp_total = 0, pp_active = 0,
      pp_stats = \<lparr>ps_acquired = 0, ps_released = 0, ps_created = 0, ps_destroyed = 0, ps_failed = 0\<rparr>, pp_queries = 0,
      pp_heap = Map.empty, pp_next = 0\<rparr>"

definition upd_stats :: "(PoolStats \<Rightarrow> PoolStats) \<Rightarrow> 'q PgPool \<Rightarrow> 'q PgPool" where
  "upd_stats f p = p\<lparr>pp_stats := f (pp_stats p)\<rparr>"

definition do_create_connection :: "'q PgPool \<Rightarrow> nat \<times> 'q PgPool" where
  "do_create_connection p = (pp_next p, p\<lparr>pp_heap := (pp_heap p)(pp_next p \<mapsto> PgConnection_new), pp_next := pp_next p + 1\<rparr>)"

text \<open>Closing and destroying the object.\<close>

definition do_destroy_connection :: "nat \<Rightarrow> 'q PgPool \<Rightarrow> 'q PgPool" where
  "do_destroy_connection c p = p\<lparr>pp_heap := (pp_heap p)(c := None)\<rparr>"

definition do_validate :: "'q libpq \<Rightarrow> nat \<Rightarrow> 'q PgPool \<Rightarrow> bool" where
  "do_validate pq c p = (case pp_heap p c of None \<Rightarrow> False | Some conn \<Rightarrow> conn_is_valid pq conn)"

text \<open>An idle connection is destroyed and no longer counted.\<close>

definition drop_idle :: "nat \<Rightarrow> 'q PgPool \<Rightarrow> 'q PgPool" where
  "drop_idle c p =
     upd_stats (\<lambda>st. st\<lparr>ps_destroyed := ps_destroyed st + 1\<rparr>) (do_destroy_connection c p\<lparr>pp_total := pp_total p - 1\<rparr>)"

definition create_fresh :: "'q PgPool \<Rightarrow> nat result \<times> 'q PgPool" where
  "create_fresh p =
     (if pp_total p < pp_max_size p
      then let (c, p) = do_create_connection p in
           (Inr c, upd_stats (\<lambda>st. st\<lparr>ps_created := ps_created st + 1, ps_acquired := ps_acquired st + 1\<rparr>)
              (p\<lparr>pp_total := pp_total p + 1, pp_active := pp_active p + 1\<rparr>))
      else (Inl AdapterError, upd_stats (\<lambda>st. st\<lparr>ps_failed := ps_failed st + 1\<rparr>) p))"

fun acquire_from :: "'q libpq \<Rightarrow> (nat \<times> int) list \<Rightarrow> 'q PgPool \<Rightarrow> nat result \<times> 'q PgPool" where
  "acquire_from pq [] p = create_fresh p"
| "acquire_from pq ((c, t) # rest) p =
     (let p = p\<lparr>pp_idle := rest\<rparr> in
      if do_validate pq c p
      then (Inr c, upd_stats (\<lambda>st. st\<lparr>ps_acquired := ps_acquired st + 1\<rparr>) (p\<lparr>pp_active := pp_active p + 1\<rparr>))
      else acquire_from pq rest (drop_idle c p))"

definition pool_acquire :: "'q libpq \<Rightarrow> 'q PgPool \<Rightarrow> nat result \<times> 'q PgPool" where
  "pool_acquire pq p = acquire_from pq (pp_idle p) p"

definition pool_discard :: "nat \<Rightarrow> 'q PgPool \<Rightarrow> 'q PgPool" where
  "pool_discard c p =
     (let p = do_destroy_connection c p;
          p = (if 0 < pp_active p then p\<lparr>pp_active := pp_active p - 1\<rparr> else p);
          p = (if 0 < pp_total p then p\<lparr>pp_total := pp_total p - 1\<rparr> else p)
      in upd_stats (\<lambda>st. st\<lparr>ps_destroyed := ps_destroyed st + 1\<rparr>) p)"

definition conn_poisoned :: "nat \<Rightarrow> 'q PgPool \<Rightarrow> bool" where
  "conn_poisoned c p = (case pp_heap p c of None \<Rightarrow> False | Some conn \<Rightarrow> pc_poisoned conn)"

definition pool_release :: "int \<Rightarrow> nat \<Rightarrow> 'q PgPool \<Rightarrow> 'q PgPool" where
  "pool_release now c p =
     (if conn_poisoned c p then pool_discard c p
      else upd_stats (\<lambda>st. st\<lparr>ps_released := ps_released st + 1\<rparr>)
             (p\<lparr>pp_active := pp_active p - 1, pp_idle := pp_idle p @ [(c, now)]\<rparr>))"

fun shrink_from :: "int \<Rightarrow> (nat \<times> int) list \<Rightarrow> 'q PgPool \<Rightarrow> 'q PgPool" where
  "shrink_from now [] p = p"
| "shrink_from now ((c, t) # rest) p =
     (if now - t < pp_max_idle_time p then p else shrink_from now rest (drop_idle c (p\<lparr>pp_idle := rest\<rparr>)))"

definition shrink_idle :: "int \<Rightarrow> 'q PgPool \<Rightarrow> 'q PgPool" where
  "shrink_idle now p = shrink_from now (pp_idle p) p"

text \<open>\<open>count\<close> is the number of entries still to check: those pushed back are not checked again.\<close>

fun health_check :: "'q libpq \<Rightarrow> int \<Rightarrow> nat \<Rightarrow> 'q PgPool \<Rightarrow> 'q PgPool" where
  "health_check pq now 0 p = p"
| "health_check pq now (Suc count) p =
     (case pp_idle p of
        [] \<Rightarrow> p
      | (c, t) # rest \<Rightarrow>
          let p = p\<lparr>pp_idle := rest\<rparr> in
          health_check pq now count
            (if do_validate pq c p then p\<lparr>pp_idle := pp_idle p @ [(c, now)]\<rparr> else drop_idle c p))"

definition health_check_tick :: "'q libpq \<Rightarrow> int \<Rightarrow> 'q PgPool \<Rightarrow> 'q PgPool" where
  "health_check_tick pq now p = health_check pq now (length (pp_idle p)) p"

fun close_from :: "(nat \<times> int) list \<Rightarrow> 'q PgPool \<Rightarrow> 'q PgPool" where
  "close_from [] p = p"
| "close_from ((c, t) # rest) p = close_from rest (drop_idle c (p\<lparr>pp_idle := rest\<rparr>))"

definition close_all :: "'q PgPool \<Rightarrow> 'q PgPool" where
  "close_all p = close_from (pp_idle p) p"

section \<open>Waiting operations\<close>

definition conn_at :: "nat \<Rightarrow> 'q PgPool \<Rightarrow> 'q PgConnection" where
  "conn_at c p = (case pp_heap p c of Some conn \<Rightarrow> conn | None \<Rightarrow> PgConnection_new)"

definition set_conn :: "nat \<Rightarrow> 'q PgConnection \<Rightarrow> 'q PgPool \<Rightarrow> 'q PgPool" where
  "set_conn c conn p = p\<lparr>pp_heap := (pp_heap p)(c \<mapsto> conn)\<rparr>"

definition acquire_connected ::
  "'q libpq \<Rightarrow> 'q option \<Rightarrow> ('q PgPool \<Rightarrow> 'q PgPool) \<Rightarrow> 'q PgPool \<Rightarrow> (nat result \<times> 'q PgPool) option" where
  "acquire_connected pq start others p =
     (case pool_acquire pq p of
        (Inl e, p) \<Rightarrow> Some (Inl e, p)
      | (Inr c, p) \<Rightarrow>
          if pc_connected (conn_at c p) then Some (Inr c, p)
          else (case connect_async pq start (conn_at c p) of
                  None \<Rightarrow> None
                | Some (r, conn) \<Rightarrow>
                    let p = set_conn c conn (others p) in
                    case r of Inl e \<Rightarrow> Some (Inl e, pool_discard c p) | Inr u \<Rightarrow> Some (Inr c, p)))"

text \<open>
  The counter \<open>i\<close> is a 32-bit word compared with \<open>\<le>\<close>, so the loop ends only if the limit is below the largest word;
  \<open>others n\<close> is what other coroutines do in the \<open>n\<close>-th pause.
\<close>

partial_function (option) retry_acquire ::
  "'q libpq \<Rightarrow> u32 \<Rightarrow> (nat \<Rightarrow> 'q PgPool \<Rightarrow> 'q PgPool) \<Rightarrow> nat \<Rightarrow> u32 \<Rightarrow> 'q PgPool \<Rightarrow> (nat result \<times> 'q PgPool) option" where
  "retry_acquire pq max_retries others n i p =
     (if \<not> i \<le> max_retries then Some (Inl PoolExhausted, p)
      else case pool_acquire pq p of
             (Inr c, p) \<Rightarrow> Some (Inr c, p)
           | (Inl e, p) \<Rightarrow> retry_acquire pq max_retries others (n + 1) (i + 1) (if i < max_retries then others n p else p))"

definition acquire_with_retry ::
  "'q libpq \<Rightarrow> u32 \<Rightarrow> (nat \<Rightarrow> 'q PgPool \<Rightarrow> 'q PgPool) \<Rightarrow> 'q PgPool \<Rightarrow> (nat result \<times> 'q PgPool) option" where
  "acquire_with_retry pq max_acquire_retries others p = retry_acquire pq max_acquire_retries others 0 0 p"

text \<open>A connected object that the pool does not count.\<close>

definition create_connected :: "'q libpq \<Rightarrow> 'q option \<Rightarrow> ('q PgConnection result) option" where
  "create_connected pq start =
     (case connect_async pq start PgConnection_new of
        None \<Rightarrow> None
      | Some (Inl e, conn) \<Rightarrow> Some (Inl e)
      | Some (Inr u, conn) \<Rightarrow> Some (Inr conn))"

text \<open>\<open>PgAdapter::query\<close> with parameters; the other three differ in what they run on the connection.\<close>

definition with_connection ::
  "'q libpq \<Rightarrow> 'q option \<Rightarrow> ('q PgPool \<Rightarrow> 'q PgPool) \<Rightarrow> ('q PgPool \<Rightarrow> 'q PgPool) \<Rightarrow> int \<Rightarrow>
   ('q PgConnection \<Rightarrow> ('r result \<times> 'q PgConnection) option) \<Rightarrow> 'q PgPool \<Rightarrow> ('r result \<times> 'q PgPool) option" where
  "with_connection pq start others others' now body p =
     (case acquire_connected pq start others p of
        None \<Rightarrow> None
      | Some (Inl e, p) \<Rightarrow> Some (Inl e, p)
      | Some (Inr c, p) \<Rightarrow>
          let p = p\<lparr>pp_queries := pp_queries p + 1\<rparr> in
          case body (conn_at c p) of
            None \<Rightarrow> None
          | Some (result, conn) \<Rightarrow>
              let p = set_conn c conn (others' p) in
              Some (result, if isl result then pool_discard c p else pool_release now c p))"

definition adapter_query where
  "adapter_query pq start others others' now sql params = with_connection pq start others others' now (query_params_async pq sql params)"

definition adapter_execute where
  "adapter_execute pq start others others' now sql params = with_connection pq start others others' now (execute_params_async pq sql params)"

section \<open>Accounting\<close>

text \<open>
  What holders of connections do with a pool: the held connections are kept beside it. A held connection may be
  used in any way; only a held one is given back.
\<close>

datatype 'q pool_op = Acquire | Release nat int | Discard nat | Use nat "'q PgConnection" | Shrink int | Health int | Close

fun pool_step :: "'q libpq \<Rightarrow> 'q pool_op \<Rightarrow> nat list \<times> 'q PgPool \<Rightarrow> nat list \<times> 'q PgPool" where
  "pool_step pq Acquire (held, p) = (case pool_acquire pq p of (Inr c, p) \<Rightarrow> (c # held, p) | (Inl e, p) \<Rightarrow> (held, p))"
| "pool_step pq (Release c now) (held, p) = (if c \<in> set held then (remove1 c held, pool_release now c p) else (held, p))"
| "pool_step pq (Discard c) (held, p) = (if c \<in> set held then (remove1 c held, pool_discard c p) else (held, p))"
| "pool_step pq (Use c conn) (held, p) = (held, if c \<in> set held then set_conn c conn p else p)"
| "pool_step pq (Shrink now) (held, p) = (held, shrink_idle now p)"
| "pool_step pq (Health now) (held, p) = (held, health_check_tick pq now p)"
| "pool_step pq Close (held, p) = (held, close_all p)"

definition pool_ok :: "nat list \<Rightarrow> 'q PgPool \<Rightarrow> bool" where
  "pool_ok held p \<longleftrightarrow>
     unat (pp_active p) = length held \<and> unat (pp_total p) = length held + length (pp_idle p) \<and>
     pp_total p \<le> pp_max_size p \<and> distinct (held @ map fst (pp_idle p)) \<and>
     dom (pp_heap p) = set (held @ map fst (pp_idle p)) \<and> (\<forall>c \<in> dom (pp_heap p). c < pp_next p)"

lemma upd_stats_ok [simp]: "pool_ok held (upd_stats f p) = pool_ok held p"
  by (simp add: pool_ok_def upd_stats_def)

lemma unat_dec: "0 < unat (x :: u64) \<Longrightarrow> unat (x - 1) = unat x - 1"
  by (simp add: unat_diff_le)

lemma unat_inc: "x < (y :: u64) \<Longrightarrow> unat (x + 1) = unat x + 1"
  using unat_lt2p [of y] by (simp add: word_less_nat_alt unat_word_ariths)

lemma inc_le: "x < (y :: u64) \<Longrightarrow> x + 1 \<le> y"
  using unat_inc [of x y] by (simp add: word_le_nat_alt word_less_nat_alt)

lemma drop_idle_ok:
  assumes "pool_ok held p" "pp_idle p = (c, t) # rest"
  shows "pool_ok held (drop_idle c (p\<lparr>pp_idle := rest\<rparr>))"
proof -
  have "0 < unat (pp_total p)" using assms by (simp add: pool_ok_def)
  then have u: "unat (pp_total p - 1) = length held + length rest" "pp_total p - 1 \<le> pp_total p"
    using assms by (simp_all add: pool_ok_def unat_dec word_le_nat_alt)
  then show ?thesis
    using assms by (auto simp: pool_ok_def drop_idle_def do_destroy_connection_def upd_stats_def intro: order_trans)
qed

lemma acquire_ok:
  assumes "pool_ok held p" "pp_idle p = idle"
  shows "case acquire_from pq idle p of (Inr c, p') \<Rightarrow> pool_ok (c # held) p' \<and> c \<notin> set held | (Inl e, p') \<Rightarrow> pool_ok held p'"
  using assms
proof (induction pq idle p rule: acquire_from.induct)
  case (1 pq p)
  have n: "pp_next p \<notin> dom (pp_heap p)" using 1 by (auto simp: pool_ok_def)
  show ?case
  proof (cases "pp_total p < pp_max_size p")
    case True
    have "length held < 2 ^ 64 - 1"
      using True 1 unat_lt2p [of "pp_max_size p"] by (simp add: pool_ok_def word_less_nat_alt)
    then have "unat (pp_active p + 1) = length held + 1"
      using 1 by (simp add: pool_ok_def unat_add_small)
    then show ?thesis
      using 1 n True unat_inc [OF True] inc_le [OF True]
      by (auto simp: create_fresh_def do_create_connection_def pool_ok_def upd_stats_def intro: less_SucI)
  qed (use 1 in \<open>simp add: create_fresh_def\<close>)
next
  case (2 pq c t rest p)
  show ?case
  proof (cases "do_validate pq c (p\<lparr>pp_idle := rest\<rparr>)")
    case True
    have "length held + 1 \<le> unat (pp_total p)" using 2 by (simp add: pool_ok_def)
    then have "unat (pp_active p + 1) = length held + 1"
      using 2 unat_lt2p [of "pp_total p"] by (simp add: pool_ok_def unat_add_small)
    then show ?thesis using 2 True by (auto simp: pool_ok_def upd_stats_def Let_def)
  next
    case False
    then show ?thesis using 2 drop_idle_ok [OF 2(2,3)] by (auto simp: drop_idle_def upd_stats_def do_destroy_connection_def)
  qed
qed

lemma discard_ok:
  assumes "pool_ok held p" "c \<in> set held"
  shows "pool_ok (remove1 c held) (pool_discard c p)"
proof -
  obtain m where n: "length held = Suc m" using assms(2) by (cases held) auto
  then have a: "0 < unat (pp_active p)" "0 < unat (pp_total p)" using assms(1) by (simp_all add: pool_ok_def)
  have "length (remove1 c held) = m" using assms(2) n by (simp add: length_remove1)
  moreover have "pp_total p - 1 \<le> pp_total p" using a by (simp add: unat_dec word_le_nat_alt)
  moreover have "0 < pp_active p" "0 < pp_total p" using a by (simp_all add: word_less_nat_alt)
  ultimately show ?thesis
    using assms a n
    by (auto simp: pool_ok_def pool_discard_def do_destroy_connection_def upd_stats_def unat_dec Let_def intro: order_trans)
qed

lemma release_ok:
  assumes "pool_ok held p" "c \<in> set held"
  shows "pool_ok (remove1 c held) (pool_release now c p)"
proof (cases "conn_poisoned c p")
  case True
  then show ?thesis using discard_ok [OF assms] by (simp add: pool_release_def)
next
  case False
  obtain m where n: "length held = Suc m" using assms(2) by (cases held) auto
  then have "0 < unat (pp_active p)" using assms(1) by (simp add: pool_ok_def)
  moreover have "length (remove1 c held) = m" using assms(2) n by (simp add: length_remove1)
  ultimately show ?thesis
    using assms n False by (auto simp: pool_ok_def pool_release_def upd_stats_def unat_dec)
qed

lemma drop_idle_idle [simp]: "pp_idle (drop_idle c p) = pp_idle p"
  by (simp add: drop_idle_def upd_stats_def do_destroy_connection_def)

lemma shrink_ok: "pool_ok held p \<Longrightarrow> pp_idle p = idle \<Longrightarrow> pool_ok held (shrink_from now idle p)"
proof (induction now idle p rule: shrink_from.induct)
  case (2 now c t rest p)
  then show ?case using drop_idle_ok [OF 2(2,3)] by simp
qed simp

lemma close_ok: "pool_ok held p \<Longrightarrow> pp_idle p = idle \<Longrightarrow> pool_ok held (close_from idle p) \<and> pp_idle (close_from idle p) = []"
proof (induction idle p rule: close_from.induct)
  case (2 c t rest p)
  then show ?case using drop_idle_ok [OF 2(2,3)] by simp
qed simp

lemma rotate_ok:
  "pool_ok held p \<Longrightarrow> pp_idle p = (c, t) # rest \<Longrightarrow> pool_ok held (p\<lparr>pp_idle := rest @ [(c, now)]\<rparr>)"
  by (auto simp: pool_ok_def)

lemma health_ok: "pool_ok held p \<Longrightarrow> pool_ok held (health_check pq now n p)"
proof (induction n arbitrary: p)
  case (Suc n)
  show ?case
  proof (cases "pp_idle p")
    case (Cons e rest)
    obtain c t where e: "e = (c, t)" by (cases e)
    show ?thesis
      using Suc Cons e drop_idle_ok [OF Suc(2), of c t rest] rotate_ok [OF Suc(2), of c t rest now] by (simp add: Let_def)
  qed (use Suc in simp)
qed simp

lemma set_conn_ok:
  assumes "pool_ok held p" "c \<in> set held"
  shows "pool_ok held (set_conn c conn p)"
proof -
  have "insert c (dom (pp_heap p)) = dom (pp_heap p)" using assms by (auto simp: pool_ok_def)
  then show ?thesis using assms(1) by (simp add: pool_ok_def set_conn_def)
qed

lemma pool_step_ok:
  assumes "pool_ok held p" "pool_step pq op (held, p) = (held', p')"
  shows "pool_ok held' p'"
proof (cases op)
  case Acquire
  then show ?thesis
    using assms(2) acquire_ok [OF assms(1) refl, of pq] by (auto simp: pool_acquire_def split: prod.splits sum.splits)
next
  case (Use c conn)
  then show ?thesis using assms set_conn_ok by (auto split: if_splits)
qed (use assms discard_ok release_ok shrink_ok [OF _ refl] close_ok [OF _ refl, THEN conjunct1] health_ok in
     \<open>auto simp: shrink_idle_def close_all_def health_check_tick_def split: if_splits\<close>)

lemma pool_new_ok: "pool_ok [] (PgPool_new pool_size idle_time)"
  by (simp add: pool_ok_def PgPool_new_def)

lemma pool_run_ok: "pool_ok held p \<Longrightarrow> case fold (pool_step pq) ops (held, p) of (held', p') \<Rightarrow> pool_ok held' p'"
proof (induction ops arbitrary: held p)
  case (Cons op ops)
  obtain held' p' where s: "pool_step pq op (held, p) = (held', p')" by fastforce
  then show ?case using Cons.IH [OF pool_step_ok [OF Cons.prems s]] by simp
qed simp

lemma drop_idle_max [simp]: "pp_max_size (drop_idle c p) = pp_max_size p"
  by (simp add: drop_idle_def upd_stats_def do_destroy_connection_def)

lemma acquire_from_max: "pp_max_size (snd (acquire_from pq idle p)) = pp_max_size p"
  by (induction pq idle p rule: acquire_from.induct)
     (simp_all add: create_fresh_def do_create_connection_def upd_stats_def Let_def)

lemma shrink_from_max: "pp_max_size (shrink_from now idle p) = pp_max_size p"
  by (induction now idle p rule: shrink_from.induct) simp_all

lemma close_from_max: "pp_max_size (close_from idle p) = pp_max_size p"
  by (induction idle p rule: close_from.induct) simp_all

lemma health_check_max: "pp_max_size (health_check pq now n p) = pp_max_size p"
  by (induction n arbitrary: p) (auto simp: Let_def split: list.split)

lemma pool_step_max: "pp_max_size (snd (pool_step pq op (held, p))) = pp_max_size p"
proof (cases op)
  case Acquire
  then show ?thesis using acquire_from_max [of pq "pp_idle p" p] by (auto simp: pool_acquire_def split: prod.split sum.split)
qed (simp_all add: pool_release_def pool_discard_def upd_stats_def do_destroy_connection_def set_conn_def shrink_idle_def
       health_check_tick_def close_all_def shrink_from_max close_from_max health_check_max Let_def)

lemma pool_run_max: "pp_max_size (snd (fold (pool_step pq) ops (held, p))) = pp_max_size p"
proof (induction ops arbitrary: held p)
  case (Cons op ops)
  then show ?case using pool_step_max [of pq op held p] by (cases "pool_step pq op (held, p)") simp
qed simp

text \<open>
  C23: Whatever sequence of acquires, releases, discards, idle shrinks, health checks and closes runs on a new pool, and
  whatever the holders do to their connections, the counters are exact: the active count is the number of connections
  held, the total is the held and the idle ones together, neither counter wraps, the total never exceeds twice the
  configured size, no connection is both held and idle or handed out twice, and the live connection objects are
  exactly these.
\<close>
theorem pg_pool_accounting:
  "case fold (pool_step pq) ops ([], PgPool_new pool_size idle_time) of (held, p) \<Rightarrow>
     unat (pp_active p) = length held \<and> unat (pp_total p) = length held + length (pp_idle p) \<and>
     pp_total p \<le> pool_size * 2 \<and> distinct (held @ map fst (pp_idle p)) \<and> dom (pp_heap p) = set held \<union> fst ` set (pp_idle p)"
proof -
  obtain held p where r: "fold (pool_step pq) ops ([], PgPool_new pool_size idle_time) = (held, p)" by fastforce
  have "pool_ok held p" using pool_run_ok [OF pool_new_ok, of pq ops pool_size idle_time] by (simp add: r)
  moreover have "pp_max_size p = pool_size * 2"
    using pool_run_max [of pq ops "[]" "PgPool_new pool_size idle_time"] unfolding r by (simp add: PgPool_new_def)
  ultimately show ?thesis by (simp add: r pool_ok_def)
qed

section \<open>Borrowing a connection\<close>

lemma queries_ok [simp]: "pool_ok held (p\<lparr>pp_queries := n\<rparr>) = pool_ok held p"
  by (simp add: pool_ok_def)

lemma acquire_connected_ok:
  assumes "pool_ok held p" "\<And>h q. pool_ok h q \<Longrightarrow> pool_ok h (others q)"
    and "acquire_connected pq start others p = Some (r, p')"
  shows "case r of Inr c \<Rightarrow> pool_ok (c # held) p' | Inl e \<Rightarrow> pool_ok held p'"
proof -
  obtain a q where a: "pool_acquire pq p = (a, q)" by fastforce
  have ok: "case a of Inr c \<Rightarrow> pool_ok (c # held) q | Inl e \<Rightarrow> pool_ok held q"
    using acquire_ok [OF assms(1) refl, of pq] a by (auto simp: pool_acquire_def split: sum.splits)
  show ?thesis
  proof (cases a)
    case (Inl e)
    then show ?thesis using assms(3) a ok by (auto simp: acquire_connected_def)
  next
    case (Inr c)
    then have s: "pool_ok (c # held) (set_conn c conn (others q))" for conn using ok assms(2) by (simp add: set_conn_ok)
    have d: "pool_ok held (pool_discard c (set_conn c conn (others q)))" for conn
      using discard_ok [OF s, of c conn] by simp
    show ?thesis using assms(3) a ok Inr s d by (auto simp: acquire_connected_def Let_def split: if_splits option.splits sum.splits)
  qed
qed

text \<open>
  C24: A query or statement through the adapter gives its connection back on every path, the failed connect and the
  failed query included: whoever held connections before holds the same ones after, the counters still exact, provided
  what other coroutines do while it waits keeps the pool in order.
\<close>
theorem adapter_returns_connection:
  assumes "pool_ok held p" "\<And>h q. pool_ok h q \<Longrightarrow> pool_ok h (others q)" "\<And>h q. pool_ok h q \<Longrightarrow> pool_ok h (others' q)"
    and "with_connection pq start others others' now body p = Some (r, p')"
  shows "pool_ok held p'"
proof -
  obtain a q where a: "acquire_connected pq start others p = Some (a, q)"
    using assms(4) by (auto simp: with_connection_def split: option.splits)
  note ok = acquire_connected_ok [OF assms(1,2) a]
  show ?thesis
  proof (cases a)
    case (Inl e)
    then show ?thesis using assms(4) a ok by (simp add: with_connection_def)
  next
    case (Inr c)
    then have s: "pool_ok (c # held) (set_conn c conn (others' (q\<lparr>pp_queries := n\<rparr>)))" for conn n
      using ok assms(3) by (simp add: set_conn_ok)
    have d: "pool_ok held (pool_discard c (set_conn c conn (others' (q\<lparr>pp_queries := n\<rparr>))))"
      "pool_ok held (pool_release now c (set_conn c conn (others' (q\<lparr>pp_queries := n\<rparr>))))" for conn n
      using discard_ok [OF s, of c conn n] release_ok [OF s, of c now conn n] by simp_all
    show ?thesis
      using assms(4) a Inr d
      by (auto simp: with_connection_def Let_def split: option.splits)
  qed
qed

section \<open>Retries end\<close>

lemma retry_acquire_returns:
  assumes "max_retries < 0xFFFFFFFF" "i \<le> max_retries + 1" "unat (max_retries + 1 - i) = k"
  shows "\<exists>r p'. retry_acquire pq max_retries others n i p = Some (r, p') \<and> (isl r \<longrightarrow> r = Inl PoolExhausted)"
  using assms
proof (induction k arbitrary: n i p)
  case 0
  then have "i = max_retries + 1" by (simp add: unat_eq_0)
  then have "\<not> i \<le> max_retries" using 0(1) by (simp add: word_le_nat_alt word_less_nat_alt unat_word_ariths)
  then show ?case by (subst retry_acquire.simps) simp
next
  case (Suc k)
  have lt: "unat max_retries < 2 ^ 32 - 1" using Suc(2) by (simp add: word_less_nat_alt)
  then have m: "unat (max_retries + 1) = unat max_retries + 1" by (simp add: unat_word_ariths)
  then have i: "i \<le> max_retries" "unat i + k = unat max_retries"
    using Suc(3,4) by (simp_all add: word_le_nat_alt unat_sub)
  then have j: "unat (i + 1) = unat i + 1" using lt by (simp add: unat_word_ariths)
  have "\<exists>r p'. retry_acquire pq max_retries others (n + 1) (i + 1) q = Some (r, p') \<and> (isl r \<longrightarrow> r = Inl PoolExhausted)" for q
    using Suc(2) i j m by (intro Suc.IH) (simp_all add: word_le_nat_alt unat_sub)
  then show ?case
    using i(1) by (subst retry_acquire.simps) (auto split: prod.splits sum.splits)
qed

lemma acquire_with_retry_returns:
  "max_acquire_retries < 0xFFFFFFFF \<Longrightarrow>
   \<exists>r p'. acquire_with_retry pq max_acquire_retries others p = Some (r, p') \<and> (isl r \<longrightarrow> r = Inl PoolExhausted)"
  unfolding acquire_with_retry_def by (rule retry_acquire_returns) simp_all

section \<open>Transactions and the pool\<close>

definition poison_conn :: "nat \<Rightarrow> 'q PgPool \<Rightarrow> 'q PgPool" where
  "poison_conn c p = set_conn c (mark_poisoned (conn_at c p)) p"

text \<open>
  C25: A connection whose transaction was begun and neither committed nor rolled back is never used again: the
  transaction's destructor poisons it, and releasing it then destroys the object and leaves the idle list as it was. If
  the transaction did finish, a connection in good order goes back to the idle list.
\<close>
theorem open_transaction_not_reused:
  assumes "pp_heap p c = Some conn" "\<not> pc_poisoned conn"
  shows "let p' = pool_release now c (tx_destroy (poison_conn c) t p) in
         if tx_begun t \<and> \<not> tx_finished t then pp_heap p' c = None \<and> pp_idle p' = pp_idle p
         else pp_heap p' c = Some conn \<and> pp_idle p' = pp_idle p @ [(c, now)]"
  using assms
  by (auto simp: tx_destroy_def poison_conn_def set_conn_def conn_at_def mark_poisoned_def pool_release_def conn_poisoned_def
        pool_discard_def do_destroy_connection_def upd_stats_def Let_def)

definition sample_conn :: "(PGresult list \<times> nat) PgConnection" where
  "sample_conn = PgConnection_new\<lparr>pc_conn := Some ([], 0), pc_connected := True\<rparr>"

definition sample_pool :: "(PGresult list \<times> nat) PgPool" where
  "sample_pool =
     (PgPool_new 2 120)\<lparr>pp_idle := [(0, 5)], pp_total := 1, pp_heap := [0 \<mapsto> sample_conn], pp_next := 1\<rparr>"

lemma sample_pool_ok: "pool_ok [] sample_pool"
  by (simp add: pool_ok_def sample_pool_def PgPool_new_def)

theorem open_transaction_not_reused_witness:
  "pp_heap (pool_release 7 0 (tx_destroy (poison_conn 0) \<lparr>tx_begun = True, tx_finished = False\<rparr> sample_pool)) 0 = None"
  using open_transaction_not_reused [of sample_pool 0 sample_conn 7 "\<lparr>tx_begun = True, tx_finished = False\<rparr>"]
  by (simp add: sample_pool_def sample_conn_def PgConnection_new_def Let_def)

theorem adapter_returns_connection_witness:
  "case adapter_query (sample_libpq\<lparr>pq_send := \<lambda>sql ps q. (False, q)\<rparr>) None id id 9 ''SELECT 1'' [] sample_pool of
     None \<Rightarrow> False | Some (r, p') \<Rightarrow> isl r \<and> pool_ok [] p'"
proof -
  obtain r p' where r: "adapter_query (sample_libpq\<lparr>pq_send := \<lambda>sql ps q. (False, q)\<rparr>) None id id 9 ''SELECT 1'' [] sample_pool = Some (r, p')"
    "isl r"
    by (simp add: adapter_query_def with_connection_def acquire_connected_def pool_acquire_def sample_pool_def PgPool_new_def
        do_validate_def conn_is_valid_def sample_conn_def sample_libpq_def PgConnection_new_def upd_stats_def conn_at_def
        query_params_async_def send_and_collect_def Let_def)
  show ?thesis
    using adapter_returns_connection [OF sample_pool_ok _ _ r(1) [unfolded adapter_query_def]] r by simp
qed

end
