(* ===== verification/Auth_Service.thy ===== *)
theory Auth_Service
  imports Auth_Tokens Pg_Adapter Chat_Service
begin

text \<open>
  \<open>apex_services/auth-svc/src/auth_service.cpp\<close>: login, logout and the rotation of refresh tokens. PostgreSQL, Redis,
  Kafka, FlatBuffers, OpenSSL, jwt-cpp and the clock are parameters that act on an environment, in which other
  requests may run meanwhile. \<open>aw_log\<close> records the calls to PostgreSQL and Redis and what happens to connections,
  \<open>aw_replies\<close> the responses. \<open>UndefinedBehaviour\<close> in the log is a read outside of a stored hash.
\<close>

section \<open>Configuration and messages\<close>

record AuthConfig =
  ac_jwt_private_key_path :: string
  ac_jwt_public_key_path :: string
  ac_jwt_issuer :: string
  ac_access_token_ttl :: int
  ac_refresh_token_ttl :: int
  ac_request_topic :: string
  ac_response_topic :: string
  ac_redis_session_prefix :: string
  ac_redis_blacklist_prefix :: string
  ac_bcrypt_work_factor :: u32
  ac_session_ttl :: int

definition AuthConfig_default :: AuthConfig where
  "AuthConfig_default =
     \<lparr>ac_jwt_private_key_path = ''keys/auth_rs256.pem'', ac_jwt_public_key_path = ''keys/auth_rs256_pub.pem'',
      ac_jwt_issuer = ''apex-auth'', ac_access_token_ttl = 900, ac_refresh_token_ttl = 604800,
      ac_request_topic = ''auth.requests'', ac_response_topic = ''auth.responses'',
      ac_redis_session_prefix = ''auth:session:'', ac_redis_blacklist_prefix = ''jwt:blacklist:'',
      ac_bcrypt_work_factor = 12, ac_session_ttl = 86400\<rparr>"

datatype LoginError = LOGIN_NONE | BAD_CREDENTIALS | ACCOUNT_LOCKED | LOGIN_INTERNAL_ERROR
datatype LogoutError = LOGOUT_NONE | INVALID_TOKEN | LOGOUT_INTERNAL_ERROR
datatype RefreshTokenError = REFRESH_NONE | TOKEN_EXPIRED | TOKEN_REVOKED | TOKEN_INVALID | REFRESH_INTERNAL_ERROR

record LoginRequest =
  lq_email :: "string option"
  lq_password :: "string option"

datatype auth_fbs =
    LoginResponse LoginError "string option" "string option" u64 u32
  | LogoutResponse LogoutError
  | RefreshTokenResponse RefreshTokenError "string option" u32 "string option"

definition LOGIN_RESPONSE :: u32 where "LOGIN_RESPONSE = 1001"
definition LOGOUT_RESPONSE :: u32 where "LOGOUT_RESPONSE = 1003"
definition REFRESH_TOKEN_RESPONSE :: u32 where "REFRESH_TOKEN_RESPONSE = 1005"
definition source_AUTH :: u16 where "source_AUTH = 1"

section \<open>The service and what it uses\<close>

text \<open>The requests with one field are that field. A pool hands out connections by number.\<close>

record ('e, 'd) auth_deps =
  ad_config :: AuthConfig
  ad_jwt_manager :: JwtManager
  ad_jwt :: "'d jwt_cpp"
  ad_query :: "string \<Rightarrow> string list \<Rightarrow> 'e \<Rightarrow> PgResult result \<times> 'e"
  ad_execute :: "string \<Rightarrow> string list \<Rightarrow> 'e \<Rightarrow> int result \<times> 'e"
  ad_acquire :: "'e \<Rightarrow> nat result \<times> 'e"
  ad_conn_query :: "nat \<Rightarrow> string \<Rightarrow> string list \<Rightarrow> 'e \<Rightarrow> PgResult result \<times> 'e"
  ad_release :: "nat \<Rightarrow> 'e \<Rightarrow> 'e"
  ad_discard :: "nat \<Rightarrow> 'e \<Rightarrow> 'e"
  ad_mark_poisoned :: "nat \<Rightarrow> 'e \<Rightarrow> 'e"
  ad_redis :: "'e redis_command"
  ad_produce :: "string \<Rightarrow> string \<Rightarrow> bytes \<Rightarrow> 'e \<Rightarrow> unit result \<times> 'e"
  ad_sha256 :: "string \<Rightarrow> bytes"
  ad_random :: "nat \<Rightarrow> 'e \<Rightarrow> bytes option \<times> 'e"
  ad_now :: "'e \<Rightarrow> int"
  ad_now_ms :: "'e \<Rightarrow> u64"
  ad_fbs :: "auth_fbs \<Rightarrow> bytes"
  ad_parse_login :: "bytes \<Rightarrow> LoginRequest option"
  ad_parse_logout :: "bytes \<Rightarrow> string option option"
  ad_parse_refresh :: "bytes \<Rightarrow> string option option"

datatype auth_event =
    Queried string "string list"
  | Executed string "string list"
  | Acquired nat
  | Ran nat string "string list" bool
  | Released nat
  | Discarded nat
  | Poisoned nat
  | Commanded "string list"
  | UndefinedBehaviour

record auth_reply =
  ar_topic :: string
  ar_msg_id :: u32
  ar_corr_id :: u64
  ar_core_id :: u16
  ar_session_id :: u64
  ar_message :: auth_fbs

record 'e auth =
  aw_env :: 'e
  aw_replies :: "auth_reply list"
  aw_log :: "auth_event list"

definition auth_log :: "auth_event \<Rightarrow> 'e auth \<Rightarrow> 'e auth" where
  "auth_log ev w = w\<lparr>aw_log := aw_log w @ [ev]\<rparr>"

text \<open>A call on the environment.\<close>

definition with_env :: "('e \<Rightarrow> 'a \<times> 'e) \<Rightarrow> 'e auth \<Rightarrow> 'a \<times> 'e auth" where
  "with_env f w = (let (r, e) = f (aw_env w) in (r, w\<lparr>aw_env := e\<rparr>))"

definition auth_query :: "('e, 'd) auth_deps \<Rightarrow> string \<Rightarrow> string list \<Rightarrow> 'e auth \<Rightarrow> PgResult result \<times> 'e auth" where
  "auth_query d sql params w = with_env (ad_query d sql params) (auth_log (Queried sql params) w)"

definition auth_execute :: "('e, 'd) auth_deps \<Rightarrow> string \<Rightarrow> string list \<Rightarrow> 'e auth \<Rightarrow> int result \<times> 'e auth" where
  "auth_execute d sql params w = with_env (ad_execute d sql params) (auth_log (Executed sql params) w)"

definition auth_acquire :: "('e, 'd) auth_deps \<Rightarrow> 'e auth \<Rightarrow> nat result \<times> 'e auth" where
  "auth_acquire d w =
     (case with_env (ad_acquire d) w of (Inl e, w) \<Rightarrow> (Inl e, w) | (Inr c, w) \<Rightarrow> (Inr c, auth_log (Acquired c) w))"

definition auth_conn :: "('e, 'd) auth_deps \<Rightarrow> nat \<Rightarrow> string \<Rightarrow> string list \<Rightarrow> 'e auth \<Rightarrow> PgResult result \<times> 'e auth" where
  "auth_conn d c sql params w =
     (let (r, w) = with_env (ad_conn_query d c sql params) w in (r, auth_log (Ran c sql params (\<not> isl r)) w))"

definition auth_release :: "('e, 'd) auth_deps \<Rightarrow> nat \<Rightarrow> 'e auth \<Rightarrow> 'e auth" where
  "auth_release d c w = auth_log (Released c) (w\<lparr>aw_env := ad_release d c (aw_env w)\<rparr>)"

definition auth_discard :: "('e, 'd) auth_deps \<Rightarrow> nat \<Rightarrow> 'e auth \<Rightarrow> 'e auth" where
  "auth_discard d c w = auth_log (Discarded c) (w\<lparr>aw_env := ad_discard d c (aw_env w)\<rparr>)"

definition auth_mark_poisoned :: "('e, 'd) auth_deps \<Rightarrow> nat \<Rightarrow> 'e auth \<Rightarrow> 'e auth" where
  "auth_mark_poisoned d c w = auth_log (Poisoned c) (w\<lparr>aw_env := ad_mark_poisoned d c (aw_env w)\<rparr>)"

text \<open>The Redis commands of the session store act on the state, so that they are recorded.\<close>

definition auth_redis :: "('e, 'd) auth_deps \<Rightarrow> 'e auth redis_command" where
  "auth_redis d cmd w = with_env (ad_redis d cmd) (auth_log (Commanded cmd) w)"

definition session_store :: "('e, 'd) auth_deps \<Rightarrow> SessionStore" where
  "session_store d = \<lparr>st_prefix = ac_redis_session_prefix (ad_config d),
     st_blacklist_prefix = ac_redis_blacklist_prefix (ad_config d), st_ttl = ac_session_ttl (ad_config d)\<rparr>"

definition auth_token :: "('e, 'd) auth_deps \<Rightarrow> u64 \<Rightarrow> string \<Rightarrow> 'e auth \<Rightarrow> string \<times> 'e auth" where
  "auth_token d user_id email w =
     with_env (create_access_token (ad_jwt d) (ad_random d) (ad_now d) (ad_jwt_manager d) user_id email) w"

section \<open>Responses\<close>

definition auth_send_response ::
  "('e, 'd) auth_deps \<Rightarrow> u32 \<Rightarrow> u64 \<Rightarrow> u16 \<Rightarrow> u64 \<Rightarrow> auth_fbs \<Rightarrow> string \<Rightarrow> 'e auth \<Rightarrow> 'e auth" where
  "auth_send_response d msg_id corr_id core_id session_id msg reply_topic w =
     (let envelope_buf = eb_build (ad_now_ms d (aw_env w)) (eb_set_payload (ad_fbs d msg)
            (eb_metadata core_id corr_id source_AUTH session_id 0 (eb_routing msg_id DIRECTION_RESPONSE EnvelopeBuilder_new)));
          target_topic = (if reply_topic = '''' then ac_response_topic (ad_config d) else reply_topic);
          key = u64_str session_id;
          (result, w) = with_env (ad_produce d target_topic key envelope_buf) w
      in w\<lparr>aw_replies := aw_replies w @
           [\<lparr>ar_topic = target_topic, ar_msg_id = msg_id, ar_corr_id = corr_id, ar_core_id = core_id,
             ar_session_id = session_id, ar_message = msg\<rparr>]\<rparr>)"

definition auth_respond :: "('e, 'd) auth_deps \<Rightarrow> u32 \<Rightarrow> KafkaMessageMeta \<Rightarrow> auth_fbs \<Rightarrow> 'e auth \<Rightarrow> unit result \<times> 'e auth" where
  "auth_respond d msg_id meta msg w =
     (Inr (), auth_send_response d msg_id (km_corr_id meta) (km_core_id meta) (km_session_id meta) msg '''' w)"

definition send_login_error :: "('e, 'd) auth_deps \<Rightarrow> KafkaMessageMeta \<Rightarrow> LoginError \<Rightarrow> 'e auth \<Rightarrow> unit result \<times> 'e auth" where
  "send_login_error d meta err w = auth_respond d LOGIN_RESPONSE meta (LoginResponse err None None 0 0) w"

definition send_logout_error :: "('e, 'd) auth_deps \<Rightarrow> KafkaMessageMeta \<Rightarrow> LogoutError \<Rightarrow> 'e auth \<Rightarrow> unit result \<times> 'e auth" where
  "send_logout_error d meta err w = auth_respond d LOGOUT_RESPONSE meta (LogoutResponse err) w"

definition send_refresh_token_error ::
  "('e, 'd) auth_deps \<Rightarrow> KafkaMessageMeta \<Rightarrow> RefreshTokenError \<Rightarrow> 'e auth \<Rightarrow> unit result \<times> 'e auth" where
  "send_refresh_token_error d meta err w =
     auth_respond d REFRESH_TOKEN_RESPONSE meta (RefreshTokenResponse err None 0 None) w"

section \<open>Login\<close>

definition SQL_USER :: string where
  "SQL_USER = ''SELECT id, password_hash, locked_until > NOW() FROM users WHERE email = $1''"

definition SQL_INSERT_LOGIN_TOKEN :: string where
  "SQL_INSERT_LOGIN_TOKEN = ''INSERT INTO refresh_tokens (token_hash, user_id, expires_at) '' @
     ''VALUES ($1, $2, NOW() + make_interval(secs => $3::int))''"

definition session_data :: "('e, 'd) auth_deps \<Rightarrow> u64 \<Rightarrow> string \<Rightarrow> 'e auth \<Rightarrow> string" where
  "session_data d user_id email w =
     ''uid:'' @ u64_str user_id @ ''|email:'' @ email @ ''|created:'' @ int_str (ad_now d (aw_env w) div 10 ^ 9)"

text \<open>The session of the user and the place of the session, whose failures are only logged.\<close>

definition store_session :: "('e, 'd) auth_deps \<Rightarrow> KafkaMessageMeta \<Rightarrow> u64 \<Rightarrow> string \<Rightarrow> 'e auth \<Rightarrow> 'e auth" where
  "store_session d meta user_id email w =
     (let (session_result, w) = session_set (auth_redis d) (session_store d) user_id (session_data d user_id email w) w;
          (user_session_result, w) =
            set_user_session_id (auth_redis d) (session_store d) user_id (km_session_id meta) (km_core_id meta) w
      in w)"

text \<open>Steps 5 to 9, for a user whose password was right.\<close>

definition grant_login :: "('e, 'd) auth_deps \<Rightarrow> KafkaMessageMeta \<Rightarrow> u64 \<Rightarrow> string \<Rightarrow> 'e auth \<Rightarrow> unit result \<times> 'e auth" where
  "grant_login d meta user_id email w =
     (let (access_token, w) = auth_token d user_id email w in
      if access_token = '''' then send_login_error d meta LOGIN_INTERNAL_ERROR w
      else let (refresh_token_result, w) = with_env (generate_secure_token (ad_random d) 32) w in
           case refresh_token_result of
             Inl e \<Rightarrow> send_login_error d meta LOGIN_INTERNAL_ERROR w
           | Inr refresh_token \<Rightarrow>
               let refresh_hash = sha256_hex (ad_sha256 d) refresh_token;
                   (rt_result, w) = auth_execute d SQL_INSERT_LOGIN_TOKEN
                      [refresh_hash, u64_str user_id, int_str (ac_refresh_token_ttl (ad_config d))] w;
                   w = store_session d meta user_id email w
               in auth_respond d LOGIN_RESPONSE meta (LoginResponse LOGIN_NONE (Some access_token) (Some refresh_token)
                    user_id (of_int (ac_access_token_ttl (ad_config d)))) w)"

definition on_login :: "('e, 'd) auth_deps \<Rightarrow> KafkaMessageMeta \<Rightarrow> LoginRequest \<Rightarrow> 'e auth \<Rightarrow> unit result \<times> 'e auth" where
  "on_login d meta req w =
     (case (lq_email req, lq_password req) of
        (Some email, Some password) \<Rightarrow>
          let (user_result, w) = auth_query d SQL_USER [email] w in
          (case user_result of
             Inl e \<Rightarrow> send_login_error d meta LOGIN_INTERNAL_ERROR w
           | Inr pg_res \<Rightarrow>
               if row_count pg_res = 0 then send_login_error d meta BAD_CREDENTIALS w
               else case from_chars_u64 (pg_value pg_res 0 0) of
                      None \<Rightarrow> send_login_error d meta LOGIN_INTERNAL_ERROR w
                    | Some user_id \<Rightarrow>
                        let is_locked = (\<not> is_null pg_res 0 2 \<and> pg_value pg_res 0 2 = ''t'') in
                        if is_locked then send_login_error d meta ACCOUNT_LOCKED w
                        else case hasher_verify password (pg_value pg_res 0 1) of
                               None \<Rightarrow> (Inl HandlerException, auth_log UndefinedBehaviour w)
                             | Some bcrypt_ok \<Rightarrow>
                                 if \<not> bcrypt_ok then send_login_error d meta BAD_CREDENTIALS w
                                 else grant_login d meta user_id email w)
      | _ \<Rightarrow> send_login_error d meta BAD_CREDENTIALS w)"

section \<open>Logout\<close>

definition on_logout :: "('e, 'd) auth_deps \<Rightarrow> KafkaMessageMeta \<Rightarrow> string option \<Rightarrow> 'e auth \<Rightarrow> unit result \<times> 'e auth" where
  "on_logout d meta req w =
     (case req of
        None \<Rightarrow> send_logout_error d meta INVALID_TOKEN w
      | Some access_token \<Rightarrow>
          (case verify_access_token (ad_jwt d) (ad_jwt_manager d) access_token of
             Inl e \<Rightarrow> send_logout_error d meta INVALID_TOKEN w
           | Inr claims \<Rightarrow>
               let remaining = remaining_ttl (ad_jwt d) (ad_now d (aw_env w)) access_token;
                   w = (if 0 < remaining \<and> cl_jti claims \<noteq> ''''
                        then snd (blacklist_token (auth_redis d) (session_store d) (cl_jti claims) remaining w) else w);
                   (remove_result, w) = session_remove (auth_redis d) (session_store d) (cl_user_id claims) w;
                   (remove_user_session, w) = remove_user_session_id (auth_redis d) (cl_user_id claims) w
               in auth_respond d LOGOUT_RESPONSE meta (LogoutResponse LOGOUT_NONE) w))"

section \<open>Rotation of refresh tokens\<close>

definition SQL_LOOKUP_TOKEN :: string where
  "SQL_LOOKUP_TOKEN = ''SELECT user_id, revoked_at, expires_at, token_family '' @ ''FROM refresh_tokens WHERE token_hash = $1''"

definition SQL_REVOKE_FAMILY :: string where
  "SQL_REVOKE_FAMILY = ''UPDATE refresh_tokens SET revoked_at = NOW() '' @ ''WHERE token_family = $1 AND revoked_at IS NULL''"

definition SQL_EXPIRED :: string where
  "SQL_EXPIRED = ''SELECT 1 FROM refresh_tokens WHERE token_hash = $1 AND expires_at < NOW()''"

definition SQL_REVOKE :: string where
  "SQL_REVOKE = ''UPDATE refresh_tokens SET revoked_at = NOW() WHERE token_hash = $1''"

definition SQL_INSERT_TOKEN :: string where
  "SQL_INSERT_TOKEN = ''INSERT INTO refresh_tokens (token_hash, user_id, expires_at, token_family) '' @
     ''VALUES ($1, $2, NOW() + make_interval(secs => $3::int), $4)''"

definition SQL_EMAIL :: string where
  "SQL_EMAIL = ''SELECT email FROM users WHERE id = $1''"

text \<open>The answer to an error inside of the transaction's block, which the transaction's destructor follows.\<close>

definition rotation_failed ::
  "('e, 'd) auth_deps \<Rightarrow> KafkaMessageMeta \<Rightarrow> nat \<Rightarrow> PgTransaction \<Rightarrow> 'e auth \<Rightarrow> unit result \<times> 'e auth" where
  "rotation_failed d meta c txn w =
     (let w = auth_discard d c w;
          (r, w) = send_refresh_token_error d meta REFRESH_INTERNAL_ERROR w
      in (r, tx_destroy (auth_mark_poisoned d c) txn w))"

text \<open>The block of the transaction: \<open>Inl\<close> is an answer, \<open>Inr\<close> goes on.\<close>

definition rotate_token ::
  "('e, 'd) auth_deps \<Rightarrow> KafkaMessageMeta \<Rightarrow> string \<Rightarrow> string list \<Rightarrow> 'e auth \<Rightarrow> (unit result \<times> 'e auth) + 'e auth" where
  "rotate_token d meta token_hash insert_params w =
     (case auth_acquire d w of
        (Inl e, w) \<Rightarrow> Inl (send_refresh_token_error d meta REFRESH_INTERNAL_ERROR w)
      | (Inr c, w) \<Rightarrow>
          (case tx_begin (auth_conn d c) PgTransaction_new w of (begin_result, txn, w) \<Rightarrow>
           if isl begin_result then Inl (rotation_failed d meta c txn w)
           else case tx_execute_params (auth_conn d c) SQL_REVOKE [token_hash] txn w of (revoke_result, w) \<Rightarrow>
           if isl revoke_result
           then (case tx_rollback (auth_conn d c) txn w of (r, txn, w) \<Rightarrow> Inl (rotation_failed d meta c txn w))
           else case tx_execute_params (auth_conn d c) SQL_INSERT_TOKEN insert_params txn w of (insert_result, w) \<Rightarrow>
           if isl insert_result
           then (case tx_rollback (auth_conn d c) txn w of (r, txn, w) \<Rightarrow> Inl (rotation_failed d meta c txn w))
           else case tx_commit (auth_conn d c) txn w of (commit_result, txn, w) \<Rightarrow>
           if isl commit_result then Inl (rotation_failed d meta c txn w)
           else Inr (tx_destroy (auth_mark_poisoned d c) txn (auth_release d c w))))"

definition reuse_detected ::
  "('e, 'd) auth_deps \<Rightarrow> KafkaMessageMeta \<Rightarrow> u64 \<Rightarrow> string \<Rightarrow> 'e auth \<Rightarrow> unit result \<times> 'e auth" where
  "reuse_detected d meta user_id token_family w =
     (let (revoke_all, w) = auth_execute d SQL_REVOKE_FAMILY [token_family] w;
          (remove_result, w) = session_remove (auth_redis d) (session_store d) user_id w;
          (remove_user_sid, w) = remove_user_session_id (auth_redis d) user_id w
      in send_refresh_token_error d meta TOKEN_REVOKED w)"

text \<open>Steps 6 and 7, after the transaction.\<close>

definition grant_refresh ::
  "('e, 'd) auth_deps \<Rightarrow> KafkaMessageMeta \<Rightarrow> u64 \<Rightarrow> string \<Rightarrow> 'e auth \<Rightarrow> unit result \<times> 'e auth" where
  "grant_refresh d meta user_id new_refresh_token w =
     (let (email_result, w) = auth_query d SQL_EMAIL [u64_str user_id] w;
          user_email = (case email_result of Inl e \<Rightarrow> '''' | Inr r \<Rightarrow> if 0 < row_count r then pg_value r 0 0 else '''')
      in if user_email = '''' then send_refresh_token_error d meta REFRESH_INTERNAL_ERROR w
         else let (new_access_token, w) = auth_token d user_id user_email w in
              if new_access_token = '''' then send_refresh_token_error d meta REFRESH_INTERNAL_ERROR w
              else let w = store_session d meta user_id user_email w
                   in auth_respond d REFRESH_TOKEN_RESPONSE meta (RefreshTokenResponse REFRESH_NONE (Some new_access_token)
                        (of_int (ac_access_token_ttl (ad_config d))) (Some new_refresh_token)) w)"

definition on_refresh_token :: "('e, 'd) auth_deps \<Rightarrow> KafkaMessageMeta \<Rightarrow> string option \<Rightarrow> 'e auth \<Rightarrow> unit result \<times> 'e auth" where
  "on_refresh_token d meta req w =
     (case req of
        None \<Rightarrow> send_refresh_token_error d meta TOKEN_INVALID w
      | Some refresh_token_str \<Rightarrow>
          let token_hash = sha256_hex (ad_sha256 d) refresh_token_str;
              (lookup_result, w) = auth_query d SQL_LOOKUP_TOKEN [token_hash] w
          in case lookup_result of
               Inl e \<Rightarrow> send_refresh_token_error d meta REFRESH_INTERNAL_ERROR w
             | Inr pg_res \<Rightarrow>
                 if row_count pg_res = 0 then send_refresh_token_error d meta TOKEN_INVALID w
                 else case from_chars_u64 (pg_value pg_res 0 0) of
                   None \<Rightarrow> send_refresh_token_error d meta REFRESH_INTERNAL_ERROR w
                 | Some user_id \<Rightarrow>
                     let is_revoked = (\<not> is_null pg_res 0 1); token_family = pg_value pg_res 0 3 in
                     if is_revoked then reuse_detected d meta user_id token_family w
                     else let (expiry_result, w) = auth_query d SQL_EXPIRED [token_hash] w in
                          case expiry_result of
                            Inl e \<Rightarrow> send_refresh_token_error d meta REFRESH_INTERNAL_ERROR w
                          | Inr expiry_rows \<Rightarrow>
                              if 0 < row_count expiry_rows then send_refresh_token_error d meta TOKEN_EXPIRED w
                              else let (new_rt_result, w) = with_env (generate_secure_token (ad_random d) 32) w in
                                   case new_rt_result of
                                     Inl e \<Rightarrow> send_refresh_token_error d meta REFRESH_INTERNAL_ERROR w
                                   | Inr new_refresh_token \<Rightarrow>
                                       (case rotate_token d meta token_hash [sha256_hex (ad_sha256 d) new_refresh_token,
                                               u64_str user_id, int_str (ac_refresh_token_ttl (ad_config d)), token_family] w of
                                          Inl answer \<Rightarrow> answer
                                        | Inr w \<Rightarrow> grant_refresh d meta user_id new_refresh_token w))"

section \<open>Start\<close>

definition auth_kafka_handlers ::
  "('e, 'd) auth_deps \<Rightarrow> u32 \<rightharpoonup> (KafkaMessageMeta \<Rightarrow> u32 \<Rightarrow> bytes \<Rightarrow> 'e auth \<Rightarrow> unit result \<times> 'e auth)" where
  "auth_kafka_handlers d = Map.empty
     (1000 \<mapsto> kafka_route (ad_parse_login d) (on_login d),
      1002 \<mapsto> kafka_route (ad_parse_logout d) (on_logout d),
      1004 \<mapsto> kafka_route (ad_parse_refresh d) (on_refresh_token d))"

definition SQL_SEED :: string where
  "SQL_SEED = ''UPDATE users SET password_hash = $1 WHERE password_hash = '' @ [CHR 0x27] @ ''PENDING'' @ [CHR 0x27]"

definition seed_passwords :: "('e, 'd) auth_deps \<Rightarrow> 'e auth \<Rightarrow> 'e auth" where
  "seed_passwords d w =
     (case with_env (ad_random d 16) w of (raw_salt, w) \<Rightarrow>
      case hasher_hash (ac_bcrypt_work_factor (ad_config d)) raw_salt ''password123'' of
        None \<Rightarrow> auth_log UndefinedBehaviour w
      | Some hash \<Rightarrow> if hash = '''' then w else snd (auth_execute d SQL_SEED [hash] w))"

section \<open>One answer\<close>

lemma with_env_frame [simp]: "aw_replies (snd (with_env f w)) = aw_replies w" "aw_log (snd (with_env f w)) = aw_log w"
  by (simp_all add: with_env_def split_def Let_def)

lemma auth_log_frame [simp]:
  "aw_replies (auth_log ev w) = aw_replies w" "aw_log (auth_log ev w) = aw_log w @ [ev]" "aw_env (auth_log ev w) = aw_env w"
  by (simp_all add: auth_log_def)

lemma auth_query_frame [simp]:
  "aw_replies (snd (auth_query d sql ps w)) = aw_replies w"
  "aw_log (snd (auth_query d sql ps w)) = aw_log w @ [Queried sql ps]"
  by (simp_all add: auth_query_def)

lemma auth_execute_frame [simp]:
  "aw_replies (snd (auth_execute d sql ps w)) = aw_replies w"
  "aw_log (snd (auth_execute d sql ps w)) = aw_log w @ [Executed sql ps]"
  by (simp_all add: auth_execute_def)

lemma auth_acquire_frame [simp]: "aw_replies (snd (auth_acquire d w)) = aw_replies w"
  using with_env_frame(1) [of "ad_acquire d" w]
  by (cases "with_env (ad_acquire d) w") (auto simp: auth_acquire_def split: sum.split)

lemma auth_conn_frame [simp]: "aw_replies (snd (auth_conn d c sql ps w)) = aw_replies w"
  by (simp add: auth_conn_def split_def Let_def)

lemma auth_conn_log: "aw_log (snd (auth_conn d c sql ps w)) = aw_log w @ [Ran c sql ps (\<not> isl (fst (auth_conn d c sql ps w)))]"
  by (simp add: auth_conn_def split_def Let_def)

lemma auth_pool_frame [simp]:
  "aw_replies (auth_release d c w) = aw_replies w" "aw_log (auth_release d c w) = aw_log w @ [Released c]"
  "aw_replies (auth_discard d c w) = aw_replies w" "aw_log (auth_discard d c w) = aw_log w @ [Discarded c]"
  "aw_replies (auth_mark_poisoned d c w) = aw_replies w" "aw_log (auth_mark_poisoned d c w) = aw_log w @ [Poisoned c]"
  by (simp_all add: auth_release_def auth_discard_def auth_mark_poisoned_def)

lemma auth_redis_frame [simp]:
  "aw_replies (snd (auth_redis d cmd w)) = aw_replies w" "aw_log (snd (auth_redis d cmd w)) = aw_log w @ [Commanded cmd]"
  by (simp_all add: auth_redis_def)

lemma auth_token_frame [simp]: "aw_replies (snd (auth_token d u m w)) = aw_replies w" "aw_log (snd (auth_token d u m w)) = aw_log w"
  by (simp_all add: auth_token_def)

lemma no_reply_snd [simp]: "snd (no_reply r) = snd r"
  by (simp add: no_reply_def)

lemma session_frame [simp]:
  "aw_replies (snd (session_set (auth_redis d) st u s w)) = aw_replies w"
  "aw_replies (snd (session_remove (auth_redis d) st u w)) = aw_replies w"
  "aw_replies (snd (set_user_session_id (auth_redis d) st u sid c w)) = aw_replies w"
  "aw_replies (snd (remove_user_session_id (auth_redis d) u w)) = aw_replies w"
  "aw_replies (snd (blacklist_token (auth_redis d) st h t w)) = aw_replies w"
  by (simp_all add: session_set_def session_remove_def set_user_session_id_def remove_user_session_id_def blacklist_token_def)

lemma store_session_frame [simp]: "aw_replies (store_session d meta u m w) = aw_replies w"
  by (simp add: store_session_def split_def Let_def)

definition auth_reply_to :: "('e, 'd) auth_deps \<Rightarrow> u32 \<Rightarrow> KafkaMessageMeta \<Rightarrow> auth_fbs \<Rightarrow> auth_reply" where
  "auth_reply_to d msg_id meta msg =
     \<lparr>ar_topic = ac_response_topic (ad_config d), ar_msg_id = msg_id, ar_corr_id = km_corr_id meta,
      ar_core_id = km_core_id meta, ar_session_id = km_session_id meta, ar_message = msg\<rparr>"

lemma auth_respond_frame [simp]:
  "fst (auth_respond d m meta msg w) = Inr ()"
  "aw_replies (snd (auth_respond d m meta msg w)) = aw_replies w @ [auth_reply_to d m meta msg]"
  "aw_log (snd (auth_respond d m meta msg w)) = aw_log w"
  by (simp_all add: auth_respond_def auth_send_response_def auth_reply_to_def split_def Let_def)

definition auth_answered :: "('e, 'd) auth_deps \<Rightarrow> u32 \<Rightarrow> KafkaMessageMeta \<Rightarrow> 'e auth \<Rightarrow> unit result \<times> 'e auth \<Rightarrow> bool" where
  "auth_answered d msg_id meta w rw \<longleftrightarrow>
     (case fst rw of
        Inl e \<Rightarrow> aw_replies (snd rw) = aw_replies w
      | Inr u \<Rightarrow> \<exists>msg. aw_replies (snd rw) = aw_replies w @ [auth_reply_to d msg_id meta msg])"

lemma auth_answered_failed: "aw_replies w' = aw_replies w \<Longrightarrow> auth_answered d m meta w (Inl e, w')"
  by (simp add: auth_answered_def)

lemma auth_answered_respond: "aw_replies w' = aw_replies w \<Longrightarrow> auth_answered d m meta w (auth_respond d m meta msg w')"
  by (auto simp: auth_answered_def)

lemmas auth_errors = send_login_error_def send_logout_error_def send_refresh_token_error_def

lemma grant_login_answered: "aw_replies w' = aw_replies w \<Longrightarrow> auth_answered d LOGIN_RESPONSE meta w (grant_login d meta u m w')"
  by (simp add: grant_login_def auth_errors Let_def split_def auth_answered_respond split: sum.split)

lemma on_login_answered: "auth_answered d LOGIN_RESPONSE meta w (on_login d meta req w)"
  by (simp add: on_login_def auth_errors Let_def split_def auth_answered_respond auth_answered_failed grant_login_answered
      split: sum.split option.split)

lemma on_logout_answered: "auth_answered d LOGOUT_RESPONSE meta w (on_logout d meta req w)"
  by (simp add: on_logout_def auth_errors Let_def split_def auth_answered_respond split: sum.split option.split)

lemma tx_frames [simp]:
  "aw_replies (snd (snd (tx_begin (auth_conn d c) t w))) = aw_replies w"
  "aw_replies (snd (tx_execute_params (auth_conn d c) sql ps t w)) = aw_replies w"
  "aw_replies (snd (snd (tx_commit (auth_conn d c) t w))) = aw_replies w"
  "aw_replies (snd (snd (tx_rollback (auth_conn d c) t w))) = aw_replies w"
  "aw_replies (tx_destroy (auth_mark_poisoned d c) t w) = aw_replies w"
  by (simp_all add: tx_begin_def tx_execute_params_def tx_commit_def tx_rollback_def tx_destroy_def split_def)

lemma rotation_failed_answered:
  "aw_replies w' = aw_replies w \<Longrightarrow> auth_answered d REFRESH_TOKEN_RESPONSE meta w (rotation_failed d meta c t w')"
  by (auto simp: rotation_failed_def auth_errors auth_answered_def split_def Let_def)

lemma auth_conn_result:
  "auth_conn d c sql ps w = (r, w') \<Longrightarrow> aw_replies w' = aw_replies w \<and> aw_log w' = aw_log w @ [Ran c sql ps (\<not> isl r)]"
  using auth_conn_frame [of d c sql ps w] auth_conn_log [of d c sql ps w] by simp

text \<open>
  How a rotation goes: no connection; a failed statement, after which the transaction is over or was never begun; a
  failed commit; or all four statements.
\<close>

definition statements :: "nat \<Rightarrow> string \<Rightarrow> string list \<Rightarrow> bool \<Rightarrow> auth_event list" where
  "statements c h ps committed =
     [Acquired c, Ran c ''BEGIN'' [] True, Ran c SQL_REVOKE [h] True, Ran c SQL_INSERT_TOKEN ps True, Ran c ''COMMIT'' [] committed]"

lemma isl_drop_value [simp]: "isl (drop_value r) = isl r"
  by (cases r) (simp_all add: drop_value_def)

lemma commit_statement [simp]: "''COMMIT'' \<noteq> SQL_REVOKE" "''COMMIT'' \<noteq> SQL_INSERT_TOKEN"
  by (simp_all add: SQL_REVOKE_def SQL_INSERT_TOKEN_def)

lemma rotate_token_cases:
  obtains (unavailable) w1 where "aw_replies w1 = aw_replies w" "rotate_token d meta h ps w = Inl (send_refresh_token_error d meta REFRESH_INTERNAL_ERROR w1)"
      "aw_log w1 = aw_log w"
  | (failed) c t w1 stmts where "aw_replies w1 = aw_replies w" "rotate_token d meta h ps w = Inl (rotation_failed d meta c t w1)"
      "\<not> (tx_begun t \<and> \<not> tx_finished t)" "aw_log w1 = aw_log w @ Acquired c # map (\<lambda>(sql, ps, ok). Ran c sql ps ok) stmts"
      "\<And>ps ok. (''COMMIT'', ps, ok) \<notin> set stmts"
  | (uncommitted) c t w1 where "aw_replies w1 = aw_replies w" "rotate_token d meta h ps w = Inl (rotation_failed d meta c t w1)"
      "tx_begun t \<and> \<not> tx_finished t" "aw_log w1 = aw_log w @ statements c h ps False"
  | (committed) c w1 where "aw_replies w1 = aw_replies w" "rotate_token d meta h ps w = Inr w1"
      "aw_log w1 = aw_log w @ statements c h ps True @ [Released c]"
proof -
  obtain a w0 where e0: "with_env (ad_acquire d) w = (a, w0)" by fastforce
  have w0: "aw_replies w0 = aw_replies w" "aw_log w0 = aw_log w" using with_env_frame [of "ad_acquire d" w] e0 by simp_all
  show thesis
  proof (cases a)
    case (Inl e)
    then have "rotate_token d meta h ps w = Inl (send_refresh_token_error d meta REFRESH_INTERNAL_ERROR w0)"
      by (simp add: rotate_token_def auth_acquire_def e0)
    then show thesis using unavailable w0 by blast
  next
    case (Inr c)
    let ?q = "auth_conn d c"
    obtain r1 w1 where e1: "?q ''BEGIN'' [] (auth_log (Acquired c) w0) = (r1, w1)" by fastforce
    obtain r2 w2 where e2: "?q SQL_REVOKE [h] w1 = (r2, w2)" by fastforce
    obtain r3 w3 where e3: "?q SQL_INSERT_TOKEN ps w2 = (r3, w3)" by fastforce
    obtain r4 w4 where e4: "?q ''COMMIT'' [] w3 = (r4, w4)" by fastforce
    obtain r5 w5 where e5: "?q ''ROLLBACK'' [] w2 = (r5, w5)" by fastforce
    obtain r6 w6 where e6: "?q ''ROLLBACK'' [] w3 = (r6, w6)" by fastforce
    note f1 = auth_conn_result [OF e1] and f2 = auth_conn_result [OF e2] and f3 = auth_conn_result [OF e3]
      and f4 = auth_conn_result [OF e4] and f5 = auth_conn_result [OF e5] and f6 = auth_conn_result [OF e6]
    note rot = rotate_token_def auth_acquire_def e0 Inr tx_begin_def tx_execute_params_def tx_commit_def tx_rollback_def
      PgTransaction_new_def e1 e2 e3 e4 e5 e6
    consider "isl r1" | "\<not> isl r1" "isl r2" | "\<not> isl r1" "\<not> isl r2" "isl r3"
      | "\<not> isl r1" "\<not> isl r2" "\<not> isl r3" "isl r4" | "\<not> isl r1" "\<not> isl r2" "\<not> isl r3" "\<not> isl r4" by blast
    then show thesis
    proof cases
      case 1
      have "rotate_token d meta h ps w = Inl (rotation_failed d meta c PgTransaction_new w1)" using 1 by (simp add: rot)
      then show thesis using 1 f1 w0 by (intro failed [of w1 c PgTransaction_new "[(''BEGIN'', [], False)]"]) (auto simp: PgTransaction_new_def)
    next
      case 2
      have "rotate_token d meta h ps w = Inl (rotation_failed d meta c \<lparr>tx_begun = True, tx_finished = True\<rparr> w5)" using 2 by (simp add: rot)
      then show thesis using 2 f1 f2 f5 w0
        by (intro failed [of w5 c _ "[(''BEGIN'', [], True), (SQL_REVOKE, [h], False), (''ROLLBACK'', [], \<not> isl r5)]"]) auto
    next
      case 3
      have "rotate_token d meta h ps w = Inl (rotation_failed d meta c \<lparr>tx_begun = True, tx_finished = True\<rparr> w6)" using 3 by (simp add: rot)
      then show thesis using 3 f1 f2 f3 f6 w0
        by (intro failed [of w6 c _ "[(''BEGIN'', [], True), (SQL_REVOKE, [h], True), (SQL_INSERT_TOKEN, ps, False),
              (''ROLLBACK'', [], \<not> isl r6)]"]) auto
    next
      case 4
      have "rotate_token d meta h ps w = Inl (rotation_failed d meta c \<lparr>tx_begun = True, tx_finished = False\<rparr> w4)" using 4 by (simp add: rot)
      then show thesis using 4 f1 f2 f3 f4 w0 by (intro uncommitted [of w4 c]) (auto simp: statements_def)
    next
      case 5
      have "rotate_token d meta h ps w = Inr (auth_release d c w4)" using 5 by (simp add: rot tx_destroy_def)
      then show thesis using 5 f1 f2 f3 f4 w0 by (intro committed [of "auth_release d c w4" c]) (auto simp: statements_def)
    qed
  qed
qed

lemma rotate_token_answered:
  assumes "aw_replies w' = aw_replies w"
  shows "case rotate_token d meta h ps w' of
           Inl answer \<Rightarrow> auth_answered d REFRESH_TOKEN_RESPONSE meta w answer | Inr w'' \<Rightarrow> aw_replies w'' = aw_replies w"
proof (cases rule: rotate_token_cases [of w' d meta h ps])
  case (unavailable w1)
  then show ?thesis using assms by (simp add: auth_errors auth_answered_respond)
qed (use assms in \<open>simp_all add: rotation_failed_answered\<close>)

lemma reuse_detected_answered:
  "aw_replies w' = aw_replies w \<Longrightarrow> auth_answered d REFRESH_TOKEN_RESPONSE meta w (reuse_detected d meta u f w')"
  by (simp add: reuse_detected_def auth_errors split_def Let_def auth_answered_respond)

lemma grant_refresh_answered:
  "aw_replies w' = aw_replies w \<Longrightarrow> auth_answered d REFRESH_TOKEN_RESPONSE meta w (grant_refresh d meta u t w')"
  by (simp add: grant_refresh_def auth_errors split_def Let_def auth_answered_respond)

lemma on_refresh_token_answered: "auth_answered d REFRESH_TOKEN_RESPONSE meta w (on_refresh_token d meta req w)"
proof -
  have r: "auth_answered d REFRESH_TOKEN_RESPONSE meta w
      (case rotate_token d meta h ps w' of Inl answer \<Rightarrow> answer | Inr w'' \<Rightarrow> grant_refresh d meta u t w'')"
    if "aw_replies w' = aw_replies w" for h ps w' u t
    using rotate_token_answered [OF that, of d meta h ps] grant_refresh_answered
    by (auto split: sum.splits)
  show ?thesis
    by (simp add: on_refresh_token_def auth_errors Let_def split_def auth_answered_respond reuse_detected_answered r
        split: sum.split option.split)
qed

lemma auth_route_answered:
  "(\<And>req. auth_answered d m meta w (h meta req w)) \<Longrightarrow> auth_answered d m meta w (kafka_route parse h meta mid payload w)"
  by (simp add: kafka_route_def auth_answered_failed split: option.split)

lemma auth_handler_answered:
  assumes "auth_kafka_handlers d mid = Some h"
  shows "auth_answered d (mid + 1) meta w (h meta mid payload w)"
  using assms
    auth_route_answered [where h = "on_login d", OF on_login_answered]
    auth_route_answered [where h = "on_logout d", OF on_logout_answered]
    auth_route_answered [where h = "on_refresh_token d", OF on_refresh_token_answered]
  by (auto simp: auth_kafka_handlers_def LOGIN_RESPONSE_def LOGOUT_RESPONSE_def REFRESH_TOKEN_RESPONSE_def split: if_splits)

text \<open>
  C21: The auth service answers each message of its request topic exactly once, or fails. If dispatching a Kafka message
  succeeds, the message was a well-formed envelope and exactly one reply was sent, on the response topic, with the
  request's correlation id, core and session, and the message id after the request's. If it fails, nothing is sent.
\<close>
theorem auth_answers_once:
  "case bridge_dispatch (Some (auth_kafka_handlers d)) raw w of
     (Inl err, w') \<Rightarrow> aw_replies w' = aw_replies w
   | (Inr _, w') \<Rightarrow>
       \<exists>routing metadata r.
         RoutingHeader_parse raw = Inr routing \<and> MetadataPrefix_parse (drop RoutingHeader_SIZE raw) = Inr metadata \<and>
         aw_replies w' = aw_replies w @ [r] \<and> ar_topic r = ac_response_topic (ad_config d) \<and>
         ar_msg_id r = rh_msg_id routing + 1 \<and> ar_corr_id r = mp_corr_id metadata \<and>
         ar_core_id r = mp_core_id metadata \<and> ar_session_id r = mp_session_id metadata"
proof (cases rule: bridge_dispatch_cases [of "auth_kafka_handlers d" raw w])
  case (rejected e)
  then show ?thesis by simp
next
  case (handled routing metadata h payload)
  obtain res w' where h: "h (request_meta metadata) (rh_msg_id routing) payload w = (res, w')" by fastforce
  have "auth_answered d (rh_msg_id routing + 1) (request_meta metadata) w (res, w')"
    using auth_handler_answered [OF handled(3), of "request_meta metadata" w payload] by (simp add: h)
  then show ?thesis
    using handled(1,2,4) h by (cases res) (auto simp: auth_answered_def auth_reply_to_def request_meta_def)
qed

section \<open>Login needs the password\<close>

text \<open>What the row of a user must say for a login.\<close>

definition credentials_ok :: "PgResult \<Rightarrow> u64 \<Rightarrow> string \<Rightarrow> bool" where
  "credentials_ok res user_id password \<longleftrightarrow>
     0 < row_count res \<and> from_chars_u64 (pg_value res 0 0) = Some user_id \<and> \<not> (\<not> is_null res 0 2 \<and> pg_value res 0 2 = ''t'') \<and>
     hasher_verify password (pg_value res 0 1) = Some True"

lemma on_login_cases:
  obtains (refused) err w1 where "err \<noteq> LOGIN_NONE" "aw_replies w1 = aw_replies w" "on_login d meta req w = send_login_error d meta err w1"
  | (undefined) w1 where "aw_replies w1 = aw_replies w" "on_login d meta req w = (Inl HandlerException, w1)"
  | (granted) email password res user_id where
      "lq_email req = Some email" "lq_password req = Some password"
      "fst (auth_query d SQL_USER [email] w) = Inr res" "credentials_ok res user_id password"
      "on_login d meta req w = grant_login d meta user_id email (snd (auth_query d SQL_USER [email] w))"
proof (cases "lq_email req = None \<or> lq_password req = None")
  case True
  then have "on_login d meta req w = send_login_error d meta BAD_CREDENTIALS w"
    by (auto simp: on_login_def split: option.split)
  then show ?thesis using refused by blast
next
  case False
  then obtain email password where ep: "lq_email req = Some email" "lq_password req = Some password" by auto
  obtain ur w1 where q: "auth_query d SQL_USER [email] w = (ur, w1)" by fastforce
  have w1: "aw_replies w1 = aw_replies w" using auth_query_frame(1) [of d SQL_USER "[email]" w] q by simp
  note on = on_login_def [of d meta req w, unfolded ep q Let_def prod.case option.case]
  show ?thesis
  proof (cases ur)
    case (Inl e)
    then show ?thesis using on w1 by (intro refused [of LOGIN_INTERNAL_ERROR w1]) simp_all
  next
    case (Inr res)
    consider "row_count res = 0" | "from_chars_u64 (pg_value res 0 0) = None" | "\<not> is_null res 0 2 \<and> pg_value res 0 2 = ''t''"
      | "hasher_verify password (pg_value res 0 1) = None" | "hasher_verify password (pg_value res 0 1) = Some False"
      | user_id where "credentials_ok res user_id password"
      unfolding credentials_ok_def by (metis (full_types) gr0I not_None_eq)
    then show ?thesis
    proof cases
      case 6
      then have "on_login d meta req w = grant_login d meta user_id email w1"
        by (auto simp: on Inr credentials_ok_def)
      then show ?thesis using granted [OF ep] q Inr 6 by simp
    qed (use on Inr w1 in \<open>auto simp: split: option.splits if_splits intro: refused undefined [of "auth_log UndefinedBehaviour w1"]\<close>)
  qed
qed

lemma store_session_log:
  "\<exists>data. aw_log (store_session d meta user_id email w) = aw_log w @
     [Commanded [''SETEX'', c_str (session_key (session_store d) user_id), ttl_sec (ac_session_ttl (ad_config d)), data],
      Commanded [''SETEX'', user_session_key user_id, ttl_sec (ac_session_ttl (ad_config d)),
                 user_session_value (km_session_id meta) (km_core_id meta)]]"
  by (simp add: store_session_def split_def Let_def session_set_def set_user_session_id_def) (simp add: session_store_def)

lemma grant_login_cases:
  obtains (failed) w1 where "aw_replies w1 = aw_replies w" "grant_login d meta u m w = send_login_error d meta LOGIN_INTERNAL_ERROR w1"
  | (granted) access_token refresh_token w1 data where
      "fst (auth_token d u m w) = access_token" "access_token \<noteq> ''''" "aw_replies w1 = aw_replies w"
      "grant_login d meta u m w = auth_respond d LOGIN_RESPONSE meta (LoginResponse LOGIN_NONE (Some access_token)
         (Some refresh_token) u (of_int (ac_access_token_ttl (ad_config d)))) w1"
      "aw_log w1 = aw_log w @
         [Executed SQL_INSERT_LOGIN_TOKEN [sha256_hex (ad_sha256 d) refresh_token, u64_str u,
            int_str (ac_refresh_token_ttl (ad_config d))],
          Commanded [''SETEX'', c_str (session_key (session_store d) u), ttl_sec (ac_session_ttl (ad_config d)), data],
          Commanded [''SETEX'', user_session_key u, ttl_sec (ac_session_ttl (ad_config d)),
            user_session_value (km_session_id meta) (km_core_id meta)]]"
proof -
  obtain access_token w0 where t: "auth_token d u m w = (access_token, w0)" by fastforce
  obtain rt w1 where r: "with_env (generate_secure_token (ad_random d) 32) w0 = (rt, w1)" by fastforce
  have f: "aw_replies w0 = aw_replies w" "aw_log w0 = aw_log w" "aw_replies w1 = aw_replies w0" "aw_log w1 = aw_log w0"
    using auth_token_frame [of d u m w] with_env_frame [of "generate_secure_token (ad_random d) 32" w0] t r by simp_all
  show thesis
  proof (cases "access_token = ''''")
    case True
    then show thesis using t f by (intro failed [of w0]) (simp_all add: grant_login_def)
  next
    case False
    show thesis
    proof (cases rt)
      case (Inl e)
      then show thesis using t r f False by (intro failed [of w1]) (simp_all add: grant_login_def)
    next
      case (Inr refresh_token)
      let ?w2 = "snd (auth_execute d SQL_INSERT_LOGIN_TOKEN [sha256_hex (ad_sha256 d) refresh_token, u64_str u,
            int_str (ac_refresh_token_ttl (ad_config d))] w1)"
      obtain data where "aw_log (store_session d meta u m ?w2) = aw_log ?w2 @
        [Commanded [''SETEX'', c_str (session_key (session_store d) u), ttl_sec (ac_session_ttl (ad_config d)), data],
         Commanded [''SETEX'', user_session_key u, ttl_sec (ac_session_ttl (ad_config d)),
            user_session_value (km_session_id meta) (km_core_id meta)]]"
        using store_session_log [of d meta u m ?w2] by blast
      then show thesis using t r f False Inr
        by (intro granted [of access_token "store_session d meta u m ?w2" refresh_token data])
           (simp_all add: grant_login_def split_def Let_def)
    qed
  qed
qed


section \<open>Rotation\<close>

text \<open>What the database must say of a token for its rotation: known, not revoked, not expired.\<close>

definition token_live :: "PgResult \<Rightarrow> PgResult \<Rightarrow> u64 \<Rightarrow> bool" where
  "token_live res expiry user_id \<longleftrightarrow>
     0 < row_count res \<and> from_chars_u64 (pg_value res 0 0) = Some user_id \<and> is_null res 0 1 \<and> row_count expiry = 0"

lemma on_refresh_token_cases:
  obtains (refused) err w1 evs where "err \<noteq> REFRESH_NONE" "aw_replies w1 = aw_replies w" "aw_log w1 = aw_log w @ evs"
      "\<And>c sql ps ok. Ran c sql ps ok \<notin> set evs" "on_refresh_token d meta req w = send_refresh_token_error d meta err w1"
  | (rotating) token res expiry user_id new_token w1 where
      "req = Some token" "fst (auth_query d SQL_LOOKUP_TOKEN [sha256_hex (ad_sha256 d) token] w) = Inr res"
      "fst (auth_query d SQL_EXPIRED [sha256_hex (ad_sha256 d) token] (snd (auth_query d SQL_LOOKUP_TOKEN [sha256_hex (ad_sha256 d) token] w))) = Inr expiry"
      "token_live res expiry user_id" "aw_replies w1 = aw_replies w"
      "aw_log w1 = aw_log w @ [Queried SQL_LOOKUP_TOKEN [sha256_hex (ad_sha256 d) token], Queried SQL_EXPIRED [sha256_hex (ad_sha256 d) token]]"
      "on_refresh_token d meta req w =
         (case rotate_token d meta (sha256_hex (ad_sha256 d) token) [sha256_hex (ad_sha256 d) new_token,
            u64_str user_id, int_str (ac_refresh_token_ttl (ad_config d)), pg_value res 0 3] w1 of
            Inl answer \<Rightarrow> answer | Inr w \<Rightarrow> grant_refresh d meta user_id new_token w)"
proof (cases req)
  case None
  then show thesis by (intro refused [of TOKEN_INVALID w "[]"]) (simp_all add: on_refresh_token_def)
next
  case (Some token)
  let ?h = "sha256_hex (ad_sha256 d) token"
  obtain lr w1 where q1: "auth_query d SQL_LOOKUP_TOKEN [?h] w = (lr, w1)" by fastforce
  obtain er w2 where q2: "auth_query d SQL_EXPIRED [?h] w1 = (er, w2)" by fastforce
  obtain nr w3 where g: "with_env (generate_secure_token (ad_random d) 32) w2 = (nr, w3)" by fastforce
  have f: "aw_replies w1 = aw_replies w" "aw_log w1 = aw_log w @ [Queried SQL_LOOKUP_TOKEN [?h]]"
    "aw_replies w2 = aw_replies w" "aw_log w2 = aw_log w1 @ [Queried SQL_EXPIRED [?h]]"
    "aw_replies w3 = aw_replies w" "aw_log w3 = aw_log w2"
    using auth_query_frame [of d SQL_LOOKUP_TOKEN "[?h]" w] auth_query_frame [of d SQL_EXPIRED "[?h]" w1]
      with_env_frame [of "generate_secure_token (ad_random d) 32" w2] q1 q2 g by simp_all
  note on = on_refresh_token_def [of d meta req w, unfolded Some option.case Let_def q1 prod.case]
  have r1: thesis if "err \<noteq> REFRESH_NONE" "on_refresh_token d meta req w = send_refresh_token_error d meta err w1" for err
    using refused [of err w1 "[Queried SQL_LOOKUP_TOKEN [?h]]"] that f by simp
  have r2: thesis if "err \<noteq> REFRESH_NONE" "on_refresh_token d meta req w = send_refresh_token_error d meta err w2" for err
    using refused [of err w2 "[Queried SQL_LOOKUP_TOKEN [?h], Queried SQL_EXPIRED [?h]]"] that f by simp
  have r3: thesis if "err \<noteq> REFRESH_NONE" "on_refresh_token d meta req w = send_refresh_token_error d meta err w3" for err
    using refused [of err w3 "[Queried SQL_LOOKUP_TOKEN [?h], Queried SQL_EXPIRED [?h]]"] that f by simp
  show thesis
  proof (cases lr)
    case (Inl e)
    then show thesis using on Some by (intro r1 [of REFRESH_INTERNAL_ERROR]) simp_all
  next
    case (Inr res)
    consider "row_count res = 0" | "0 < row_count res" "from_chars_u64 (pg_value res 0 0) = None"
      | user_id where "0 < row_count res" "from_chars_u64 (pg_value res 0 0) = Some user_id" by (metis gr0I not_None_eq)
    then show thesis
    proof cases
      case 1
      then show thesis using on Some Inr by (intro r1 [of TOKEN_INVALID]) simp_all
    next
      case 2
      then show thesis using on Some Inr by (intro r1 [of REFRESH_INTERNAL_ERROR]) simp_all
    next
      case (3 user_id)
      note on3 = on [unfolded Inr sum.case 3(2) option.case q2 prod.case]
      show thesis
      proof (cases "is_null res 0 1")
        case False
        let ?w = "snd (remove_user_session_id (auth_redis d) user_id (snd (session_remove (auth_redis d) (session_store d) user_id
           (snd (auth_execute d SQL_REVOKE_FAMILY [pg_value res 0 3] w1)))))"
        have "on_refresh_token d meta req w = send_refresh_token_error d meta TOKEN_REVOKED ?w"
          using on3 3 False Some by (simp add: reuse_detected_def split_def Let_def)
        then show thesis using f
          by (intro refused [of TOKEN_REVOKED ?w "[Queried SQL_LOOKUP_TOKEN [?h], Executed SQL_REVOKE_FAMILY [pg_value res 0 3],
                Commanded [''DEL'', c_str (session_key (session_store d) user_id)], Commanded [''DEL'', user_session_key user_id]]"])
             (simp_all add: session_remove_def remove_user_session_id_def)
      next
        case True
        show thesis
        proof (cases er)
          case (Inl e)
          then show thesis using on3 3 True Some by (intro r2 [of REFRESH_INTERNAL_ERROR]) simp_all
        next
          case er: (Inr expiry)
          show thesis
          proof (cases "0 < row_count expiry")
            case exp: True
            then show thesis using on3 3 True Some er by (intro r2 [of TOKEN_EXPIRED]) simp_all
          next
            case False
            then have live: "token_live res expiry user_id" using 3 True by (simp add: token_live_def)
            show thesis
            proof (cases nr)
              case (Inl e)
              then show thesis using on3 3 True Some er False g by (intro r3 [of REFRESH_INTERNAL_ERROR]) simp_all
            next
              case nr: (Inr new_token)
              show thesis
              proof (rule rotating [OF Some, of res expiry user_id w3 new_token])
                show "on_refresh_token d meta req w =
                  (case rotate_token d meta ?h [sha256_hex (ad_sha256 d) new_token, u64_str user_id,
                     int_str (ac_refresh_token_ttl (ad_config d)), pg_value res 0 3] w3 of
                     Inl answer \<Rightarrow> answer | Inr w \<Rightarrow> grant_refresh d meta user_id new_token w)"
                  using on3 3 True Some er False g nr by simp
              qed (use live f q1 q2 Inr er in simp_all)
            qed
          qed
        qed
      qed
    qed
  qed
qed

lemma grant_refresh_cases:
  obtains (failed) w1 evs where "aw_replies w1 = aw_replies w" "aw_log w1 = aw_log w @ evs" "\<And>c sql ps ok. Ran c sql ps ok \<notin> set evs"
      "grant_refresh d meta u t w = send_refresh_token_error d meta REFRESH_INTERNAL_ERROR w1"
  | (granted) access_token w1 evs where "aw_replies w1 = aw_replies w" "aw_log w1 = aw_log w @ evs" "\<And>c sql ps ok. Ran c sql ps ok \<notin> set evs"
      "grant_refresh d meta u t w = auth_respond d REFRESH_TOKEN_RESPONSE meta (RefreshTokenResponse REFRESH_NONE (Some access_token)
         (of_int (ac_access_token_ttl (ad_config d))) (Some t)) w1"
proof -
  obtain er w1 where q: "auth_query d SQL_EMAIL [u64_str u] w = (er, w1)" by fastforce
  define email where "email = (case er of Inl e \<Rightarrow> '''' | Inr r \<Rightarrow> if 0 < row_count r then pg_value r 0 0 else '''')"
  obtain tk w2 where t: "auth_token d u email w1 = (tk, w2)" by fastforce
  have f: "aw_replies w1 = aw_replies w" "aw_log w1 = aw_log w @ [Queried SQL_EMAIL [u64_str u]]"
    "aw_replies w2 = aw_replies w1" "aw_log w2 = aw_log w1"
    using auth_query_frame [of d SQL_EMAIL "[u64_str u]" w] auth_token_frame [of d u email w1] q t by simp_all
  note g = grant_refresh_def [of d meta u t w, unfolded q Let_def prod.case, folded email_def, unfolded t prod.case]
  consider "email = ''''" | "email \<noteq> ''''" "tk = ''''" | "email \<noteq> ''''" "tk \<noteq> ''''" by blast
  then show thesis
  proof cases
    case 1
    then show thesis using f g by (intro failed [of w1 "[Queried SQL_EMAIL [u64_str u]]"]) simp_all
  next
    case 2
    then show thesis using f g by (intro failed [of w2 "[Queried SQL_EMAIL [u64_str u]]"]) simp_all
  next
    case 3
    obtain data where "aw_log (store_session d meta u email w2) = aw_log w2 @
        [Commanded [''SETEX'', c_str (session_key (session_store d) u), ttl_sec (ac_session_ttl (ad_config d)), data],
         Commanded [''SETEX'', user_session_key u, ttl_sec (ac_session_ttl (ad_config d)),
            user_session_value (km_session_id meta) (km_core_id meta)]]"
      using store_session_log by blast
    then show thesis using 3 f g
      by (intro granted [of "store_session d meta u email w2"]) auto
  qed
qed

text \<open>
  C4: A refresh gives new tokens only for a token that was live, and rotates it. If the service answers a refresh without
  error, the token of the request is in the database, was found neither revoked nor expired, and on one connection a
  transaction revoked it, stored the hash of exactly the new token of the answer for the same user and family, and
  committed, before the connection went back to the pool.
\<close>
theorem refresh_rotates_token:
  assumes "aw_replies (snd (on_refresh_token d meta req w)) = aw_replies w @ [reply]"
    and "ar_message reply = RefreshTokenResponse REFRESH_NONE access ttl new"
  shows "\<exists>token res expiry user_id new_token c post.
    req = Some token \<and> new = Some new_token \<and>
    fst (auth_query d SQL_LOOKUP_TOKEN [sha256_hex (ad_sha256 d) token] w) = Inr res \<and>
    fst (auth_query d SQL_EXPIRED [sha256_hex (ad_sha256 d) token]
       (snd (auth_query d SQL_LOOKUP_TOKEN [sha256_hex (ad_sha256 d) token] w))) = Inr expiry \<and>
    0 < row_count res \<and> from_chars_u64 (pg_value res 0 0) = Some user_id \<and> is_null res 0 1 \<and> row_count expiry = 0 \<and>
    aw_log (snd (on_refresh_token d meta req w)) = aw_log w @
      [Queried SQL_LOOKUP_TOKEN [sha256_hex (ad_sha256 d) token], Queried SQL_EXPIRED [sha256_hex (ad_sha256 d) token],
       Acquired c, Ran c ''BEGIN'' [] True, Ran c SQL_REVOKE [sha256_hex (ad_sha256 d) token] True,
       Ran c SQL_INSERT_TOKEN [sha256_hex (ad_sha256 d) new_token, u64_str user_id,
         int_str (ac_refresh_token_ttl (ad_config d)), pg_value res 0 3] True,
       Ran c ''COMMIT'' [] True, Released c] @ post"
proof (cases rule: on_refresh_token_cases [of w d meta req])
  case (refused err w1 evs)
  then show ?thesis using assms by (auto simp: auth_errors auth_reply_to_def)
next
  case rot: (rotating token res expiry user_id new_token w1)
  let ?ps = "[sha256_hex (ad_sha256 d) new_token, u64_str user_id, int_str (ac_refresh_token_ttl (ad_config d)), pg_value res 0 3]"
  show ?thesis
  proof (cases rule: rotate_token_cases [of w1 d meta "sha256_hex (ad_sha256 d) token" ?ps])
    case (committed c w2)
    show ?thesis
    proof (cases rule: grant_refresh_cases [of w2 d meta user_id new_token])
      case (failed w3 evs)
      then show ?thesis using assms rot committed by (auto simp: auth_errors auth_reply_to_def)
    next
      case (granted access_token w3 evs)
      then have "new = Some new_token"
        using assms rot committed by (auto simp: auth_reply_to_def)
      then show ?thesis using rot committed granted by (auto simp: token_live_def statements_def)
    qed
  next
    case (unavailable w2)
    then show ?thesis using assms rot by (auto simp: auth_errors auth_reply_to_def)
  qed (use assms rot in \<open>auto simp: rotation_failed_def split_def Let_def auth_errors auth_reply_to_def\<close>)
qed

lemma grant_refresh_log:
  "\<exists>evs. aw_log (snd (grant_refresh d meta u t w)) = aw_log w @ evs \<and> (\<forall>c sql ps ok. Ran c sql ps ok \<notin> set evs)"
  by (cases rule: grant_refresh_cases [of w d meta u t]) (auto simp: auth_errors)

lemma rotation_failed_log:
  "aw_log (snd (rotation_failed d meta c t w)) =
     aw_log w @ [Discarded c] @ (if tx_begun t \<and> \<not> tx_finished t then [Poisoned c] else [])"
  by (simp add: rotation_failed_def tx_destroy_def split_def Let_def auth_errors)

text \<open>
  C38: When COMMIT fails during a rotation, the handler gives the connection up, which destroys it, and the destructor of
  the transaction then still marks this connection: the last event is a write to an object that no longer exists.
\<close>
theorem failed_commit_marks_freed_connection:
  assumes "aw_log w = []" "Ran c ''COMMIT'' [] False \<in> set (aw_log (snd (on_refresh_token d meta req w)))"
  shows "\<exists>pre. aw_log (snd (on_refresh_token d meta req w)) = pre @ [Discarded c, Poisoned c]"
proof (cases rule: on_refresh_token_cases [of w d meta req])
  case (refused err w1 evs)
  then show ?thesis using assms by (simp add: auth_errors)
next
  case rot: (rotating token res expiry user_id new_token w1)
  let ?ps = "[sha256_hex (ad_sha256 d) new_token, u64_str user_id, int_str (ac_refresh_token_ttl (ad_config d)), pg_value res 0 3]"
  let ?h = "sha256_hex (ad_sha256 d) token"
  show ?thesis
  proof (cases rule: rotate_token_cases [of w1 d meta ?h ?ps])
    case (uncommitted c' t w2)
    then have "aw_log (snd (on_refresh_token d meta req w)) = aw_log w2 @ [Discarded c', Poisoned c']"
      using rot(7) by (simp add: rotation_failed_log)
    moreover have "c' = c"
      using assms rot uncommitted by (auto simp: rotation_failed_log statements_def)
    ultimately show ?thesis by simp
  next
    case (committed c' w2)
    then show ?thesis using assms rot grant_refresh_log [of d meta user_id new_token w2] by (auto simp: statements_def)
  qed (use assms rot in \<open>auto simp: rotation_failed_log auth_errors\<close>)
qed

section \<open>With the gateway\<close>

text \<open>
  What is documented of the library: a signed token decodes to the claims it was signed over, and passes the
  verification with the public key and the issuer.
\<close>

definition jwt_signs :: "'d jwt_cpp \<Rightarrow> string \<Rightarrow> string \<Rightarrow> u64 \<Rightarrow> bool" where
  "jwt_signs lib public_key private_key skew \<longleftrightarrow>
     (\<forall>p token. jl_sign lib public_key private_key p = Some token \<longrightarrow>
        (\<exists>dec. jl_decode lib token = Some dec \<and> jl_verify lib (Some public_key) (pl_issuer p) skew dec \<and>
           jl_claim lib dec ''uid'' = Some (pl_uid p) \<and> jl_has_claim lib dec ''jti'' \<and> jl_claim lib dec ''jti'' = Some (pl_jti p) \<and>
           jl_subject lib dec = Some (pl_subject p) \<and> jl_expires_at lib dec \<noteq> None))"

definition random_bytes :: "(nat \<Rightarrow> 'e \<Rightarrow> bytes option \<times> 'e) \<Rightarrow> bool" where
  "random_bytes random \<longleftrightarrow> (\<forall>n e buf. fst (random n e) = Some buf \<longrightarrow> length buf = n)"

lemma jwt_lib_truncate [simp]:
  "jl_decode (jwt_lib.truncate lib) = jl_decode lib" "jl_verify (jwt_lib.truncate lib) = jl_verify lib"
  "jl_claim (jwt_lib.truncate lib) = jl_claim lib" "jl_has_claim (jwt_lib.truncate lib) = jl_has_claim lib"
  "jl_subject (jwt_lib.truncate lib) = jl_subject lib" "jl_expires_at (jwt_lib.truncate lib) = jl_expires_at lib"
  by (simp_all add: jwt_lib.truncate_def)

lemma generate_jti_valid:
  assumes "random_bytes random" "generate_jti random e = (jti, e')" "jti \<noteq> ''''"
  shows "is_valid_token_hash jti" "length jti = 32"
proof -
  obtain buf where "fst (random 16 e) = Some buf" and j: "jti = concat (map byte_hex buf)"
    using assms(2,3) by (auto simp: generate_jti_def generate_secure_token_def split: option.splits sum.splits prod.splits)
  then have n: "length buf = 16" using assms(1) by (simp add: random_bytes_def)
  show l: "length jti = 32" using n by (simp only: j length_hex)
  have "list_all hex_char jti" unfolding j by (rule hex_chars)
  then show "is_valid_token_hash jti" using assms(3) l by (simp add: is_valid_token_hash_def)
qed

lemma create_access_token_signed:
  assumes "create_access_token lib random clock m user_id email e = (token, e')" "token \<noteq> ''''"
  obtains jti e'' where "generate_jti random e = (jti, e'')" "jti \<noteq> ''''"
    "jl_sign lib (jm_public_key m) (jm_private_key m) (access_payload m (clock e) user_id email jti) = Some token"
  using assms by (auto simp: create_access_token_def Let_def split: if_splits prod.splits option.splits)


text \<open>
  C29: Logging out makes the gateway's blacklist check reject the token. If the token verifies, has time left and carries a
  hexadecimal identifier, then wherever Redis answers that the keys set by the logout exist, the gateway finds the
  identifier blacklisted: both services use the same key.
\<close>
theorem logout_blacklists_token:
  assumes "verify_access_token (ad_jwt d) (ad_jwt_manager d) token = Inr claims"
    and "0 < remaining_ttl (ad_jwt d) (ad_now d (aw_env w)) token" "is_valid_token_hash (cl_jti claims)"
    and "ac_redis_blacklist_prefix (ad_config d) = ac_redis_blacklist_prefix AuthConfig_default"
    and "\<And>k ttl. Commanded [''SETEX'', k, ttl, ''1''] \<in> set (aw_log (snd (on_logout d meta (Some token) w))) \<Longrightarrow>
           \<exists>reply. fst (command [''EXISTS'', k] e) = Inr reply \<and> 0 < rr_integer reply"
  shows "fst (is_blacklisted command (cl_jti claims) e) = Inr True"
proof -
  let ?k = "''jwt:blacklist:'' @ cl_jti claims"
  have h: "list_all hex_char (cl_jti claims)" "cl_jti claims \<noteq> ''''" using assms(3) by (simp_all add: is_valid_token_hash_def split: if_splits)
  have "c_str ?k = ?k" using hex_no_NUL [OF h(1)] by (intro c_str_id) (auto simp: NUL_def)
  then have "Commanded [''SETEX'', ?k, ttl_sec (remaining_ttl (ad_jwt d) (ad_now d (aw_env w)) token), ''1'']
      \<in> set (aw_log (snd (on_logout d meta (Some token) w)))"
    using assms(1-4) h(2)
    by (simp add: on_logout_def Let_def split_def blacklist_token_def session_remove_def remove_user_session_id_def
        blacklist_key_def session_store_def AuthConfig_default_def)
  then obtain reply where "fst (command [''EXISTS'', ?k] e) = Inr reply" "0 < rr_integer reply" using assms(5) by blast
  then show ?thesis using hex_is_jti [OF assms(3)] by (auto simp: is_blacklisted_def Let_def split: prod.split sum.split)
qed

section \<open>With the chat service\<close>

lemma parse_user_session: "parse_session_core (user_session_value session_id core_id) = Inr (session_id, core_id)"
proof -
  let ?s = "nat_str (unat session_id)" and ?c = "nat_str (unat core_id)"
  have tw: "takeWhile (\<lambda>c. c \<noteq> CHR '':'') (?s @ CHR '':'' # ?c) = ?s"
    using colon_not_digit [of "unat session_id"] by (subst takeWhile_append2) auto
  have s: "from_chars_u64 ?s = Some session_id" using from_chars_nat_str [of "[]" session_id] by simp
  have "unat (ucast core_id :: u64) = unat core_id" by (simp add: unat_ucast_up)
  then have c: "from_chars_u64 ?c = Some (ucast core_id)" using from_chars_nat_str [of "[]" "ucast core_id :: u64"] by simp
  have "ucast (ucast core_id :: u64) = core_id" by (rule bit_word_eqI) (auto simp: bit_simps)
  then show ?thesis
    by (simp add: parse_session_core_def user_session_value_def u64_str_def tw safe_parse_u64_def s c Let_def)
qed

text \<open>
  A whisper reaches the session its target logged in from. If Redis returns for the target's key what the auth
  service stored there at the login, an acceptable whisper is pushed to the core and the session of that login, and
  then answered to the sender.
\<close>
theorem whisper_reaches_login:
  assumes "fst (cd_redis cd [''GET'', user_session_key (wrq_target_user_id req)] (ch_env cw)) = Inr reply"
    and "\<not> rr_is_nil reply" "rr_str reply = user_session_value (km_session_id login) (km_core_id login)"
    and "wrq_content req = Some content" "content \<noteq> ''''" "length content \<le> unat (cc_max_message_length (cd_config cd))"
    and "wrq_target_user_id req \<noteq> km_user_id meta"
  shows "\<exists>push answer. ch_replies (snd (on_whisper cd meta req cw)) = ch_replies cw @ [push, answer] \<and>
    cr_msg_id push = WHISPER_MESSAGE \<and> cr_core_id push = km_core_id login \<and> cr_session_id push = km_session_id login \<and>
    cr_msg_id answer = WHISPER_RESPONSE \<and> cr_session_id answer = km_session_id meta"
proof -
  have g: "fst (chat_redis cd [''GET'', ''session:user:'' @ u64_str (wrq_target_user_id req)] cw) = Inr reply"
    using assms(1) by (simp add: chat_redis_def user_session_key_def split_def Let_def)
  show ?thesis
    using assms(2-)
    by (simp add: on_whisper_def content_size_def validate_message_content_def Let_def split_def g [simplified] parse_user_session reply_to_def)
qed

section \<open>Witnesses\<close>

definition sample_hash :: string where
  "sample_hash = salt_prefix 12 @ encode_base64 (replicate 16 7) @ bcrypt_tail ''secret'' 12 (replicate 16 7)"

lemma sample_hash_verifies: "hasher_verify ''secret'' sample_hash = Some True"
proof -
  have "apex_bcrypt_checkpw ''secret'' sample_hash = Some 0"
    unfolding checkpw_iff sample_hash_def by (intro hashpw_encoded) simp_all
  moreover have "c_str sample_hash = sample_hash" "c_str ''secret'' = ''secret''"
    using salt_prefix_no_NUL encode_base64_no_NUL bcrypt_tail_no_NUL
    by (auto intro!: c_str_id simp: sample_hash_def NUL_def)
  ultimately show ?thesis by (simp add: hasher_verify_def)
qed

definition sample_rows :: "string \<Rightarrow> string option list list" where
  "sample_rows sql =
     (if sql = SQL_USER then [[Some ''7'', Some sample_hash, None]]
      else if sql = SQL_LOOKUP_TOKEN then [[Some ''7'', None, Some ''2026-01-01'', Some ''family'']]
      else if sql = SQL_EMAIL then [[Some ''a@b'']] else [])"

definition sample_manager :: JwtManager where
  "sample_manager = \<lparr>jm_private_key = ''private'', jm_public_key = ''public'', jm_issuer = ''apex-auth'', jm_access_token_ttl = 900\<rparr>"

definition sample_hex :: "nat \<Rightarrow> string" where "sample_hex n = concat (map byte_hex (replicate n 0))"

definition sample_payload :: jwt_payload where
  "sample_payload = access_payload sample_manager 0 7 ''a@b'' (sample_hex 16)"

definition sample_jwt :: "jwt_payload jwt_cpp" where
  "sample_jwt = \<lparr>jl_decode = (\<lambda>t. if t = ''token'' then Some sample_payload else None), jl_verify = (\<lambda>k i s p. True),
     jl_claim = (\<lambda>p n. if n = ''uid'' then Some (pl_uid p) else if n = ''jti'' then Some (pl_jti p) else None),
     jl_has_claim = (\<lambda>p n. n = ''uid'' \<or> n = ''jti''), jl_subject = (\<lambda>p. Some (pl_subject p)),
     jl_expires_at = (\<lambda>p. Some (pl_expires_at p)), jl_sign = (\<lambda>pub priv p. if p = sample_payload then Some ''token'' else None),
     jl_check = (\<lambda>k i p. Verified), jl_issued_at = (\<lambda>p. Some (pl_issued_at p))\<rparr>"

text \<open>In the environment \<open>1\<close> a commit fails.\<close>

definition sample_auth_deps :: "(nat, jwt_payload) auth_deps" where
  "sample_auth_deps = \<lparr>ad_config = AuthConfig_default, ad_jwt_manager = sample_manager, ad_jwt = sample_jwt,
     ad_query = (\<lambda>sql ps e. (Inr (Some \<lparr>pr_status = PGRES_TUPLES_OK, pr_rows = sample_rows sql, pr_columns = [], pr_cmd_tuples = '''', pr_error = ''''\<rparr>), e)),
     ad_execute = (\<lambda>sql ps e. (Inr 1, e)), ad_acquire = (\<lambda>e. (Inr 4, e)),
     ad_conn_query = (\<lambda>c sql ps e. (if sql = ''COMMIT'' \<and> e = 1 then Inl AdapterError else Inr None, e)),
     ad_release = (\<lambda>c e. e), ad_discard = (\<lambda>c e. e), ad_mark_poisoned = (\<lambda>c e. e),
     ad_redis = (\<lambda>cmd e. (Inr (RedisReply ''OK'' 0 REPLY_STATUS []), e)),
     ad_produce = (\<lambda>t k b e. (Inr (), e)), ad_sha256 = (\<lambda>s. map char_byte s), ad_random = (\<lambda>n e. (Some (replicate n 0), e)),
     ad_now = (\<lambda>e. 0), ad_now_ms = (\<lambda>e. 0), ad_fbs = (\<lambda>m. []), ad_parse_login = (\<lambda>b. None), ad_parse_logout = (\<lambda>b. None),
     ad_parse_refresh = (\<lambda>b. None)\<rparr>"

definition sample_auth :: "nat \<Rightarrow> nat auth" where "sample_auth e = \<lparr>aw_env = e, aw_replies = [], aw_log = []\<rparr>"

lemma sql_distinct [simp]:
  "SQL_LOOKUP_TOKEN \<noteq> SQL_USER" "SQL_EMAIL \<noteq> SQL_USER" "SQL_EXPIRED \<noteq> SQL_USER"
  "SQL_EMAIL \<noteq> SQL_LOOKUP_TOKEN" "SQL_EXPIRED \<noteq> SQL_LOOKUP_TOKEN" "SQL_EXPIRED \<noteq> SQL_EMAIL"
  by (simp_all add: SQL_USER_def SQL_LOOKUP_TOKEN_def SQL_EMAIL_def SQL_EXPIRED_def)

lemma sample_query:
  "auth_query sample_auth_deps sql ps w =
     (Inr (Some \<lparr>pr_status = PGRES_TUPLES_OK, pr_rows = sample_rows sql, pr_columns = [], pr_cmd_tuples = '''', pr_error = ''''\<rparr>),
      auth_log (Queried sql ps) w)"
  by (simp add: auth_query_def with_env_def sample_auth_deps_def auth_log_def)

lemma sample_token: "generate_secure_token (ad_random sample_auth_deps) n e = (Inr (sample_hex n), e)"
  by (simp only: generate_secure_token_def sample_auth_deps_def auth_deps.simps prod.case option.case sample_hex_def)

lemma sample_random: "with_env (generate_secure_token (ad_random sample_auth_deps) 32) w = (Inr (sample_hex 32), w)"
  by (simp add: with_env_def sample_token)

lemma sample_jti: "sample_hex 16 \<noteq> ''''"
proof -
  have "length (sample_hex 16) = 32" unfolding sample_hex_def length_hex by simp
  then show ?thesis by auto
qed

lemma sample_sign: "jl_sign (ad_jwt sample_auth_deps) pub priv (access_payload sample_manager 0 7 ''a@b'' (sample_hex 16)) = Some ''token''"
  by (simp add: sample_auth_deps_def sample_jwt_def sample_payload_def)

lemma sample_service: "ad_jwt_manager sample_auth_deps = sample_manager" "ad_now sample_auth_deps = (\<lambda>e. 0)"
  by (simp_all add: sample_auth_deps_def)

lemma sample_access: "auth_token sample_auth_deps 7 ''a@b'' w = (''token'', w)"
  by (simp add: auth_token_def with_env_def create_access_token_def generate_jti_def sample_token sample_service sample_jti sample_sign Let_def)
     (simp add: sample_manager_def)

lemma sample_user: "from_chars_u64 ''7'' = Some 7"
  by (simp add: from_chars_u64_def is_digit_def str_nat_def)

definition sample_login :: LoginRequest where "sample_login = \<lparr>lq_email = Some ''a@b'', lq_password = Some ''secret''\<rparr>"

lemma sample_login_granted:
  "on_login sample_auth_deps sample_meta sample_login (sample_auth 0) =
   grant_login sample_auth_deps sample_meta 7 ''a@b'' (auth_log (Queried SQL_USER [''a@b'']) (sample_auth 0))"
  by (simp add: on_login_def sample_login_def sample_query sample_rows_def row_count_def pg_value_def is_null_def
      sample_user sample_hash_verifies)


lemma sample_lookup:
  "on_refresh_token sample_auth_deps sample_meta (Some ''old'') (sample_auth e) =
   (case rotate_token sample_auth_deps sample_meta (sha256_hex (ad_sha256 sample_auth_deps) ''old'')
      [sha256_hex (ad_sha256 sample_auth_deps) (sample_hex 32), u64_str 7,
       int_str 604800, ''family'']
      (auth_log (Queried SQL_EXPIRED [sha256_hex (ad_sha256 sample_auth_deps) ''old''])
        (auth_log (Queried SQL_LOOKUP_TOKEN [sha256_hex (ad_sha256 sample_auth_deps) ''old'']) (sample_auth e))) of
      Inl answer \<Rightarrow> answer | Inr w \<Rightarrow> grant_refresh sample_auth_deps sample_meta 7 (sample_hex 32) w)"
  by (simp only: on_refresh_token_def Let_def option.case sample_query prod.case sum.case sample_random)
     (simp add: sample_rows_def row_count_def pg_value_def is_null_def sample_user sample_auth_deps_def AuthConfig_default_def)

lemma sample_conn:
  "auth_conn sample_auth_deps c sql ps w =
     (if sql = ''COMMIT'' \<and> aw_env w = 1 then Inl AdapterError else Inr None,
      auth_log (Ran c sql ps (\<not> (sql = ''COMMIT'' \<and> aw_env w = 1))) w)"
  by (simp add: auth_conn_def with_env_def sample_auth_deps_def auth_log_def)

lemma sample_acquire: "auth_acquire sample_auth_deps w = (Inr 4, auth_log (Acquired 4) w)"
  by (simp add: auth_acquire_def with_env_def sample_auth_deps_def auth_log_def)

lemmas sample_rotation = rotate_token_def sample_acquire tx_begin_def tx_execute_params_def tx_commit_def PgTransaction_new_def
  sample_conn

theorem failed_commit_marks_freed_connection_witness:
  "\<exists>pre. aw_log (snd (on_refresh_token sample_auth_deps sample_meta (Some ''old'') (sample_auth 1))) = pre @ [Discarded 4, Poisoned 4]"
proof (rule failed_commit_marks_freed_connection)
  show "aw_log (sample_auth 1) = []" by (simp add: sample_auth_def)
  show "Ran 4 ''COMMIT'' [] False \<in> set (aw_log (snd (on_refresh_token sample_auth_deps sample_meta (Some ''old'') (sample_auth 1))))"
    unfolding sample_lookup by (simp add: sample_rotation rotation_failed_log sample_auth_def commit_statement [symmetric])
qed

theorem refresh_rotates_token_witness:
  "\<exists>c. {Ran c ''BEGIN'' [] True, Ran c ''COMMIT'' [] True, Released c} \<subseteq>
     set (aw_log (snd (on_refresh_token sample_auth_deps sample_meta (Some ''old'') (sample_auth 0))))"
proof -
  obtain reply access ttl new where
    "aw_replies (snd (on_refresh_token sample_auth_deps sample_meta (Some ''old'') (sample_auth 0))) = aw_replies (sample_auth 0) @ [reply]"
    "ar_message reply = RefreshTokenResponse REFRESH_NONE access ttl new"
    unfolding sample_lookup
    by (simp add: sample_rotation commit_statement [symmetric] sample_auth_def tx_destroy_def grant_refresh_def sample_query
        sample_rows_def row_count_def pg_value_def is_null_def sample_access auth_reply_to_def Let_def)
  from refresh_rotates_token [OF this] show ?thesis by (elim exE conjE) auto
qed

lemma sample_signs: "jwt_signs (ad_jwt sample_auth_deps) pub priv skew"
  by (simp add: jwt_signs_def sample_auth_deps_def sample_jwt_def)

lemma sample_random_bytes: "random_bytes (ad_random sample_auth_deps)"
  by (simp add: random_bytes_def sample_auth_deps_def)


theorem logout_blacklists_token_witness:
  "fst (is_blacklisted (\<lambda>cmd e. (Inr (RedisReply '''' 1 REPLY_INTEGER []), e)) (sample_hex 16) ()) = Inr True"
proof -
  have v: "verify_access_token (ad_jwt sample_auth_deps) (ad_jwt_manager sample_auth_deps) ''token'' =
      Inr \<lparr>cl_user_id = 7, cl_email = ''a@b'', cl_jti = sample_hex 16, cl_issued_at = 0, cl_expires_at = 900 * 10 ^ 9\<rparr>"
    using from_chars_nat_str [of "[]" 7]
    by (simp add: verify_access_token_def sample_service sample_manager_def sample_auth_deps_def sample_jwt_def sample_payload_def
        access_payload_def u64_str_def)
  have "generate_jti (ad_random sample_auth_deps) 0 = (sample_hex 16, 0)" by (simp add: generate_jti_def sample_token)
  from generate_jti_valid(1) [OF sample_random_bytes this sample_jti]
  have "is_valid_token_hash (sample_hex 16)" .
  then show ?thesis
    using logout_blacklists_token [OF v, of "sample_auth 0" sample_meta "\<lambda>cmd e. (Inr (RedisReply '''' 1 REPLY_INTEGER []), e)" "()"]
    by (simp add: remaining_ttl_def sample_service sample_auth_deps_def sample_jwt_def sample_payload_def access_payload_def sample_manager_def)
qed

theorem whisper_reaches_login_witness:
  "\<exists>push answer. ch_replies (snd (on_whisper (sample_chat_deps\<lparr>cd_redis := \<lambda>cmd e. (Inr (RedisReply (user_session_value 9 0) 0 REPLY_STRING []), e)\<rparr>)
      sample_meta \<lparr>wrq_target_user_id = 3, wrq_content = Some ''hi''\<rparr> sample_chat)) = ch_replies sample_chat @ [push, answer] \<and>
     cr_session_id push = 9 \<and> cr_core_id push = 0"
  using whisper_reaches_login [of "sample_chat_deps\<lparr>cd_redis := \<lambda>cmd e. (Inr (RedisReply (user_session_value 9 0) 0 REPLY_STRING []), e)\<rparr>"
      "\<lparr>wrq_target_user_id = 3, wrq_content = Some ''hi''\<rparr>" sample_chat "RedisReply (user_session_value 9 0) 0 REPLY_STRING []"
      sample_meta "''hi''" sample_meta]
  by (auto simp: rr_is_nil_def sample_meta_def sample_chat_deps_def ChatConfig_default_def)

end
