(* ===== verification/Redis_Multiplexer.thy ===== *)
theory Redis_Multiplexer
  imports Redis_Rate_Limiter
begin

text \<open>
  \<open>redis_multiplexer.cpp\<close> with \<open>redis_connection.cpp\<close>: the commands of one core share one connection, and replies are
  matched to commands by their order. The loop of the core is explicit: timers that expire and coroutines that are to go
  on are handlers in \<open>mx_ready\<close>, run in order, while replies of hiredis come in between. Every \<open>PendingCommand\<close> has an
  identity of its own, so that a pointer to a destroyed one is seen even if its slot is used again; such an access, or
  one to a context that hiredis has freed, sets \<open>mx_undefined\<close>.
\<close>

section \<open>State\<close>

record PendingCommand =
  pd_result :: "RedisReply result"
  pd_sequence :: u64
  pd_timed_out :: bool
  pd_cancelled :: bool
  pd_armed :: bool

text \<open>A connection: whether it counts as connected, the commands hiredis awaits replies for, and whether hiredis still has
  its context.\<close>

record redis_conn =
  rc_id :: nat
  rc_connected :: bool
  rc_wire :: "nat list"
  rc_alive :: bool

text \<open>What a coroutine that waits for a reply does next: return it to its caller, or finish an authentication of the given
  connection, of the first connect or of the reconnect loop with its backoff.\<close>

datatype waiter = Caller | InitialAuth nat | ReconnectAuth nat int

datatype handler = TimeoutExpired nat | Resume nat waiter | StartAuth | StartReconnect | ReconnectAborted

record RedisMultiplexer =
  mx_pending :: "nat list"
  mx_conn :: "redis_conn option"
  mx_slab :: "nat \<rightharpoonup> PendingCommand"
  mx_next_sequence :: u64
  mx_backoff :: "int option"
  mx_reconnect_attempts :: u32
  mx_reconnect_active :: bool
  mx_commands_total :: u64
  mx_password :: bool
  mx_max_backoff :: int
  mx_suspended :: "nat \<rightharpoonup> waiter"
  mx_ready :: "handler list"
  mx_next :: nat
  mx_next_conn :: nat
  mx_answers :: "(nat \<times> RedisReply result) list"
  mx_undefined :: bool

definition RedisMultiplexer_new :: "bool \<Rightarrow> int \<Rightarrow> RedisMultiplexer" where
  "RedisMultiplexer_new password max_backoff =
     \<lparr>mx_pending = [], mx_conn = None, mx_slab = Map.empty, mx_next_sequence = 0, mx_backoff = None, mx_reconnect_attempts = 0,
      mx_reconnect_active = False, mx_commands_total = 0, mx_password = password, mx_max_backoff = max_backoff,
      mx_suspended = Map.empty, mx_ready = [], mx_next = 0, mx_next_conn = 0, mx_answers = [], mx_undefined = False\<rparr>"

definition undefined_behaviour :: "RedisMultiplexer \<Rightarrow> RedisMultiplexer" where
  "undefined_behaviour m = m\<lparr>mx_undefined := True\<rparr>"

definition post :: "handler \<Rightarrow> RedisMultiplexer \<Rightarrow> RedisMultiplexer" where
  "post h m = m\<lparr>mx_ready := mx_ready m @ [h]\<rparr>"

text \<open>Cancelling the timer a coroutine waits on lets it go on; if none waits, nothing happens.\<close>

definition resolver_cancel :: "nat \<Rightarrow> RedisMultiplexer \<Rightarrow> RedisMultiplexer" where
  "resolver_cancel s m =
     (case mx_suspended m s of
        None \<Rightarrow> m
      | Some w \<Rightarrow> post (Resume s w) (m\<lparr>mx_suspended := (mx_suspended m)(s := None)\<rparr>))"

text \<open>The destructor of the timers cancels them too.\<close>

definition slab_destroy :: "nat \<Rightarrow> RedisMultiplexer \<Rightarrow> RedisMultiplexer" where
  "slab_destroy s m = (let m = resolver_cancel s m in m\<lparr>mx_slab := (mx_slab m)(s := None)\<rparr>)"

definition set_command :: "nat \<Rightarrow> PendingCommand \<Rightarrow> RedisMultiplexer \<Rightarrow> RedisMultiplexer" where
  "set_command s c m = m\<lparr>mx_slab := (mx_slab m)(s \<mapsto> c)\<rparr>"

section \<open>Commands\<close>

text \<open>The part that \<open>command\<close>, \<open>submit_formatted_command\<close> and \<open>authenticate\<close> have in common, up to the wait: \<open>alloc\<close> is
  whether the slab has a slot, \<open>sent\<close> whether hiredis takes the command.\<close>

definition enqueue :: "waiter \<Rightarrow> bool \<Rightarrow> bool \<Rightarrow> RedisMultiplexer \<Rightarrow> unit result \<times> RedisMultiplexer" where
  "enqueue w alloc sent m =
     (let seq = mx_next_sequence m; m = m\<lparr>mx_next_sequence := seq + 1\<rparr> in
      if \<not> alloc then (Inl AdapterError, m)
      else let s = mx_next m;
               c = \<lparr>pd_result = Inl Timeout, pd_sequence = seq, pd_timed_out = False, pd_cancelled = False, pd_armed = False\<rparr>;
               m = (set_command s c m)\<lparr>mx_pending := mx_pending m @ [s]\<rparr>;
               m = (if w = Caller then m\<lparr>mx_commands_total := mx_commands_total m + 1\<rparr> else m)
           in if \<not> sent then (Inl AdapterError, slab_destroy s (m\<lparr>mx_pending := butlast (mx_pending m)\<rparr>))
              else (Inr (), (set_command s (c\<lparr>pd_armed := True\<rparr>) m)
                     \<lparr>mx_conn := map_option (\<lambda>rc. rc\<lparr>rc_wire := rc_wire rc @ [s]\<rparr>) (mx_conn m),
                      mx_suspended := (mx_suspended m)(s \<mapsto> w), mx_next := s + 1\<rparr>))"

definition submit_formatted_command :: "bool \<Rightarrow> bool \<Rightarrow> RedisMultiplexer \<Rightarrow> unit result \<times> RedisMultiplexer" where
  "submit_formatted_command alloc sent m =
     (case mx_conn m of
        None \<Rightarrow> (Inl AdapterError, m)
      | Some rc \<Rightarrow>
          if \<not> rc_connected rc then (Inl AdapterError, m)
          else if \<not> rc_alive rc then (Inl AdapterError, undefined_behaviour m)
          else enqueue Caller alloc sent m)"

definition static_on_reply :: "RedisReply option \<Rightarrow> RedisMultiplexer \<Rightarrow> RedisMultiplexer" where
  "static_on_reply r m =
     (case mx_pending m of
        [] \<Rightarrow> m
      | front # rest \<Rightarrow>
          let m = m\<lparr>mx_pending := rest\<rparr> in
          case mx_slab m front of
            None \<Rightarrow> undefined_behaviour m
          | Some c \<Rightarrow>
              if pd_cancelled c then m
              else if pd_timed_out c then slab_destroy front m
              else let res = (case r of Some reply \<Rightarrow> if \<not> rr_type reply = REPLY_ERROR then Inr reply else Inl AdapterError
                                      | None \<Rightarrow> Inl AdapterError)
                   in resolver_cancel front (set_command front (c\<lparr>pd_result := res\<rparr>) m))"

definition on_timeout :: "nat \<Rightarrow> RedisMultiplexer \<Rightarrow> RedisMultiplexer" where
  "on_timeout s m =
     (case mx_slab m s of
        None \<Rightarrow> undefined_behaviour m
      | Some c \<Rightarrow> resolver_cancel s (set_command s (c\<lparr>pd_timed_out := True, pd_result := Inl Timeout\<rparr>) m))"

definition release_pending :: "nat \<Rightarrow> PendingCommand \<Rightarrow> RedisMultiplexer \<Rightarrow> RedisMultiplexer" where
  "release_pending s c m = (if pd_timed_out c then m else slab_destroy s m)"

definition cancel_one :: "ErrorCode \<Rightarrow> nat \<Rightarrow> RedisMultiplexer \<Rightarrow> RedisMultiplexer" where
  "cancel_one err s m =
     (case mx_slab m s of
        None \<Rightarrow> undefined_behaviour m
      | Some c \<Rightarrow>
          let m = set_command s (c\<lparr>pd_result := Inl err, pd_cancelled := True\<rparr>) m in
          if pd_timed_out c then slab_destroy s m else resolver_cancel s m)"

definition cancel_all_pending :: "ErrorCode \<Rightarrow> RedisMultiplexer \<Rightarrow> RedisMultiplexer" where
  "cancel_all_pending err m = fold (cancel_one err) (mx_pending m) (m\<lparr>mx_pending := []\<rparr>)"

section \<open>Connections\<close>

text \<open>hiredis answers what is outstanding with null replies when it drops a connection.\<close>

definition null_replies :: "RedisMultiplexer \<Rightarrow> RedisMultiplexer" where
  "null_replies m =
     (case mx_conn m of
        None \<Rightarrow> m
      | Some rc \<Rightarrow> ((static_on_reply None) ^^ length (rc_wire rc)) (m\<lparr>mx_conn := Some (rc\<lparr>rc_wire := []\<rparr>)\<rparr>))"

definition conn_disconnect :: "RedisMultiplexer \<Rightarrow> RedisMultiplexer" where
  "conn_disconnect m =
     (case mx_conn m of
        None \<Rightarrow> m
      | Some rc \<Rightarrow>
          if \<not> rc_connected rc then m
          else if \<not> rc_alive rc then undefined_behaviour m
          else null_replies (m\<lparr>mx_conn := Some (rc\<lparr>rc_connected := False\<rparr>)\<rparr>))"

definition conn_reset :: "RedisMultiplexer \<Rightarrow> RedisMultiplexer" where
  "conn_reset m = (conn_disconnect m)\<lparr>mx_conn := None\<rparr>"

text \<open>The server closes the connection: hiredis drops it and frees its context; no callback tells the multiplexer.\<close>

definition server_disconnect :: "RedisMultiplexer \<Rightarrow> RedisMultiplexer" where
  "server_disconnect m =
     (case mx_conn m of
        None \<Rightarrow> m
      | Some rc \<Rightarrow> if rc_alive rc then null_replies (m\<lparr>mx_conn := Some (rc\<lparr>rc_alive := False\<rparr>)\<rparr>) else m)"

definition new_conn :: "RedisMultiplexer \<Rightarrow> redis_conn" where
  "new_conn m = \<lparr>rc_id = mx_next_conn m, rc_connected = True, rc_wire = [], rc_alive = True\<rparr>"

definition set_new_conn :: "RedisMultiplexer \<Rightarrow> RedisMultiplexer" where
  "set_new_conn m = (conn_reset m)\<lparr>mx_conn := Some (new_conn m), mx_next_conn := mx_next_conn m + 1\<rparr>"

definition on_disconnect :: "RedisMultiplexer \<Rightarrow> RedisMultiplexer" where
  "on_disconnect m =
     (if mx_reconnect_active m then m
      else post StartReconnect ((cancel_all_pending AdapterError m)\<lparr>mx_reconnect_active := True\<rparr>))"

text \<open>What is left of the reconnect loop's round when the attempt failed: the wait.\<close>

definition reconnect_wait :: "int \<Rightarrow> RedisMultiplexer \<Rightarrow> RedisMultiplexer" where
  "reconnect_wait backoff m = m\<lparr>mx_backoff := Some backoff\<rparr>"

definition reconnected :: "RedisMultiplexer \<Rightarrow> RedisMultiplexer" where
  "reconnected m = m\<lparr>mx_reconnect_attempts := 0, mx_reconnect_active := False\<rparr>"

definition reconnect_round :: "int \<Rightarrow> bool \<Rightarrow> bool \<Rightarrow> bool \<Rightarrow> RedisMultiplexer \<Rightarrow> RedisMultiplexer" where
  "reconnect_round backoff created alloc sent m =
     (let m = m\<lparr>mx_reconnect_attempts := mx_reconnect_attempts m + 1\<rparr> in
      if \<not> created then reconnect_wait backoff (conn_reset m)
      else let m = set_new_conn m in
           if \<not> mx_password m then reconnected m
           else case enqueue (ReconnectAuth (mx_next_conn m - 1) backoff) alloc sent m of
                  (Inl e, m) \<Rightarrow> reconnect_wait backoff (conn_reset m)
                | (Inr u, m) \<Rightarrow> m)"

definition backoff_expired :: "bool \<Rightarrow> bool \<Rightarrow> bool \<Rightarrow> RedisMultiplexer \<Rightarrow> RedisMultiplexer" where
  "backoff_expired created alloc sent m =
     (case mx_backoff m of
        None \<Rightarrow> m
      | Some backoff \<Rightarrow> reconnect_round (min (backoff * 2) (mx_max_backoff m)) created alloc sent (m\<lparr>mx_backoff := None\<rparr>))"

text \<open>\<open>connect\<close> leaves the authentication and the reconnect loop to the loop of the core. When \<open>initial_auth\<close> starts, its
  connection may be gone.\<close>

definition mux_connect :: "bool \<Rightarrow> RedisMultiplexer \<Rightarrow> RedisMultiplexer" where
  "mux_connect created m =
     (if created
      then let m = set_new_conn m in if mx_password m then post StartAuth m else m
      else post StartReconnect ((conn_reset m)\<lparr>mx_reconnect_active := True\<rparr>))"

definition initial_auth :: "bool \<Rightarrow> bool \<Rightarrow> RedisMultiplexer \<Rightarrow> RedisMultiplexer" where
  "initial_auth alloc sent m =
     (case mx_conn m of
        None \<Rightarrow> undefined_behaviour m
      | Some rc \<Rightarrow>
          if \<not> (rc_connected rc \<and> rc_alive rc) then undefined_behaviour m
          else case enqueue (InitialAuth (rc_id rc)) alloc sent m of
                 (Inl e, m) \<Rightarrow> on_disconnect (conn_reset m)
               | (Inr u, m) \<Rightarrow> m)"

definition mux_close :: "RedisMultiplexer \<Rightarrow> RedisMultiplexer" where
  "mux_close m =
     (let m = (if mx_backoff m \<noteq> None then post ReconnectAborted (m\<lparr>mx_backoff := None\<rparr>) else m);
          m = cancel_all_pending AdapterError m
      in conn_reset m)"

section \<open>The loop\<close>

text \<open>After the wait: a failed authentication of a connection that is no longer the current one uses a destroyed object, and
  nothing is known of what follows.\<close>

definition conn_current :: "nat \<Rightarrow> RedisMultiplexer \<Rightarrow> bool" where
  "conn_current cid m = (case mx_conn m of None \<Rightarrow> False | Some rc \<Rightarrow> rc_id rc = cid)"

definition auth_failed :: "nat \<Rightarrow> (RedisMultiplexer \<Rightarrow> RedisMultiplexer) \<Rightarrow> RedisMultiplexer \<Rightarrow> RedisMultiplexer" where
  "auth_failed cid cont m =
     (if conn_current cid m then cont (conn_reset (conn_disconnect m)) else undefined_behaviour m)"

definition resume :: "nat \<Rightarrow> waiter \<Rightarrow> RedisMultiplexer \<Rightarrow> RedisMultiplexer" where
  "resume s w m =
     (case mx_slab m s of
        None \<Rightarrow> undefined_behaviour m
      | Some c \<Rightarrow>
          let m = set_command s (c\<lparr>pd_armed := False\<rparr>) m;
              result = pd_result c;
              m = release_pending s c m
          in case w of
               Caller \<Rightarrow> m\<lparr>mx_answers := mx_answers m @ [(s, result)]\<rparr>
             | InitialAuth cid \<Rightarrow> if isl result then auth_failed cid on_disconnect m else m
             | ReconnectAuth cid backoff \<Rightarrow> if isl result then auth_failed cid (reconnect_wait backoff) m else reconnected m)"

definition run_handler :: "bool \<Rightarrow> bool \<Rightarrow> bool \<Rightarrow> RedisMultiplexer \<Rightarrow> RedisMultiplexer" where
  "run_handler created alloc sent m =
     (case mx_ready m of
        [] \<Rightarrow> m
      | h # hs \<Rightarrow>
          let m = m\<lparr>mx_ready := hs\<rparr> in
          case h of
            TimeoutExpired s \<Rightarrow> on_timeout s m
          | Resume s w \<Rightarrow> resume s w m
          | StartAuth \<Rightarrow> initial_auth alloc sent m
          | StartReconnect \<Rightarrow> reconnect_round 100 created alloc sent m
          | ReconnectAborted \<Rightarrow> m\<lparr>mx_reconnect_active := False\<rparr>)"

text \<open>The timer of a command expires: its handler is ready, and can no longer be cancelled.\<close>

definition expire :: "nat \<Rightarrow> RedisMultiplexer \<Rightarrow> RedisMultiplexer" where
  "expire s m =
     (case mx_slab m s of
        None \<Rightarrow> m
      | Some c \<Rightarrow> if pd_armed c then post (TimeoutExpired s) (set_command s (c\<lparr>pd_armed := False\<rparr>) m) else m)"

text \<open>\<open>srv s\<close> is what the server answers to the command \<open>s\<close>.\<close>

definition reply_arrives :: "(nat \<Rightarrow> RedisReply) \<Rightarrow> RedisMultiplexer \<Rightarrow> RedisMultiplexer" where
  "reply_arrives srv m =
     (case mx_conn m of
        None \<Rightarrow> m
      | Some rc \<Rightarrow>
          (case rc_wire rc of
             [] \<Rightarrow> m
           | s # ws \<Rightarrow> static_on_reply (Some (srv s)) (m\<lparr>mx_conn := Some (rc\<lparr>rc_wire := ws\<rparr>)\<rparr>)))"

datatype mux_event = Command bool bool | Reply | Expire nat | Run bool bool bool | BackoffExpires bool bool bool | CloseMux
  | ServerCloses | ConnectMux bool

fun mux_step :: "(nat \<Rightarrow> RedisReply) \<Rightarrow> mux_event \<Rightarrow> RedisMultiplexer \<Rightarrow> RedisMultiplexer" where
  "mux_step srv (Command alloc sent) m = snd (submit_formatted_command alloc sent m)"
| "mux_step srv Reply m = reply_arrives srv m"
| "mux_step srv (Expire s) m = expire s m"
| "mux_step srv (Run created alloc sent) m = run_handler created alloc sent m"
| "mux_step srv (BackoffExpires created alloc sent) m = backoff_expired created alloc sent m"
| "mux_step srv CloseMux m = mux_close m"
| "mux_step srv ServerCloses m = server_disconnect m"
| "mux_step srv (ConnectMux created) m = mux_connect created m"

section \<open>What the operations keep\<close>

lemma helper_frames [simp]:
  "mx_conn (undefined_behaviour m) = mx_conn m" "mx_pending (undefined_behaviour m) = mx_pending m"
  "mx_conn (post h m) = mx_conn m" "mx_pending (post h m) = mx_pending m"
  "mx_conn (resolver_cancel s m) = mx_conn m" "mx_pending (resolver_cancel s m) = mx_pending m"
  "mx_conn (slab_destroy s m) = mx_conn m" "mx_pending (slab_destroy s m) = mx_pending m"
  "mx_conn (set_command s c m) = mx_conn m" "mx_pending (set_command s c m) = mx_pending m"
  "mx_conn (release_pending s c m) = mx_conn m" "mx_pending (release_pending s c m) = mx_pending m"
  "mx_conn (cancel_one err s m) = mx_conn m" "mx_pending (cancel_one err s m) = mx_pending m"
  "mx_conn (reconnect_wait b m) = mx_conn m" "mx_pending (reconnect_wait b m) = mx_pending m"
  "mx_conn (reconnected m) = mx_conn m" "mx_pending (reconnected m) = mx_pending m"
  by (simp_all add: undefined_behaviour_def post_def resolver_cancel_def slab_destroy_def set_command_def release_pending_def
      cancel_one_def reconnect_wait_def reconnected_def Let_def split: option.split)

lemma static_on_reply_frames [simp]:
  "mx_conn (static_on_reply r m) = mx_conn m" "mx_pending (static_on_reply r m) = tl (mx_pending m)"
  by (simp_all add: static_on_reply_def Let_def split: list.split option.split)

lemma null_reply_frames:
  "mx_conn ((static_on_reply None ^^ n) m) = mx_conn m \<and> mx_pending ((static_on_reply None ^^ n) m) = drop n (mx_pending m)"
  by (induction n) (simp_all add: tl_drop drop_Suc)

text \<open>The commands that wait for a match are those hiredis awaits replies for, in the same order; a dropped connection awaits
  none.\<close>

definition aligned :: "RedisMultiplexer \<Rightarrow> bool" where
  "aligned m \<longleftrightarrow>
     (case mx_conn m of
        None \<Rightarrow> mx_pending m = []
      | Some rc \<Rightarrow> mx_pending m = rc_wire rc \<and> (rc_connected rc \<and> rc_alive rc \<or> rc_wire rc = []))"

text \<open>A result that is a reply is the server's answer to the same command.\<close>

definition answer_ok :: "(nat \<Rightarrow> RedisReply) \<Rightarrow> nat \<Rightarrow> RedisReply result \<Rightarrow> bool" where
  "answer_ok srv s res \<longleftrightarrow> isl res \<or> res = Inr (srv s) \<and> rr_type (srv s) \<noteq> REPLY_ERROR"

definition results_ok :: "(nat \<Rightarrow> RedisReply) \<Rightarrow> RedisMultiplexer \<Rightarrow> bool" where
  "results_ok srv m \<longleftrightarrow>
     (\<forall>s c. mx_slab m s = Some c \<longrightarrow> answer_ok srv s (pd_result c)) \<and> (\<forall>(s, res) \<in> set (mx_answers m). answer_ok srv s res)"

lemma answer_ok_Inl [simp]: "answer_ok srv s (Inl e)"
  by (simp add: answer_ok_def)

lemma results_ok_record [simp]:
  "results_ok srv (m\<lparr>mx_pending := p\<rparr>) = results_ok srv m" "results_ok srv (m\<lparr>mx_conn := c\<rparr>) = results_ok srv m"
  "results_ok srv (m\<lparr>mx_ready := h\<rparr>) = results_ok srv m" "results_ok srv (m\<lparr>mx_backoff := b\<rparr>) = results_ok srv m"
  "results_ok srv (m\<lparr>mx_next_conn := n\<rparr>) = results_ok srv m" "results_ok srv (m\<lparr>mx_next := k\<rparr>) = results_ok srv m"
  "results_ok srv (m\<lparr>mx_next_sequence := q\<rparr>) = results_ok srv m" "results_ok srv (m\<lparr>mx_commands_total := t\<rparr>) = results_ok srv m"
  "results_ok srv (m\<lparr>mx_suspended := sp\<rparr>) = results_ok srv m" "results_ok srv (m\<lparr>mx_reconnect_active := a\<rparr>) = results_ok srv m"
  "results_ok srv (m\<lparr>mx_reconnect_attempts := at'\<rparr>) = results_ok srv m" "results_ok srv (m\<lparr>mx_undefined := u\<rparr>) = results_ok srv m"
  by (simp_all add: results_ok_def)

lemma results_ok_helpers [simp]:
  "results_ok srv (undefined_behaviour m) = results_ok srv m" "results_ok srv (post h m) = results_ok srv m"
  "results_ok srv (resolver_cancel s m) = results_ok srv m" "results_ok srv (reconnect_wait b m) = results_ok srv m"
  "results_ok srv (reconnected m) = results_ok srv m"
  by (simp_all add: undefined_behaviour_def post_def resolver_cancel_def reconnect_wait_def reconnected_def split: option.split)

lemma resolver_cancel_slab [simp]:
  "mx_slab (resolver_cancel s m) = mx_slab m" "mx_answers (resolver_cancel s m) = mx_answers m"
  by (simp_all add: resolver_cancel_def post_def split: option.split)

lemma results_ok_set: "results_ok srv m \<Longrightarrow> answer_ok srv s (pd_result c) \<Longrightarrow> results_ok srv (set_command s c m)"
  by (simp add: results_ok_def set_command_def)

lemma results_ok_destroy: "results_ok srv m \<Longrightarrow> results_ok srv (slab_destroy s m)"
  by (simp add: results_ok_def slab_destroy_def Let_def)

lemma results_ok_slab: "results_ok srv m \<Longrightarrow> mx_slab m s = Some c \<Longrightarrow> answer_ok srv s (pd_result c)"
  by (simp add: results_ok_def)

lemma static_on_reply_ok:
  "results_ok srv m \<Longrightarrow> r = None \<or> (\<exists>s rest. mx_pending m = s # rest \<and> r = Some (srv s)) \<Longrightarrow> results_ok srv (static_on_reply r m)"
  by (auto simp: static_on_reply_def Let_def results_ok_destroy answer_ok_def intro!: results_ok_set split: list.splits option.split)

lemma cancel_one_ok: "results_ok srv m \<Longrightarrow> results_ok srv (cancel_one err s m)"
  by (simp add: cancel_one_def Let_def results_ok_destroy results_ok_set split: option.split)

lemma cancel_all_ok:
  "results_ok srv m \<Longrightarrow> results_ok srv (cancel_all_pending err m)" "mx_conn (cancel_all_pending err m) = mx_conn m"
  "mx_pending (cancel_all_pending err m) = []"
proof -
  have f: "(results_ok srv m' \<longrightarrow> results_ok srv (fold (cancel_one err) ss m')) \<and> mx_conn (fold (cancel_one err) ss m') = mx_conn m' \<and>
    mx_pending (fold (cancel_one err) ss m') = mx_pending m'" for ss m'
    by (induction ss arbitrary: m') (simp_all add: cancel_one_ok)
  show "results_ok srv m \<Longrightarrow> results_ok srv (cancel_all_pending err m)" "mx_conn (cancel_all_pending err m) = mx_conn m"
    "mx_pending (cancel_all_pending err m) = []"
    using f [of "m\<lparr>mx_pending := []\<rparr>" "mx_pending m"] by (simp_all add: cancel_all_pending_def)
qed

text \<open>The invariant of every interleaving.\<close>

definition mux_ok :: "(nat \<Rightarrow> RedisReply) \<Rightarrow> RedisMultiplexer \<Rightarrow> bool" where
  "mux_ok srv m \<longleftrightarrow> aligned m \<and> results_ok srv m"

lemma null_replies_ok:
  assumes "mx_pending m = rc_wire rc" "mx_conn m = Some rc" "results_ok srv m"
  shows "mx_pending (null_replies m) = []" "mx_conn (null_replies m) = Some (rc\<lparr>rc_wire := []\<rparr>)" "results_ok srv (null_replies m)"
proof -
  have "results_ok srv ((static_on_reply None ^^ n) m')" if "results_ok srv m'" for n m'
    using that by (induction n) (simp_all add: static_on_reply_ok)
  then show "mx_pending (null_replies m) = []" "mx_conn (null_replies m) = Some (rc\<lparr>rc_wire := []\<rparr>)" "results_ok srv (null_replies m)"
    using assms null_reply_frames [of "length (rc_wire rc)" "m\<lparr>mx_conn := Some (rc\<lparr>rc_wire := []\<rparr>)\<rparr>"]
    by (simp_all add: null_replies_def)
qed

lemma conn_disconnect_ok: "mux_ok srv m \<Longrightarrow> mux_ok srv (conn_disconnect m)"
proof (cases "mx_conn m")
  case (Some rc)
  assume ok: "mux_ok srv m"
  let ?m = "m\<lparr>mx_conn := Some (rc\<lparr>rc_connected := False\<rparr>)\<rparr>"
  have "mx_pending ?m = rc_wire (rc\<lparr>rc_connected := False\<rparr>)" using ok Some by (simp add: mux_ok_def aligned_def)
  from null_replies_ok [OF this] show ?thesis
    using ok Some by (auto simp: conn_disconnect_def mux_ok_def aligned_def)
qed (simp add: conn_disconnect_def)

lemma conn_disconnect_empty: "mux_ok srv m \<Longrightarrow> mx_pending (conn_disconnect m) = []"
proof (cases "mx_conn m")
  case (Some rc)
  assume ok: "mux_ok srv m"
  let ?m = "m\<lparr>mx_conn := Some (rc\<lparr>rc_connected := False\<rparr>)\<rparr>"
  have "mx_pending ?m = rc_wire (rc\<lparr>rc_connected := False\<rparr>)" using ok Some by (simp add: mux_ok_def aligned_def)
  from null_replies_ok(1) [OF this] show ?thesis
    using ok Some by (auto simp: conn_disconnect_def mux_ok_def aligned_def)
qed (simp add: conn_disconnect_def mux_ok_def aligned_def)

lemma conn_reset_ok: "mux_ok srv m \<Longrightarrow> mux_ok srv (conn_reset m)" "mx_conn (conn_reset m) = None"
  using conn_disconnect_ok [of srv m] conn_disconnect_empty [of srv m] by (simp_all add: conn_reset_def mux_ok_def aligned_def)

lemma set_new_conn_ok: "mux_ok srv m \<Longrightarrow> mux_ok srv (set_new_conn m)" "mx_conn (set_new_conn m) = Some (new_conn m)"
  using conn_reset_ok(1) [of srv m] conn_reset_ok(2) [of m] by (simp_all add: set_new_conn_def mux_ok_def aligned_def new_conn_def)

lemma enqueue_ok:
  assumes "mux_ok srv m" "mx_conn m = Some rc" "rc_connected rc" "rc_alive rc"
  shows "mux_ok srv (snd (enqueue w alloc sent m))"
  using assms by (auto simp: enqueue_def Let_def mux_ok_def aligned_def results_ok_destroy results_ok_set)

lemma mux_ok_record [simp]:
  "mux_ok srv (m\<lparr>mx_ready := h\<rparr>) = mux_ok srv m" "mux_ok srv (m\<lparr>mx_backoff := b\<rparr>) = mux_ok srv m"
  "mux_ok srv (m\<lparr>mx_reconnect_active := a\<rparr>) = mux_ok srv m" "mux_ok srv (m\<lparr>mx_reconnect_attempts := n\<rparr>) = mux_ok srv m"
  "mux_ok srv (undefined_behaviour m) = mux_ok srv m" "mux_ok srv (post hd' m) = mux_ok srv m"
  "mux_ok srv (resolver_cancel s m) = mux_ok srv m" "mux_ok srv (reconnect_wait bo m) = mux_ok srv m"
  "mux_ok srv (reconnected m) = mux_ok srv m"
  by (simp_all add: mux_ok_def aligned_def split: option.split)

lemma mux_ok_set: "mux_ok srv m \<Longrightarrow> answer_ok srv s (pd_result c) \<Longrightarrow> mux_ok srv (set_command s c m)"
  by (simp add: mux_ok_def aligned_def results_ok_set split: option.splits)

lemma mux_ok_slab: "mux_ok srv m \<Longrightarrow> mx_slab m s = Some c \<Longrightarrow> answer_ok srv s (pd_result c)"
  by (simp add: mux_ok_def results_ok_def)

lemma mux_ok_release: "mux_ok srv m \<Longrightarrow> mux_ok srv (release_pending s c m)"
  by (simp add: mux_ok_def aligned_def release_pending_def results_ok_destroy split: option.splits)

lemma mux_ok_answer: "mux_ok srv m \<Longrightarrow> answer_ok srv s res \<Longrightarrow> mux_ok srv (m\<lparr>mx_answers := mx_answers m @ [(s, res)]\<rparr>)"
  by (auto simp: mux_ok_def aligned_def results_ok_def split: option.splits)

lemma on_disconnect_ok: "mux_ok srv m \<Longrightarrow> mx_conn m = None \<Longrightarrow> mux_ok srv (on_disconnect m)"
  by (simp add: on_disconnect_def mux_ok_def aligned_def cancel_all_ok)

lemma reset_ok: "mux_ok srv m \<Longrightarrow> mux_ok srv (conn_reset (conn_disconnect m))"
  by (intro conn_reset_ok conn_disconnect_ok)

lemma resume_ok: "mux_ok srv m \<Longrightarrow> mux_ok srv (resume s w m)"
proof (cases "mx_slab m s")
  case (Some c)
  assume ok: "mux_ok srv m"
  let ?m = "release_pending s c (set_command s (c\<lparr>pd_armed := False\<rparr>) m)"
  have a: "answer_ok srv s (pd_result c)" using mux_ok_slab [OF ok Some] .
  then have m: "mux_ok srv ?m" using ok by (intro mux_ok_release mux_ok_set) simp_all
  have d: "mux_ok srv (on_disconnect (conn_reset (conn_disconnect ?m)))"
    using reset_ok [OF m] conn_reset_ok(2) by (rule on_disconnect_ok)
  show ?thesis
    using m a d reset_ok [OF m] mux_ok_answer [OF m a]
    by (cases w) (simp_all add: resume_def Some auth_failed_def Let_def)
qed (simp add: resume_def)

lemma reconnect_round_ok: "mux_ok srv m \<Longrightarrow> mux_ok srv (reconnect_round backoff created alloc sent m)"
proof -
  assume "mux_ok srv m"
  then have m: "mux_ok srv (m\<lparr>mx_reconnect_attempts := mx_reconnect_attempts m + 1\<rparr>)" by simp
  let ?m = "set_new_conn (m\<lparr>mx_reconnect_attempts := mx_reconnect_attempts m + 1\<rparr>)"
  have n: "mux_ok srv ?m" by (rule set_new_conn_ok(1) [OF m])
  have e: "mux_ok srv (snd (enqueue w alloc sent ?m))" for w
    by (rule enqueue_ok [OF n set_new_conn_ok(2)]) (simp_all add: new_conn_def)
  show ?thesis
    using n conn_reset_ok(1) [OF m] e [of "ReconnectAuth (mx_next_conn ?m - 1) backoff"] conn_reset_ok(1)
    by (auto simp: reconnect_round_def Let_def split: prod.split sum.split)
qed

lemma mux_connect_ok: "mux_ok srv m \<Longrightarrow> mux_ok srv (mux_connect created m)"
  by (simp add: mux_connect_def Let_def set_new_conn_ok conn_reset_ok)

lemma initial_auth_ok: "mux_ok srv m \<Longrightarrow> mux_ok srv (initial_auth alloc sent m)"
proof (cases "\<exists>rc. mx_conn m = Some rc \<and> rc_connected rc \<and> rc_alive rc")
  case True
  assume m: "mux_ok srv m"
  obtain rc where rc: "mx_conn m = Some rc" "rc_connected rc" "rc_alive rc" using True by blast
  show ?thesis
    using enqueue_ok [OF m rc, of "InitialAuth (rc_id rc)" alloc sent] conn_reset_ok on_disconnect_ok rc
    by (auto simp: initial_auth_def split: prod.split sum.split)
qed (auto simp: initial_auth_def split: option.splits)

lemma null_replies_results: "results_ok srv m \<Longrightarrow> results_ok srv (null_replies m)"
proof -
  have "results_ok srv ((static_on_reply None ^^ n) m')" if "results_ok srv m'" for n m'
    using that by (induction n) (simp_all add: static_on_reply_ok)
  then show "results_ok srv m \<Longrightarrow> results_ok srv (null_replies m)" by (simp add: null_replies_def split: option.split)
qed

lemma null_replies_empty: "mx_pending m = [] \<Longrightarrow> mx_pending (null_replies m) = []"
  using null_reply_frames by (simp add: null_replies_def split: option.split)

lemma mux_close_ok: "mux_ok srv m \<Longrightarrow> mux_ok srv (mux_close m)"
proof -
  assume ok: "mux_ok srv m"
  define m1 where "m1 = (if mx_backoff m \<noteq> None then post ReconnectAborted (m\<lparr>mx_backoff := None\<rparr>) else m)"
  define m2 where "m2 = cancel_all_pending AdapterError m1"
  have "mux_ok srv m1" using ok by (simp add: m1_def)
  then have "results_ok srv m2" "mx_pending m2 = []" by (simp_all add: m2_def mux_ok_def cancel_all_ok)
  then have "results_ok srv (conn_disconnect m2)" "mx_pending (conn_disconnect m2) = []"
    by (simp_all add: conn_disconnect_def null_replies_results null_replies_empty split: option.split)
  then show ?thesis unfolding mux_close_def Let_def m1_def [symmetric] m2_def [symmetric]
    by (simp add: conn_reset_def mux_ok_def aligned_def)
qed

lemma submit_ok: "mux_ok srv m \<Longrightarrow> mux_ok srv (snd (submit_formatted_command alloc sent m))"
  by (auto simp: submit_formatted_command_def enqueue_ok split: option.split)

lemma reply_arrives_ok: "mux_ok srv m \<Longrightarrow> mux_ok srv (reply_arrives srv m)"
proof (cases "mx_conn m")
  case (Some rc)
  assume ok: "mux_ok srv m"
  show ?thesis
  proof (cases "rc_wire rc")
    case (Cons s ws)
    let ?m = "m\<lparr>mx_conn := Some (rc\<lparr>rc_wire := ws\<rparr>)\<rparr>"
    have p: "mx_pending ?m = s # ws" and c: "rc_connected rc \<and> rc_alive rc" using ok Some Cons by (auto simp: mux_ok_def aligned_def)
    have "results_ok srv (static_on_reply (Some (srv s)) ?m)" using ok p by (intro static_on_reply_ok) (simp_all add: mux_ok_def)
    then show ?thesis using p c by (simp add: reply_arrives_def Some Cons mux_ok_def aligned_def)
  qed (simp add: reply_arrives_def Some ok)
qed (simp add: reply_arrives_def)

lemma server_disconnect_ok: "mux_ok srv m \<Longrightarrow> mux_ok srv (server_disconnect m)"
proof (cases "mx_conn m")
  case (Some rc)
  assume ok: "mux_ok srv m"
  let ?m = "m\<lparr>mx_conn := Some (rc\<lparr>rc_alive := False\<rparr>)\<rparr>"
  have "mx_pending ?m = rc_wire (rc\<lparr>rc_alive := False\<rparr>)" using ok Some by (simp add: mux_ok_def aligned_def)
  from null_replies_ok [OF this] show ?thesis
    using ok Some by (auto simp: server_disconnect_def mux_ok_def aligned_def)
qed (simp add: server_disconnect_def)

lemma on_timeout_ok: "mux_ok srv m \<Longrightarrow> mux_ok srv (on_timeout s m)"
  by (simp add: on_timeout_def mux_ok_set split: option.split)

lemma mux_step_ok: "mux_ok srv m \<Longrightarrow> mux_ok srv (mux_step srv ev m)"
proof (induction srv ev m rule: mux_step.induct)
  case (3 srv s m)
  then show ?case using mux_ok_slab [OF 3, of s] by (auto simp: expire_def mux_ok_set split: option.split)
next
  case (4 srv created alloc sent m)
  then have "mux_ok srv (m\<lparr>mx_ready := hs\<rparr>)" for hs by simp
  then show ?case
    using 4 on_timeout_ok resume_ok reconnect_round_ok initial_auth_ok by (auto simp: run_handler_def Let_def split: list.split handler.split)
next
  case (5 srv created alloc sent m)
  then show ?case by (simp add: backoff_expired_def reconnect_round_ok split: option.split)
qed (simp_all add: submit_ok reply_arrives_ok mux_close_ok server_disconnect_ok mux_connect_ok)

lemma mux_run_ok: "mux_ok srv m \<Longrightarrow> mux_ok srv (fold (mux_step srv) evs m)"
  by (induction evs arbitrary: m) (simp_all add: mux_step_ok)

lemma mux_new_ok: "mux_ok srv (RedisMultiplexer_new password max_backoff)"
  by (simp add: mux_ok_def aligned_def results_ok_def RedisMultiplexer_new_def)

lemmas mux_eval = RedisMultiplexer_new_def mux_connect_def set_new_conn_def conn_reset_def conn_disconnect_def new_conn_def
  submit_formatted_command_def enqueue_def set_command_def expire_def post_def run_handler_def on_timeout_def
  resolver_cancel_def reply_arrives_def static_on_reply_def slab_destroy_def resume_def release_pending_def
  undefined_behaviour_def server_disconnect_def null_replies_def mux_close_def cancel_all_pending_def cancel_one_def
  auth_failed_def conn_current_def initial_auth_def

text \<open>A server that acknowledges each command with its number, for the examples.\<close>

definition example_server :: "nat \<Rightarrow> RedisReply" where
  "example_server s = RedisReply [] (int s) REPLY_INTEGER []"



section \<open>Prompt loops\<close>

text \<open>
  A loop is prompt if it runs the handlers that are ready before anything else happens. Without a password and without a
  disconnect by the server, a prompt loop answers every command once and frees every command.
\<close>

fun prompt :: "(nat \<Rightarrow> RedisReply) \<Rightarrow> mux_event list \<Rightarrow> RedisMultiplexer \<Rightarrow> bool" where
  "prompt srv [] m = True"
| "prompt srv (ev # evs) m =
     ((case ev of Run created alloc sent \<Rightarrow> True | ServerCloses \<Rightarrow> False
       | ConnectMux created \<Rightarrow> mx_ready m = [] \<and> mx_conn m = None | _ \<Rightarrow> mx_ready m = []) \<and> prompt srv evs (mux_step srv ev m))"

definition resumes :: "handler list \<Rightarrow> nat list" where
  "resumes hs = List.map_filter (\<lambda>h. case h of Resume s w \<Rightarrow> Some s | _ \<Rightarrow> None) hs"

lemma resumes_simps [simp]:
  "resumes [] = []" "resumes (Resume s w # hs) = s # resumes hs" "resumes (TimeoutExpired s # hs) = resumes hs"
  "resumes (StartAuth # hs) = resumes hs" "resumes (StartReconnect # hs) = resumes hs" "resumes (ReconnectAborted # hs) = resumes hs"
  by (simp_all add: resumes_def map_filter_simps)

lemma resumes_append [simp]: "resumes (xs @ ys) = resumes xs @ resumes ys"
  by (simp add: resumes_def map_filter_def)

text \<open>The books, over the coroutines that wait, the commands to be matched, the live commands, those whose coroutine is to go
  on, those answered, and the number issued.\<close>

definition command_ok :: "(nat \<rightharpoonup> waiter) \<Rightarrow> nat list \<Rightarrow> nat \<Rightarrow> PendingCommand \<Rightarrow> bool" where
  "command_ok susp pend s c \<longleftrightarrow>
     (if s \<in> set pend then \<not> pd_cancelled c \<and> (pd_timed_out c \<longleftrightarrow> susp s = None) \<and> (pd_timed_out c \<longrightarrow> \<not> pd_armed c)
      else \<not> pd_timed_out c)"

definition books :: "(nat \<rightharpoonup> waiter) \<Rightarrow> nat list \<Rightarrow> (nat \<rightharpoonup> PendingCommand) \<Rightarrow> nat list \<Rightarrow> nat list \<Rightarrow> nat \<Rightarrow> bool" where
  "books susp pend slab res ans n \<longleftrightarrow>
     ran susp \<subseteq> {Caller} \<and> dom susp \<subseteq> set pend \<and> distinct pend \<and> set pend \<subseteq> {..<n} \<and> dom slab = set pend \<union> set res \<and>
     (\<forall>s c. slab s = Some c \<longrightarrow> command_ok susp pend s c) \<and>
     distinct (ans @ res) \<and> set (ans @ res) \<inter> dom susp = {} \<and> set (ans @ res) \<union> dom susp = {..<n}"

lemma books_drop:
  assumes b: "books susp (s # rest) slab res ans n" and s: "susp s = None" "s \<notin> set res"
  shows "books susp rest (slab(s := None)) res ans n"
proof -
  have "dom susp \<subseteq> set rest" using b s(1) by (auto simp: books_def)
  moreover have "dom (slab(s := None)) = set rest \<union> set res" using b s(2) by (auto simp: books_def)
  moreover have "\<forall>t c. (slab(s := None)) t = Some c \<longrightarrow> command_ok susp rest t c"
    using b by (auto simp: books_def command_ok_def split: if_splits)
  ultimately show ?thesis using b by (simp add: books_def)
qed

lemma books_match:
  assumes b: "books susp (s # rest) slab res ans n" and s: "susp s = Some w" and c: "slab s = Some c"
    and c': "pd_timed_out c' = pd_timed_out c"
  shows "books (susp(s := None)) rest (slab(s \<mapsto> c')) (res @ [s]) ans n"
proof -
  have n: "s \<notin> set rest" "\<not> pd_timed_out c" "s \<notin> set (ans @ res)" using b s c by (auto simp: books_def command_ok_def)
  have "ran (susp(s := None)) \<subseteq> {Caller}" using b by (auto simp: books_def ran_def)
  moreover have "dom (susp(s := None)) \<subseteq> set rest" using b by (auto simp: books_def)
  moreover have "dom (slab(s \<mapsto> c')) = set rest \<union> set (res @ [s])" using b by (auto simp: books_def)
  moreover have "\<forall>t d. (slab(s \<mapsto> c')) t = Some d \<longrightarrow> command_ok (susp(s := None)) rest t d"
  proof (intro allI impI)
    fix t d
    assume t: "(slab(s \<mapsto> c')) t = Some d"
    show "command_ok (susp(s := None)) rest t d"
    proof (cases "t = s")
      case True
      then show ?thesis using t n c' by (simp add: command_ok_def)
    next
      case False
      then have "command_ok susp (s # rest) t d" using b t by (simp add: books_def)
      then show ?thesis using False by (auto simp: command_ok_def split: if_splits)
    qed
  qed
  moreover have "distinct (ans @ res @ [s])" using b n(3) by (auto simp: books_def)
  moreover have "set (ans @ res @ [s]) \<inter> dom (susp(s := None)) = {}" using b by (auto simp: books_def)
  moreover have "set (ans @ res @ [s]) \<union> dom (susp(s := None)) = {..<n}"
    using b s by (auto simp: books_def)
  ultimately show ?thesis using b by (simp add: books_def)
qed

lemma books_timeout:
  assumes b: "books susp pend slab res ans n" and s: "susp s = Some w" and c: "slab s = Some c" and a: "\<not> pd_armed c'"
    and c': "pd_timed_out c'" "pd_cancelled c' = pd_cancelled c"
  shows "books (susp(s := None)) pend (slab(s \<mapsto> c')) (res @ [s]) ans n"
proof -
  have p: "s \<in> set pend" "s \<notin> set (ans @ res)" using b s by (auto simp: books_def)
  have "ran (susp(s := None)) \<subseteq> {Caller}" using b by (auto simp: books_def ran_def)
  moreover have "dom (susp(s := None)) \<subseteq> set pend" using b by (auto simp: books_def)
  moreover have "dom (slab(s \<mapsto> c')) = set pend \<union> set (res @ [s])" using b p by (auto simp: books_def)
  moreover have "\<forall>t d. (slab(s \<mapsto> c')) t = Some d \<longrightarrow> command_ok (susp(s := None)) pend t d"
  proof (intro allI impI)
    fix t d
    assume t: "(slab(s \<mapsto> c')) t = Some d"
    have k: "command_ok susp pend s c" using b c by (simp add: books_def)
    show "command_ok (susp(s := None)) pend t d"
    proof (cases "t = s")
      case True
      then show ?thesis using t k c' a p by (simp add: command_ok_def)
    next
      case False
      then have "command_ok susp pend t d" using b t by (simp add: books_def)
      then show ?thesis using False by (auto simp: command_ok_def split: if_splits)
    qed
  qed
  moreover have "distinct (ans @ res @ [s])" using b p(2) by (auto simp: books_def)
  moreover have "set (ans @ res @ [s]) \<inter> dom (susp(s := None)) = {}" using b by (auto simp: books_def)
  moreover have "set (ans @ res @ [s]) \<union> dom (susp(s := None)) = {..<n}" using b s by (auto simp: books_def)
  ultimately show ?thesis using b by (simp add: books_def)
qed

lemma books_answer:
  assumes b: "books susp pend slab (s # res) ans n" and c: "slab s = Some c"
  shows "books susp pend (if pd_timed_out c then slab(s \<mapsto> c\<lparr>pd_armed := False\<rparr>) else slab(s := None)) res (ans @ [s]) n"
proof -
  have d: "s \<notin> dom susp" "s \<notin> set res" "pd_timed_out c \<longleftrightarrow> s \<in> set pend"
    using b c by (auto simp: books_def command_ok_def split: if_splits)
  have "dom (if pd_timed_out c then slab(s \<mapsto> c\<lparr>pd_armed := False\<rparr>) else slab(s := None)) = set pend \<union> set res"
    using b c d by (auto simp: books_def)
  moreover have "\<forall>t e. (if pd_timed_out c then slab(s \<mapsto> c\<lparr>pd_armed := False\<rparr>) else slab(s := None)) t = Some e \<longrightarrow> command_ok susp pend t e"
    using b c by (auto simp: books_def command_ok_def split: if_splits)
  moreover have "distinct ((ans @ [s]) @ res)" "set ((ans @ [s]) @ res) = set (ans @ s # res)" using b by (auto simp: books_def)
  ultimately show ?thesis using b by (simp add: books_def)
qed

lemma books_issue:
  assumes b: "books susp pend slab res ans n" and c: "\<not> pd_timed_out c" "\<not> pd_cancelled c"
  shows "books (susp(n \<mapsto> Caller)) (pend @ [n]) (slab(n \<mapsto> c)) res ans (n + 1)"
proof -
  have f: "n \<notin> set pend" "n \<notin> set (ans @ res)" "n \<notin> dom susp" using b by (auto simp: books_def)
  have "ran (susp(n \<mapsto> Caller)) \<subseteq> {Caller}" using b by (auto simp: books_def ran_def)
  moreover have "dom (susp(n \<mapsto> Caller)) \<subseteq> set (pend @ [n])" using b by (auto simp: books_def)
  moreover have "distinct (pend @ [n])" "set (pend @ [n]) \<subseteq> {..<n + 1}" using b f by (auto simp: books_def)
  moreover have "dom (slab(n \<mapsto> c)) = set (pend @ [n]) \<union> set res" using b by (auto simp: books_def)
  moreover have "\<forall>t d. (slab(n \<mapsto> c)) t = Some d \<longrightarrow> command_ok (susp(n \<mapsto> Caller)) (pend @ [n]) t d"
  proof (intro allI impI)
    fix t d
    assume t: "(slab(n \<mapsto> c)) t = Some d"
    show "command_ok (susp(n \<mapsto> Caller)) (pend @ [n]) t d"
    proof (cases "t = n")
      case True
      then show ?thesis using t c by (simp add: command_ok_def)
    next
      case False
      then have "command_ok susp pend t d" using b t by (simp add: books_def)
      then show ?thesis using False by (auto simp: command_ok_def split: if_splits)
    qed
  qed
  moreover have "set (ans @ res) \<inter> dom (susp(n \<mapsto> Caller)) = {}" using b f by (auto simp: books_def)
  moreover have "set (ans @ res) \<union> dom (susp(n \<mapsto> Caller)) = {..<n + 1}"
  proof -
    have "set (ans @ res) \<union> dom susp = {..<n}" using b by (simp add: books_def)
    then have "insert n (set (ans @ res) \<union> dom susp) = {..<n + 1}" by (simp only: Suc_eq_plus1 [symmetric] lessThan_Suc)
    then show ?thesis by simp
  qed
  ultimately show ?thesis using b by (simp add: books_def)
qed

text \<open>The books of a multiplexer, and when its commands may be matched or cancelled: no coroutine that is to go on uses one of
  those still to be matched.\<close>

definition mux_books :: "RedisMultiplexer \<Rightarrow> bool" where
  "mux_books m \<longleftrightarrow> \<not> mx_undefined m \<and> \<not> mx_password m \<and>
     books (mx_suspended m) (mx_pending m) (mx_slab m) (resumes (mx_ready m)) (map fst (mx_answers m)) (mx_next m)"

definition quiet :: "RedisMultiplexer \<Rightarrow> bool" where
  "quiet m \<longleftrightarrow> mux_books m \<and> set (resumes (mx_ready m)) \<inter> set (mx_pending m) = {} \<and>
     set (mx_ready m) \<subseteq> {ReconnectAborted} \<union> range (\<lambda>s. Resume s Caller)"

lemma pending_live:
  assumes "mux_books m" "mx_pending m = s # rest"
  obtains c where "mx_slab m s = Some c" "\<not> pd_cancelled c" "pd_timed_out c \<longleftrightarrow> mx_suspended m s = None"
    "mx_suspended m s = None \<or> mx_suspended m s = Some Caller"
proof -
  have "s \<in> dom (mx_slab m)" using assms by (simp add: mux_books_def books_def)
  then obtain c where c: "mx_slab m s = Some c" by auto
  then have "command_ok (mx_suspended m) (mx_pending m) s c" using assms by (simp add: mux_books_def books_def)
  moreover have "mx_suspended m s = None \<or> mx_suspended m s = Some Caller"
    using assms(1) by (cases "mx_suspended m s") (auto simp: mux_books_def books_def ran_def)
  ultimately show thesis using that [OF c] assms(2) by (auto simp: command_ok_def)
qed

lemma quiet_drop:
  assumes "quiet m" "mx_pending m = s # rest" "mx_suspended m s = None"
  shows "quiet (m\<lparr>mx_pending := rest, mx_slab := (mx_slab m)(s := None)\<rparr>)"
proof -
  have "s \<notin> set (resumes (mx_ready m))" using assms(1,2) by (auto simp: quiet_def)
  then show ?thesis using assms books_drop [of "mx_suspended m" s rest] by (auto simp: quiet_def mux_books_def)
qed

lemma quiet_match:
  assumes "quiet m" "mx_pending m = s # rest" "mx_suspended m s = Some Caller" "mx_slab m s = Some c" "pd_timed_out c' = pd_timed_out c"
  shows "quiet (m\<lparr>mx_pending := rest, mx_slab := (mx_slab m)(s \<mapsto> c'), mx_suspended := (mx_suspended m)(s := None),
           mx_ready := mx_ready m @ [Resume s Caller]\<rparr>)"
proof -
  have "s \<notin> set rest" using assms(1,2) by (auto simp: quiet_def mux_books_def books_def)
  then show ?thesis
    using assms books_match [of "mx_suspended m" s rest "mx_slab m" _ _ _ Caller c c'] by (auto simp: quiet_def mux_books_def)
qed

lemma static_on_reply_quiet: "quiet m \<Longrightarrow> quiet (static_on_reply r m)"
proof (cases "mx_pending m")
  case (Cons s rest)
  assume q: "quiet m"
  then have "mux_books m" by (simp add: quiet_def)
  then obtain c where c: "mx_slab m s = Some c" "\<not> pd_cancelled c" "pd_timed_out c \<longleftrightarrow> mx_suspended m s = None"
    "mx_suspended m s = None \<or> mx_suspended m s = Some Caller" using pending_live Cons by blast
  show ?thesis
  proof (cases "pd_timed_out c")
    case True
    then have "static_on_reply r m = m\<lparr>mx_pending := rest, mx_slab := (mx_slab m)(s := None)\<rparr>"
      using c by (simp add: static_on_reply_def Cons slab_destroy_def resolver_cancel_def)
    then show ?thesis using quiet_drop [OF q Cons] c True by simp
  next
    case False
    then have sp: "mx_suspended m s = Some Caller" using c by auto
    have "\<exists>c'. pd_timed_out c' = pd_timed_out c \<and>
      static_on_reply r m = m\<lparr>mx_pending := rest, mx_slab := (mx_slab m)(s \<mapsto> c'), mx_suspended := (mx_suspended m)(s := None),
         mx_ready := mx_ready m @ [Resume s Caller]\<rparr>"
      by (rule exI, rule conjI [rotated], simp add: static_on_reply_def Cons set_command_def resolver_cancel_def post_def Let_def c False sp) simp
    then show ?thesis using quiet_match [OF q Cons sp c(1)] by auto
  qed
qed (simp add: static_on_reply_def)

lemma cancel_one_quiet:
  assumes "quiet m" "mx_pending m = s # rest"
  shows "quiet ((cancel_one err s m)\<lparr>mx_pending := rest\<rparr>)"
proof -
  have "mux_books m" using assms by (simp add: quiet_def)
  then obtain c where c: "mx_slab m s = Some c" "\<not> pd_cancelled c" "pd_timed_out c \<longleftrightarrow> mx_suspended m s = None"
    "mx_suspended m s = None \<or> mx_suspended m s = Some Caller" using pending_live assms(2) by blast
  show ?thesis
  proof (cases "pd_timed_out c")
    case True
    then have "(cancel_one err s m)\<lparr>mx_pending := rest\<rparr> = m\<lparr>mx_pending := rest, mx_slab := (mx_slab m)(s := None)\<rparr>"
      using c by (simp add: cancel_one_def slab_destroy_def resolver_cancel_def set_command_def)
    then show ?thesis using quiet_drop [OF assms] c True by simp
  next
    case False
    then have sp: "mx_suspended m s = Some Caller" using c by auto
    have "(cancel_one err s m)\<lparr>mx_pending := rest\<rparr> = m\<lparr>mx_pending := rest, mx_slab := (mx_slab m)(s \<mapsto> c\<lparr>pd_result := Inl err, pd_cancelled := True\<rparr>),
        mx_suspended := (mx_suspended m)(s := None), mx_ready := mx_ready m @ [Resume s Caller]\<rparr>"
      by (simp add: cancel_one_def set_command_def resolver_cancel_def post_def Let_def c False sp)
    then show ?thesis using quiet_match [OF assms sp c(1), of "c\<lparr>pd_result := Inl err, pd_cancelled := True\<rparr>"] by simp
  qed
qed

lemma cancel_one_pending: "(cancel_one err s m)\<lparr>mx_pending := p\<rparr> = cancel_one err s (m\<lparr>mx_pending := p\<rparr>)"
  by (simp add: cancel_one_def slab_destroy_def resolver_cancel_def set_command_def post_def undefined_behaviour_def Let_def split: option.split)

lemma cancel_all_quiet: "quiet m \<Longrightarrow> quiet (cancel_all_pending err m)"
proof -
  have "quiet (m\<lparr>mx_pending := ss\<rparr>) \<Longrightarrow> quiet (fold (cancel_one err) ss (m\<lparr>mx_pending := []\<rparr>))" for ss m
  proof (induction ss arbitrary: m)
    case (Cons s ss)
    have "quiet ((cancel_one err s m)\<lparr>mx_pending := ss\<rparr>)"
      using cancel_one_quiet [OF Cons.prems, of s ss] by (simp add: cancel_one_pending)
    from Cons.IH [OF this] show ?case by (simp add: cancel_one_pending)
  qed simp
  then show "quiet m \<Longrightarrow> quiet (cancel_all_pending err m)" by (simp add: cancel_all_pending_def)
qed

lemma quiet_record [simp]:
  "quiet (m\<lparr>mx_conn := c\<rparr>) = quiet m" "quiet (m\<lparr>mx_next_conn := n\<rparr>) = quiet m" "quiet (m\<lparr>mx_backoff := b\<rparr>) = quiet m"
  "quiet (m\<lparr>mx_reconnect_active := a\<rparr>) = quiet m" "quiet (m\<lparr>mx_reconnect_attempts := k\<rparr>) = quiet m"
  "quiet (m\<lparr>mx_next_sequence := q\<rparr>) = quiet m"
  by (simp_all add: quiet_def mux_books_def)

lemma null_replies_quiet: "quiet m \<Longrightarrow> quiet (null_replies m)"
proof -
  have "quiet ((static_on_reply None ^^ n) m')" if "quiet m'" for n m'
    using that by (induction n) (simp_all add: static_on_reply_quiet)
  then show "quiet m \<Longrightarrow> quiet (null_replies m)" by (simp add: null_replies_def split: option.split)
qed

text \<open>Connections whose context hiredis has not freed.\<close>

definition conn_live :: "RedisMultiplexer \<Rightarrow> bool" where
  "conn_live m = (case mx_conn m of None \<Rightarrow> True | Some rc \<Rightarrow> rc_alive rc)"

lemma conn_reset_quiet: "quiet m \<Longrightarrow> conn_live m \<Longrightarrow> quiet (conn_reset m)"
  by (auto simp: conn_reset_def conn_disconnect_def conn_live_def null_replies_quiet split: option.splits)

lemma set_new_conn_quiet: "quiet m \<Longrightarrow> conn_live m \<Longrightarrow> quiet (set_new_conn m)" "conn_live (set_new_conn m)"
  using conn_reset_quiet [of m] by (simp_all add: set_new_conn_def conn_live_def new_conn_def)

lemma reconnect_round_quiet:
  assumes "quiet m" "conn_live m"
  shows "quiet (reconnect_round b created alloc sent m) \<and> conn_live (reconnect_round b created alloc sent m)"
proof -
  let ?m = "m\<lparr>mx_reconnect_attempts := mx_reconnect_attempts m + 1\<rparr>"
  have m: "quiet ?m" "conn_live ?m" using assms by (simp_all add: conn_live_def)
  have p: "\<not> mx_password (set_new_conn ?m)" using set_new_conn_quiet(1) [OF m] by (simp add: quiet_def mux_books_def)
  have "conn_live (reconnect_wait b (conn_reset ?m))" by (simp add: conn_live_def conn_reset_def)
  then show ?thesis
    using conn_reset_quiet [OF m] set_new_conn_quiet(1) [OF m] set_new_conn_quiet(2) p
    by (simp add: reconnect_round_def Let_def reconnect_wait_def reconnected_def conn_live_def)
qed

text \<open>The states of a prompt run: nothing ready that concerns a command to be matched, or exactly one handler ready.\<close>

definition prompt_ok :: "RedisMultiplexer \<Rightarrow> bool" where
  "prompt_ok m \<longleftrightarrow> conn_live m \<and>
     (quiet m \<or> mux_books m \<and>
        (mx_ready m = [StartReconnect] \<or> (\<exists>s. mx_ready m = [Resume s Caller]) \<or>
         (\<exists>s c. mx_ready m = [TimeoutExpired s] \<and> mx_suspended m s = Some Caller \<and> mx_slab m s = Some c \<and> \<not> pd_armed c)))"

lemma idle_quiet: "prompt_ok m \<Longrightarrow> mx_ready m = [] \<Longrightarrow> quiet m"
  by (auto simp: prompt_ok_def)

lemma popped_quiet: "mux_books m \<Longrightarrow> resumes (mx_ready m) = [] \<Longrightarrow> quiet (m\<lparr>mx_ready := []\<rparr>)"
  by (simp add: quiet_def mux_books_def)

lemma enqueue_quiet:
  assumes "quiet m"
  shows "quiet (snd (enqueue Caller alloc sent m))"
proof -
  have b: "books (mx_suspended m) (mx_pending m) (mx_slab m) (resumes (mx_ready m)) (map fst (mx_answers m)) (mx_next m)"
    using assms by (simp add: quiet_def mux_books_def)
  then have n: "mx_slab m (mx_next m) = None" "mx_suspended m (mx_next m) = None" "mx_next m \<notin> set (resumes (mx_ready m))"
    by (auto simp: books_def)
  consider "\<not> alloc" | "alloc" "\<not> sent" | "alloc" "sent" by blast
  then show ?thesis
  proof cases
    case 1
    then show ?thesis using assms by (simp add: enqueue_def Let_def)
  next
    case 2
    have "(mx_slab m)(mx_next m := None) = mx_slab m" using n by auto
    then show ?thesis using assms n 2
      by (simp add: enqueue_def Let_def slab_destroy_def resolver_cancel_def set_command_def) (simp add: quiet_def mux_books_def)
  next
    case 3
    then show ?thesis using assms n(3) books_issue [OF b]
      by (simp add: enqueue_def Let_def set_command_def) (auto simp: quiet_def mux_books_def)
  qed
qed

lemma conn_live_frames [simp]:
  "conn_live (static_on_reply r m) = conn_live m" "conn_live (resolver_cancel s m) = conn_live m"
  "conn_live (set_command s c m) = conn_live m" "conn_live (post h m) = conn_live m" "conn_live (release_pending s c m) = conn_live m"
  "conn_live (m\<lparr>mx_ready := hs\<rparr>) = conn_live m" "conn_live (m\<lparr>mx_answers := as\<rparr>) = conn_live m"
  "conn_live (m\<lparr>mx_reconnect_active := a\<rparr>) = conn_live m" "conn_live (m\<lparr>mx_backoff := b\<rparr>) = conn_live m"
  by (simp_all add: conn_live_def)

lemma enqueue_conn_live: "conn_live m \<Longrightarrow> conn_live (snd (enqueue w alloc sent m))"
  by (simp add: enqueue_def Let_def conn_live_def split: option.splits)

lemma resume_books:
  assumes "mux_books m" "mx_ready m = Resume s Caller # hs"
  shows "mux_books (resume s Caller (m\<lparr>mx_ready := hs\<rparr>)) \<and> mx_ready (resume s Caller (m\<lparr>mx_ready := hs\<rparr>)) = hs \<and>
    mx_pending (resume s Caller (m\<lparr>mx_ready := hs\<rparr>)) = mx_pending m \<and> mx_conn (resume s Caller (m\<lparr>mx_ready := hs\<rparr>)) = mx_conn m"
proof -
  have b: "books (mx_suspended m) (mx_pending m) (mx_slab m) (s # resumes hs) (map fst (mx_answers m)) (mx_next m)"
    using assms by (simp add: mux_books_def)
  then have "s \<in> dom (mx_slab m)" "mx_suspended m s = None" by (auto simp: books_def)
  then obtain c where c: "mx_slab m s = Some c" and n: "mx_suspended m s = None" by auto
  show ?thesis
    using assms books_answer [OF b c]
    by (cases "pd_timed_out c")
       (simp_all add: resume_def c n set_command_def release_pending_def slab_destroy_def resolver_cancel_def Let_def mux_books_def)
qed

lemma run_prompt_ok:
  assumes "prompt_ok m"
  shows "prompt_ok (run_handler created alloc sent m)"
proof (cases "quiet m")
  case True
  have l: "conn_live m" using assms by (simp add: prompt_ok_def)
  show ?thesis
  proof (cases "mx_ready m")
    case (Cons h hs)
    then consider s where "h = Resume s Caller" | "h = ReconnectAborted" using True by (auto simp: quiet_def)
    then show ?thesis
    proof cases
      case (1 s)
      have "quiet (resume s Caller (m\<lparr>mx_ready := hs\<rparr>))" "mx_conn (resume s Caller (m\<lparr>mx_ready := hs\<rparr>)) = mx_conn m"
        using resume_books [of m s hs] True Cons 1 by (auto simp: quiet_def)
      then show ?thesis using l by (simp add: run_handler_def Cons 1 prompt_ok_def conn_live_def)
    next
      case 2
      then have "quiet (m\<lparr>mx_ready := hs\<rparr>)" using True Cons by (auto simp: quiet_def mux_books_def)
      then show ?thesis using l by (simp add: run_handler_def Cons 2 prompt_ok_def)
    qed
  qed (use assms in \<open>simp add: run_handler_def\<close>)
next
  case False
  then have l: "conn_live m" "mux_books m" using assms by (auto simp: prompt_ok_def)
  from False assms consider "mx_ready m = [StartReconnect]" | s where "mx_ready m = [Resume s Caller]"
    | s c where "mx_ready m = [TimeoutExpired s]" "mx_suspended m s = Some Caller" "mx_slab m s = Some c" "\<not> pd_armed c"
    by (auto simp: prompt_ok_def)
  then show ?thesis
  proof cases
    case 1
    then have "quiet (m\<lparr>mx_ready := []\<rparr>)" using popped_quiet [OF l(2)] by simp
    then show ?thesis using reconnect_round_quiet [of "m\<lparr>mx_ready := []\<rparr>" 100 created alloc sent] l(1) 1
      by (simp add: run_handler_def prompt_ok_def)
  next
    case (2 s)
    then have "quiet (resume s Caller (m\<lparr>mx_ready := []\<rparr>))" "mx_conn (resume s Caller (m\<lparr>mx_ready := []\<rparr>)) = mx_conn m"
      using resume_books [OF l(2), of s "[]"] by (auto simp: quiet_def)
    then show ?thesis using l(1) 2 by (simp add: run_handler_def prompt_ok_def conn_live_def)
  next
    case (3 s c)
    have "mux_books (on_timeout s (m\<lparr>mx_ready := []\<rparr>))"
      using l(2) 3 books_timeout [of "mx_suspended m" "mx_pending m" "mx_slab m" "[]" "map fst (mx_answers m)" "mx_next m" s Caller c
          "c\<lparr>pd_timed_out := True, pd_result := Inl Timeout\<rparr>"]
      by (simp add: on_timeout_def mux_books_def set_command_def resolver_cancel_def post_def)
    moreover have "mx_ready (on_timeout s (m\<lparr>mx_ready := []\<rparr>)) = [Resume s Caller]" "conn_live (on_timeout s (m\<lparr>mx_ready := []\<rparr>))"
      using 3 l(1) by (simp_all add: on_timeout_def set_command_def resolver_cancel_def post_def conn_live_def)
    ultimately show ?thesis using 3 by (simp add: run_handler_def prompt_ok_def)
  qed
qed

lemma expire_prompt_ok:
  assumes "quiet m" "conn_live m" "mx_ready m = []"
  shows "prompt_ok (expire s m)"
proof (cases "\<exists>c. mx_slab m s = Some c \<and> pd_armed c")
  case True
  then obtain c where c: "mx_slab m s = Some c" "pd_armed c" by blast
  have b: "books (mx_suspended m) (mx_pending m) (mx_slab m) [] (map fst (mx_answers m)) (mx_next m)"
    using assms by (simp add: quiet_def mux_books_def)
  then have p: "s \<in> set (mx_pending m)" using c by (auto simp: books_def)
  then have k: "\<not> pd_timed_out c" "mx_suspended m s \<noteq> None" using b c by (auto simp: books_def command_ok_def)
  then have w: "mx_suspended m s = Some Caller" using b by (auto simp: books_def ran_def)
  have "command_ok (mx_suspended m) (mx_pending m) s (c\<lparr>pd_armed := False\<rparr>)" using b c by (simp add: books_def command_ok_def)
  then have "books (mx_suspended m) (mx_pending m) ((mx_slab m)(s \<mapsto> c\<lparr>pd_armed := False\<rparr>)) [] (map fst (mx_answers m)) (mx_next m)"
    using b c by (auto simp: books_def)
  then show ?thesis
    using assms w c by (simp add: expire_def prompt_ok_def mux_books_def set_command_def post_def conn_live_def quiet_def)
next
  case False
  then have "expire s m = m" by (auto simp: expire_def split: option.split)
  then show ?thesis using assms by (simp add: prompt_ok_def)
qed

lemma close_prompt_ok:
  assumes "quiet m" "conn_live m"
  shows "prompt_ok (mux_close m)"
proof -
  define m1 where "m1 = (if mx_backoff m \<noteq> None then post ReconnectAborted (m\<lparr>mx_backoff := None\<rparr>) else m)"
  have m1: "quiet m1" "conn_live m1" using assms by (auto simp: m1_def quiet_def mux_books_def post_def)
  have "conn_live (cancel_all_pending AdapterError m1)" using m1(2) by (simp add: conn_live_def cancel_all_ok)
  then have "quiet (conn_reset (cancel_all_pending AdapterError m1))" by (intro conn_reset_quiet cancel_all_quiet m1)
  moreover have "conn_live (conn_reset (cancel_all_pending AdapterError m1))" by (simp add: conn_live_def conn_reset_def)
  ultimately show ?thesis unfolding mux_close_def Let_def m1_def [symmetric] by (simp add: prompt_ok_def)
qed

lemma connect_prompt_ok:
  assumes "quiet m" "mx_conn m = None" "mx_ready m = []"
  shows "prompt_ok (mux_connect created m)"
proof (cases created)
  case True
  have "quiet (set_new_conn m)" using assms by (intro set_new_conn_quiet) (simp_all add: conn_live_def)
  then show ?thesis using True set_new_conn_quiet(2) by (simp add: mux_connect_def prompt_ok_def quiet_def mux_books_def)
next
  case False
  then show ?thesis using assms
    by (simp add: mux_connect_def prompt_ok_def conn_reset_def conn_disconnect_def conn_live_def post_def quiet_def mux_books_def)
qed

lemma prompt_step:
  assumes "prompt_ok m" "prompt srv (ev # evs) m"
  shows "prompt_ok (mux_step srv ev m)"
proof (cases ev)
  case (Run created alloc sent)
  then show ?thesis using run_prompt_ok [OF assms(1)] by simp
next
  case (Command alloc sent)
  then have q: "quiet m" "conn_live m" using assms idle_quiet by (auto simp: prompt_ok_def)
  then have "\<not> (\<exists>rc. mx_conn m = Some rc \<and> \<not> rc_alive rc)" by (simp add: conn_live_def split: option.splits)
  then show ?thesis using q enqueue_quiet [OF q(1), of alloc sent] enqueue_conn_live [OF q(2)] Command
    by (auto simp: submit_formatted_command_def prompt_ok_def split: option.split)
next
  case Reply
  then have q: "quiet m" "conn_live m" using assms idle_quiet by (auto simp: prompt_ok_def)
  then have "conn_live (reply_arrives srv m)"
    by (cases "mx_conn m") (auto simp: reply_arrives_def conn_live_def split: list.split)
  moreover have "quiet (reply_arrives srv m)"
    using q static_on_reply_quiet by (auto simp: reply_arrives_def split: option.split list.split)
  ultimately show ?thesis using Reply by (simp add: prompt_ok_def)
next
  case (BackoffExpires created alloc sent)
  then have q: "quiet (m\<lparr>mx_backoff := None\<rparr>)" "conn_live (m\<lparr>mx_backoff := None\<rparr>)" using assms idle_quiet by (auto simp: prompt_ok_def)
  then show ?thesis using BackoffExpires assms(1) reconnect_round_quiet [OF q]
    by (auto simp: backoff_expired_def prompt_ok_def split: option.split)
qed (use assms idle_quiet expire_prompt_ok close_prompt_ok connect_prompt_ok in \<open>auto simp: prompt_ok_def\<close>)

lemma prompt_run_ok: "prompt_ok m \<Longrightarrow> prompt srv evs m \<Longrightarrow> prompt_ok (fold (mux_step srv) evs m)"
proof (induction evs arbitrary: m)
  case (Cons ev evs)
  then show ?case using prompt_step [OF Cons.prems(1,2)] by simp
qed simp

lemma prompt_new: "prompt_ok (RedisMultiplexer_new False max_backoff)"
  by (simp add: prompt_ok_def conn_live_def quiet_def mux_books_def books_def RedisMultiplexer_new_def ran_def)




end
